(* ===== verification/Prelude.thy ===== *)
theory Prelude
  imports Main "HOL-Library.Word" "HOL-Library.Sublist"
begin

text \<open>
  Shared vocabulary of the development: the machine integers of the Rust sources, byte
  strings, half-open ranges, the saturating and converting operations of the standard
  library that the sources use, and the generic facts about lists, options and words that
  the component theories rest on.

  Conventions. A \<^verbatim>\<open>u8\<close>, \<^verbatim>\<open>u16\<close>, \<^verbatim>\<open>u32\<close> or \<^verbatim>\<open>u64\<close> is a word of that width, so \<open>+\<close>
  and \<open>-\<close> wrap as they do in the release profile of \<^verbatim>\<open>Cargo.toml\<close> (no
  \<^verbatim>\<open>overflow-checks\<close>). A \<^verbatim>\<open>usize\<close> is 64 bits wide. A length of a byte string in memory
  is a \<^typ>\<open>nat\<close>. Instants and durations are natural numbers of nanoseconds.
\<close>

section \<open>Collections of facts\<close>

named_theorems block_arith \<open>natural-number readings of the block size operations\<close>
named_theorems frame \<open>what an operation leaves unchanged\<close>
named_theorems result_simps \<open>case analysis of fallible results\<close>

section \<open>Types\<close>

type_synonym u8 = "8 word"
type_synonym u16 = "16 word"
type_synonym u32 = "32 word"
type_synonym u64 = "64 word"
type_synonym bytes = "u8 list"
type_synonym nanos = nat

text \<open>\<^verbatim>\<open>std::ops::Range\<close>, half open. A range with \<open>start \<ge> end\<close> is empty.\<close>

datatype 'a urange = Range (range_start: 'a) (range_end: 'a)

definition range_is_empty :: "'a::linorder urange \<Rightarrow> bool" where
  "range_is_empty r \<longleftrightarrow> \<not> range_start r < range_end r"

text \<open>\<^verbatim>\<open>Range::count\<close> on a range of unsigned integers.\<close>

definition range_count :: "'a::len word urange \<Rightarrow> nat" where
  "range_count r = unat (range_end r) - unat (range_start r)"

text \<open>The values a \<^verbatim>\<open>for\<close> loop over a range visits, in order.\<close>

definition range_list :: "'a::len word urange \<Rightarrow> 'a word list" where
  "range_list r = map of_nat [unat (range_start r) ..< unat (range_end r)]"

text \<open>\<^verbatim>\<open>Bytes::slice(a..b)\<close>, used in range only.\<close>

definition bslice :: "nat \<Rightarrow> nat \<Rightarrow> 'a list \<Rightarrow> 'a list" where
  "bslice a b xs = take (b - a) (drop a xs)"

section \<open>Integer operations of the standard library\<close>

lemma unat_minus_one_word: "unat (- 1 :: 'a::len word) = 2 ^ LENGTH('a) - 1"
  by (simp add: unsigned_minus_1_eq_mask mask_eq_exp_minus_1)

lemma unat_lt2p: "unat (x :: 'a::len word) < 2 ^ LENGTH('a)"
  by (rule unsigned_less)

definition u32_max :: u32 where "u32_max = -1"
definition u64_max :: u64 where "u64_max = -1"

definition sat_add :: "'a::len word \<Rightarrow> 'a word \<Rightarrow> 'a word" where
  "sat_add a b = (if unat a + unat b < 2 ^ LENGTH('a) then a + b else - 1)"

definition sat_sub :: "'a::len word \<Rightarrow> 'a word \<Rightarrow> 'a word" where
  "sat_sub a b = (if a < b then 0 else a - b)"

definition sat_mul :: "'a::len word \<Rightarrow> 'a word \<Rightarrow> 'a word" where
  "sat_mul a b = (if unat a * unat b < 2 ^ LENGTH('a) then a * b else - 1)"

definition checked_sub :: "'a::len word \<Rightarrow> 'a word \<Rightarrow> 'a word option" where
  "checked_sub a b = (if b \<le> a then Some (a - b) else None)"

text \<open>\<^verbatim>\<open>Ord::clamp\<close>.\<close>

definition clamp :: "'a::linorder \<Rightarrow> 'a \<Rightarrow> 'a \<Rightarrow> 'a" where
  "clamp x lo hi = (if x < lo then lo else if hi < x then hi else x)"

lemma clamp_bounds: "lo \<le> hi \<Longrightarrow> lo \<le> clamp x lo hi \<and> clamp x lo hi \<le> hi"
  by (auto simp: clamp_def)

lemma clamp_id [simp]: "lo \<le> x \<Longrightarrow> x \<le> hi \<Longrightarrow> clamp x lo hi = x"
  by (auto simp: clamp_def)

lemma clamp_max_min: "lo \<le> hi \<Longrightarrow> clamp x lo hi = max lo (min hi x)"
  by (auto simp: clamp_def max_def min_def)

lemma unat_sat_add [block_arith]:
  "unat (sat_add a b) = min (unat (a :: 'a::len word) + unat b) (2 ^ LENGTH('a) - 1)"
  by (auto simp: sat_add_def unat_word_ariths unat_minus_one_word min_def)

lemma unat_sat_sub [block_arith]: "unat (sat_sub a b) = unat a - unat b"
  by (auto simp: sat_sub_def word_less_nat_alt unat_sub word_le_nat_alt not_less)

lemma unat_sat_mul [block_arith]:
  "unat (sat_mul a b) = min (unat (a :: 'a::len word) * unat b) (2 ^ LENGTH('a) - 1)"
proof (cases "unat a * unat b < 2 ^ LENGTH('a)")
  case True
  then have "unat a * unat b \<le> 2 ^ LENGTH('a) - 1" by linarith
  with True show ?thesis by (simp add: sat_mul_def unat_word_ariths min_absorb1)
next
  case False
  then have "2 ^ LENGTH('a) - 1 \<le> unat a * unat b" by linarith
  with False show ?thesis by (simp add: sat_mul_def unat_minus_one_word min_absorb2)
qed

lemma checked_sub_Some: "checked_sub a b = Some c \<longleftrightarrow> b \<le> a \<and> c = a - b"
  by (auto simp: checked_sub_def)

lemma unat_u32_max [simp, block_arith]: "unat u32_max = 2 ^ 32 - 1"
  by (simp add: u32_max_def unat_minus_one_word)

lemma unat_u64_max [simp, block_arith]: "unat u64_max = 2 ^ 64 - 1"
  by (simp add: u64_max_def unat_minus_one_word)

section \<open>Words as natural numbers\<close>

lemma u32_bound: "unat (x :: u32) < 4294967296"
  using unat_lt2p [of x] by simp

lemma u64_bound: "unat (x :: u64) < 18446744073709551616"
  using unat_lt2p [of x] by simp

lemma unat_ucast_u32_u64 [simp, block_arith]: "unat (ucast (x :: u32) :: u64) = unat x"
  by (simp add: unsigned_ucast_eq take_bit_nat_eq_self u32_bound less_trans [OF u32_bound])

lemma unat_ucast_u64_u32 [block_arith]:
  "unat (ucast (x :: u64) :: u32) = unat x mod 4294967296"
  by (simp add: unsigned_ucast_eq take_bit_eq_mod)

lemma unat_min [block_arith]: "unat (min a b) = min (unat a) (unat b)"
  by (simp add: min_def word_le_nat_alt)

lemma unat_max [block_arith]: "unat (max a b) = max (unat a) (unat b)"
  by (simp add: max_def word_le_nat_alt)

lemma unat_of_nat_le:
  assumes "n \<le> unat (x :: 'a::len word)"
  shows "unat (of_nat n :: 'a word) = n"
proof -
  have "n < 2 ^ LENGTH('a)" using assms unat_lt2p [of x] by (rule le_less_trans)
  then show ?thesis by (simp add: unat_of_nat)
qed

lemma unat_of_nat_lt: "n < 2 ^ LENGTH('a::len) \<Longrightarrow> unat (of_nat n :: 'a word) = n"
  by (simp add: unat_of_nat)

lemma unat_plus_no_wrap:
  "unat a + unat b < 2 ^ LENGTH('a) \<Longrightarrow> unat ((a :: 'a::len word) + b) = unat a + unat b"
  by (simp add: unat_word_ariths)

lemma unat_Suc_word:
  assumes "(a :: 'a::len word) < b"
  shows "unat (a + 1) = Suc (unat a)"
proof -
  have "unat a < unat b" using assms by (simp add: word_less_nat_alt)
  then have "unat a + unat (1 :: 'a word) < 2 ^ LENGTH('a)"
    using unat_lt2p [of b] by (simp only: unat_1)
  then show ?thesis using unat_plus_no_wrap [of a 1] by simp
qed

lemma unat_two_power:
  assumes "k < LENGTH('a::len)"
  shows "unat (2 ^ k :: 'a word) = 2 ^ k"
proof -
  have "(2 ^ k :: 'a word) = of_nat (2 ^ k)" by simp
  moreover have "(2 :: nat) ^ k < 2 ^ LENGTH('a)"
    using assms by (intro power_strict_increasing) simp_all
  ultimately show ?thesis by (simp only: unat_of_nat) simp
qed

lemma unat_sub_le: "(b :: 'a::len word) \<le> a \<Longrightarrow> unat (a - b) = unat a - unat b"
  by (simp add: unat_sub)

section \<open>Slices\<close>

lemma bslice_length [simp]: "length (bslice a b xs) = min b (length xs) - min a (length xs)"
  by (auto simp: bslice_def min_def)

lemma bslice_empty [simp]: "b \<le> a \<Longrightarrow> bslice a b xs = []"
  by (simp add: bslice_def)

lemma bslice_past_end [simp]: "length xs \<le> a \<Longrightarrow> bslice a b xs = []"
  by (simp add: bslice_def)

lemma bslice_full [simp]: "length xs \<le> b \<Longrightarrow> bslice 0 b xs = xs"
  by (simp add: bslice_def)

lemma bslice_min_length: "bslice a (min b (length xs)) xs = bslice a b xs"
  by (auto simp: bslice_def min_def)

lemma bslice_append: "a \<le> b \<Longrightarrow> b \<le> c \<Longrightarrow> bslice a b xs @ bslice b c xs = bslice a c xs"
proof -
  assume ab: "a \<le> b" and bc: "b \<le> c"
  have "drop b xs = drop (b - a) (drop a xs)" using ab by simp
  then have "bslice b c xs = take (c - b) (drop (b - a) (drop a xs))"
    by (simp add: bslice_def)
  moreover have "c - a = (b - a) + (c - b)" using ab bc by simp
  ultimately show ?thesis by (simp add: bslice_def take_add)
qed

lemma bslice_bslice:
  assumes "a \<le> b" and "c + d \<le> b - a"
  shows "bslice c (c + d) (bslice a b xs) = bslice (a + c) (a + c + d) xs"
proof -
  have "min (b - a - c) d = d" using assms by simp
  then show ?thesis
    by (simp add: bslice_def drop_take take_take min.commute add.commute)
qed

lemma bslice_bslice_min:
  "bslice c d (bslice a b xs) = bslice (a + c) (min (a + d) b) xs"
proof (cases "a + c \<le> min (a + d) b")
  case True
  then have "min (b - a - c) (d - c) = min (a + d) b - (a + c)" by auto
  then show ?thesis by (simp add: bslice_def drop_take take_take add.commute min.commute)
next
  case False
  then show ?thesis by (auto simp: bslice_def)
qed

lemma take_bslice: "take n (bslice a b xs) = bslice a (min (a + n) b) xs"
  using bslice_bslice_min [of 0 n a b xs] by (simp add: bslice_def)

lemma drop_bslice: "drop n (bslice a b xs) = bslice (a + n) b xs"
  by (simp add: bslice_def drop_take add.commute)

lemma bslice_eq_appendD:
  assumes "bslice a b xs = ys @ zs" and "a \<le> b"
  shows "ys = bslice a (a + length ys) xs" and "zs = bslice (a + length ys) b xs"
proof -
  have "ys = take (length ys) (bslice a b xs)" using assms(1) by simp
  also have "\<dots> = bslice a (min (a + length ys) b) xs" by (rule take_bslice)
  finally have *: "ys = bslice a (min (a + length ys) b) xs" .
  have "length ys \<le> b - a"
    using arg_cong [OF assms(1), of length] by (simp add: min_def split: if_splits)
  then have "min (a + length ys) b = a + length ys" using assms(2) by simp
  with * show "ys = bslice a (a + length ys) xs" by simp
  have "zs = drop (length ys) (bslice a b xs)" using assms(1) by simp
  then show "zs = bslice (a + length ys) b xs" by (simp add: drop_bslice)
qed

lemma prefix_bslice_take:
  assumes "prefix ys (bslice a b xs)" and "n \<le> length ys"
  shows "take n ys = bslice a (a + n) xs"
proof (cases "a \<le> b")
  case True
  obtain zs where zs: "bslice a b xs = ys @ zs" using assms(1) by (auto elim: prefixE)
  have "bslice a b xs = take n ys @ (drop n ys @ zs)" using zs by simp
  from bslice_eq_appendD(1) [OF this True] show ?thesis using assms(2) by simp
next
  case False
  then show ?thesis using assms by simp
qed

lemma prefix_bslice_drop:
  assumes "prefix ys (bslice a b xs)" and "n \<le> length ys"
  shows "prefix (drop n ys) (bslice (a + n) b xs)"
proof -
  obtain zs where zs: "bslice a b xs = ys @ zs" using assms(1) by (auto elim: prefixE)
  have "drop n (bslice a b xs) = drop n ys @ zs" using zs assms(2) by simp
  then show ?thesis by (simp add: drop_bslice prefix_def)
qed

section \<open>Ranges\<close>

lemma range_list_Nil [simp]: "range_list (Range a b) = [] \<longleftrightarrow> b \<le> a"
  by (auto simp: range_list_def word_le_nat_alt)

lemma length_range_list [simp]: "length (range_list (Range a b)) = unat b - unat a"
  by (simp add: range_list_def)

lemma range_list_Cons:
  assumes "a < b"
  shows "range_list (Range a b) = a # range_list (Range (a + 1) b)"
proof -
  have "unat a < unat b" using assms by (simp add: word_less_nat_alt)
  then show ?thesis
    by (simp add: range_list_def upt_conv_Cons unat_Suc_word [OF assms])
qed

lemma set_range_list: "set (range_list (Range a b)) = {i. a \<le> i \<and> i < b}"
proof -
  have "i \<in> set (range_list (Range a b)) \<longleftrightarrow> a \<le> i \<and> i < b" for i
  proof
    assume "i \<in> set (range_list (Range a b))"
    then obtain n where n: "unat a \<le> n" "n < unat b" "i = of_nat n"
      by (auto simp: range_list_def)
    then have "unat i = n" using unat_of_nat_le [of n b] by simp
    with n show "a \<le> i \<and> i < b" by (simp add: word_le_nat_alt word_less_nat_alt)
  next
    assume "a \<le> i \<and> i < b"
    then have "unat a \<le> unat i" "unat i < unat b"
      by (simp_all add: word_le_nat_alt word_less_nat_alt)
    moreover have "i = of_nat (unat i)" by simp
    ultimately show "i \<in> set (range_list (Range a b))"
      unfolding range_list_def by (auto intro!: image_eqI [where x = "unat i"])
  qed
  then show ?thesis by blast
qed

section \<open>Results\<close>

text \<open>
  \<^verbatim>\<open>Result<T, E>\<close> is the sum \<open>'e + 't\<close>: \<^const>\<open>Inl\<close> is \<^verbatim>\<open>Err\<close>, \<^const>\<open>Inr\<close> is \<^verbatim>\<open>Ok\<close>.
\<close>

definition is_ok :: "'e + 't \<Rightarrow> bool" where
  "is_ok r = (case r of Inl _ \<Rightarrow> False | Inr _ \<Rightarrow> True)"

definition ok :: "'e + 't \<Rightarrow> 't option" where
  "ok r = (case r of Inl _ \<Rightarrow> None | Inr x \<Rightarrow> Some x)"

lemma is_ok_simps [simp, result_simps]: "is_ok (Inr x)" "\<not> is_ok (Inl e)"
  by (simp_all add: is_ok_def)

lemma ok_simps [simp, result_simps]: "ok (Inr x) = Some x" "ok (Inl e) = None"
  by (simp_all add: ok_def)

lemma ok_eq_Some [result_simps]: "ok r = Some x \<longleftrightarrow> r = Inr x"
  by (cases r) auto

text \<open>How a call ends: with a result, in a panic, or never.\<close>

datatype 'a run = Returns 'a | Panics | Hangs

section \<open>Folds\<close>

lemma fold_invariant:
  assumes "P s" and "\<And>x s. x \<in> set xs \<Longrightarrow> P s \<Longrightarrow> P (f x s)"
  shows "P (fold f xs s)"
  using assms by (induction xs arbitrary: s) auto

end
