(* ===== verification/Errors.thy ===== *)
theory Errors
  imports Prelude
begin

text \<open>
  The error types of \<^verbatim>\<open>nestor/src/error.rs\<close>: what an origin reports, what a caller of the
  engine sees, the classification the retry loop and the adapters use, and the conversion
  of an origin error into an engine error.
\<close>

section \<open>Origin errors\<close>

text \<open>The boxed source of an \<^verbatim>\<open>Io\<close> error is opaque to the engine; a string stands for it.\<close>

datatype origin_error =
    NotFound
  | PreconditionFailed
  | NotModified
  | ShortRead u64 u64 \<comment> \<open>expected, got\<close>
  | Timeout nanos
  | Io string

fun is_retryable :: "origin_error \<Rightarrow> bool" where
  "is_retryable (Io _) = True"
| "is_retryable (ShortRead _ _) = True"
| "is_retryable (Timeout _) = True"
| "is_retryable NotFound = False"
| "is_retryable PreconditionFailed = False"
| "is_retryable NotModified = False"

section \<open>Engine errors\<close>

datatype nestor_error =
    ENotFound
  | UnknownNamespace
  | ERange "u64 urange" u64
  | Stale
  | EOrigin origin_error
  | ECache string
  | Cancelled
  | Closed
  | Shared nestor_error

fun is_not_found :: "nestor_error \<Rightarrow> bool" where
  "is_not_found ENotFound = True"
| "is_not_found (Shared e) = is_not_found e"
| "is_not_found _ = False"

fun is_stale :: "nestor_error \<Rightarrow> bool" where
  "is_stale Stale = True"
| "is_stale (Shared e) = is_stale e"
| "is_stale _ = False"

fun is_cancelled :: "nestor_error \<Rightarrow> bool" where
  "is_cancelled Cancelled = True"
| "is_cancelled (Shared e) = is_cancelled e"
| "is_cancelled _ = False"

text \<open>
  \<^verbatim>\<open>From<Arc<NestorError>>\<close>: the error itself when this is the only reference to it, else a
  shared one. Whether other waiters still hold the error is the flag \<open>unique\<close>.
\<close>

definition from_arc :: "bool \<Rightarrow> nestor_error \<Rightarrow> nestor_error" where
  "from_arc unique e = (if unique then e else Shared e)"

text \<open>\<^verbatim>\<open>From<OriginError>\<close>.\<close>

fun from_origin :: "origin_error \<Rightarrow> nestor_error" where
  "from_origin NotFound = ENotFound"
| "from_origin PreconditionFailed = Stale"
| "from_origin e = EOrigin e"

section \<open>Facts\<close>

lemma from_arc_classification [simp]:
  "is_not_found (from_arc u e) = is_not_found e"
  "is_stale (from_arc u e) = is_stale e"
  "is_cancelled (from_arc u e) = is_cancelled e"
  by (simp_all add: from_arc_def)

lemma from_origin_classification [simp]:
  "is_not_found (from_origin e) \<longleftrightarrow> e = NotFound"
  "is_stale (from_origin e) \<longleftrightarrow> e = PreconditionFailed"
  "\<not> is_cancelled (from_origin e)"
  by (cases e; simp)+

text \<open>The three classes of an engine error exclude each other.\<close>

lemma classification_exclusive:
  "is_not_found e \<Longrightarrow> \<not> is_stale e"
  "is_not_found e \<Longrightarrow> \<not> is_cancelled e"
  "is_stale e \<Longrightarrow> \<not> is_cancelled e"
  by (induction e) auto

end
