(* ===== verification/Block_Size.thy ===== *)
theory Block_Size
  imports Errors
begin

text \<open>
  Block size arithmetic and byte-range resolution, \<^verbatim>\<open>nestor/src/block.rs\<close>: the map between
  byte offsets and block indexes, the resolution of a caller's range against an object
  size, the cut of a block to the requested bytes, and the grouping of missing blocks into
  origin requests. All integers keep the width of the source.
\<close>

section \<open>Model\<close>

definition MIN_BLOCK_SIZE :: u32 where "MIN_BLOCK_SIZE = 64 * 1024"
definition MAX_BLOCK_SIZE :: u32 where "MAX_BLOCK_SIZE = 16 * 1024 * 1024"

record block_size =
  shift :: nat

definition is_power_of_two :: "u32 \<Rightarrow> bool" where
  "is_power_of_two b \<longleftrightarrow> list_ex (\<lambda>k. b = push_bit k 1) [0..<32]"

definition trailing_zeros :: "u32 \<Rightarrow> nat" where
  "trailing_zeros b = length (takeWhile (\<lambda>k. \<not> bit b k) [0..<32])"

definition block_size_new :: "u32 \<Rightarrow> block_size option" where
  "block_size_new b =
     (if b < MIN_BLOCK_SIZE \<or> b > MAX_BLOCK_SIZE \<or> \<not> is_power_of_two b then None
      else Some \<lparr>shift = trailing_zeros b\<rparr>)"

definition default_block_size :: block_size where
  "default_block_size = \<lparr>shift = 20\<rparr>"

definition block_bytes :: "block_size \<Rightarrow> u64" where
  "block_bytes bs = push_bit (shift bs) 1"

definition block_usize :: "block_size \<Rightarrow> nat" where
  "block_usize bs = 2 ^ shift bs"

definition block_index :: "block_size \<Rightarrow> u64 \<Rightarrow> u32" where
  "block_index bs offset = ucast (drop_bit (shift bs) offset)"

definition block_offset :: "block_size \<Rightarrow> u32 \<Rightarrow> u64" where
  "block_offset bs index = push_bit (shift bs) (ucast index)"

text \<open>\<^verbatim>\<open>u64::div_ceil\<close>.\<close>

definition div_ceil :: "u64 \<Rightarrow> u64 \<Rightarrow> u64" where
  "div_ceil a b = (if 0 < a mod b then a div b + 1 else a div b)"

definition block_count :: "block_size \<Rightarrow> u64 \<Rightarrow> u32" where
  "block_count bs sz =
     (let blocks = div_ceil sz (block_bytes bs)
      in if blocks > ucast u32_max then u32_max else ucast blocks)"

definition blocks_of :: "block_size \<Rightarrow> u64 urange \<Rightarrow> u32 urange" where
  "blocks_of bs r =
     (if range_start r \<ge> range_end r then Range 0 0
      else Range (block_index bs (range_start r)) (block_count bs (range_end r)))"

definition span :: "block_size \<Rightarrow> u32 \<Rightarrow> u32 \<Rightarrow> u64 option \<Rightarrow> u64 urange" where
  "span bs first count sz =
     (let start = block_offset bs first; stop = block_offset bs (first + count)
      in case sz of
           Some sz \<Rightarrow> Range start (min stop sz)
         | None \<Rightarrow> Range start stop)"

definition block_range :: "block_size \<Rightarrow> u32 \<Rightarrow> u64 option \<Rightarrow> u64 urange" where
  "block_range bs index sz = span bs index 1 sz"

definition slice_within :: "block_size \<Rightarrow> u32 \<Rightarrow> u64 urange \<Rightarrow> nat \<times> nat" where
  "slice_within bs index r =
     (let block_start = block_offset bs index;
          block_end = block_start + block_bytes bs;
          start = clamp (range_start r) block_start block_end - block_start;
          stop = clamp (range_end r) block_start block_end - block_start
      in (unat start, unat stop))"

subsection \<open>Read ranges\<close>

datatype read_range =
    Full
  | Bounded "u64 urange"
  | From u64
  | Suffix u64

fun needs_size :: "read_range \<Rightarrow> bool" where
  "needs_size (Bounded _) = False"
| "needs_size _ = True"

fun resolve :: "read_range \<Rightarrow> u64 \<Rightarrow> nestor_error + u64 urange" where
  "resolve Full sz = Inr (Range 0 sz)"
| "resolve (Bounded r) sz =
     (if range_start r \<ge> range_end r \<or> range_start r \<ge> sz then Inl (ERange r sz)
      else Inr (Range (range_start r) (min (range_end r) sz)))"
| "resolve (From start) sz =
     (if start \<ge> sz then Inl (ERange (Range start u64_max) sz)
      else Inr (Range start sz))"
| "resolve (Suffix len) sz =
     (if len = 0 then Inl (ERange (Range sz sz) sz)
      else Inr (Range (sat_sub sz len) sz))"

subsection \<open>Fetch groups\<close>

record miss_group =
  group_first :: u32
  group_count :: u32

text \<open>
  \<^verbatim>\<open>group_misses\<close> pushes onto a vector and extends its last element; the accumulator is the
  vector reversed, so its head is the \<^verbatim>\<open>groups.last_mut()\<close> of the source.
\<close>

fun group_misses_loop :: "u32 \<Rightarrow> miss_group list \<Rightarrow> u32 list \<Rightarrow> miss_group list" where
  "group_misses_loop window groups [] = rev groups"
| "group_misses_loop window groups (idx # misses) =
     (case groups of
        g # gs \<Rightarrow>
          if group_first g + group_count g = idx \<and> idx mod window \<noteq> 0
          then group_misses_loop window (g\<lparr>group_count := group_count g + 1\<rparr> # gs) misses
          else group_misses_loop window (\<lparr>group_first = idx, group_count = 1\<rparr> # groups) misses
      | [] \<Rightarrow> group_misses_loop window [\<lparr>group_first = idx, group_count = 1\<rparr>] misses)"

definition group_misses :: "u32 list \<Rightarrow> u32 \<Rightarrow> miss_group list" where
  "group_misses misses window = group_misses_loop (max window 1) [] misses"

definition aligned_take :: "u32 \<Rightarrow> u32 \<Rightarrow> u32 \<Rightarrow> u32" where
  "aligned_take next stop window =
     (let window = max window 1;
          boundary = sat_mul (next div window + 1) window
      in min boundary stop - next)"

definition first_group :: "block_size \<Rightarrow> read_range \<Rightarrow> u32 \<Rightarrow> u32 urange option" where
  "first_group bs request window =
     (let bounds = (case request of
          Full \<Rightarrow> Some (0, u32_max)
        | From start \<Rightarrow> Some (block_index bs start, u32_max)
        | Bounded r \<Rightarrow> Some (block_index bs (range_start r), block_count bs (range_end r))
        | Suffix _ \<Rightarrow> None)
      in case bounds of
           None \<Rightarrow> None
         | Some (start, stop) \<Rightarrow>
             let take = aligned_take start (max stop (sat_add start 1)) window
             in Some (Range start (start + take)))"

section \<open>Invariant\<close>

text \<open>Every block size the constructor lets through is a power of two from 64 KiB to 16 MiB.\<close>

definition valid_block_size :: "block_size \<Rightarrow> bool" where
  "valid_block_size bs \<longleftrightarrow> 16 \<le> shift bs \<and> shift bs \<le> 24"

text \<open>Objects whose every block has an index of its own: the count does not saturate.\<close>

definition fits :: "block_size \<Rightarrow> nat \<Rightarrow> bool" where
  "fits bs n \<longleftrightarrow> n \<le> (2 ^ 32 - 1) * block_usize bs"

section \<open>Natural-number readings\<close>

lemma trailing_zeros_push_bit:
  assumes "k < 32"
  shows "trailing_zeros (push_bit k 1) = k"
proof -
  have b: "bit (push_bit k (1 :: u32)) n \<longleftrightarrow> n = k" for n
    using assms by (auto simp: bit_exp_iff)
  have "[0..<32] = [0..<k] @ k # [Suc k..<32]"
    using assms by (metis less_imp_le upt_add_eq_append le_add_diff_inverse upt_conv_Cons zero_le)
  then have "takeWhile (\<lambda>n. n \<noteq> k) [0..<32] = [0..<k]"
    by (simp add: takeWhile_append)
  then show ?thesis by (simp add: trailing_zeros_def b del: push_bit_of_1)
qed

lemma unat_push_bit_1_u32: "k < 32 \<Longrightarrow> unat (push_bit k 1 :: u32) = 2 ^ k"
  by (simp add: unat_two_power)

lemma unat_block_bytes [block_arith]:
  "valid_block_size bs \<Longrightarrow> unat (block_bytes bs) = block_usize bs"
  by (simp add: block_bytes_def block_usize_def unat_two_power valid_block_size_def)

lemma block_usize_pos [simp]: "0 < block_usize bs"
  by (simp add: block_usize_def)

lemma block_usize_nonzero [simp]: "block_usize bs \<noteq> 0"
  by (simp add: block_usize_def)

lemma block_usize_le: "valid_block_size bs \<Longrightarrow> block_usize bs \<le> 2 ^ 24"
  unfolding block_usize_def valid_block_size_def by (rule power_increasing) simp_all

lemma unat_block_index [block_arith]:
  "unat (block_index bs off) = unat off div block_usize bs mod 2 ^ 32"
  by (simp add: block_index_def unat_ucast_u64_u32 unat_drop_bit_eq block_usize_def
    flip: drop_bit_eq_div)

lemma unat_block_offset [block_arith]:
  assumes "valid_block_size bs"
  shows "unat (block_offset bs i) = unat i * block_usize bs"
proof -
  have "unat i * block_usize bs < 2 ^ 32 * 2 ^ 24 + 1"
    using mult_le_mono [of "unat i" "2 ^ 32" "block_usize bs" "2 ^ 24"]
      u32_bound [of i] block_usize_le [OF assms] by simp
  then have "unat i * 2 ^ shift bs < 2 ^ 64"
    unfolding block_usize_def by (rule less_trans) simp
  moreover have "unat (2 ^ shift bs :: u64) = 2 ^ shift bs"
    using assms by (simp add: unat_two_power valid_block_size_def)
  ultimately show ?thesis
    by (simp add: block_offset_def push_bit_eq_mult unat_word_ariths block_usize_def)
qed

lemma nat_div_ceil:
  assumes "0 < (b :: nat)"
  shows "(a + b - 1) div b = (if 0 < a mod b then a div b + 1 else a div b)"
proof (cases "a mod b = 0")
  case True
  then have "a = (a div b) * b" using div_mult_mod_eq [of a b] by simp
  then have "a + b - 1 = (b - 1) + (a div b) * b" using assms by linarith
  then have "(a + b - 1) div b = (b - 1) div b + a div b"
    using assms by (simp only: div_mult_self1)
  then show ?thesis using True assms by simp
next
  case False
  then have "a + b - 1 = (a mod b - 1) + (a div b + 1) * b"
    using div_mult_mod_eq [of a b] by (simp only: distrib_right mult_1)
  moreover have "(a mod b - 1) div b = 0"
    using assms mod_less_divisor [of b a] by (simp add: less_imp_diff_less)
  ultimately have "(a + b - 1) div b = a div b + 1"
    using assms by (simp only: div_mult_self1)
  then show ?thesis using False by simp
qed

lemma unat_div_ceil:
  assumes "0 < unat b"
  shows "unat (div_ceil a b) = (unat a + unat b - 1) div unat b"
proof (cases "unat a mod unat b = 0")
  case True
  then show ?thesis
    using nat_div_ceil [OF assms, of "unat a"]
    by (simp add: div_ceil_def word_less_nat_alt unat_mod unat_div)
next
  case False
  then have "unat b \<noteq> 1" and "0 < unat a" by (auto intro: Nat.gr0I)
  then have "unat a div unat b < unat a"
    using assms by (intro div_less_dividend) auto
  then have "unat (a div b + 1) = unat a div unat b + 1"
    using u64_bound [of a] by (simp add: unat_word_ariths unat_div)
  then show ?thesis
    using False nat_div_ceil [OF assms, of "unat a"]
    by (simp add: div_ceil_def word_less_nat_alt unat_mod)
qed

lemma unat_block_count [block_arith]:
  assumes "valid_block_size bs"
  shows "unat (block_count bs sz) =
    min ((unat sz + block_usize bs - 1) div block_usize bs) (2 ^ 32 - 1)"
proof -
  let ?n = "div_ceil sz (block_bytes bs)"
  have n: "unat ?n = (unat sz + block_usize bs - 1) div block_usize bs"
    using unat_div_ceil [of "block_bytes bs" sz] by (simp add: unat_block_bytes assms)
  have big: "?n > ucast u32_max \<longleftrightarrow> unat ?n > 4294967295"
    by (simp add: word_less_nat_alt)
  show ?thesis
  proof (cases "?n > ucast u32_max")
    case True
    then show ?thesis using big n by (simp add: block_count_def Let_def)
  next
    case False
    then have "unat (ucast ?n :: u32) = unat ?n"
      using big by (simp add: unat_ucast_u64_u32)
    then show ?thesis using False big n by (simp add: block_count_def Let_def)
  qed
qed

text \<open>Under \<^const>\<open>fits\<close> the count is exact, and an index is below it iff the block holds a byte.\<close>

lemma unat_block_count_fits:
  assumes "valid_block_size bs" and "fits bs (unat sz)"
  shows "unat (block_count bs sz) = (unat sz + block_usize bs - 1) div block_usize bs"
proof -
  have "unat sz + block_usize bs - 1 < (2 ^ 32 - 1 + 1) * block_usize bs"
    using assms(2) block_usize_pos [of bs] unfolding fits_def by (simp only: distrib_right mult_1)
  then have "(unat sz + block_usize bs - 1) div block_usize bs < 2 ^ 32 - 1 + 1"
    by (rule less_mult_imp_div_less)
  then show ?thesis using assms(1) by (simp add: unat_block_count)
qed

lemma ceil_gt_iff:
  assumes "0 < (B :: nat)"
  shows "i < (n + B - 1) div B \<longleftrightarrow> i * B < n"
proof -
  have "i < (n + B - 1) div B \<longleftrightarrow> Suc i * B \<le> n + B - 1"
    using assms by (simp only: less_eq_div_iff_mult_less_eq flip: Suc_le_eq)
  also have "\<dots> \<longleftrightarrow> i * B < n" using assms by auto
  finally show ?thesis .
qed

lemma less_block_count_iff:
  assumes "valid_block_size bs" and "fits bs (unat sz)"
  shows "i < unat (block_count bs sz) \<longleftrightarrow> i * block_usize bs < unat sz"
  using ceil_gt_iff [OF block_usize_pos] by (simp add: unat_block_count_fits [OF assms])

lemma block_index_offset [simp]:
  "valid_block_size bs \<Longrightarrow> block_index bs (block_offset bs i) = i"
  using u32_bound [of i]
  by (simp add: word_unat_eq_iff unat_block_index unat_block_offset)

lemma unat_block_index_less:
  assumes "unat off div block_usize bs < 2 ^ 32"
  shows "unat (block_index bs off) = unat off div block_usize bs"
  using assms by (simp add: unat_block_index)

lemma unat_block_index_fits:
  assumes "valid_block_size bs" and "fits bs n" and "unat off < n"
  shows "unat (block_index bs off) = unat off div block_usize bs"
proof -
  have "unat off < (2 ^ 32 - 1) * block_usize bs" using assms by (simp add: fits_def)
  then have "unat off div block_usize bs < 2 ^ 32 - 1" by (rule less_mult_imp_div_less)
  then show ?thesis by (simp add: unat_block_index)
qed

lemma span_bounds:
  assumes "valid_block_size bs" and "unat first + unat cnt < 2 ^ 32"
  shows "unat (range_start (span bs first cnt sz)) = unat first * block_usize bs"
    and "unat (range_end (span bs first cnt sz)) =
      (case sz of None \<Rightarrow> (unat first + unat cnt) * block_usize bs
       | Some sz \<Rightarrow> min ((unat first + unat cnt) * block_usize bs) (unat sz))"
  using assms unat_plus_no_wrap [of first cnt]
  by (auto simp: span_def Let_def unat_block_offset unat_min split: option.splits)

lemma block_range_bounds:
  assumes "valid_block_size bs" and "unat i < 2 ^ 32 - 1"
  shows "unat (range_start (block_range bs i sz)) = unat i * block_usize bs"
    and "unat (range_end (block_range bs i (Some n))) = min ((unat i + 1) * block_usize bs) (unat n)"
    and "unat (range_end (block_range bs i None)) = (unat i + 1) * block_usize bs"
  using assms span_bounds [of bs i 1] by (simp_all add: block_range_def)

section \<open>Blocks tile an object\<close>

text \<open>The specification of a block: the bytes of the object between two multiples of the size.\<close>

definition block_of :: "block_size \<Rightarrow> bytes \<Rightarrow> nat \<Rightarrow> bytes" where
  "block_of bs data i = bslice (i * block_usize bs) ((i + 1) * block_usize bs) data"

lemma length_block_of:
  "length (block_of bs data i) = min ((i + 1) * block_usize bs) (length data) - min (i * block_usize bs) (length data)"
  by (simp add: block_of_def)

lemma length_block_of_le: "length (block_of bs data i) \<le> block_usize bs"
  by (auto simp: length_block_of min_def)

lemma block_of_empty_iff: "block_of bs data i = [] \<longleftrightarrow> length data \<le> i * block_usize bs"
  by (simp add: block_of_def bslice_def)

lemma concat_tiles:
  assumes "s \<le> e" and "k \<le> n"
  shows "concat (map (\<lambda>i. bslice (max s (i * B)) (min e ((i + 1) * B)) xs) [k..<n]) =
    bslice (max s (k * B)) (min e (n * B)) xs"
  using assms(2)
proof (induction n rule: dec_induct)
  case base
  then show ?case by auto
next
  case (step n)
  have kn: "k * B \<le> n * B" using step by simp
  have "bslice (max s (k * B)) (min e (n * B)) xs @
      bslice (max s (n * B)) (min e ((n + 1) * B)) xs =
    bslice (max s (k * B)) (min e ((n + 1) * B)) xs"
  proof (cases "s \<ge> n * B")
    case True
    then have "max s (k * B) = s" and "max s (n * B) = s" using kn by linarith+
    moreover have "bslice s (min e (n * B)) xs = []" using True by simp
    ultimately show ?thesis by simp
  next
    case False
    show ?thesis
    proof (cases "e \<le> n * B")
      case True
      then show ?thesis using False by (simp add: max_def min_def)
    next
      case False': False
      have "max s (k * B) \<le> n * B" using False kn by simp
      moreover have "n * B \<le> min e ((n + 1) * B)" using False' by simp
      moreover have "max s (n * B) = n * B" and "min e (n * B) = n * B"
        using False False' by simp_all
      ultimately show ?thesis using bslice_append by metis
    qed
  qed
  then show ?case using step by simp
qed

lemma slice_within_bounds:
  assumes "valid_block_size bs"
  shows "slice_within bs i r =
    (clamp (unat (range_start r)) (unat i * block_usize bs) ((unat i + 1) * block_usize bs) - unat i * block_usize bs,
     clamp (unat (range_end r)) (unat i * block_usize bs) ((unat i + 1) * block_usize bs) - unat i * block_usize bs)"
proof -
  let ?a = "block_offset bs i" and ?B = "block_usize bs"
  have a: "unat ?a = unat i * ?B" using assms by (rule unat_block_offset)
  have "unat ?a + unat (block_bytes bs) < 2 ^ 64"
    using mult_le_mono [of "unat i" "2 ^ 32 - 1" ?B "2 ^ 24"] u32_bound [of i]
      block_usize_le [OF assms] by (simp add: a unat_block_bytes assms)
  then have b: "unat (?a + block_bytes bs) = (unat i + 1) * ?B"
    using unat_plus_no_wrap [of ?a "block_bytes bs"] by (simp add: a unat_block_bytes assms)
  have clamp_unat: "unat (clamp x ?a (?a + block_bytes bs) - ?a) =
      clamp (unat x) (unat i * ?B) ((unat i + 1) * ?B) - unat i * ?B" for x
  proof -
    have "?a \<le> ?a + block_bytes bs" using a b by (simp add: word_le_nat_alt)
    then have "?a \<le> clamp x ?a (?a + block_bytes bs)" using clamp_bounds by blast
    then show ?thesis
      using a b by (auto simp: unat_sub clamp_def word_less_nat_alt)
  qed
  show ?thesis by (simp add: slice_within_def Let_def clamp_unat)
qed

lemma slice_within_block_of:
  assumes "valid_block_size bs" and "unat (range_start r) \<le> unat (range_end r)"
    and "slice_within bs i r = (a, b)"
  shows "bslice a b (block_of bs data (unat i)) =
    bslice (max (unat (range_start r)) (unat i * block_usize bs))
      (min (unat (range_end r)) ((unat i + 1) * block_usize bs)) data"
proof -
  let ?B = "block_usize bs"
  let ?lo = "unat i * ?B" and ?hi = "(unat i + 1) * ?B"
  have ab: "a = clamp (unat (range_start r)) ?lo ?hi - ?lo"
    "b = clamp (unat (range_end r)) ?lo ?hi - ?lo"
    using assms(3) slice_within_bounds [OF assms(1), of i r] by simp_all
  have "?lo \<le> ?hi" by simp
  have "bslice a b (block_of bs data (unat i)) = bslice (?lo + a) (min (?lo + b) ?hi) data"
    by (simp add: block_of_def bslice_bslice_min)
  also have "\<dots> = bslice (max (unat (range_start r)) ?lo) (min (unat (range_end r)) ?hi) data"
    using ab assms(2) by (auto simp: clamp_def max_def min_def)
  finally show ?thesis .
qed

text \<open>
  C19: the blocks a range resolves to, each cut by \<^const>\<open>slice_within\<close>, put together in order are
  the bytes of the range.
\<close>

theorem blocks_tile_range:
  assumes "valid_block_size bs" and "fits bs (length data)"
    and "range_start r < range_end r" and "unat (range_end r) \<le> length data"
  shows "concat (map (\<lambda>i. case slice_within bs i r of (a, b) \<Rightarrow> bslice a b (block_of bs data (unat i)))
      (range_list (blocks_of bs r))) =
    bslice (unat (range_start r)) (unat (range_end r)) data"
proof -
  let ?s = "unat (range_start r)" and ?e = "unat (range_end r)" and ?B = "block_usize bs"
  have se: "?s < ?e" using assms(3) by (simp add: word_less_nat_alt)
  have fe: "fits bs ?e" using assms(2,4) by (simp add: fits_def)
  let ?k = "?s div ?B" and ?n = "(?e + ?B - 1) div ?B"
  have bounds: "blocks_of bs r = Range (block_index bs (range_start r)) (block_count bs (range_end r))"
    using assms(3) by (simp add: blocks_of_def not_le [symmetric])
  have k: "unat (block_index bs (range_start r)) = ?k"
    using unat_block_index_fits [OF assms(1) fe se] .
  have n: "unat (block_count bs (range_end r)) = ?n"
    using unat_block_count_fits [OF assms(1) fe] .
  have "?k * ?B < ?e" using se by (meson div_times_less_eq_dividend le_less_trans)
  then have kn: "?k < ?n" using ceil_gt_iff [OF block_usize_pos] by blast
  have "map (\<lambda>i. case slice_within bs i r of (a, b) \<Rightarrow> bslice a b (block_of bs data (unat i)))
      (range_list (blocks_of bs r)) =
    map (\<lambda>i. bslice (max ?s (i * ?B)) (min ?e ((i + 1) * ?B)) data) [?k..<?n]"
  proof -
    have "(case slice_within bs (of_nat i) r of (a, b) \<Rightarrow> bslice a b (block_of bs data (unat (of_nat i :: u32)))) =
        bslice (max ?s (i * ?B)) (min ?e ((i + 1) * ?B)) data" if "i < ?n" for i
    proof -
      obtain a b where ab: "slice_within bs (of_nat i) r = (a, b)" by force
      have "unat (of_nat i :: u32) = i"
        using unat_of_nat_le [of i "block_count bs (range_end r)"] n that by simp
      then show ?thesis
        using slice_within_block_of [OF assms(1) less_imp_le [OF se] ab, of data] ab by simp
    qed
    then show ?thesis by (simp add: bounds range_list_def k n comp_def)
  qed
  then have "concat (map (\<lambda>i. case slice_within bs i r of (a, b) \<Rightarrow> bslice a b (block_of bs data (unat i)))
      (range_list (blocks_of bs r))) = bslice (max ?s (?k * ?B)) (min ?e (?n * ?B)) data"
    using concat_tiles [of ?s ?e ?k ?n ?B data] se kn by simp
  moreover have "max ?s (?k * ?B) = ?s" by (simp add: div_times_less_eq_dividend)
  moreover have "min ?e (?n * ?B) = ?e"
    using ceil_gt_iff [of ?B ?n ?e] block_usize_pos [of bs] by (simp add: not_less)
  ultimately show ?thesis by simp
qed

theorem blocks_tile_range_witness:
  "concat (map (\<lambda>i. case slice_within \<lparr>shift = 16\<rparr> i (Range 65530 65540) of
      (a, b) \<Rightarrow> bslice a b (block_of \<lparr>shift = 16\<rparr> (replicate 70000 7) (unat i)))
    (range_list (blocks_of \<lparr>shift = 16\<rparr> (Range 65530 65540)))) = replicate 10 7"
  by (subst blocks_tile_range)
    (simp_all add: valid_block_size_def fits_def block_usize_def word_less_nat_alt bslice_def)

section \<open>Resolution of ranges\<close>

lemma resolve_in_bounds:
  assumes "resolve req sz = Inr r"
  shows "range_start r \<le> range_end r" and "range_end r \<le> sz"
    and "range_start r = range_end r \<longrightarrow> sz = 0 \<and> range_start r = 0"
  using assms
  by (cases req; auto simp: sat_sub_def word_le_nat_alt word_less_nat_alt min_def unat_sub
      word_unat_eq_iff split: if_splits)+

text \<open>
  The bytes each kind of request asks for, over natural numbers and without any bound on the
  integers: \<open>None\<close> is a range no byte of the object satisfies.
\<close>

fun requested :: "read_range \<Rightarrow> nat \<Rightarrow> (nat \<times> nat) option" where
  "requested Full n = Some (0, n)"
| "requested (Bounded r) n =
     (if unat (range_start r) < min (unat (range_end r)) n
      then Some (unat (range_start r), min (unat (range_end r)) n) else None)"
| "requested (From s) n = (if unat s < n then Some (unat s, n) else None)"
| "requested (Suffix l) n = (if unat l = 0 then None else Some (n - unat l, n))"

lemma resolve_requested:
  "requested req (unat sz) =
     (case resolve req sz of
        Inl _ \<Rightarrow> None
      | Inr r \<Rightarrow> Some (unat (range_start r), unat (range_end r)))"
  by (cases req)
    (auto simp: word_le_nat_alt unat_min unat_sat_sub unat_0_iff not_le)

lemma resolve_error_carries_size:
  "resolve req sz = Inl e \<Longrightarrow> \<exists>r. e = ERange r sz"
  by (cases req) (auto split: if_splits)

section \<open>Fetch groups\<close>

text \<open>The indexes a group stands for.\<close>

definition group_indexes :: "miss_group \<Rightarrow> u32 list" where
  "group_indexes g = map (\<lambda>k. group_first g + of_nat k) [0..<unat (group_count g)]"

lemma group_indexes_single [simp]: "group_indexes \<lparr>group_first = i, group_count = 1\<rparr> = [i]"
  by (simp add: group_indexes_def)

lemma group_indexes_extend:
  assumes "unat (group_count g) < 2 ^ 32 - 1"
  shows "group_indexes (g\<lparr>group_count := group_count g + 1\<rparr>) =
    group_indexes g @ [group_first g + group_count g]"
proof -
  have "unat (group_count g + 1) = Suc (unat (group_count g))"
    using assms by (simp add: unat_word_ariths)
  then show ?thesis by (simp add: group_indexes_def)
qed

text \<open>
  A group the grouping builds: not empty, without wrap-around, and inside one window of
  \<open>w\<close> aligned blocks.
\<close>

definition window_group :: "nat \<Rightarrow> miss_group \<Rightarrow> bool" where
  "window_group w g \<longleftrightarrow>
     0 < unat (group_count g) \<and> unat (group_first g) + unat (group_count g) \<le> 2 ^ 32 \<and>
     (unat (group_first g) + unat (group_count g) - 1) div w = unat (group_first g) div w"

lemma window_group_single:
  "window_group w \<lparr>group_first = i, group_count = 1\<rparr>"
  using u32_bound [of i] by (simp add: window_group_def)

lemma div_pred_same: "n mod w \<noteq> 0 \<Longrightarrow> n div w = (n - 1) div (w :: nat)"
  by (cases n) (simp_all add: div_Suc)

lemma window_group_extend:
  assumes g: "window_group (unat w) g" and w: "0 < unat w"
    and adj: "group_first g + group_count g = idx" and m: "idx mod w \<noteq> 0"
  shows "window_group (unat w) (g\<lparr>group_count := group_count g + 1\<rparr>)"
    and "unat (group_count g) < 2 ^ 32 - 1"
proof -
  let ?f = "unat (group_first g)" and ?c = "unat (group_count g)"
  have "idx \<noteq> 0" using m by auto
  have fc: "?f + ?c < 2 ^ 32"
  proof (rule ccontr)
    assume "\<not> ?thesis"
    then have "?f + ?c = 2 ^ 32" using g by (simp add: window_group_def)
    then have "unat idx = 0" using adj by (auto simp: unat_word_ariths)
    with \<open>idx \<noteq> 0\<close> show False by (simp add: unat_0_iff)
  qed
  then have i: "unat idx = ?f + ?c"
    using adj unat_plus_no_wrap [of "group_first g" "group_count g"] by simp
  have "unat idx mod unat w \<noteq> 0" using m by (metis unat_0_iff unat_mod)
  then have same: "(?f + ?c) div unat w = ?f div unat w"
    using g div_pred_same [of "?f + ?c" "unat w"] i by (simp add: window_group_def)
  have "?f + ?c < (?f div unat w + 1) * unat w"
    using same w by (metis Suc_eq_plus1 dividend_less_div_times mult.commute mult_Suc_right add.commute)
  moreover have "?f div unat w * unat w \<le> ?f" by simp
  ultimately have "?c < unat w" by (simp only: distrib_right mult_1)
  then show lt: "?c < 2 ^ 32 - 1" using u32_bound [of w] by simp
  then have "unat (group_count g + 1) = ?c + 1" by (simp add: unat_word_ariths)
  then show "window_group (unat w) (g\<lparr>group_count := group_count g + 1\<rparr>)"
    using g fc same by (simp add: window_group_def)
qed

lemma group_misses_loop_correct:
  assumes w: "0 < unat w" and "list_all (window_group (unat w)) groups"
  shows "concat (map group_indexes (group_misses_loop w groups misses)) =
      concat (map group_indexes (rev groups)) @ misses \<and>
    list_all (window_group (unat w)) (group_misses_loop w groups misses)"
  using assms(2)
proof (induction misses arbitrary: groups)
  case Nil
  then show ?case by (simp add: list_all_iff)
next
  case (Cons idx misses)
  let ?new = "\<lparr>group_first = idx, group_count = 1\<rparr>"
  have fresh: ?case if "group_misses_loop w groups (idx # misses) =
      group_misses_loop w (?new # groups) misses"
    using Cons.IH [of "?new # groups"] Cons.prems window_group_single that by simp
  show ?case
  proof (cases groups)
    case Nil
    then show ?thesis using fresh by simp
  next
    case (Cons g gs)
    show ?thesis
    proof (cases "group_first g + group_count g = idx \<and> idx mod w \<noteq> 0")
      case True
      have "window_group (unat w) g" using Cons.prems Cons by simp
      with True have ext: "window_group (unat w) (g\<lparr>group_count := group_count g + 1\<rparr>)"
        and "unat (group_count g) < 2 ^ 32 - 1"
        using window_group_extend w by blast+
      then have "group_indexes (g\<lparr>group_count := group_count g + 1\<rparr>) = group_indexes g @ [idx]"
        using group_indexes_extend True by simp
      then show ?thesis
        using Cons.IH [of "g\<lparr>group_count := group_count g + 1\<rparr> # gs"] ext True Cons Cons.prems
        by simp
    next
      case False
      then show ?thesis
        by (intro fresh) (simp only: Cons group_misses_loop.simps list.case if_False)
    qed
  qed
qed

lemma aligned_take_nat:
  fixes window :: u32
  assumes "next < stop"
  defines "w \<equiv> max (unat window) 1"
  shows "unat (aligned_take next stop window) =
    min ((unat next div w + 1) * w) (unat stop) - unat next"
proof -
  let ?w = "max window 1" and ?n = "unat next"
  have w: "unat ?w = w" by (simp add: w_def unat_max)
  have ns: "?n < unat stop" using assms(1) by (simp add: word_less_nat_alt)
  have "?n div w \<le> ?n" by simp
  then have "?n div w + 1 \<le> unat stop" using ns by linarith
  then have "?n div w + 1 < 2 ^ 32" using u32_bound [of stop] by simp
  then have q: "unat (next div ?w + 1) = ?n div w + 1"
    by (simp add: unat_word_ariths unat_div w)
  have b: "unat (sat_mul (next div ?w + 1) ?w) = min ((?n div w + 1) * w) (2 ^ 32 - 1)"
    by (simp add: unat_sat_mul q w)
  have "?n < (?n div w + 1) * w"
    using dividend_less_div_times [of w ?n] by (simp add: w_def)
  then have le: "next \<le> min (sat_mul (next div ?w + 1) ?w) stop"
    using ns u32_bound [of stop] b by (simp add: word_le_nat_alt unat_min)
  have "unat stop \<le> 2 ^ 32 - 1" using u32_bound [of stop] by simp
  then show ?thesis
    using le b by (simp add: aligned_take_def Let_def unat_sub_le unat_min min.assoc min_absorb2)
qed

lemma block_size_new_Some:
  "block_size_new b = Some bs \<longleftrightarrow> valid_block_size bs \<and> unat b = block_usize bs"
proof
  assume *: "block_size_new b = Some bs"
  then have lo: "2 ^ 16 \<le> unat b" and hi: "unat b \<le> 2 ^ 24" and "is_power_of_two b"
    and bs: "bs = \<lparr>shift = trailing_zeros b\<rparr>"
    by (auto simp: block_size_new_def MIN_BLOCK_SIZE_def MAX_BLOCK_SIZE_def word_less_nat_alt
        split: if_splits)
  then obtain k where k: "k < 32" "b = push_bit k 1"
    by (auto simp: is_power_of_two_def list_ex_iff)
  then have b: "unat b = 2 ^ k" by (simp add: unat_two_power)
  have "bs = \<lparr>shift = k\<rparr>" using bs k trailing_zeros_push_bit by simp
  moreover have "16 \<le> k"
    using lo b power_le_imp_le_exp [of "2 :: nat" 16 k] by simp
  moreover have "k \<le> 24"
    using hi b power_le_imp_le_exp [of "2 :: nat" k 24] by simp
  ultimately show "valid_block_size bs \<and> unat b = block_usize bs"
    using b by (simp add: valid_block_size_def block_usize_def)
next
  assume *: "valid_block_size bs \<and> unat b = block_usize bs"
  then have k: "16 \<le> shift bs" "shift bs \<le> 24" by (simp_all add: valid_block_size_def)
  have b: "b = push_bit (shift bs) 1"
    using * k by (simp add: word_unat_eq_iff block_usize_def unat_two_power)
  have "(2 :: nat) ^ 16 \<le> 2 ^ shift bs" and "(2 :: nat) ^ shift bs \<le> 2 ^ 24"
    using k by (simp_all only: power_increasing one_le_numeral)
  then have "\<not> b < MIN_BLOCK_SIZE" and "\<not> b > MAX_BLOCK_SIZE"
    using * by (simp_all add: MIN_BLOCK_SIZE_def MAX_BLOCK_SIZE_def word_less_nat_alt block_usize_def)
  moreover have "is_power_of_two b"
    using b k by (auto simp: is_power_of_two_def list_ex_iff intro!: bexI [of _ "shift bs"])
  moreover have "trailing_zeros b = shift bs" using b k trailing_zeros_push_bit by simp
  ultimately show "block_size_new b = Some bs" by (simp add: block_size_new_def)
qed

text \<open>
  C20: the constructor accepts exactly the powers of two from 64 KiB to 16 MiB, and the block
  size it returns is the number of bytes it was given.
\<close>

theorem block_size_new_iff:
  "block_size_new b = Some bs \<longleftrightarrow> valid_block_size bs \<and> unat b = block_usize bs"
  by (rule block_size_new_Some)

text \<open>
  Grouping keeps every missing block exactly once and in order, and no group crosses a
  boundary of the fetch window, for any list of misses and any window.
\<close>

theorem group_misses_partition:
  "concat (map group_indexes (group_misses misses window)) = misses \<and>
   list_all (window_group (max (unat window) 1)) (group_misses misses window)"
proof -
  have "unat (max window 1) = max (unat window) 1" by (simp add: unat_max)
  then show ?thesis
    using group_misses_loop_correct [of "max window 1" "[]" misses]
    by (simp add: group_misses_def)
qed

lemma aligned_take_bounds:
  assumes "next < stop"
  shows "0 < unat (aligned_take next stop window)"
    and "unat next + unat (aligned_take next stop window) \<le> unat stop"
proof -
  let ?w = "max (unat window) 1"
  have "unat next < (unat next div ?w + 1) * ?w"
    using dividend_less_div_times [of ?w "unat next"] by simp
  moreover have "unat next < unat stop" using assms by (simp add: word_less_nat_alt)
  ultimately show "0 < unat (aligned_take next stop window)"
    and "unat next + unat (aligned_take next stop window) \<le> unat stop"
    using aligned_take_nat [OF assms, of window] by simp_all
qed

text \<open>
  A take starting at \<open>next\<close> makes progress, stays below \<open>stop\<close>, stays in the window of its
  first block, and ends at \<open>stop\<close> or at a window boundary.
\<close>

theorem aligned_take_window:
  assumes "next < stop"
  shows "(let t = unat (aligned_take next stop window); w = max (unat window) 1; n = unat next in
    0 < t \<and> n + t \<le> unat stop \<and> (n + t - 1) div w = n div w \<and>
    (n + t = unat stop \<or> w dvd n + t))"
proof -
  let ?w = "max (unat window) 1" and ?n = "unat next"
  let ?t = "unat (aligned_take next stop window)" and ?b = "(unat next div max (unat window) 1 + 1) * max (unat window) 1"
  have nb: "?n < ?b" using dividend_less_div_times [of ?w ?n] by simp
  have ns: "?n < unat stop" using assms by (simp add: word_less_nat_alt)
  have t: "?n + ?t = min ?b (unat stop)"
    using aligned_take_nat [OF assms, of window] nb ns by simp
  have hi: "?n + ?t - 1 < ?b" and lo: "?n \<le> ?n + ?t - 1"
    using t nb ns by linarith+
  have "?n div ?w * ?w \<le> ?n + ?t - 1" using div_times_less_eq_dividend lo by (rule le_trans)
  then have "(?n + ?t - 1) div ?w = ?n div ?w"
    using hi by (intro div_nat_eqI) (simp_all add: mult.commute)
  moreover have "?n + ?t = unat stop \<or> ?w dvd ?n + ?t"
    using t by (metis dvd_triv_right min_def)
  ultimately show ?thesis using aligned_take_bounds [OF assms, of window] by (simp add: Let_def)
qed

theorem aligned_take_window_witness:
  "(5 :: u32) < 20 \<and> (let t = unat (aligned_take 5 20 8) in
    0 < t \<and> 5 + t \<le> 20 \<and> (5 + t - 1) div 8 = 0 \<and> (5 + t = 20 \<or> 8 dvd 5 + t))"
  using aligned_take_window [of 5 20 8] by (simp add: Let_def)

end
