(* ===== verification/Latency.thy ===== *)
theory Latency
  imports Prelude Complex_Main "HOL-Library.Multiset"
begin

text \<open>
  Latency histograms, \<^verbatim>\<open>nestor/src/latency.rs\<close>: a log2 histogram with eight sub-buckets per
  octave, three generations that rotate every minute, and the mean and quantile read over the
  current and the previous generation. Each atomic is its value; an operation is one step.
  The quantile and the factor of a hedge are \<^verbatim>\<open>f64\<close>; they are real numbers here, and the
  rounding of an \<^verbatim>\<open>f64\<close> operation is the parameter \<open>fl\<close> of the definitions that need it.
\<close>

unbundle bit_operations_syntax

section \<open>Model\<close>

definition MIN_SHIFT :: nat where "MIN_SHIFT = 16"
definition SUB_BITS :: nat where "SUB_BITS = 3"
definition SUB_BUCKETS :: nat where "SUB_BUCKETS = 8"
definition OCTAVES :: nat where "OCTAVES = 24"
definition BUCKETS :: nat where "BUCKETS = SUB_BUCKETS * OCTAVES"
definition GENERATIONS :: nat where "GENERATIONS = 3"
definition ROTATE_EVERY :: nanos where "ROTATE_EVERY = 60 * 1000000000"

lemmas latency_consts = MIN_SHIFT_def SUB_BITS_def SUB_BUCKETS_def OCTAVES_def BUCKETS_def
  GENERATIONS_def ROTATE_EVERY_def

record generation =
  counts :: "u32 list"
  gen_count :: u64
  sum_nanos :: u64

definition generation_new :: generation where
  "generation_new = \<lparr>counts = replicate BUCKETS 0, gen_count = 0, sum_nanos = 0\<rparr>"

text \<open>\<^verbatim>\<open>u64::ilog2\<close> of a value that is not zero.\<close>

fun log2_nat :: "nat \<Rightarrow> nat" where
  "log2_nat n = (if n < 2 then 0 else Suc (log2_nat (n div 2)))"

declare log2_nat.simps [simp del]

definition ilog2 :: "u64 \<Rightarrow> nat" where
  "ilog2 v = log2_nat (unat v)"

definition bucket :: "u64 \<Rightarrow> nat" where
  "bucket nanos =
     (let value = max nanos (push_bit MIN_SHIFT 1);
          log = ilog2 value;
          octave = log - MIN_SHIFT;
          sub = unat (drop_bit (log - SUB_BITS) value AND (of_nat SUB_BUCKETS - 1))
      in min (octave * SUB_BUCKETS + sub) (BUCKETS - 1))"

definition upper_edge :: "nat \<Rightarrow> u64" where
  "upper_edge index =
     (let octave = index div SUB_BUCKETS; sub = index mod SUB_BUCKETS
      in push_bit (octave + MIN_SHIFT - SUB_BITS) (of_nat (SUB_BUCKETS + sub + 1)))"

definition generation_record :: "u64 \<Rightarrow> generation \<Rightarrow> generation" where
  "generation_record nanos g =
     g\<lparr>counts := (counts g)[bucket nanos := counts g ! bucket nanos + 1],
       gen_count := gen_count g + 1,
       sum_nanos := sum_nanos g + nanos\<rparr>"

definition generation_clear :: "generation \<Rightarrow> generation" where
  "generation_clear g =
     g\<lparr>counts := map (\<lambda>_. 0) (counts g), gen_count := 0, sum_nanos := 0\<rparr>"

record latency =
  generations :: "generation list"
  current :: nat
  rotated_at_nanos :: u64
  epoch :: nanos

definition latency_default :: "nanos \<Rightarrow> latency" where
  "latency_default now =
     \<lparr>generations = replicate GENERATIONS generation_new, current = 0, rotated_at_nanos = 0,
      epoch = now\<rparr>"

text \<open>\<^verbatim>\<open>u64::try_from(n).unwrap_or(u64::MAX)\<close>.\<close>

definition sat_u64 :: "nat \<Rightarrow> u64" where
  "sat_u64 n = (if n < 2 ^ 64 then of_nat n else u64_max)"

definition rotate_step :: "generation list \<times> nat \<Rightarrow> generation list \<times> nat" where
  "rotate_step p =
     (case p of (gens, cur) \<Rightarrow>
        let cur = (cur + 1) mod GENERATIONS
        in (gens[cur := generation_clear (gens ! cur)], cur))"

definition rotate :: "nanos \<Rightarrow> latency \<Rightarrow> latency" where
  "rotate now l =
     (let elapsed = sat_u64 (now - epoch l);
          last = rotated_at_nanos l;
          period = of_nat ROTATE_EVERY;
          periods = sat_sub elapsed last div period
      in if periods = 0 then l
         else let n = min (unat periods) GENERATIONS;
                  (gens, cur) = (rotate_step ^^ n) (generations l, current l)
              in l\<lparr>rotated_at_nanos := elapsed, generations := gens, current := cur\<rparr>)"

definition window :: "latency \<Rightarrow> generation \<times> generation" where
  "window l =
     (let previous = (current l + GENERATIONS - 1) mod GENERATIONS
      in (generations l ! current l, generations l ! previous))"

definition observe_at :: "nanos \<Rightarrow> nanos \<Rightarrow> latency \<Rightarrow> latency" where
  "observe_at sample now l =
     (let l = rotate now l; cur = current l
      in l\<lparr>generations := (generations l)[cur := generation_record (sat_u64 sample) (generations l ! cur)]\<rparr>)"

definition mean_at :: "nanos \<Rightarrow> latency \<Rightarrow> nanos option \<times> latency" where
  "mean_at now l =
     (let l = rotate now l; (cur, prev) = window l;
          count = gen_count cur + gen_count prev
      in if count = 0 then (None, l)
         else (Some (unat ((sum_nanos cur + sum_nanos prev) div count)), l))"

text \<open>
  \<^verbatim>\<open>rank\<close>: \<open>fl\<close> is the rounding of the conversion and of the product to \<^verbatim>\<open>f64\<close>; the cast back to
  \<^verbatim>\<open>u64\<close> saturates.
\<close>

definition rank :: "(real \<Rightarrow> real) \<Rightarrow> real \<Rightarrow> u64 \<Rightarrow> u64" where
  "rank fl quantile tot =
     (let scaled = \<lceil>fl (clamp quantile 0 1 * fl (real (unat tot)))\<rceil>
      in max (sat_u64 (nat scaled)) 1)"

text \<open>The walk over the merged counters: the first index at which \<open>target\<close> is reached.\<close>

fun quantile_walk :: "u64 \<Rightarrow> u64 \<Rightarrow> nat \<Rightarrow> u64 list \<Rightarrow> nat" where
  "quantile_walk target seen index [] = BUCKETS - 1"
| "quantile_walk target seen index (c # cs) =
     (if seen + c \<ge> target then index else quantile_walk target (seen + c) (Suc index) cs)"

definition merged :: "generation \<Rightarrow> generation \<Rightarrow> u64 list" where
  "merged a b = map2 (\<lambda>x y. ucast x + ucast y) (counts a) (counts b)"

definition quantile_at :: "(real \<Rightarrow> real) \<Rightarrow> real \<Rightarrow> nanos \<Rightarrow> latency \<Rightarrow> nanos option \<times> latency" where
  "quantile_at fl quantile now l =
     (let l = rotate now l; (cur, prev) = window l;
          cs = merged cur prev; tot = sum_list cs
      in if tot = 0 then (None, l)
         else (Some (unat (upper_edge (quantile_walk (rank fl quantile tot) 0 0 cs))), l))"

section \<open>Logarithm\<close>

lemma log2_nat_bounds: "0 < n \<Longrightarrow> 2 ^ log2_nat n \<le> n \<and> n < 2 ^ Suc (log2_nat n)"
proof (induction n rule: log2_nat.induct)
  case (1 n)
  show ?case
  proof (cases "n < 2")
    case True
    with "1.prems" have "n = 1" by simp
    then show ?thesis by (simp add: log2_nat.simps)
  next
    case False
    then have "2 ^ log2_nat (n div 2) \<le> n div 2" and "n div 2 < 2 ^ Suc (log2_nat (n div 2))"
      using 1 by simp_all
    then have "2 * 2 ^ log2_nat (n div 2) \<le> n" and "n < 4 * 2 ^ log2_nat (n div 2)"
      by (simp_all add: mult.commute [of 2] le_div_geq less_eq_div_iff_mult_less_eq div_less_iff_less_mult)
    then show ?thesis using False by (simp add: log2_nat.simps [of n])
  qed
qed

lemma log2_nat_mono: "0 < m \<Longrightarrow> m \<le> n \<Longrightarrow> log2_nat m \<le> log2_nat n"
proof -
  assume "0 < m" "m \<le> n"
  then have "2 ^ log2_nat m \<le> m" and "n < 2 ^ Suc (log2_nat n)"
    using log2_nat_bounds by (meson le_trans less_le_trans)+
  then have "(2 :: nat) ^ log2_nat m < 2 ^ Suc (log2_nat n)" using \<open>m \<le> n\<close> by linarith
  then show ?thesis by (meson less_Suc_eq_le power_less_imp_less_exp one_less_numeral_iff semiring_norm(76))
qed

section \<open>Buckets\<close>

text \<open>The value a sample is filed under, and the bucket, over natural numbers.\<close>

definition floored :: "u64 \<Rightarrow> nat" where
  "floored n = max (unat n) 65536"

lemma and_mask_3: "unat (x AND (of_nat SUB_BUCKETS - 1)) = unat (x :: u64) mod 8"
proof -
  have "(of_nat SUB_BUCKETS - 1 :: u64) = mask 3" by (simp add: SUB_BUCKETS_def mask_eq_exp_minus_1)
  then have "x AND (of_nat SUB_BUCKETS - 1) = take_bit 3 x" by (simp add: take_bit_eq_mask)
  then show ?thesis by (simp only: unsigned_take_bit_eq) (simp add: take_bit_eq_mod)
qed

lemma bucket_nat:
  "bucket n = (let v = floored n; k = log2_nat v in
     min ((k - 16) * 8 + v div 2 ^ (k - 3) mod 8) 191)"
proof -
  have v: "unat (max n (push_bit MIN_SHIFT 1)) = floored n"
    by (simp add: MIN_SHIFT_def floored_def unat_max)
  have "floored n < 2 ^ 64" using u64_bound [of n] by (simp add: floored_def)
  then have tb: "take_bit 64 (floored n) = floored n" by (simp add: take_bit_nat_eq_self)
  show ?thesis
    unfolding bucket_def Let_def and_mask_3 ilog2_def unsigned_drop_bit_eq v
    unfolding latency_consts by (simp add: drop_bit_eq_div tb)
qed

lemma floored_log: "16 \<le> log2_nat (floored n)"
proof -
  have "log2_nat 65536 = 16" by (simp add: log2_nat.simps)
  then show ?thesis using log2_nat_mono [of 65536 "floored n"] by (simp add: floored_def)
qed

text \<open>The leading four bits of a value with logarithm \<open>k\<close>.\<close>

lemma leading_bits:
  assumes "0 < v" and "3 \<le> log2_nat v"
  shows "v div 2 ^ (log2_nat v - 3) = 8 + v div 2 ^ (log2_nat v - 3) mod 8"
proof -
  let ?k = "log2_nat v" and ?q = "v div 2 ^ (log2_nat v - 3)"
  have pow: "(2 :: nat) ^ ?k = 8 * 2 ^ (?k - 3)"
    using power_add [of "2 :: nat" 3 "?k - 3"] assms(2) by simp
  have "8 * 2 ^ (?k - 3) \<le> v" and "v < 16 * 2 ^ (?k - 3)"
    using log2_nat_bounds [OF assms(1)] pow by simp_all
  then have "8 \<le> ?q" and "?q < 16"
    by (simp_all add: less_eq_div_iff_mult_less_eq div_less_iff_less_mult)
  then have "?q mod 8 = ?q - 8" by (simp add: le_mod_geq)
  with \<open>8 \<le> ?q\<close> show ?thesis by linarith
qed

text \<open>The upper edge of a bucket over natural numbers; the lower edge is the one before.\<close>

definition edge :: "nat \<Rightarrow> nat" where
  "edge i = (9 + i mod 8) * 2 ^ (i div 8 + 13)"

lemma edge_Suc: "edge (Suc i) = (8 + Suc i mod 8) * 2 ^ (Suc i div 8 + 13) + 2 ^ (Suc i div 8 + 13)"
  by (simp add: edge_def algebra_simps)

lemma edge_below: "edge i = (8 + Suc i mod 8) * 2 ^ (Suc i div 8 + 13)"
proof (cases "Suc (i mod 8) = 8")
  case True
  then have "Suc i mod 8 = 0" and "Suc i div 8 + 13 = Suc (i div 8 + 13)"
    by (simp_all add: mod_Suc div_Suc)
  moreover have "9 + i mod 8 = 16" using True by simp
  ultimately show ?thesis unfolding edge_def by (simp only: power_Suc) simp
next
  case False
  then have "Suc i mod 8 = Suc (i mod 8)" and "Suc i div 8 = i div 8"
    by (simp_all add: mod_Suc div_Suc)
  then show ?thesis unfolding edge_def by (simp only:) simp
qed

lemma edge_strict_mono: "strict_mono edge"
  unfolding strict_mono_Suc_iff using edge_Suc edge_below by simp

lemma edge_191: "edge 191 = 2 ^ 40"
  by (simp add: edge_def)

lemma edge_le: "i < 192 \<Longrightarrow> edge i \<le> 2 ^ 40"
  using strict_mono_less_eq [OF edge_strict_mono, of i 191] by (simp add: edge_191)

lemma unat_upper_edge:
  assumes "i < 192"
  shows "unat (upper_edge i) = edge i"
proof -
  have "upper_edge i = of_nat (edge i)"
    by (simp add: upper_edge_def edge_def Let_def latency_consts push_bit_eq_mult algebra_simps)
  then show ?thesis using edge_le [OF assms] by (simp add: unat_of_nat)
qed

lemma bucket_lt [simp]: "bucket n < 192"
  by (simp add: bucket_nat Let_def min_def)

lemma bucket_bounds:
  assumes "unat n < 2 ^ 40"
  shows "floored n < edge (bucket n)"
    and "8 * edge (bucket n) \<le> 9 * floored n"
    and "i < bucket n \<Longrightarrow> edge i \<le> floored n"
proof -
  let ?v = "floored n" and ?k = "log2_nat (floored n)"
  let ?p = "(2 :: nat) ^ (?k - 3)" and ?q = "floored n div 2 ^ (log2_nat (floored n) - 3)"
  have k16: "16 \<le> ?k" by (rule floored_log)
  have v: "0 < ?v" "?v < 2 ^ 40" using assms by (simp_all add: floored_def)
  have "(2 :: nat) ^ ?k < 2 ^ 40" using log2_nat_bounds [OF v(1)] v(2) by linarith
  then have k40: "?k < 40" by (rule power_less_imp_less_exp [rotated]) simp
  have q: "?q = 8 + ?q mod 8" by (rule leading_bits) (use v k16 in auto)
  have b: "bucket n = (?k - 16) * 8 + ?q mod 8"
  proof -
    have "(?k - 16) * 8 + ?q mod 8 \<le> 191" using k40 k16 mod_less_divisor [of 8 ?q] by linarith
    then show ?thesis by (simp add: bucket_nat Let_def)
  qed
  have bm: "bucket n mod 8 = ?q mod 8" and bd: "bucket n div 8 + 13 = ?k - 3"
    using k16 by (simp_all add: b)
  have pv: "?q * ?p \<le> ?v" "?v < ?q * ?p + ?p"
    using dividend_less_div_times [of ?p ?v] by (simp_all add: add.commute)
  have e: "edge (bucket n) = (?q + 1) * ?p"
  proof -
    have "9 + ?q mod 8 = ?q + 1" using q by linarith
    then show ?thesis unfolding edge_def bm bd by (simp only:)
  qed
  show "?v < edge (bucket n)" unfolding e using pv by simp
  have "8 * ?p \<le> ?v" using pv(1) q by (metis add_leE mult_le_mono1 le_trans le_add1)
  moreover have "(?q + 1) * ?p = ?q * ?p + ?p" by simp
  ultimately show "8 * edge (bucket n) \<le> 9 * ?v" unfolding e using pv(1) by linarith
  assume "i < bucket n"
  then obtain j where j: "bucket n = Suc j" "i \<le> j" by (cases "bucket n") auto
  have "edge i \<le> edge j" using j(2) strict_mono_less_eq [OF edge_strict_mono] by simp
  also have "edge j = (8 + bucket n mod 8) * 2 ^ (bucket n div 8 + 13)"
    unfolding j(1) by (rule edge_below)
  also have "\<dots> = ?q * ?p" unfolding bm bd q [symmetric] ..
  finally show "edge i \<le> ?v" using pv(1) by (rule le_trans)
qed

lemma bucket_le_iff:
  assumes "unat n < 2 ^ 40"
  shows "bucket n \<le> i \<longleftrightarrow> floored n < edge i"
  using bucket_bounds(1, 3) [OF assms] strict_mono_less_eq [OF edge_strict_mono, of "bucket n" i]
  by (meson leD le_less_trans less_le_trans not_le_imp_less)

lemma bucket_mono:
  assumes "m \<le> n" and "unat n < 2 ^ 40"
  shows "bucket m \<le> bucket n"
proof -
  have m: "unat m \<le> unat n" using assms(1) by (simp add: word_le_nat_alt)
  then have "floored m \<le> floored n" by (auto simp: floored_def)
  also have "\<dots> < edge (bucket n)" by (rule bucket_bounds(1) [OF assms(2)])
  finally show ?thesis using bucket_le_iff [of m "bucket n"] m assms(2) by simp
qed

section \<open>What a generation stands for\<close>

text \<open>The samples a generation has recorded since it was cleared.\<close>

definition in_bucket :: "nat \<Rightarrow> u64 list \<Rightarrow> nat" where
  "in_bucket i xs = length (filter (\<lambda>x. bucket x = i) xs)"

definition represents :: "generation \<Rightarrow> u64 list \<Rightarrow> bool" where
  "represents g xs \<longleftrightarrow>
     counts g = map (\<lambda>i. of_nat (in_bucket i xs)) [0..<BUCKETS]
     \<and> gen_count g = of_nat (length xs) \<and> sum_nanos g = sum_list xs"

lemma represents_new: "represents generation_new []"
  by (simp add: represents_def generation_new_def in_bucket_def map_replicate_const)

lemma represents_record:
  assumes "represents g xs"
  shows "represents (generation_record x g) (x # xs)"
proof -
  have "(counts g)[bucket x := counts g ! bucket x + 1] =
      map (\<lambda>i. of_nat (in_bucket i (x # xs))) [0..<BUCKETS]"
    using assms bucket_lt [of x]
    by (auto simp: represents_def in_bucket_def nth_list_update latency_consts intro!: nth_equalityI)
  then show ?thesis using assms
    by (simp add: represents_def generation_record_def add.commute)
qed

lemma represents_clear: "length (counts g) = BUCKETS \<Longrightarrow> represents (generation_clear g) []"
  by (simp add: represents_def generation_clear_def in_bucket_def map_replicate_const)

lemma represents_length: "represents g xs \<Longrightarrow> length (counts g) = BUCKETS"
  by (simp add: represents_def)

section \<open>The walk\<close>

lemma quantile_walk_reaches:
  assumes "unat seen + sum_list (map unat cs) < 2 ^ 64"
    and "seen < target" and "unat target \<le> unat seen + sum_list (map unat cs)"
  shows "\<exists>j < length cs. quantile_walk target seen i cs = i + j
    \<and> unat seen + sum_list (map unat (take j cs)) < unat target
    \<and> unat target \<le> unat seen + sum_list (map unat (take (Suc j) cs))"
  using assms
proof (induction cs arbitrary: seen i)
  case Nil
  then show ?case by (simp add: word_less_nat_alt)
next
  case (Cons c cs)
  have s: "unat (seen + c) = unat seen + unat c"
    using Cons.prems(1) by (intro unat_plus_no_wrap) simp
  show ?case
  proof (cases "seen + c \<ge> target")
    case True
    then show ?thesis using Cons.prems(2) s
      by (intro exI [of _ 0]) (simp add: word_less_nat_alt word_le_nat_alt)
  next
    case False
    then obtain j where "j < length cs" "quantile_walk target (seen + c) (Suc i) cs = Suc i + j"
      "unat (seen + c) + sum_list (map unat (take j cs)) < unat target"
      "unat target \<le> unat (seen + c) + sum_list (map unat (take (Suc j) cs))"
      using Cons.IH [of "seen + c" "Suc i"] Cons.prems s by (auto simp: not_le)
    then show ?thesis using False s by (intro exI [of _ "Suc j"]) (simp add: add.assoc)
  qed
qed

lemma sum_buckets: "sum_list (map (\<lambda>i. in_bucket i xs) [0..<n]) = length (filter (\<lambda>x. bucket x < n) xs)"
proof (induction n)
  case (Suc n)
  have "length (filter (\<lambda>x. bucket x < Suc n) xs) =
      length (filter (\<lambda>x. bucket x < n) xs) + length (filter (\<lambda>x. bucket x = n) xs)"
    by (induction xs) auto
  with Suc show ?case by (simp add: in_bucket_def)
qed simp

lemma in_bucket_append: "in_bucket i (xs @ ys) = in_bucket i xs + in_bucket i ys"
  by (simp add: in_bucket_def)

lemma in_bucket_le: "in_bucket i xs \<le> length xs"
  by (simp add: in_bucket_def)

lemma merged_represents:
  assumes "represents a xs" and "represents b ys" and "length (xs @ ys) < 2 ^ 32"
  shows "map unat (merged a b) = map (\<lambda>i. in_bucket i (xs @ ys)) [0..<192]"
proof (rule nth_equalityI)
  show "length (map unat (merged a b)) = length (map (\<lambda>i. in_bucket i (xs @ ys)) [0..<192])"
    using assms(1,2) by (simp add: merged_def represents_def latency_consts)
next
  fix i assume "i < length (map unat (merged a b))"
  then have i: "i < 192" using assms(1,2) by (simp add: merged_def represents_def latency_consts)
  have c: "merged a b ! i = ucast (of_nat (in_bucket i xs) :: u32) + ucast (of_nat (in_bucket i ys) :: u32)"
    using assms(1,2) i by (simp add: merged_def represents_def latency_consts)
  have u: "unat (of_nat (in_bucket i zs) :: u32) = in_bucket i zs" if "length zs < 2 ^ 32" for zs
    using that in_bucket_le [of i zs] by (simp add: unat_of_nat)
  have "unat (merged a b ! i) = in_bucket i xs + in_bucket i ys"
    unfolding c using assms(3) u [of xs] u [of ys] in_bucket_le [of i xs] in_bucket_le [of i ys]
    by (subst unat_plus_no_wrap) simp_all
  then show "map unat (merged a b) ! i = map (\<lambda>i. in_bucket i (xs @ ys)) [0..<192] ! i"
    using i assms(1,2) by (simp add: in_bucket_append merged_def represents_def latency_consts)
qed

text \<open>In a sorted list the elements below a bound come first.\<close>

lemma sorted_filter_ge_iff:
  assumes "sorted s" and "0 < t" and "t \<le> length s"
    and down: "\<And>x y. x \<in> set s \<Longrightarrow> y \<in> set s \<Longrightarrow> x \<le> y \<Longrightarrow> P y \<Longrightarrow> P x"
  shows "t \<le> length (filter P s) \<longleftrightarrow> P (s ! (t - 1))"
  using assms
proof (induction s arbitrary: t)
  case (Cons a s)
  show ?case
  proof (cases "P a")
    case False
    then have "\<not> P x" if "x \<in> set (a # s)" for x
      using that Cons.prems(1,4) by (metis list.set_intros(1) set_ConsD sorted_simps(2) order_refl)
    moreover have "(a # s) ! (t - 1) \<in> set (a # s)" using Cons.prems(2,3) by (intro nth_mem) simp
    ultimately show ?thesis using Cons.prems(2) by (simp add: filter_empty_conv)
  next
    case True
    show ?thesis
    proof (cases "t = 1")
      case False
      then obtain u where u: "t = Suc u" "0 < u" using Cons.prems(2) by (cases t) auto
      have "u \<le> length (filter P s) \<longleftrightarrow> P (s ! (u - 1))"
      proof (rule Cons.IH)
        fix x y assume "x \<in> set s" "y \<in> set s" "x \<le> y" "P y"
        then show "P x" using Cons.prems(4) [of x y] by simp
      qed (use Cons.prems(1,3) u in simp_all)
      then show ?thesis using True u by (simp add: nth_Cons')
    qed (use True in simp)
  qed
qed simp

section \<open>The quantile\<close>

text \<open>What the quantile relies on of IEEE 754 double precision rounding.\<close>

definition f64_rounding :: "(real \<Rightarrow> real) \<Rightarrow> bool" where
  "f64_rounding fl \<longleftrightarrow> mono fl \<and> (\<forall>n \<le> 2 ^ 53. fl (real n) = real n)"

lemma rank_bounds:
  assumes "f64_rounding fl" and "0 < n" and "n < 2 ^ 32"
  shows "0 < unat (rank fl q (of_nat n)) \<and> unat (rank fl q (of_nat n)) \<le> n"
proof -
  let ?x = "fl (clamp q 0 1 * real n)"
  have u: "unat (of_nat n :: u64) = n" using assms(3) by (simp add: unat_of_nat)
  have n: "fl (real n) = real n" using assms by (simp add: f64_rounding_def)
  have "clamp q 0 1 * real n \<le> real n"
    using clamp_bounds [of 0 1 q] by (simp add: mult_left_le_one_le)
  then have "?x \<le> real n" using assms(1) n by (metis f64_rounding_def monoE)
  then have "nat \<lceil>?x\<rceil> \<le> n" by (simp add: ceiling_le_iff nat_le_iff)
  moreover from this have "nat \<lceil>?x\<rceil> < 2 ^ 64" using assms(3) by (elim le_less_trans) simp
  ultimately have "unat (sat_u64 (nat \<lceil>?x\<rceil>)) \<le> n"
    unfolding sat_u64_def by (simp only: if_True) (simp add: unat_of_nat_lt)
  then show ?thesis using assms(2) by (simp add: rank_def u n unat_max Let_def)
qed

lemma walk_finds_bucket:
  assumes "represents a xs" and "represents b ys" and "length (xs @ ys) < 2 ^ 32"
    and "\<forall>x \<in> set (xs @ ys). unat x < 2 ^ 40"
    and "0 < unat target" and "unat target \<le> length (xs @ ys)"
  shows "quantile_walk target 0 0 (merged a b) = bucket (sort (xs @ ys) ! (unat target - 1))"
proof -
  let ?zs = "xs @ ys" and ?cs = "merged a b" and ?y = "sort (xs @ ys) ! (unat target - 1)"
  note m = merged_represents [OF assms(1-3)]
  have at_most: "sum_list (map unat (take k ?cs)) = length (filter (\<lambda>x. bucket x < k) ?zs)"
    if "k \<le> 192" for k
    using that unfolding take_map [symmetric] m sum_buckets [symmetric]
    by (simp only: take_map take_upt) simp
  have len: "length ?cs = 192" using arg_cong [OF m, of length] by simp
  have total: "sum_list (map unat ?cs) = length ?zs"
    using at_most [of 192] len by simp
  obtain j where j: "j < 192" "quantile_walk target 0 0 ?cs = j"
    "sum_list (map unat (take j ?cs)) < unat target"
    "unat target \<le> sum_list (map unat (take (Suc j) ?cs))"
    using quantile_walk_reaches [of 0 ?cs target 0] assms(3,5,6) total len
    by (auto simp: word_less_nat_alt)
  have iff: "unat target \<le> length (filter (\<lambda>x. bucket x < k) ?zs) \<longleftrightarrow> bucket ?y < k" for k
  proof -
    have "length (filter (\<lambda>x. bucket x < k) ?zs) = length (filter (\<lambda>x. bucket x < k) (sort ?zs))"
      by (simp add: filter_sort)
    moreover have "unat target \<le> length (filter (\<lambda>x. bucket x < k) (sort ?zs)) \<longleftrightarrow> bucket ?y < k"
      using assms(4-6) by (intro sorted_filter_ge_iff) (auto dest: bucket_mono intro: le_less_trans)
    ultimately show ?thesis by simp
  qed
  have "\<not> bucket ?y < j" and "bucket ?y < Suc j"
    using j(1,3,4) at_most [of j] at_most [of "Suc j"] iff [of j] iff [of "Suc j"] by auto
  then show ?thesis using j(2) by simp
qed

lemma sum_merged:
  assumes "represents a xs" and "represents b ys" and "length (xs @ ys) < 2 ^ 32"
  shows "sum_list (merged a b) = of_nat (length (xs @ ys))"
proof -
  have "merged a b = map of_nat (map unat (merged a b))" by (simp add: comp_def)
  then have "sum_list (merged a b) = of_nat (sum_list (map unat (merged a b)))"
    by (metis sum_list_of_nat)
  also have "sum_list (map unat (merged a b)) = length (xs @ ys)"
    unfolding merged_represents [OF assms] sum_buckets by simp
  finally show ?thesis .
qed

text \<open>
  C23: when every sample is below 2 to the 40 nanoseconds, a quantile lies above the sample of its rank
  and is at most nine eighths of that sample or of 2 to the 16 nanoseconds, whichever is more. A
  sample of less than 65.5 microseconds is thus only bounded by 73.7 microseconds.
\<close>

theorem quantile_within_an_eighth:
  assumes "window (rotate now l) = (a, b)" and "represents a xs" and "represents b ys"
    and "length (xs @ ys) < 2 ^ 32" and "xs @ ys \<noteq> []"
    and "\<forall>x \<in> set (xs @ ys). unat x < 2 ^ 40" and "f64_rounding fl"
    and sample_def: "sample = sort (xs @ ys) ! (unat (rank fl q (of_nat (length (xs @ ys)))) - 1)"
  shows "\<exists>d. fst (quantile_at fl q now l) = Some d \<and> unat sample < d
    \<and> 8 * d \<le> 9 * max (unat sample) (2 ^ 16)"
proof -
  let ?n = "length (xs @ ys)"
  have n: "0 < ?n" using assms(5) by simp
  note s = sum_merged [OF assms(2-4)]
  have nz: "sum_list (merged a b) \<noteq> 0"
  proof
    assume "sum_list (merged a b) = 0"
    then have "unat (of_nat ?n :: u64) = 0" unfolding s by (simp only: unat_0)
    moreover have "unat (of_nat ?n :: u64) = ?n" by (rule unat_of_nat_lt) (use assms(4) in simp)
    ultimately show False using n by linarith
  qed
  note rk = rank_bounds [OF assms(7) n assms(4), of q]
  have "quantile_walk (rank fl q (of_nat ?n)) 0 0 (merged a b) = bucket sample"
    unfolding sample_def using walk_finds_bucket [OF assms(2-4) assms(6)] rk by blast
  then have q: "fst (quantile_at fl q now l) = Some (unat (upper_edge (bucket sample)))"
    using nz by (simp add: quantile_at_def Let_def assms(1) s)
  have "sample \<in> set (sort (xs @ ys))" unfolding sample_def using rk n by (intro nth_mem) (simp, linarith)
  then have "unat sample < 2 ^ 40" using assms(6) by simp
  from bucket_bounds(1,2) [OF this] show ?thesis
    unfolding q by (simp add: unat_upper_edge floored_def)
qed

text \<open>A histogram with one sample, of one millisecond.\<close>

definition one_sample :: latency where
  "one_sample = \<lparr>generations = [generation_record 1000000 generation_new, generation_new, generation_new],
     current = 0, rotated_at_nanos = 0, epoch = 0\<rparr>"

lemma one_sample_window:
  "window (rotate 0 one_sample) = (generation_record 1000000 generation_new, generation_new)"
  by (simp add: rotate_def window_def one_sample_def sat_sub_def GENERATIONS_def sat_u64_def)

lemma f64_rounding_id: "f64_rounding (\<lambda>x. x)"
  by (simp add: f64_rounding_def mono_def)

theorem quantile_within_an_eighth_witness:
  "\<exists>d. fst (quantile_at (\<lambda>x. x) (99 / 100) 0 one_sample) = Some d \<and> 1000000 < d \<and> 8 * d \<le> 9 * 1000000"
proof -
  have "unat (rank (\<lambda>x. x) (99 / 100) 1) = 1"
    using rank_bounds [OF f64_rounding_id, of 1 "99 / 100"] by simp
  then show ?thesis
    using quantile_within_an_eighth [OF one_sample_window represents_record [OF represents_new] represents_new
        _ _ _ f64_rounding_id, of 1000000 "99 / 100"]
    by simp
qed

section \<open>The window\<close>

text \<open>
  A history of uses: \<open>Observe sample now\<close> is \<^verbatim>\<open>observe_at\<close>, and \<open>Read now\<close> is \<^verbatim>\<open>mean_at\<close> or
  \<^verbatim>\<open>quantile_at\<close>, whose effect on the state is the rotation.
\<close>

datatype usage = Observe (used_sample: nanos) (used_at: nanos) | Read (used_at: nanos)

fun use_latency :: "usage \<Rightarrow> latency \<Rightarrow> latency" where
  "use_latency (Observe sample now) l = observe_at sample now l"
| "use_latency (Read now) l = rotate now l"

text \<open>The samples of a history with their instants, newest first.\<close>

fun log_usage :: "usage \<Rightarrow> (nanos \<times> u64) list \<Rightarrow> (nanos \<times> u64) list" where
  "log_usage (Observe sample now) es = (now, sat_u64 sample) # es"
| "log_usage (Read now) es = es"

definition samples_between :: "nanos \<Rightarrow> nanos \<Rightarrow> (nanos \<times> u64) list \<Rightarrow> u64 list" where
  "samples_between a b es = map snd (filter (\<lambda>e. a \<le> fst e \<and> fst e < b) es)"

definition samples_since :: "nanos \<Rightarrow> (nanos \<times> u64) list \<Rightarrow> u64 list" where
  "samples_since a es = map snd (filter (\<lambda>e. a \<le> fst e) es)"

text \<open>
  The state after the history \<open>es\<close>: the current generation holds the samples since the last
  rotation, at \<open>epoch + rotated_at_nanos\<close>, the previous one those from \<open>p\<close> up to it.
\<close>

definition tracks :: "nanos \<Rightarrow> (nanos \<times> u64) list \<Rightarrow> latency \<Rightarrow> bool" where
  "tracks p es l \<longleftrightarrow>
     (let lo = epoch l + unat (rotated_at_nanos l) in
      length (generations l) = 3 \<and> current l < 3
      \<and> (\<forall>g \<in> set (generations l). length (counts g) = BUCKETS)
      \<and> p \<le> lo \<and> lo < p + 2 * ROTATE_EVERY
      \<and> (\<forall>e \<in> set es. fst e < lo + ROTATE_EVERY)
      \<and> (\<forall>e \<in> set es. fst e < p \<longrightarrow> fst e + ROTATE_EVERY \<le> lo)
      \<and> represents (fst (window l)) (samples_since lo es)
      \<and> represents (snd (window l)) (samples_between p lo es))"

lemma tracks_default: "tracks now [] (latency_default now)"
  using represents_new
  by (simp add: tracks_def latency_default_def samples_since_def samples_between_def window_def
      GENERATIONS_def ROTATE_EVERY_def) (simp add: generation_new_def)

lemma rotate_idle:
  assumes "now < epoch l + unat (rotated_at_nanos l) + ROTATE_EVERY" and "now < epoch l + 2 ^ 64"
  shows "rotate now l = l"
proof -
  have "unat (sat_u64 (now - epoch l)) = now - epoch l"
    using assms(2) by (simp add: sat_u64_def unat_of_nat_lt less_diff_conv2 not_less)
  then have "unat (sat_sub (sat_u64 (now - epoch l)) (rotated_at_nanos l)) < ROTATE_EVERY"
    using assms(1) by (simp add: unat_sat_sub) (simp add: latency_consts)
  then have "sat_sub (sat_u64 (now - epoch l)) (rotated_at_nanos l) < of_nat ROTATE_EVERY"
    by (simp add: word_less_nat_alt latency_consts)
  then have "sat_sub (sat_u64 (now - epoch l)) (rotated_at_nanos l) div of_nat ROTATE_EVERY = 0"
    by (simp add: word_less_nat_alt word_arith_nat_div)
  then show ?thesis by (simp add: rotate_def Let_def)
qed

text \<open>One elapsed period moves the current generation to the previous place; more empty both.\<close>

lemma clear_length [simp]: "length (counts (generation_clear g)) = length (counts g)"
  by (simp add: generation_clear_def)

lemma rotate_steps:
  assumes "length gens = 3" and "cur < 3" and "\<forall>g \<in> set gens. length (counts g) = BUCKETS"
    and "k = 1 \<or> k = 2 \<or> k = 3" and "(rotate_step ^^ k) (gens, cur) = (gens', cur')"
  shows "length gens' = 3 \<and> cur' < 3 \<and> (\<forall>g \<in> set gens'. length (counts g) = BUCKETS)
    \<and> represents (gens' ! cur') []
    \<and> (if k = 1 then gens' ! ((cur' + 3 - 1) mod 3) = gens ! cur
       else represents (gens' ! ((cur' + 3 - 1) mod 3)) [])"
proof -
  obtain a b c where g: "gens = [a, b, c]"
    using assms(1) by (auto simp: numeral_3_eq_3 length_Suc_conv)
  have r: "represents (generation_clear a) []" "represents (generation_clear b) []"
    "represents (generation_clear c) []" using assms(3) g by (auto intro: represents_clear)
  have s: "rotate_step ([x, y, z], 0) = ([x, generation_clear y, z], 1)"
    "rotate_step ([x, y, z], 1) = ([x, y, generation_clear z], 2)"
    "rotate_step ([x, y, z], 2) = ([generation_clear x, y, z], 0)" for x y z
    by (simp_all add: rotate_step_def GENERATIONS_def)
  have f: "(rotate_step ^^ 1) p = rotate_step p"
    "(rotate_step ^^ 2) p = rotate_step (rotate_step p)"
    "(rotate_step ^^ 3) p = rotate_step (rotate_step (rotate_step p))" for p
    by (simp_all add: numeral_2_eq_2 numeral_3_eq_3)
  have len: "length (counts a) = BUCKETS" "length (counts b) = BUCKETS" "length (counts c) = BUCKETS"
    using assms(3) g by simp_all
  consider "cur = 0" | "cur = 1" | "cur = 2" using assms(2) by linarith
  then show ?thesis
  proof cases
    case 1
    show ?thesis using assms(4)
      by (elim disjE) (use assms(5) r len in \<open>auto simp: 1 g f s simp del: One_nat_def\<close>)
  next
    case 2
    show ?thesis using assms(4)
      by (elim disjE) (use assms(5) r len in \<open>auto simp: 2 g f s simp del: One_nat_def\<close>)
  next
    case 3
    show ?thesis using assms(4)
      by (elim disjE) (use assms(5) r len in \<open>auto simp: 3 g f s simp del: One_nat_def\<close>)
  qed
qed

lemma rotate_advances:
  assumes "length (generations l) = 3" and "current l < 3"
    and "\<forall>g \<in> set (generations l). length (counts g) = BUCKETS"
    and late: "epoch l + unat (rotated_at_nanos l) + ROTATE_EVERY \<le> now" and "now < epoch l + 2 ^ 64"
  shows "length (generations (rotate now l)) = 3 \<and> current (rotate now l) < 3
    \<and> epoch (rotate now l) = epoch l
    \<and> epoch l + unat (rotated_at_nanos (rotate now l)) = now
    \<and> (\<forall>g \<in> set (generations (rotate now l)). length (counts g) = BUCKETS)
    \<and> represents (fst (window (rotate now l))) []
    \<and> (if now < epoch l + unat (rotated_at_nanos l) + 2 * ROTATE_EVERY
       then snd (window (rotate now l)) = fst (window l)
       else represents (snd (window (rotate now l))) [])"
proof -
  let ?e = "sat_u64 (now - epoch l)" and ?P = "of_nat ROTATE_EVERY :: u64"
  let ?w = "sat_sub ?e (rotated_at_nanos l) div ?P"
  have P: "unat ?P = ROTATE_EVERY" by (simp add: latency_consts)
  have e: "unat ?e = now - epoch l"
    using assms(5) by (simp add: sat_u64_def unat_of_nat_lt less_diff_conv2 not_less)
  have n: "unat ?w = (now - epoch l - unat (rotated_at_nanos l)) div ROTATE_EVERY"
    unfolding unat_div P unat_sat_sub e ..
  have n0: "0 < unat ?w" unfolding n using late by (simp add: div_greater_zero_iff latency_consts)
  then have w: "?w \<noteq> 0" by (metis unat_0 less_irrefl)
  have "unat ?w = 1 \<longleftrightarrow> unat ?w < 2" using n0 by linarith
  also have "\<dots> \<longleftrightarrow> now < epoch l + unat (rotated_at_nanos l) + 2 * ROTATE_EVERY"
    unfolding n using late by (simp add: div_less_iff_less_mult latency_consts) linarith
  finally have n1: "min (unat ?w) 3 = 1 \<longleftrightarrow>
      now < epoch l + unat (rotated_at_nanos l) + 2 * ROTATE_EVERY" using n0 by auto
  obtain gens cur where step: "(rotate_step ^^ min (unat ?w) 3) (generations l, current l) = (gens, cur)"
    by (cases "(rotate_step ^^ min (unat ?w) 3) (generations l, current l)")
  have l': "rotate now l = l\<lparr>rotated_at_nanos := ?e, generations := gens, current := cur\<rparr>"
    using w step unfolding rotate_def by (simp add: Let_def GENERATIONS_def)
  have "min (unat ?w) 3 = 1 \<or> min (unat ?w) 3 = 2 \<or> min (unat ?w) 3 = 3" using n0 by linarith
  note s = rotate_steps [OF assms(1-3) this step]
  have p: "(cur + 3 - 1) mod 3 = (cur + 2) mod 3" by simp
  show ?thesis unfolding l' using s [unfolded p n1] late e
    by (simp only: window_def GENERATIONS_def p Let_def) (simp split: if_split_asm)
qed

lemma samples_split:
  "p \<le> lo \<Longrightarrow> mset (samples_since lo es @ samples_between p lo es) = mset (samples_since p es)"
  by (induction es) (auto simp: samples_since_def samples_between_def)

lemma samples_none:
  "\<forall>e \<in> set es. fst e < b \<Longrightarrow> samples_since b es = [] \<and> samples_between a b es = samples_since a es"
  by (induction es) (auto simp: samples_since_def samples_between_def)

lemma tracks_rotate:
  assumes "tracks p es l" and "now < epoch l + 2 ^ 64"
    and "epoch l + unat (rotated_at_nanos l) \<le> now"
  shows "\<exists>p'. tracks p' es (rotate now l)
    \<and> epoch (rotate now l) = epoch l
    \<and> epoch l + unat (rotated_at_nanos (rotate now l)) \<le> now
    \<and> now < epoch l + unat (rotated_at_nanos (rotate now l)) + ROTATE_EVERY"
proof -
  let ?lo = "epoch l + unat (rotated_at_nanos l)" and ?R = ROTATE_EVERY
  have R: "0 < ?R" by (simp add: latency_consts)
  note t = assms(1) [unfolded tracks_def Let_def]
  show ?thesis
  proof (cases "now < ?lo + ?R")
    case True
    then show ?thesis using rotate_idle [OF True assms(2)] assms(1,3) by auto
  next
    case False
    then have late: "?lo + ?R \<le> now" by simp
    have wf: "length (generations l) = 3" "current l < 3"
      "\<forall>g \<in> set (generations l). length (counts g) = BUCKETS" using t by simp_all
    note adv = rotate_advances [OF wf late assms(2)]
    have old: "fst e < ?lo + ?R" if "e \<in> set es" for e using t that by simp
    then have before: "\<forall>e \<in> set es. fst e < now" using late by fastforce
    have "\<exists>p'. tracks p' es (rotate now l)"
    proof (cases "now < ?lo + 2 * ?R")
      case True
      have "fst e + ?R \<le> now" if "fst e < ?lo" for e :: "nat \<times> u64" using that late by linarith
      then have "tracks ?lo es (rotate now l)"
        using True adv t late before samples_none [OF before, of ?lo]
        by (simp add: tracks_def Let_def trans_less_add1)
      then show ?thesis ..
    next
      case False
      have "fst e + ?R \<le> now" if "e \<in> set es" for e using old [OF that] False by linarith
      then have "tracks now es (rotate now l)"
        using False adv before samples_none [OF before] R
        by (simp add: tracks_def Let_def samples_between_def trans_less_add1)
      then show ?thesis ..
    qed
    then show ?thesis using adv R by simp
  qed
qed

lemma window_record:
  "current l < length (generations l) \<Longrightarrow> length (generations l) = 3 \<Longrightarrow>
    window (l\<lparr>generations := (generations l)[current l := g]\<rparr>) = (g, snd (window l))"
  by (auto simp: window_def GENERATIONS_def Let_def nth_list_update) presburger

lemma record_length [simp]: "length (counts (generation_record x g)) = length (counts g)"
  by (simp add: generation_record_def)

lemma tracks_record:
  assumes "tracks p es l" and "epoch l + unat (rotated_at_nanos l) \<le> now"
    and "now < epoch l + unat (rotated_at_nanos l) + ROTATE_EVERY"
  shows "tracks p ((now, x) # es)
    (l\<lparr>generations := (generations l)[current l := generation_record x (generations l ! current l)]\<rparr>)"
proof -
  let ?lo = "epoch l + unat (rotated_at_nanos l)"
  have "samples_since ?lo ((now, x) # es) = x # samples_since ?lo es"
    and "samples_between p ?lo ((now, x) # es) = samples_between p ?lo es"
    using assms(2) by (simp_all add: samples_since_def samples_between_def)
  moreover have "\<forall>g \<in> set ((generations l)[current l := generation_record x (generations l ! current l)]).
      length (counts g) = BUCKETS"
    using assms(1) by (auto simp: tracks_def Let_def dest!: subsetD [OF set_update_subset_insert])
  moreover have "generations l ! current l = fst (window l)" by (simp add: window_def Let_def)
  ultimately show ?thesis
    using assms represents_record [of "fst (window l)" "samples_since ?lo es" x]
    by (simp add: tracks_def Let_def window_record)
qed

text \<open>A history in the order of its instants keeps the state in step with its samples.\<close>

definition in_step :: "nanos \<Rightarrow> nanos \<Rightarrow> (nanos \<times> u64) list \<Rightarrow> latency \<Rightarrow> bool" where
  "in_step start now es l \<longleftrightarrow> (\<exists>p. tracks p es l) \<and> epoch l = start
     \<and> start + unat (rotated_at_nanos l) \<le> now"

lemma in_step_use:
  assumes "in_step start t es l" and "t \<le> used_at u" and "used_at u < start + 2 ^ 64"
  shows "in_step start (used_at u) (log_usage u es) (use_latency u l)"
proof -
  obtain p where "tracks p es l" and e: "epoch l = start" using assms(1) by (auto simp: in_step_def)
  then obtain p' where p': "tracks p' es (rotate (used_at u) l)"
      "epoch (rotate (used_at u) l) = start"
      "start + unat (rotated_at_nanos (rotate (used_at u) l)) \<le> used_at u"
      "used_at u < start + unat (rotated_at_nanos (rotate (used_at u) l)) + ROTATE_EVERY"
    using tracks_rotate [of p es l "used_at u"] assms by (auto simp: in_step_def)
  show ?thesis
  proof (cases u)
    case (Observe sample now)
    then show ?thesis
      using p' tracks_record [of p' es "rotate now l" now "sat_u64 sample"]
      by (auto simp: in_step_def observe_at_def Let_def)
  next
    case (Read now)
    then show ?thesis using p' by (auto simp: in_step_def)
  qed
qed

lemma in_step_history:
  assumes "in_step start t es l" and "sorted (t # map used_at us @ [now])" and "now < start + 2 ^ 64"
  shows "in_step start now (fold log_usage us es) (fold use_latency us l)"
  using assms
proof (induction us arbitrary: t es l)
  case Nil
  then show ?case by (auto simp: in_step_def)
next
  case (Cons u us)
  have "in_step start (used_at u) (log_usage u es) (use_latency u l)"
    by (rule in_step_use [OF Cons.prems(1)]) (use Cons.prems in auto)
  then show ?case using Cons.IH [of "used_at u"] Cons.prems by simp
qed

text \<open>
  Whatever the order of observations and reads, the two generations a read at \<open>now\<close> looks at
  hold exactly the samples from some instant \<open>p\<close> on: every sample of the last period, and none
  that is three periods old.
\<close>

theorem window_holds_recent_samples:
  assumes "sorted (start # map used_at us @ [now])" and "now < start + 2 ^ 64"
  shows "\<exists>xs ys p.
    represents (fst (window (rotate now (fold use_latency us (latency_default start))))) xs
    \<and> represents (snd (window (rotate now (fold use_latency us (latency_default start))))) ys
    \<and> mset (xs @ ys) = mset (samples_since p (fold log_usage us []))
    \<and> (\<forall>e \<in> set (fold log_usage us []). fst e < p \<longrightarrow> fst e + ROTATE_EVERY \<le> now)
    \<and> now < p + 3 * ROTATE_EVERY"
proof -
  let ?l = "fold use_latency us (latency_default start)" and ?es = "fold log_usage us []"
  have "in_step start start [] (latency_default start)"
    using tracks_default [of start] by (auto simp: in_step_def latency_default_def)
  then have "in_step start now ?es ?l" using assms by (rule in_step_history)
  then obtain p where t: "tracks p ?es (rotate now ?l)"
      and lo: "epoch (rotate now ?l) + unat (rotated_at_nanos (rotate now ?l)) \<le> now"
        "now < epoch (rotate now ?l) + unat (rotated_at_nanos (rotate now ?l)) + ROTATE_EVERY"
    using tracks_rotate [of _ ?es ?l now] assms(2) by (fastforce simp: in_step_def)
  let ?lo = "epoch (rotate now ?l) + unat (rotated_at_nanos (rotate now ?l))"
  note t = t [unfolded tracks_def Let_def]
  show ?thesis
  proof (intro exI conjI)
    show "represents (fst (window (rotate now ?l))) (samples_since ?lo ?es)" using t by simp
    show "represents (snd (window (rotate now ?l))) (samples_between p ?lo ?es)" using t by simp
    show "mset (samples_since ?lo ?es @ samples_between p ?lo ?es) = mset (samples_since p ?es)"
      using t by (intro samples_split) simp
    show "\<forall>e \<in> set ?es. fst e < p \<longrightarrow> fst e + ROTATE_EVERY \<le> now" using t lo(1) by fastforce
    show "now < p + 3 * ROTATE_EVERY" using t lo(2) by linarith
  qed
qed

theorem window_holds_recent_samples_witness:
  "\<exists>xs ys p.
    represents (fst (window (rotate 70000000000 (use_latency (Observe 5 10) (latency_default 0))))) xs
    \<and> represents (snd (window (rotate 70000000000 (use_latency (Observe 5 10) (latency_default 0))))) ys
    \<and> mset (xs @ ys) = mset (samples_since p [(10, 5)]) \<and> 70000000000 < p + 3 * ROTATE_EVERY"
  using window_holds_recent_samples [of 0 "[Observe 5 10]" 70000000000] by (fastforce simp: sat_u64_def)

text \<open>The mean is the average of the samples in the window, rounded down.\<close>

theorem mean_is_average:
  assumes "window (rotate now l) = (a, b)" and "represents a xs" and "represents b ys"
    and "xs @ ys \<noteq> []" and "length (xs @ ys) < 2 ^ 64" and "sum_list (map unat (xs @ ys)) < 2 ^ 64"
  shows "fst (mean_at now l) = Some (sum_list (map unat (xs @ ys)) div length (xs @ ys))"
proof -
  have c: "gen_count a + gen_count b = of_nat (length (xs @ ys))"
    and s: "sum_nanos a + sum_nanos b = sum_list (xs @ ys)"
    using assms(2,3) by (simp_all add: represents_def)
  have uc: "unat (of_nat (length (xs @ ys)) :: u64) = length (xs @ ys)"
    using assms(5) by (intro unat_of_nat_lt) simp
  have "sum_list zs = (of_nat (sum_list (map unat zs)) :: u64)" for zs by (induction zs) simp_all
  then have "sum_list (xs @ ys) = (of_nat (sum_list (map unat (xs @ ys))) :: u64)" .
  then have us: "unat (sum_list (xs @ ys)) = sum_list (map unat (xs @ ys))"
    by (simp only:) (rule unat_of_nat_lt, use assms(6) in simp)
  have "(of_nat (length (xs @ ys)) :: u64) \<noteq> 0" using uc assms(4) by (metis length_0_conv unat_0)
  then show ?thesis
    by (simp only: mean_at_def Let_def assms(1) prod.case c s if_False fst_conv unat_div uc us)
qed

theorem mean_is_average_witness: "fst (mean_at 0 one_sample) = Some 1000000"
  using mean_is_average [OF one_sample_window represents_record [OF represents_new] represents_new] by simp

end
