(* ===== verification/Policy.thy ===== *)
theory Policy
  imports Errors Latency Text
begin

text \<open>
  How a miss goes to the origin, \<^verbatim>\<open>nestor/src/policy.rs\<close>: the hedge configuration and the delay
  it derives from the observed latency, the fetch policy with its per-request overrides, the
  backoff schedule and the retry state of one fetch. \<^verbatim>\<open>humantime::parse_duration\<close> is the
  parameter \<open>dur\<close>, and the rounding of \<^verbatim>\<open>f64\<close> operations the parameter \<open>fl\<close>.
\<close>

section \<open>Durations\<close>

text \<open>\<^verbatim>\<open>Duration::MAX\<close>: \<^verbatim>\<open>u64::MAX\<close> seconds and 999999999 nanoseconds.\<close>

definition DURATION_MAX :: nanos where
  "DURATION_MAX = 2 ^ 64 * 1000000000 - 1"

definition from_millis :: "nat \<Rightarrow> nanos" where "from_millis n = n * 1000000"
definition from_secs :: "nat \<Rightarrow> nanos" where "from_secs n = n * 1000000000"

definition saturating_mul :: "nanos \<Rightarrow> nat \<Rightarrow> nanos" where
  "saturating_mul d n = min (d * n) DURATION_MAX"

text \<open>The values of an \<^verbatim>\<open>f64\<close>.\<close>

datatype f64 = NaN | NegInf | Finite real | PosInf

fun is_nan :: "f64 \<Rightarrow> bool" where
  "is_nan NaN = True"
| "is_nan _ = False"

text \<open>\<open>x <= 0.0\<close> and \<open>x > 1.0\<close>; both are false of \<^verbatim>\<open>NaN\<close>.\<close>

fun f64_le_zero :: "f64 \<Rightarrow> bool" where
  "f64_le_zero (Finite x) = (x \<le> 0)"
| "f64_le_zero NegInf = True"
| "f64_le_zero _ = False"

fun f64_gt_one :: "f64 \<Rightarrow> bool" where
  "f64_gt_one (Finite x) = (1 < x)"
| "f64_gt_one PosInf = True"
| "f64_gt_one _ = False"

text \<open>
  \<^verbatim>\<open>Duration::mul_f64\<close>: the product of the seconds, each step rounded to \<^verbatim>\<open>f64\<close>, rounded to the
  nearest nanosecond, ties to even. It panics, here \<^const>\<open>None\<close>, when the product is negative,
  not finite or too large.
\<close>

definition round_half_even :: "real \<Rightarrow> int" where
  "round_half_even x =
     (let f = \<lfloor>x\<rfloor>; d = x - of_int f
      in if d < 1 / 2 then f else if 1 / 2 < d then f + 1 else if even f then f else f + 1)"

definition as_secs_f64 :: "(real \<Rightarrow> real) \<Rightarrow> nanos \<Rightarrow> real" where
  "as_secs_f64 fl d = fl (fl (real (d div 1000000000)) + fl (real (d mod 1000000000) / 1000000000))"

fun mul_f64 :: "(real \<Rightarrow> real) \<Rightarrow> nanos \<Rightarrow> f64 \<Rightarrow> nanos option" where
  "mul_f64 fl d (Finite x) =
     (let secs = fl (x * as_secs_f64 fl d); n = round_half_even (secs * 1000000000)
      in if secs < 0 \<or> int DURATION_MAX < n then None else Some (nat n))"
| "mul_f64 fl d _ = None"

section \<open>Hedge configuration\<close>

datatype hedge_after = Factor f64 | Quantile f64

record hedge_config =
  hedge_after :: hedge_after
  hedge_min :: nanos
  hedge_max :: nanos

datatype hedge_config_error = BadFactor f64 | BadQuantile f64 | Bounds nanos nanos | Exclusive

definition hedge_default :: hedge_config where
  "hedge_default =
     \<lparr>hedge_after = Factor (Finite 3), hedge_min = from_millis 50, hedge_max = from_secs 2\<rparr>"

definition hedge_new :: "hedge_after \<Rightarrow> nanos \<Rightarrow> nanos \<Rightarrow> hedge_config_error + hedge_config" where
  "hedge_new aft mn mx =
     (if mn > mx then Inl (Bounds mn mx)
      else Inr \<lparr>hedge_after = aft, hedge_min = mn, hedge_max = mx\<rparr>)"

definition hedge_factor :: "f64 \<Rightarrow> nanos \<Rightarrow> nanos \<Rightarrow> hedge_config_error + hedge_config" where
  "hedge_factor factor mn mx =
     (if is_nan factor \<or> f64_le_zero factor then Inl (BadFactor factor)
      else hedge_new (Factor factor) mn mx)"

definition hedge_quantile :: "f64 \<Rightarrow> nanos \<Rightarrow> nanos \<Rightarrow> hedge_config_error + hedge_config" where
  "hedge_quantile quantile mn mx =
     (if is_nan quantile \<or> f64_le_zero quantile \<or> f64_gt_one quantile then Inl (BadQuantile quantile)
      else hedge_new (Quantile quantile) mn mx)"

text \<open>
  The argument of \<^verbatim>\<open>Latency::quantile\<close> as a real: it is clamped to the unit interval first, and a
  \<^verbatim>\<open>NaN\<close> rank casts to 0.
\<close>

fun quantile_arg :: "f64 \<Rightarrow> real" where
  "quantile_arg (Finite x) = x"
| "quantile_arg PosInf = 1"
| "quantile_arg _ = 0"

text \<open>\<^verbatim>\<open>HedgeConfig::delay\<close>; the inner option is \<^const>\<open>None\<close> where \<^verbatim>\<open>mul_f64\<close> panics.\<close>

definition hedge_delay ::
  "(real \<Rightarrow> real) \<Rightarrow> hedge_config \<Rightarrow> nanos \<Rightarrow> latency \<Rightarrow> nanos option \<times> latency" where
  "hedge_delay fl cfg now l =
     (case hedge_after cfg of
        Factor factor \<Rightarrow>
          (case mean_at now l of
             (None, l) \<Rightarrow> (Some (hedge_max cfg), l)
           | (Some m, l) \<Rightarrow>
               (map_option (\<lambda>d. clamp d (hedge_min cfg) (hedge_max cfg)) (mul_f64 fl m factor), l))
      | Quantile quantile \<Rightarrow>
          (case quantile_at fl (quantile_arg quantile) now l of
             (None, l) \<Rightarrow> (Some (hedge_max cfg), l)
           | (Some d, l) \<Rightarrow> (Some (clamp d (hedge_min cfg) (hedge_max cfg)), l)))"

record raw_hedge =
  raw_factor :: "f64 option"
  raw_quantile :: "f64 option"
  raw_min :: "nanos option"
  raw_max :: "nanos option"

text \<open>\<^verbatim>\<open>TryFrom<RawHedge> for HedgeConfig\<close> and \<^verbatim>\<open>From<HedgeConfig> for RawHedge\<close>.\<close>

definition hedge_try_from :: "raw_hedge \<Rightarrow> hedge_config_error + hedge_config" where
  "hedge_try_from raw =
     (let mn = case_option (hedge_min hedge_default) id (raw_min raw);
          mx = case_option (hedge_max hedge_default) id (raw_max raw)
      in case (raw_factor raw, raw_quantile raw) of
           (Some _, Some _) \<Rightarrow> Inl Exclusive
         | (None, Some quantile) \<Rightarrow> hedge_quantile quantile mn mx
         | (Some factor, None) \<Rightarrow> hedge_factor factor mn mx
         | (None, None) \<Rightarrow> hedge_new (hedge_after hedge_default) mn mx)"

definition raw_from_hedge :: "hedge_config \<Rightarrow> raw_hedge" where
  "raw_from_hedge cfg =
     (let (factor, quantile) =
            (case hedge_after cfg of
               Factor factor \<Rightarrow> (Some factor, None)
             | Quantile quantile \<Rightarrow> (None, Some quantile))
      in \<lparr>raw_factor = factor, raw_quantile = quantile,
          raw_min = Some (hedge_min cfg), raw_max = Some (hedge_max cfg)\<rparr>)"

text \<open>\<^verbatim>\<open>hedge_toggle\<close>, after the untagged union has been recognised.\<close>

datatype toggle = Enabled bool | Config hedge_config

fun hedge_toggle :: "toggle \<Rightarrow> hedge_config option" where
  "hedge_toggle (Enabled False) = None"
| "hedge_toggle (Enabled True) = Some hedge_default"
| "hedge_toggle (Config cfg) = Some cfg"

section \<open>Fetch policy\<close>

record fetch_policy =
  attempts :: u32
  backoff :: nanos
  backoff_max :: nanos
  first_byte :: nanos
  attempt_timeout :: nanos \<comment> \<open>the field \<open>attempt\<close>\<close>
  deadline :: nanos
  hedge :: "hedge_config option"

definition fetch_policy_default :: fetch_policy where
  "fetch_policy_default =
     \<lparr>attempts = 3, backoff = from_millis 50, backoff_max = from_secs 2, first_byte = from_secs 5,
      attempt_timeout = from_secs 30, deadline = from_secs 60, hedge = Some hedge_default\<rparr>"

definition set_attempts :: "u32 \<Rightarrow> fetch_policy \<Rightarrow> fetch_policy" where
  "set_attempts n p = p\<lparr>attempts := max n 1\<rparr>"

definition set_backoff :: "nanos \<Rightarrow> nanos \<Rightarrow> fetch_policy \<Rightarrow> fetch_policy" where
  "set_backoff b mx p = p\<lparr>backoff := b, backoff_max := mx\<rparr>"

record fetch_overrides =
  o_attempts :: "u32 option"
  o_backoff :: "nanos option"
  o_backoff_max :: "nanos option"
  o_first_byte :: "nanos option"
  o_attempt :: "nanos option"
  o_deadline :: "nanos option"
  o_hedge :: "bool option"

definition overrides_default :: fetch_overrides where
  "overrides_default =
     \<lparr>o_attempts = None, o_backoff = None, o_backoff_max = None, o_first_byte = None,
      o_attempt = None, o_deadline = None, o_hedge = None\<rparr>"

definition overrides_is_empty :: "fetch_overrides \<Rightarrow> bool" where
  "overrides_is_empty ov \<longleftrightarrow> ov = overrides_default"

definition unwrap_or :: "'a option \<Rightarrow> 'a \<Rightarrow> 'a" where
  "unwrap_or x d = (case x of Some v \<Rightarrow> v | None \<Rightarrow> d)"

definition policy_with :: "fetch_policy \<Rightarrow> fetch_overrides \<Rightarrow> fetch_policy" where
  "policy_with p ov =
     \<lparr>attempts = max (unwrap_or (o_attempts ov) (attempts p)) 1,
      backoff = unwrap_or (o_backoff ov) (backoff p),
      backoff_max = unwrap_or (o_backoff_max ov) (backoff_max p),
      first_byte = unwrap_or (o_first_byte ov) (first_byte p),
      attempt_timeout = unwrap_or (o_attempt ov) (attempt_timeout p),
      deadline = unwrap_or (o_deadline ov) (deadline p),
      hedge = (case o_hedge ov of
                 None \<Rightarrow> hedge p
               | Some False \<Rightarrow> None
               | Some True \<Rightarrow> (case hedge p of Some h \<Rightarrow> Some h | None \<Rightarrow> Some hedge_default))\<rparr>"

definition backoff_for :: "fetch_policy \<Rightarrow> u32 \<Rightarrow> nanos" where
  "backoff_for p a = min (saturating_mul (backoff p) (2 ^ unat (min a 16))) (backoff_max p)"

section \<open>Retry\<close>

record retry =
  retry_policy :: fetch_policy
  retry_attempt :: u32
  retry_deadline :: nanos

definition retry_new :: "fetch_policy \<Rightarrow> nanos \<Rightarrow> retry" where
  "retry_new p now = \<lparr>retry_policy = p, retry_attempt = 0, retry_deadline = now + deadline p\<rparr>"

definition attempt_deadline :: "retry \<Rightarrow> nanos \<Rightarrow> nanos" where
  "attempt_deadline r now = min (now + attempt_timeout (retry_policy r)) (retry_deadline r)"

text \<open>
  \<^verbatim>\<open>Retry::failed\<close> at the instant \<open>now\<close>: the verdict, the retry state and the instant after the
  sleep.
\<close>

definition failed :: "retry \<Rightarrow> origin_error \<Rightarrow> nanos \<Rightarrow> (origin_error + unit) \<times> retry \<times> nanos" where
  "failed r error now =
     (let r = r\<lparr>retry_attempt := retry_attempt r + 1\<rparr>
      in if \<not> is_retryable error \<or> retry_attempt r \<ge> attempts (retry_policy r)
         then (Inl error, r, now)
         else let delay = backoff_for (retry_policy r) (retry_attempt r - 1)
              in if now + delay \<ge> retry_deadline r
                 then (Inl (Timeout (deadline (retry_policy r))), r, now)
                 else (Inr (), r, now + delay))"

section \<open>Overrides\<close>

datatype policy_parse_error = Syntax string | BadKey string | BadValue string string

text \<open>One \<^verbatim>\<open>key=value\<close> word of \<^verbatim>\<open>FetchOverrides::parse\<close>.\<close>

definition parse_pair ::
  "(string \<Rightarrow> nanos option) \<Rightarrow> string \<Rightarrow> fetch_overrides \<Rightarrow> policy_parse_error + fetch_overrides" where
  "parse_pair dur pair ov =
     (case split_once CHR ''='' pair of
        None \<Rightarrow> Inl (Syntax pair)
      | Some (key, value) \<Rightarrow>
          (let bad = Inl (BadValue key value);
               duration = (\<lambda>set. case dur value of None \<Rightarrow> bad | Some d \<Rightarrow> Inr (set (Some d)))
           in if key = ''attempts'' then
                (case parse_u32 value of None \<Rightarrow> bad | Some n \<Rightarrow> Inr (ov\<lparr>o_attempts := Some n\<rparr>))
              else if key = ''backoff'' then duration (\<lambda>d. ov\<lparr>o_backoff := d\<rparr>)
              else if key = ''backoff_max'' then duration (\<lambda>d. ov\<lparr>o_backoff_max := d\<rparr>)
              else if key = ''first_byte'' then duration (\<lambda>d. ov\<lparr>o_first_byte := d\<rparr>)
              else if key = ''attempt'' then duration (\<lambda>d. ov\<lparr>o_attempt := d\<rparr>)
              else if key = ''deadline'' then duration (\<lambda>d. ov\<lparr>o_deadline := d\<rparr>)
              else if key = ''hedge'' then
                (if value = ''on'' \<or> value = ''true'' then Inr (ov\<lparr>o_hedge := Some True\<rparr>)
                 else if value = ''off'' \<or> value = ''false'' then Inr (ov\<lparr>o_hedge := Some False\<rparr>)
                 else bad)
              else Inl (BadKey key)))"

fun parse_pairs ::
  "(string \<Rightarrow> nanos option) \<Rightarrow> string list \<Rightarrow> fetch_overrides \<Rightarrow> policy_parse_error + fetch_overrides" where
  "parse_pairs dur [] ov = Inr ov"
| "parse_pairs dur (pair # pairs) ov =
     (case parse_pair dur pair ov of Inl e \<Rightarrow> Inl e | Inr ov \<Rightarrow> parse_pairs dur pairs ov)"

definition parse_overrides ::
  "(string \<Rightarrow> nanos option) \<Rightarrow> string \<Rightarrow> policy_parse_error + fetch_overrides" where
  "parse_overrides dur text = parse_pairs dur (split_whitespace text) overrides_default"

section \<open>Configuration facts\<close>

text \<open>The configurations the constructors produce.\<close>

definition valid_hedge :: "hedge_config \<Rightarrow> bool" where
  "valid_hedge cfg \<longleftrightarrow> hedge_min cfg \<le> hedge_max cfg \<and>
     (case hedge_after cfg of
        Factor f \<Rightarrow> \<not> is_nan f \<and> \<not> f64_le_zero f
      | Quantile q \<Rightarrow> \<not> is_nan q \<and> \<not> f64_le_zero q \<and> \<not> f64_gt_one q)"

lemmas hedge_constructors = hedge_new_def hedge_factor_def hedge_quantile_def

lemma hedge_constructors_valid:
  "hedge_factor f mn mx = Inr cfg \<Longrightarrow> valid_hedge cfg"
  "hedge_quantile q mn mx = Inr cfg \<Longrightarrow> valid_hedge cfg"
  by (auto simp: hedge_constructors valid_hedge_def split: if_splits)

lemma hedge_default_valid: "valid_hedge hedge_default"
  by (simp add: valid_hedge_def hedge_default_def from_millis_def from_secs_def)

text \<open>Reading a hedge table yields only valid configurations, and writing one loses nothing.\<close>

theorem raw_hedge_roundtrip:
  "hedge_try_from (raw_from_hedge cfg) = Inr cfg \<longleftrightarrow> valid_hedge cfg"
  by (cases cfg; cases "hedge_after cfg")
    (auto simp: hedge_try_from_def raw_from_hedge_def hedge_constructors valid_hedge_def)

lemma hedge_try_from_valid: "hedge_try_from raw = Inr cfg \<Longrightarrow> valid_hedge cfg"
  using hedge_default_valid
  by (auto simp: hedge_try_from_def Let_def hedge_constructors valid_hedge_def hedge_default_def
      split: option.splits if_splits)

section \<open>The delay\<close>

lemma round_half_even_le:
  assumes "x \<le> of_int n"
  shows "round_half_even x \<le> n"
proof (cases "x = of_int n")
  case True
  then show ?thesis by (simp add: round_half_even_def Let_def)
next
  case False
  then have "\<lfloor>x\<rfloor> < n" using assms by linarith
  then show ?thesis by (simp add: round_half_even_def Let_def)
qed

lemma hedge_delay_cases:
  "fst (hedge_delay fl cfg now l) = Some d \<Longrightarrow> hedge_min cfg \<le> hedge_max cfg \<Longrightarrow>
    hedge_min cfg \<le> d \<and> d \<le> hedge_max cfg"
  by (auto simp: hedge_delay_def clamp_bounds split: hedge_after.splits prod.splits option.splits)

text \<open>The delay of a quantile never panics; that of a factor does when the product overflows.\<close>

lemma hedge_delay_quantile_total:
  "hedge_after cfg = Quantile q \<Longrightarrow> \<exists>d. fst (hedge_delay fl cfg now l) = Some d"
  by (auto simp: hedge_delay_def split: prod.splits option.splits)

lemma hedge_delay_idle:
  assumes "gen_count (fst (window (rotate now l))) + gen_count (snd (window (rotate now l))) = 0"
    and "hedge_after cfg = Factor f"
  shows "fst (hedge_delay fl cfg now l) = Some (hedge_max cfg)"
  using assms by (auto simp: hedge_delay_def mean_at_def Let_def split: prod.splits)

text \<open>The mean is below \<open>2 ^ 64\<close> nanoseconds, so a factor of up to 480000 cannot overflow.\<close>

lemma mean_at_bound: "fst (mean_at now l) = Some m \<Longrightarrow> m < 2 ^ 64"
  using u64_bound by (auto simp: mean_at_def Let_def split: prod.splits if_splits)

lemma as_secs_f64_bounds:
  assumes "f64_rounding fl" and "d < 2 ^ 64"
  shows "0 \<le> as_secs_f64 fl d" and "as_secs_f64 fl d \<le> 18446744075"
proof -
  have m: "fl x \<le> fl y" if "x \<le> y" for x y
    using assms(1) that by (auto simp: f64_rounding_def mono_def)
  have n: "fl (real n) = real n" if "n \<le> 2 ^ 53" for n using assms(1) that by (simp add: f64_rounding_def)
  have fl0: "fl 0 = 0" and fl1: "fl 1 = 1" and big: "fl 18446744075 = 18446744075"
    using n [of 0] n [of 1] n [of 18446744075] by simp_all
  have q: "d div 1000000000 \<le> 18446744073" using assms(2) by simp
  have a: "0 \<le> fl (real (d div 1000000000))" "fl (real (d div 1000000000)) \<le> 18446744073"
    using n [of "d div 1000000000"] q by simp_all
  have b: "0 \<le> fl (real (d mod 1000000000) / 1000000000)"
    using m [of 0 "real (d mod 1000000000) / 1000000000"] fl0 by simp
  have c: "fl (real (d mod 1000000000) / 1000000000) \<le> 1"
    using m [of "real (d mod 1000000000) / 1000000000" 1] fl1 by simp
  show "0 \<le> as_secs_f64 fl d" unfolding as_secs_f64_def using m a b fl0 by (metis add_nonneg_nonneg)
  show "as_secs_f64 fl d \<le> 18446744075"
    unfolding as_secs_f64_def
    using m [of "fl (real (d div 1000000000)) + fl (real (d mod 1000000000) / 1000000000)" 18446744075]
      a c big by linarith
qed

lemma mul_f64_total:
  assumes "f64_rounding fl" and "d < 2 ^ 64" and "0 \<le> x" and "x \<le> 480000"
  shows "\<exists>n. mul_f64 fl d (Finite x) = Some n"
proof -
  let ?p = "x * as_secs_f64 fl d"
  note s = as_secs_f64_bounds [OF assms(1,2)]
  have m: "fl a \<le> fl b" if "a \<le> b" for a b
    using assms(1) that by (auto simp: f64_rounding_def mono_def)
  have n: "fl (real k) = real k" if "k \<le> 2 ^ 53" for k using assms(1) that by (simp add: f64_rounding_def)
  have "?p \<le> 480000 * 18446744075" using s assms(3,4) by (intro mult_mono) simp_all
  then have "fl ?p \<le> fl (real (2 ^ 53))" by (intro m) simp
  then have hi: "fl ?p \<le> 2 ^ 53" using n [of "2 ^ 53"] by simp
  have lo: "0 \<le> fl ?p" using m [of 0 ?p] n [of 0] s assms(3) by simp
  have "fl ?p * 1000000000 \<le> of_int (2 ^ 53 * 1000000000)" using hi by simp
  from round_half_even_le [OF this] have "round_half_even (fl ?p * 1000000000) \<le> int DURATION_MAX"
    by (simp add: DURATION_MAX_def)
  then show ?thesis using lo by (simp add: Let_def)
qed

text \<open>
  The delay before a hedged request exists and lies between the configured bounds, whatever
  has been observed.
\<close>

theorem hedge_delay_bounded:
  assumes "f64_rounding fl" and "hedge_min cfg \<le> hedge_max cfg"
    and "\<forall>f. hedge_after cfg = Factor f \<longrightarrow> (\<exists>x. f = Finite x \<and> 0 \<le> x \<and> x \<le> 480000)"
  shows "\<exists>d. fst (hedge_delay fl cfg now l) = Some d \<and> hedge_min cfg \<le> d \<and> d \<le> hedge_max cfg"
proof -
  have "\<exists>d. fst (hedge_delay fl cfg now l) = Some d"
  proof (cases "hedge_after cfg")
    case (Factor f)
    then obtain x where x: "f = Finite x" "0 \<le> x" "x \<le> 480000" using assms(3) by auto
    obtain m l' where mean: "mean_at now l = (m, l')" by (cases "mean_at now l")
    show ?thesis
    proof (cases m)
      case (Some v)
      then have "v < 2 ^ 64" using mean_at_bound [of now l v] mean by simp
      from mul_f64_total [OF assms(1) this x(2,3)] show ?thesis
        using Factor Some mean x(1) by (auto simp: hedge_delay_def)
    qed (use Factor mean in \<open>simp add: hedge_delay_def\<close>)
  qed (use hedge_delay_quantile_total in blast)
  then show ?thesis using hedge_delay_cases [OF _ assms(2)] by blast
qed

theorem hedge_delay_bounded_witness:
  "\<exists>d. fst (hedge_delay (\<lambda>x. x) hedge_default 0 one_sample) = Some d
    \<and> hedge_min hedge_default \<le> d \<and> d \<le> hedge_max hedge_default"
  by (rule hedge_delay_bounded) (simp_all add: f64_rounding_id hedge_default_def from_millis_def from_secs_def)

section \<open>Backoff and retry\<close>

lemma backoff_for_nat:
  "backoff_for p a = min (min (backoff p * 2 ^ min (unat a) 16) DURATION_MAX) (backoff_max p)"
  by (simp add: backoff_for_def saturating_mul_def unat_min)

lemma backoff_for_le: "backoff_for p a \<le> backoff_max p"
  by (simp add: backoff_for_nat)

lemma backoff_for_mono:
  assumes "a \<le> b"
  shows "backoff_for p a \<le> backoff_for p b"
proof -
  have "min (unat a) 16 \<le> min (unat b) 16" using assms by (auto simp: word_le_nat_alt)
  then have "backoff p * 2 ^ min (unat a) 16 \<le> backoff p * 2 ^ min (unat b) 16"
    by (intro mult_left_mono power_increasing) simp_all
  then show ?thesis unfolding backoff_for_nat by (intro min.mono order_refl)
qed

text \<open>Delays never shrink, never exceed the cap, and double until they reach it.\<close>

theorem backoff_schedule:
  assumes "a \<le> b"
  shows "backoff_for p a \<le> backoff_for p b \<and> backoff_for p b \<le> backoff_max p
    \<and> (b < 16 \<longrightarrow> backoff_for p (b + 1) = min (2 * (backoff p * 2 ^ unat b)) (min DURATION_MAX (backoff_max p)))"
  using backoff_for_mono [OF assms] backoff_for_le [of p b] unat_Suc_word [of b 16]
  by (auto simp: backoff_for_nat word_less_nat_alt min.assoc)

theorem backoff_schedule_witness:
  "backoff_for fetch_policy_default 1 \<le> backoff_for fetch_policy_default 2
    \<and> backoff_for fetch_policy_default 2 \<le> backoff_max fetch_policy_default"
  using backoff_schedule [of 1 2 fetch_policy_default] by simp

definition retry_ok :: "retry \<Rightarrow> bool" where
  "retry_ok r \<longleftrightarrow> retry_attempt r < max (attempts (retry_policy r)) 1"

lemma retry_new_ok [simp]: "retry_ok (retry_new p now)"
  by (simp add: retry_ok_def retry_new_def less_max_iff_disj)

lemma failed_retries:
  assumes "failed r e now = (Inr u, r', now')"
  shows "is_retryable e" and "retry_policy r' = retry_policy r" and "retry_deadline r' = retry_deadline r"
    and "retry_attempt r' = retry_attempt r + 1" and "retry_attempt r' < attempts (retry_policy r)"
    and "now \<le> now'" and "now' < retry_deadline r"
    and "now' \<le> now + backoff_max (retry_policy r)"
  using assms backoff_for_le [of "retry_policy r" "retry_attempt r"]
  by (auto simp: failed_def Let_def split: if_splits)

lemma failed_retry_ok: "failed r e now = (Inr u, r', now') \<Longrightarrow> retry_ok r'"
  using failed_retries [of r e now u r' now'] by (auto simp: retry_ok_def less_max_iff_disj)

lemma failed_gives_up:
  assumes "failed r e now = (Inl e', r', now')"
  shows "now' = now" and "e' = e \<or> e' = Timeout (deadline (retry_policy r))"
    and "\<not> is_retryable e \<Longrightarrow> e' = e"
  using assms by (auto simp: failed_def Let_def split: if_splits)

text \<open>The attempts left, which every retry uses up one of.\<close>

definition attempts_left :: "retry \<Rightarrow> nat" where
  "attempts_left r = unat (attempts (retry_policy r)) - unat (retry_attempt r)"

lemma failed_uses_attempt:
  assumes "failed r e now = (Inr u, r', now')" and "retry_ok r"
  shows "attempts_left r' < attempts_left r"
proof -
  note f = failed_retries [OF assms(1)]
  have "0 < attempts (retry_policy r)" using f(5) word_gt_0 by fastforce
  then have lt: "retry_attempt r < attempts (retry_policy r)"
    using assms(2) by (simp add: retry_ok_def word_less_nat_alt unat_max)
  then have "unat (retry_attempt r') = Suc (unat (retry_attempt r))"
    using f(4) unat_Suc_word by simp
  then show ?thesis using lt f(2) by (simp add: attempts_left_def word_less_nat_alt)
qed

text \<open>A rank that every retry lowers, whatever the counter started from.\<close>

definition retry_rank :: "retry \<Rightarrow> nat" where
  "retry_rank r = (if retry_attempt r = - 1 then 2 ^ 32 + 1 else 2 ^ 32 - unat (retry_attempt r))"

lemma failed_rank:
  assumes "failed r e now = (Inr u, r', now')"
  shows "retry_rank r' < retry_rank r"
proof -
  note f = failed_retries(4,5) [OF assms]
  show ?thesis
  proof (cases "retry_attempt r = - 1")
    case True
    then show ?thesis using f by (simp add: retry_rank_def)
  next
    case False
    have lt: "retry_attempt r < - 1" using False by (simp add: word_order.not_eq_extremum)
    then have u: "unat (retry_attempt r + 1) = Suc (unat (retry_attempt r))" by (rule unat_Suc_word)
    have b: "unat (retry_attempt r + 1) < 2 ^ 32" using u32_bound by simp
    have "retry_attempt r' \<noteq> - 1" using f(2) u32_bound [of "attempts (retry_policy r)"]
      by (auto simp: word_less_nat_alt unat_minus_one_word)
    then show ?thesis using False u b f(1) by (simp add: retry_rank_def)
  qed
qed

text \<open>The attempts a retry state goes through, given the errors of the attempts and the time each took.\<close>

fun attempts_made :: "retry \<Rightarrow> nanos \<Rightarrow> (nanos \<times> origin_error) list \<Rightarrow> nat" where
  "attempts_made r now [] = 0"
| "attempts_made r now ((took, e) # outcomes) =
     (case failed r e (now + took) of
        (Inl _, _, _) \<Rightarrow> 1
      | (Inr _, r', now') \<Rightarrow> Suc (attempts_made r' now' outcomes))"

lemma attempts_made_left: "retry_ok r \<Longrightarrow> attempts_made r now es \<le> max (attempts_left r) 1"
proof (induction es arbitrary: r now)
  case (Cons x es)
  obtain took e where x: "x = (took, e)" by (cases x)
  obtain v r' now' where f: "failed r e (now + took) = (v, r', now')"
    by (cases "failed r e (now + took)") auto
  show ?case
  proof (cases v)
    case (Inr u)
    note lt = failed_uses_attempt [OF f [unfolded Inr] Cons.prems]
    have ok: "retry_ok r'" by (rule failed_retry_ok [OF f [unfolded Inr]])
    have "0 < attempts_left r'"
      using failed_retries(2,5) [OF f [unfolded Inr]] by (simp add: attempts_left_def word_less_nat_alt)
    then show ?thesis using x f Inr lt Cons.IH [OF ok, of now'] by simp
  qed (use x f in simp)
qed simp

text \<open>
  A retried fetch makes at most the configured number of attempts. \<open>outcomes\<close> are the errors
  of the attempts and the time each took; \<open>attempts_made\<close> runs the retry state over them.
\<close>

theorem attempts_bounded:
  "attempts_made (retry_new p now) now outcomes \<le> max (unat (attempts p)) 1"
  using attempts_made_left [OF retry_new_ok, of p now now outcomes]
  by (simp add: attempts_left_def retry_new_def)

section \<open>Overrides facts\<close>

lemma unwrap_or_idem [simp]: "unwrap_or x (unwrap_or x d) = unwrap_or x d"
  by (simp add: unwrap_or_def split: option.splits)

lemma unwrap_or_max: "max (unwrap_or x (max (unwrap_or x a) b)) b = max (unwrap_or x a) (b :: 'a::linorder)"
  by (cases x) (auto simp: unwrap_or_def max_def)

text \<open>Applying overrides twice is applying them once, and a fetch always gets an attempt.\<close>

theorem policy_with_idempotent:
  "policy_with (policy_with p ov) ov = policy_with p ov \<and> 1 \<le> attempts (policy_with p ov)"
  by (simp add: policy_with_def unwrap_or_max split: option.splits bool.splits)

lemma policy_with_default:
  "1 \<le> attempts p \<Longrightarrow> policy_with p overrides_default = p"
  by (simp add: policy_with_def overrides_default_def unwrap_or_def max_absorb1)

lemma parse_pairs_append:
  "parse_pairs dur (xs @ ys) ov =
    (case parse_pairs dur xs ov of Inl e \<Rightarrow> Inl e | Inr ov \<Rightarrow> parse_pairs dur ys ov)"
  by (induction xs arbitrary: ov) (auto split: sum.splits)

end
