(* ===== verification/Origin.thy ===== *)
theory Origin
  imports Errors Text
begin

text \<open>
  The origin interface, \<^verbatim>\<open>nestor/src/origin.rs\<close>: object metadata, entity tag matching, the
  HTTP-style preconditions evaluated against metadata, the options of a ranged get and its
  response. A response body is a finite sequence of chunks, each with the instant from which it can
  be read, and is exhausted after the last one.

  A \<^verbatim>\<open>SystemTime\<close> is an integer of nanoseconds since the Unix epoch.
\<close>

type_synonym systime = int

section \<open>Metadata\<close>

record object_meta =
  meta_size :: u64
  meta_etag :: "bytes option"
  meta_last_modified :: "systime option"

definition whole_seconds :: "systime \<Rightarrow> u64" where
  "whole_seconds t = (if t < 0 then 0 else of_int (t div 1000000000))"

definition etag_text :: "object_meta \<Rightarrow> string option" where
  "etag_text m =
     (case meta_etag m of
        None \<Rightarrow> None
      | Some e \<Rightarrow> map_option (trim_start_matches ''W/'') (from_utf8 e))"

definition etag_matches :: "object_meta \<Rightarrow> string \<Rightarrow> bool" where
  "etag_matches m candidates =
     list_ex (\<lambda>candidate. candidate = ''*'' \<or>
         (case etag_text m of None \<Rightarrow> False | Some e \<Rightarrow> trim_start_matches ''W/'' candidate = e))
       (map trim (split_on CHR '','' candidates))"

definition modified_after :: "object_meta \<Rightarrow> systime \<Rightarrow> bool option" where
  "modified_after m instant =
     map_option (\<lambda>t. whole_seconds t > whole_seconds instant) (meta_last_modified m)"

section \<open>Preconditions\<close>

record preconditions =
  if_match :: "string option"
  if_none_match :: "string option"
  if_modified_since :: "systime option"
  if_unmodified_since :: "systime option"

definition no_preconditions :: preconditions where
  "no_preconditions =
     \<lparr>if_match = None, if_none_match = None, if_modified_since = None, if_unmodified_since = None\<rparr>"

definition preconditions_is_empty :: "preconditions \<Rightarrow> bool" where
  "preconditions_is_empty p \<longleftrightarrow> p = no_preconditions"

datatype precondition = Satisfied | PNotModified | PFailed

definition evaluate :: "preconditions \<Rightarrow> object_meta \<Rightarrow> precondition" where
  "evaluate p m =
     (if (case if_match p of Some c \<Rightarrow> \<not> etag_matches m c | None \<Rightarrow> False) then PFailed
      else if (case if_unmodified_since p of Some t \<Rightarrow> modified_after m t = Some True | None \<Rightarrow> False)
      then PFailed
      else case if_none_match p of
             Some c \<Rightarrow> if etag_matches m c then PNotModified else Satisfied
           | None \<Rightarrow>
               if (case if_modified_since p of
                     Some t \<Rightarrow> modified_after m t = Some False | None \<Rightarrow> False)
               then PNotModified else Satisfied)"

section \<open>Requests and responses\<close>

record get_options =
  opt_range :: "u64 urange option"
  opt_if_match :: "bytes option"
  opt_if_none_match :: "bytes option"

definition get_options_default :: get_options where
  "get_options_default = \<lparr>opt_range = None, opt_if_match = None, opt_if_none_match = None\<rparr>"

text \<open>A chunk of a body: the instant it is available from, and what arrives.\<close>

type_synonym chunk = "nanos \<times> (origin_error + bytes)"

record get_response =
  resp_meta :: object_meta
  resp_range :: "u64 urange"
  resp_body :: "chunk list"

text \<open>The bytes a body yields before it ends or fails.\<close>

fun body_bytes :: "chunk list \<Rightarrow> bytes" where
  "body_bytes [] = []"
| "body_bytes ((_, Inl _) # _) = []"
| "body_bytes ((_, Inr b) # cs) = b @ body_bytes cs"

section \<open>Facts\<close>

lemma etag_matches_any: "etag_matches m ''*''"
proof -
  have "trim ''*'' = ''*''" by code_simp
  then show ?thesis by (simp add: etag_matches_def)
qed

definition match_fails :: "preconditions \<Rightarrow> object_meta \<Rightarrow> bool" where
  "match_fails p m \<longleftrightarrow> (\<exists>c. if_match p = Some c \<and> \<not> etag_matches m c)"

definition changed_since :: "object_meta \<Rightarrow> systime \<Rightarrow> bool" where
  "changed_since m t \<longleftrightarrow> (\<exists>u. meta_last_modified m = Some u \<and> whole_seconds t < whole_seconds u)"

text \<open>
  The precondition rules of RFC 9110, in their order: \<^verbatim>\<open>If-Match\<close> and \<^verbatim>\<open>If-Unmodified-Since\<close>
  fail the request, \<^verbatim>\<open>If-None-Match\<close> hides \<^verbatim>\<open>If-Modified-Since\<close>.
\<close>

theorem evaluate_precedence:
  "(evaluate p m = PFailed \<longleftrightarrow>
     match_fails p m \<or> (\<exists>t. if_unmodified_since p = Some t \<and> changed_since m t))
   \<and> (evaluate p m = PNotModified \<longleftrightarrow>
     evaluate p m \<noteq> PFailed \<and>
     (case if_none_match p of
        Some c \<Rightarrow> etag_matches m c
      | None \<Rightarrow> \<exists>t u. if_modified_since p = Some t \<and> meta_last_modified m = Some u \<and> \<not> changed_since m t))"
  by (auto simp: evaluate_def match_fails_def changed_since_def modified_after_def not_less
      split: option.splits if_splits)

end
