(* ===== verification/Namespace.thy ===== *)
theory Namespace
  imports Policy Block_Size
begin

text \<open>
  Namespaces, \<^verbatim>\<open>nestor/src/namespace.rs\<close>: the consistency mode, the tunables with their builder
  methods, and the registered form. The latency histograms and the metrics of a namespace are
  part of the engine state, the origin is a parameter of it.
\<close>

datatype consistency = Immutable | Etag nanos

definition is_immutable :: "consistency \<Rightarrow> bool" where
  "is_immutable c = (case c of Immutable \<Rightarrow> True | Etag _ \<Rightarrow> False)"

definition meta_ttl :: "consistency \<Rightarrow> nanos option" where
  "meta_ttl c = (case c of Immutable \<Rightarrow> None | Etag ttl \<Rightarrow> Some ttl)"

record namespace_config =
  ns_block_size :: block_size
  fetch_window :: u32
  read_window :: u32
  ns_consistency :: consistency
  readahead :: u32
  fetch :: fetch_policy

definition namespace_config_default :: namespace_config where
  "namespace_config_default =
     \<lparr>ns_block_size = default_block_size, fetch_window = 8, read_window = 16,
      ns_consistency = Etag (from_secs 60), readahead = 8, fetch = fetch_policy_default\<rparr>"

definition with_block_size :: "block_size \<Rightarrow> namespace_config \<Rightarrow> namespace_config" where
  "with_block_size bs c = c\<lparr>ns_block_size := bs\<rparr>"

definition with_fetch_window :: "u32 \<Rightarrow> namespace_config \<Rightarrow> namespace_config" where
  "with_fetch_window blocks c = c\<lparr>fetch_window := max blocks 1\<rparr>"

definition with_read_window :: "u32 \<Rightarrow> namespace_config \<Rightarrow> namespace_config" where
  "with_read_window blocks c = c\<lparr>read_window := max blocks 1\<rparr>"

definition with_consistency :: "consistency \<Rightarrow> namespace_config \<Rightarrow> namespace_config" where
  "with_consistency m c = c\<lparr>ns_consistency := m\<rparr>"

definition with_readahead :: "u32 \<Rightarrow> namespace_config \<Rightarrow> namespace_config" where
  "with_readahead blocks c = c\<lparr>readahead := blocks\<rparr>"

definition with_fetch :: "fetch_policy \<Rightarrow> namespace_config \<Rightarrow> namespace_config" where
  "with_fetch p c = c\<lparr>fetch := p\<rparr>"

record namespace =
  namespace_name :: string
  namespace_config :: namespace_config

definition namespace_new :: "string \<Rightarrow> namespace" where
  "namespace_new name = \<lparr>namespace_name = name, namespace_config = namespace_config_default\<rparr>"

record namespace_state =
  ns_id :: u32
  ns_name :: string
  ns_config :: namespace_config

definition namespace_state_new :: "u32 \<Rightarrow> namespace \<Rightarrow> namespace_state" where
  "namespace_state_new i n = \<lparr>ns_id = i, ns_name = namespace_name n, ns_config = namespace_config n\<rparr>"

definition ns_meta_ttl :: "namespace_state \<Rightarrow> nanos option" where
  "ns_meta_ttl ns = meta_ttl (ns_consistency (ns_config ns))"

abbreviation bs_of :: "namespace_state \<Rightarrow> block_size" where
  "bs_of ns \<equiv> ns_block_size (ns_config ns)"

abbreviation consistency_of :: "namespace_state \<Rightarrow> consistency" where
  "consistency_of ns \<equiv> ns_consistency (ns_config ns)"

section \<open>Well-formed configurations\<close>

text \<open>What the builder methods keep: a valid block size and windows of at least one block.\<close>

definition valid_config :: "namespace_config \<Rightarrow> bool" where
  "valid_config c \<longleftrightarrow>
     valid_block_size (ns_block_size c) \<and> 1 \<le> fetch_window c \<and> 1 \<le> read_window c"

lemma valid_config_default: "valid_config namespace_config_default"
  by (simp add: valid_config_def namespace_config_default_def valid_block_size_def
      default_block_size_def word_le_nat_alt)

lemma valid_config_builders:
  assumes "valid_config c"
  shows "valid_block_size bs \<Longrightarrow> valid_config (with_block_size bs c)"
    and "valid_config (with_fetch_window n c)" and "valid_config (with_read_window n c)"
    and "valid_config (with_consistency m c)" and "valid_config (with_readahead n c)"
    and "valid_config (with_fetch p c)"
  using assms
  by (simp_all add: valid_config_def with_block_size_def with_fetch_window_def with_read_window_def
      with_consistency_def with_readahead_def with_fetch_def)

end
