(* ===== verification/Key.thy ===== *)
theory Key
  imports Namespace Origin
begin

text \<open>
  Cache keys and values, \<^verbatim>\<open>nestor/src/key.rs\<close>: the block with its metadata, the object and block
  keys, their encoding for the disk tier, and the content tag that names a version of an object.
  The seeded \<^verbatim>\<open>ahash\<close> hasher is a parameter: \<open>ah_bytes\<close> is the hash of a byte string, \<open>ah_u64\<close> that
  of an integer.

  A reader is the list of bytes still to come; \<^const>\<open>None\<close> is the \<^verbatim>\<open>io_error\<close> of a \<^verbatim>\<open>read_exact\<close> on
  too few bytes.
\<close>

section \<open>Little-endian integers\<close>

definition put_le :: "nat \<Rightarrow> 'a::len word \<Rightarrow> bytes" where
  "put_le n w = map (\<lambda>i. ucast (drop_bit (8 * i) w)) [0..<n]"

definition get_le :: "bytes \<Rightarrow> 'a::len word" where
  "get_le bs = foldr (\<lambda>b acc. ucast b + 256 * acc) bs 0"

definition read_exact :: "nat \<Rightarrow> bytes \<Rightarrow> (bytes \<times> bytes) option" where
  "read_exact n r = (if length r < n then None else Some (take n r, drop n r))"

section \<open>Blocks\<close>

record block =
  block_meta :: object_meta
  block_data :: bytes

definition block_new :: "object_meta \<Rightarrow> bytes \<Rightarrow> block" where
  "block_new m d = \<lparr>block_meta = m, block_data = d\<rparr>"

definition block_empty :: "object_meta \<Rightarrow> block" where
  "block_empty m = block_new m []"

text \<open>\<^verbatim>\<open>Block::weight\<close>; the size of the struct itself is a parameter.\<close>

definition block_weight :: "nat \<Rightarrow> block \<Rightarrow> nat" where
  "block_weight size_of b =
     size_of + length (block_data b) + (case meta_etag (block_meta b) of None \<Rightarrow> 0 | Some e \<Rightarrow> length e)"

definition META_HEADER :: nat where "META_HEADER = 8 + 8 + 2"

definition unix_millis :: "systime \<Rightarrow> u64" where
  "unix_millis t = (if t < 0 then 0 else of_int (t div 1000000))"

definition block_encode :: "block \<Rightarrow> bytes" where
  "block_encode b =
     (let etag = (case meta_etag (block_meta b) of None \<Rightarrow> [] | Some e \<Rightarrow> e)
      in put_le 8 (meta_size (block_meta b))
       @ put_le 8 (case meta_last_modified (block_meta b) of None \<Rightarrow> 0 | Some t \<Rightarrow> unix_millis t)
       @ put_le 2 (of_nat (length etag) :: u16)
       @ etag
       @ put_le 4 (of_nat (length (block_data b)) :: u32)
       @ block_data b)"

definition block_decode :: "bytes \<Rightarrow> (block \<times> bytes) option" where
  "block_decode r =
     Option.bind (read_exact META_HEADER r) (\<lambda>(header, r).
     let sz = get_le (take 8 header) :: u64;
         modified = get_le (take 8 (drop 8 header)) :: u64;
         etag_len = unat (get_le (drop 16 header) :: u16)
     in Option.bind
          (if etag_len > 0 then map_option (\<lambda>(e, r). (Some e, r)) (read_exact etag_len r)
           else Some (None, r)) (\<lambda>(etag, r).
        Option.bind (read_exact 4 r) (\<lambda>(len, r).
        Option.bind (read_exact (unat (get_le len :: u32)) r) (\<lambda>(data, r).
          Some (\<lparr>block_meta = \<lparr>meta_size = sz, meta_etag = etag,
                   meta_last_modified = (if modified > 0 then Some (int (unat modified) * 1000000) else None)\<rparr>,
                 block_data = data\<rparr>, r)))))"

definition block_estimated_size :: "block \<Rightarrow> nat" where
  "block_estimated_size b =
     META_HEADER + (case meta_etag (block_meta b) of None \<Rightarrow> 0 | Some e \<Rightarrow> length e) + 4
     + length (block_data b)"

section \<open>Keys\<close>

record object_key =
  ok_namespace :: u32
  ok_object :: bytes

definition object_key_new :: "u32 \<Rightarrow> string \<Rightarrow> object_key" where
  "object_key_new ns object = \<lparr>ok_namespace = ns, ok_object = as_bytes object\<rparr>"

record block_key =
  bk_namespace :: u32
  bk_tag :: u64
  bk_index :: u32
  bk_object :: bytes

definition block_key_new :: "object_key \<Rightarrow> u64 \<Rightarrow> u32 \<Rightarrow> block_key" where
  "block_key_new k tag i =
     \<lparr>bk_namespace = ok_namespace k, bk_tag = tag, bk_index = i, bk_object = ok_object k\<rparr>"

definition KEY_HEADER :: nat where "KEY_HEADER = 4 + 8 + 4 + 4"

definition key_encode :: "block_key \<Rightarrow> bytes" where
  "key_encode k =
     put_le 4 (bk_namespace k) @ put_le 8 (bk_tag k) @ put_le 4 (bk_index k)
     @ put_le 4 (of_nat (length (bk_object k)) :: u32) @ bk_object k"

definition key_decode :: "bytes \<Rightarrow> (block_key \<times> bytes) option" where
  "key_decode r =
     Option.bind (read_exact KEY_HEADER r) (\<lambda>(header, r).
     let ns = get_le (take 4 header);
         tag = get_le (take 8 (drop 4 header));
         i = get_le (take 4 (drop 12 header));
         len = unat (get_le (drop 16 header) :: u32)
     in Option.bind (read_exact len r) (\<lambda>(object, r).
          Some (\<lparr>bk_namespace = ns, bk_tag = tag, bk_index = i, bk_object = object\<rparr>, r)))"

definition key_estimated_size :: "block_key \<Rightarrow> nat" where
  "key_estimated_size k = KEY_HEADER + length (bk_object k)"

section \<open>Tags\<close>

record tag_hash =
  ah_bytes :: "bytes \<Rightarrow> u64"
  ah_u64 :: "u64 \<Rightarrow> u64"

definition content_tag :: "tag_hash \<Rightarrow> bytes option \<Rightarrow> u64 \<Rightarrow> u64" where
  "content_tag h etag sz = max (case etag of Some e \<Rightarrow> ah_bytes h e | None \<Rightarrow> ah_u64 h sz) 1"

definition IMMUTABLE_TAG :: u64 where "IMMUTABLE_TAG = 0"

definition block_tag :: "tag_hash \<Rightarrow> consistency \<Rightarrow> object_meta \<Rightarrow> u64" where
  "block_tag h c m = (if is_immutable c then IMMUTABLE_TAG else content_tag h (meta_etag m) (meta_size m))"

section \<open>Encoding facts\<close>

lemma put_le_length [simp]: "length (put_le n w) = n"
  by (simp add: put_le_def)

lemma get_le_Nil [simp]: "get_le [] = 0"
  by (simp add: get_le_def)

lemma get_le_Cons [simp]: "get_le (b # bs) = ucast b + 256 * get_le bs"
  by (simp add: get_le_def)

lemma put_le_Suc: "put_le (Suc n) w = ucast w # put_le n (drop_bit 8 w)"
  by (simp add: put_le_def upt_conv_Cons map_Suc_upt [symmetric] comp_def drop_bit_drop_bit
      add.commute del: upt_Suc)

lemma get_put_le_take: "get_le (put_le n w) = take_bit (8 * n) (w :: 'a::len word)"
proof (induction n arbitrary: w)
  case 0
  then show ?case by (simp add: put_le_def)
next
  case (Suc n)
  let ?t = "take_bit (8 * Suc n) w"
  have "push_bit 8 (drop_bit 8 ?t) + take_bit 8 ?t = ?t" by (rule bits_ident)
  moreover have "drop_bit 8 ?t = take_bit (8 * n) (drop_bit 8 w)" by (simp add: drop_bit_take_bit)
  moreover have "take_bit 8 ?t = take_bit 8 w" by (simp add: take_bit_take_bit)
  moreover have "ucast (ucast w :: u8) = take_bit 8 w" by (rule bit_eqI) (auto simp: bit_simps)
  ultimately have "ucast (ucast w :: u8) + 256 * take_bit (8 * n) (drop_bit 8 w) = ?t"
    by (simp add: push_bit_eq_mult mult.commute add.commute)
  then show ?case by (simp add: put_le_Suc Suc)
qed

lemma get_put_le: "LENGTH('a) \<le> 8 * n \<Longrightarrow> get_le (put_le n w) = (w :: 'a::len word)"
  by (simp add: get_put_le_take take_bit_word_eq_self)

lemma read_exact_append [simp]: "length xs = n \<Longrightarrow> read_exact n (xs @ ys) = Some (xs, ys)"
  by (simp add: read_exact_def)

lemma read_exact_Some: "read_exact n r = Some (a, b) \<longleftrightarrow> r = a @ b \<and> length a = n"
  by (auto simp: read_exact_def)

lemma key_encode_length [simp]: "length (key_encode k) = key_estimated_size k"
  by (simp add: key_encode_def key_estimated_size_def KEY_HEADER_def)

lemma key_decode_encode:
  assumes "length (bk_object k) < 2 ^ 32"
  shows "key_decode (key_encode k @ rest) = Some (k, rest)"
proof -
  let ?h = "put_le 4 (bk_namespace k) @ put_le 8 (bk_tag k) @ put_le 4 (bk_index k)
     @ put_le 4 (of_nat (length (bk_object k)) :: u32)"
  have "key_encode k @ rest = ?h @ (bk_object k @ rest)" by (simp add: key_encode_def)
  moreover have "read_exact KEY_HEADER (?h @ (bk_object k @ rest)) = Some (?h, bk_object k @ rest)"
    by (rule read_exact_append) (simp add: KEY_HEADER_def)
  moreover have "unat (of_nat (length (bk_object k)) :: u32) = length (bk_object k)"
    using assms by (simp add: unat_of_nat_lt)
  ultimately show ?thesis by (simp add: key_decode_def get_put_le)
qed

text \<open>A block key survives its encoding, whatever follows it in the reader.\<close>

theorem key_roundtrip:
  "length (bk_object k) < 2 ^ 32 \<Longrightarrow> key_decode (key_encode k @ rest) = Some (k, rest)"
  by (rule key_decode_encode)

theorem key_roundtrip_witness:
  "key_decode (key_encode \<lparr>bk_namespace = 1, bk_tag = 2, bk_index = 3, bk_object = [97, 98]\<rparr> @ [9]) =
    Some (\<lparr>bk_namespace = 1, bk_tag = 2, bk_index = 3, bk_object = [97, 98]\<rparr>, [9])"
  by (rule key_roundtrip) simp

text \<open>Encodings of distinct keys are distinct and none is a prefix of another.\<close>

lemma key_encode_prefix_free:
  assumes "length (bk_object k) < 2 ^ 32" and "length (bk_object k') < 2 ^ 32"
    and "prefix (key_encode k) (key_encode k')"
  shows "k = k'"
  using assms key_decode_encode [of k] key_decode_encode [of k' "[]"] by (auto elim!: prefixE)

text \<open>What the disk tier keeps of a block: the modification time to the millisecond, and no empty tag.\<close>

definition persisted :: "block \<Rightarrow> block" where
  "persisted b =
     \<lparr>block_meta =
        \<lparr>meta_size = meta_size (block_meta b),
         meta_etag = (if meta_etag (block_meta b) = Some [] then None else meta_etag (block_meta b)),
         meta_last_modified =
           (let m = (case meta_last_modified (block_meta b) of None \<Rightarrow> 0 | Some t \<Rightarrow> unix_millis t)
            in if m > 0 then Some (int (unat m) * 1000000) else None)\<rparr>,
      block_data = block_data b\<rparr>"

definition etag_bytes :: "block \<Rightarrow> bytes" where
  "etag_bytes b = (case meta_etag (block_meta b) of None \<Rightarrow> [] | Some e \<Rightarrow> e)"

lemma block_encode_length [simp]: "length (block_encode b) = block_estimated_size b"
  by (simp add: block_encode_def block_estimated_size_def META_HEADER_def split: option.splits)

lemma block_decode_header:
  "block_decode (put_le 8 sz @ put_le 8 (m :: u64) @ put_le 2 (n :: u16) @ r) =
     Option.bind
       (if unat n > 0 then map_option (\<lambda>(e, r). (Some e, r)) (read_exact (unat n) r) else Some (None, r))
       (\<lambda>(etag, r). Option.bind (read_exact 4 r) (\<lambda>(len, r).
        Option.bind (read_exact (unat (get_le len :: u32)) r) (\<lambda>(data, r).
          Some (\<lparr>block_meta = \<lparr>meta_size = sz, meta_etag = etag,
                   meta_last_modified = (if m > 0 then Some (int (unat m) * 1000000) else None)\<rparr>,
                 block_data = data\<rparr>, r))))"
proof -
  let ?h = "put_le 8 sz @ put_le 8 m @ put_le 2 n"
  have "read_exact META_HEADER (?h @ r) = Some (?h, r)"
    by (rule read_exact_append) (simp add: META_HEADER_def)
  then show ?thesis by (simp add: block_decode_def get_put_le Let_def)
qed

lemma block_encode_etag:
  "block_encode b = put_le 8 (meta_size (block_meta b))
     @ put_le 8 (case meta_last_modified (block_meta b) of None \<Rightarrow> 0 | Some t \<Rightarrow> unix_millis t)
     @ put_le 2 (of_nat (length (etag_bytes b)) :: u16)
     @ etag_bytes b @ put_le 4 (of_nat (length (block_data b)) :: u32) @ block_data b"
  by (simp add: block_encode_def etag_bytes_def Let_def)

lemma block_decode_encode:
  assumes "length (etag_bytes b) < 2 ^ 16" and "length (block_data b) < 2 ^ 32"
  shows "block_decode (block_encode b @ rest) = Some (persisted b, rest)"
proof -
  let ?e = "etag_bytes b" and ?d = "block_data b"
  have e: "unat (of_nat (length ?e) :: u16) = length ?e" using assms(1) by (simp add: unat_of_nat_lt)
  have d: "unat (of_nat (length ?d) :: u32) = length ?d" using assms(2) by (simp add: unat_of_nat_lt)
  have et: "(if meta_etag (block_meta b) = Some [] then None else meta_etag (block_meta b)) =
      (if length ?e > 0 then Some ?e else None)"
    by (simp add: etag_bytes_def split: option.splits)
  have "block_encode b @ rest = put_le 8 (meta_size (block_meta b))
     @ put_le 8 (case meta_last_modified (block_meta b) of None \<Rightarrow> 0 | Some t \<Rightarrow> unix_millis t)
     @ put_le 2 (of_nat (length ?e) :: u16)
     @ (?e @ (put_le 4 (of_nat (length ?d) :: u32) @ (?d @ rest)))"
    by (simp add: block_encode_etag)
  then show ?thesis
    by (simp only: block_decode_header e) (simp add: get_put_le d persisted_def et Let_def)
qed

text \<open>
  C21: a block whose entity tag is shorter than 64 KiB and whose data is shorter than 4 GiB decodes from
  its encoding as what is kept of it: the same size, data and tag, but for an empty tag, which comes
  back as none, and the modification time cut to the millisecond, or none at all when it is less than
  a millisecond after the epoch.
\<close>

theorem block_roundtrip:
  "length (etag_bytes b) < 2 ^ 16 \<Longrightarrow> length (block_data b) < 2 ^ 32 \<Longrightarrow>
    block_decode (block_encode b @ rest) = Some (persisted b, rest)"
  by (rule block_decode_encode)

theorem block_roundtrip_witness:
  "block_decode (block_encode \<lparr>block_meta = \<lparr>meta_size = 5, meta_etag = Some [34, 97, 34],
       meta_last_modified = Some 1700000000123456789\<rparr>, block_data = [1, 2]\<rparr> @ [7]) =
   Some (\<lparr>block_meta = \<lparr>meta_size = 5, meta_etag = Some [34, 97, 34],
       meta_last_modified = Some 1700000000123000000\<rparr>, block_data = [1, 2]\<rparr>, [7])"
  by (subst block_roundtrip) (simp_all add: etag_bytes_def persisted_def unix_millis_def)

lemma persisted_idem: "persisted (persisted b) = persisted b"
proof -
  have "unix_millis (int (unat m) * 1000000) = m" for m by (simp add: unix_millis_def)
  then show ?thesis by (auto simp: persisted_def Let_def split: option.splits)
qed

text \<open>
  C22: the two length bytes of the entity tag wrap. A tag of 65536 zero bytes is written with
  length 0, and the block reads back with no data at all.
\<close>

theorem oversized_etag_loses_data:
  assumes "meta_etag (block_meta b) = Some (replicate 65536 0)"
  shows "\<exists>rest. block_decode (block_encode b) =
    Some (\<lparr>block_meta = (block_meta (persisted b))\<lparr>meta_etag := None\<rparr>, block_data = []\<rparr>, rest)"
proof -
  let ?d = "block_data b"
  let ?r = "replicate 65532 0 @ put_le 4 (of_nat (length ?d) :: u32) @ ?d"
  have "replicate 65536 (0 :: u8) = replicate 4 0 @ replicate 65532 0"
    by (simp flip: replicate_add)
  moreover have "replicate 4 (0 :: u8) = put_le 4 (0 :: u32)"
    by (simp add: put_le_def map_replicate_const)
  ultimately have e: "etag_bytes b = put_le 4 (0 :: u32) @ replicate 65532 0"
    using assms by (simp only: etag_bytes_def option.case)
  have l: "(of_nat (length (etag_bytes b)) :: u16) = 0" by (simp add: e)
  have "block_encode b = put_le 8 (meta_size (block_meta b))
     @ put_le 8 (case meta_last_modified (block_meta b) of None \<Rightarrow> 0 | Some t \<Rightarrow> unix_millis t)
     @ put_le 2 (0 :: u16) @ (put_le 4 (0 :: u32) @ ?r)"
    unfolding block_encode_etag l by (simp only: e append_assoc)
  then show ?thesis
    by (simp only: block_decode_header) (simp add: get_put_le persisted_def read_exact_def Let_def)
qed

theorem oversized_etag_loses_data_witness:
  "\<exists>rest. block_decode (block_encode \<lparr>block_meta = \<lparr>meta_size = 3, meta_etag = Some (replicate 65536 0),
      meta_last_modified = None\<rparr>, block_data = [1, 2, 3]\<rparr>) =
    Some (\<lparr>block_meta = \<lparr>meta_size = 3, meta_etag = None, meta_last_modified = None\<rparr>, block_data = []\<rparr>, rest)"
  using oversized_etag_loses_data [of "\<lparr>block_meta = \<lparr>meta_size = 3, meta_etag = Some (replicate 65536 0),
      meta_last_modified = None\<rparr>, block_data = [1, 2, 3]\<rparr>"]
  by (simp add: persisted_def)

section \<open>Tag facts\<close>

lemma content_tag_not_immutable [simp]: "content_tag h e sz \<noteq> IMMUTABLE_TAG"
proof -
  have "(1 :: u64) \<le> content_tag h e sz" by (simp add: content_tag_def)
  then show ?thesis by (auto simp: IMMUTABLE_TAG_def word_le_nat_alt)
qed

lemma block_tag_immutable_iff: "block_tag h c m = IMMUTABLE_TAG \<longleftrightarrow> is_immutable c"
  by (simp add: block_tag_def)

end
