(* ===== verification/Store_Contract.thy ===== *)
theory Store_Contract
  imports Prelude
begin

text \<open>
  The cache library \<^verbatim>\<open>foyer\<close> is not part of the repository. What it holds is a function of the
  operations performed on it, so the state of a cache is the log of those operations, newest
  first, and the library is a parameter that answers a lookup from the log. What the sources rely
  on is that an answer is the value last inserted under the key and not removed since: a cache may
  forget, at any time, but not invent. The locale states this as a contract that the block cache,
  the metadata cache, the read-ahead table and the read counters each satisfy.
\<close>

datatype ('k, 'v) cache_op =
    CGet 'k
  | CContains 'k
  | CInsert 'k 'v
  | CInsertInMem 'k 'v \<comment> \<open>an insertion with \<open>Location::InMem\<close>\<close>
  | CMutate 'k 'v \<comment> \<open>an atomic update of the value of a resident entry\<close>
  | CEnqueue 'k \<comment> \<open>the resident entry is handed to the disk tier\<close>
  | CRemove 'k
  | CResize nat

type_synonym ('k, 'v) cache_log = "('k, 'v) cache_op list"

text \<open>The value last inserted under a key and not removed since.\<close>

fun latest :: "('k, 'v) cache_log \<Rightarrow> 'k \<Rightarrow> 'v option" where
  "latest [] k = None"
| "latest (CInsert k' v # h) k = (if k = k' then Some v else latest h k)"
| "latest (CInsertInMem k' v # h) k = (if k = k' then Some v else latest h k)"
| "latest (CMutate k' v # h) k =
     (if k = k' then (case latest h k of None \<Rightarrow> None | Some _ \<Rightarrow> Some v) else latest h k)"
| "latest (CRemove k' # h) k = (if k = k' then None else latest h k)"
| "latest (CGet _ # h) k = latest h k"
| "latest (CContains _ # h) k = latest h k"
| "latest (CEnqueue _ # h) k = latest h k"
| "latest (CResize _ # h) k = latest h k"

lemma latest_fun:
  "latest (CInsert k v # h) = (latest h)(k \<mapsto> v)"
  "latest (CInsertInMem k v # h) = (latest h)(k \<mapsto> v)"
  "latest (CRemove k # h) = (latest h)(k := None)"
  "latest (CGet k # h) = latest h" "latest (CContains k # h) = latest h"
  "latest (CEnqueue k # h) = latest h" "latest (CResize n # h) = latest h"
  by (simp_all add: fun_eq_iff)

section \<open>The in-memory cache\<close>

text \<open>
  \<^verbatim>\<open>foyer::Cache\<close> as \<^verbatim>\<open>lru\<close> of \<^verbatim>\<open>nestor/src/cache.rs\<close> builds it. \<open>ans\<close> is what the library answers.
\<close>

type_synonym ('k, 'v) lru_answer = "('k, 'v) cache_log \<Rightarrow> 'k \<Rightarrow> 'v option"

definition lru_get :: "('k, 'v) lru_answer \<Rightarrow> ('k, 'v) cache_log \<Rightarrow> 'k \<Rightarrow> 'v option \<times> ('k, 'v) cache_log" where
  "lru_get ans h k = (ans h k, CGet k # h)"

definition lru_insert :: "('k, 'v) cache_log \<Rightarrow> 'k \<Rightarrow> 'v \<Rightarrow> ('k, 'v) cache_log" where
  "lru_insert h k v = CInsert k v # h"

definition lru_remove :: "('k, 'v) cache_log \<Rightarrow> 'k \<Rightarrow> ('k, 'v) cache_log" where
  "lru_remove h k = CRemove k # h"

definition honest :: "('k, 'v) lru_answer \<Rightarrow> bool" where
  "honest ans \<longleftrightarrow> (\<forall>h k v. ans h k = Some v \<longrightarrow> latest h k = Some v)"

lemma honest_latest: "honest latest"
  by (simp add: honest_def)

section \<open>The contract\<close>

text \<open>
  \<open>p\<close> are the parameters of the store and \<open>ok p\<close> what is assumed of them; \<open>held\<close> is what the store
  may still answer, and \<open>reads_as u v\<close> that a value stored as \<open>u\<close> may be read back as \<open>v\<close>.
\<close>

locale store_contract =
  fixes ok :: "'p \<Rightarrow> bool"
    and get :: "'p \<Rightarrow> 's \<Rightarrow> 'k \<Rightarrow> 'v option \<times> 's"
    and insert :: "'s \<Rightarrow> 'k \<Rightarrow> 'v \<Rightarrow> 's"
    and remove :: "'s \<Rightarrow> 'k \<Rightarrow> 's"
    and held :: "'s \<Rightarrow> 'k \<Rightarrow> 'v option"
    and reads_as :: "'v \<Rightarrow> 'v \<Rightarrow> bool"
  assumes get_sound: "ok p \<Longrightarrow> get p s k = (Some v, s') \<Longrightarrow> \<exists>u. held s k = Some u \<and> reads_as u v"
    and get_held: "held (snd (get p s k)) = held s"
    and insert_held: "held (insert s k v) = (held s)(k \<mapsto> v)"
    and remove_held: "held (remove s k) = (held s)(k := None)"
begin

definition all_held :: "('k \<Rightarrow> 'v \<Rightarrow> bool) \<Rightarrow> 's \<Rightarrow> bool" where
  "all_held P s \<longleftrightarrow> (\<forall>k v. held s k = Some v \<longrightarrow> P k v)"

lemma all_held_get: "all_held P (snd (get p s k)) \<longleftrightarrow> all_held P s"
  by (simp add: all_held_def get_held)

lemma all_held_insert: "all_held P s \<Longrightarrow> P k v \<Longrightarrow> all_held P (insert s k v)"
  by (simp add: all_held_def insert_held)

lemma all_held_remove: "all_held P s \<Longrightarrow> all_held P (remove s k)"
  by (simp add: all_held_def remove_held)

lemma get_all_held:
  assumes "ok p" and "all_held P s" and "\<And>u. P k u \<Longrightarrow> reads_as u v \<Longrightarrow> P k v"
    and "fst (get p s k) = Some v"
  shows "P k v"
  using assms get_sound [of p s k v "snd (get p s k)"] by (auto simp: all_held_def prod_eq_iff)

lemma get_after_remove: "ok p \<Longrightarrow> fst (get p (remove s k) k) = None"
  using get_sound [of p "remove s k" k _ "snd (get p (remove s k) k)"]
  by (cases "fst (get p (remove s k) k)") (auto simp: remove_held prod_eq_iff)

lemma get_after_insert:
  "ok p \<Longrightarrow> fst (get p (insert s k v) k) = None \<or> (\<exists>u. fst (get p (insert s k v) k) = Some u \<and> reads_as v u)"
  using get_sound [of p "insert s k v" k _ "snd (get p (insert s k v) k)"]
  by (cases "fst (get p (insert s k v) k)") (auto simp: insert_held prod_eq_iff)

end

interpretation lru: store_contract honest lru_get lru_insert lru_remove latest "(=)"
  by unfold_locales (auto simp: honest_def lru_get_def lru_insert_def lru_remove_def latest_fun)

end
