(* ===== verification/Cache.thy ===== *)
theory Cache
  imports Store_Contract Key
begin

text \<open>
  The block cache, \<^verbatim>\<open>nestor/src/cache.rs\<close>: the configuration with its derived sizes, the hybrid
  memory and disk cache behind \<^verbatim>\<open>Blocks\<close>, and the read counters that admit a block to disk on its
  second read. The hybrid cache of \<^verbatim>\<open>foyer\<close> is the parameter \<^typ>\<open>'a\<close> record \<open>hybrid\<close> below; a value
  read back from its disk tier has gone through the encoding of \<^verbatim>\<open>key.rs\<close>.
\<close>

section \<open>Configuration\<close>

definition MIB :: u64 where "MIB = 1024 * 1024"
definition REUSED_READS :: u8 where "REUSED_READS = 2"
definition MIN_LRU_SHARD_ENTRIES :: u64 where "MIN_LRU_SHARD_ENTRIES = 1024"
definition MAX_LRU_SHARDS :: u64 where "MAX_LRU_SHARDS = 8"
definition MIN_SHARD_BYTES :: u64 where "MIN_SHARD_BYTES = 32 * MIB"
definition MAX_BUFFER_POOL :: u64 where "MAX_BUFFER_POOL = 256 * MIB"

datatype disk_io = Auto | Uring | Psync
datatype disk_admission = Fetched | Evicted | Reused
datatype hybrid_policy = WriteOnInsertion | WriteOnEviction
datatype compression = NoCompression | Lz4 | Zstd
datatype recover_mode = RecoverNone | RecoverQuiet | RecoverStrict

record disk_config =
  disk_path :: string
  disk_capacity :: u64
  admission :: disk_admission
  region_size :: u64
  flushers :: u64
  reclaimers :: u64
  buffer_pool_size :: "u64 option"
  direct_io :: bool
  disk_compression :: compression
  disk_recover :: recover_mode
  disk_io :: disk_io
  cfg_runtime_threads :: "u64 option"

definition disk_config_new :: "string \<Rightarrow> u64 \<Rightarrow> disk_config" where
  "disk_config_new path cap =
     \<lparr>disk_path = path, disk_capacity = cap, admission = Fetched, region_size = 64 * MIB,
      flushers = 2, reclaimers = 2, buffer_pool_size = None, direct_io = True,
      disk_compression = NoCompression, disk_recover = RecoverQuiet, disk_io = Auto, cfg_runtime_threads = None\<rparr>"

definition runtime_threads :: "disk_config \<Rightarrow> u64" where
  "runtime_threads d = unwrap_or (cfg_runtime_threads d) (flushers d + reclaimers d)"

definition buffer_pool :: "disk_config \<Rightarrow> u64" where
  "buffer_pool d =
     (case buffer_pool_size d of
        Some n \<Rightarrow> n
      | None \<Rightarrow> max (min (disk_capacity d div 16) MAX_BUFFER_POOL) (flushers d * region_size d))"

record cache_config =
  cache_memory :: u64
  cache_shards :: u64
  cache_disk :: "disk_config option"

text \<open>\<^verbatim>\<open>default_shards\<close>; \<open>cores\<close> is the available parallelism.\<close>

definition default_shards :: "u64 \<Rightarrow> u64 \<Rightarrow> u64" where
  "default_shards cores memory = max (min (cores * 2) (memory div MIN_SHARD_BYTES)) 1"

definition cache_config_memory :: "u64 \<Rightarrow> u64 \<Rightarrow> cache_config" where
  "cache_config_memory cores memory =
     \<lparr>cache_memory = memory, cache_shards = default_shards cores memory, cache_disk = None\<rparr>"

definition with_disk :: "disk_config \<Rightarrow> cache_config \<Rightarrow> cache_config" where
  "with_disk d c = c\<lparr>cache_disk := Some d\<rparr>"

definition with_shards :: "u64 \<Rightarrow> cache_config \<Rightarrow> cache_config" where
  "with_shards n c = c\<lparr>cache_shards := max n 1\<rparr>"

fun admission_policy :: "disk_admission option \<Rightarrow> hybrid_policy" where
  "admission_policy (Some Fetched) = WriteOnInsertion"
| "admission_policy (Some Reused) = WriteOnInsertion"
| "admission_policy (Some Evicted) = WriteOnEviction"
| "admission_policy None = WriteOnEviction"

text \<open>The number of entries the read counters keep.\<close>

definition tracked :: "u64 \<Rightarrow> block_size \<Rightarrow> u64" where
  "tracked memory bs = 2 * memory div of_nat (block_usize bs)"

text \<open>The capacity and the shard count \<^verbatim>\<open>lru\<close> gives a bookkeeping cache.\<close>

definition lru_capacity :: "u64 \<Rightarrow> u64" where
  "lru_capacity cap = max cap 1"

definition lru_shards :: "u64 \<Rightarrow> u64" where
  "lru_shards cap = clamp (lru_capacity cap div MIN_LRU_SHARD_ENTRIES) 1 MAX_LRU_SHARDS"

text \<open>\<^verbatim>\<open>io_engine\<close>; whether the kernel offers \<^verbatim>\<open>io_uring\<close> is the flag.\<close>

definition io_engine :: "bool \<Rightarrow> disk_io \<Rightarrow> string + disk_io" where
  "io_engine uring io =
     (case io of
        Psync \<Rightarrow> Inr Psync
      | Uring \<Rightarrow> if uring then Inr Uring else Inl ''io_uring unavailable''
      | Auto \<Rightarrow> if uring then Inr Uring else Inr Psync)"

text \<open>
  What \<^verbatim>\<open>hybrid\<close> asks of \<^verbatim>\<open>foyer\<close>: the memory tier and, with a disk, the device, the engine that writes it and
  the runtime its tasks run on. The answers of the library and of the system are the record \<open>foyer_env\<close>:
  opening the device, starting the runtime, whether there is \<^verbatim>\<open>io_uring\<close>, and building the cache.
\<close>

record disk_settings =
  dk_path :: string
  dk_capacity :: u64
  dk_direct :: bool
  dk_region_size :: u64
  dk_flushers :: u64
  dk_reclaimers :: u64
  dk_buffer_pool :: u64
  dk_indexer_shards :: u64
  dk_recover :: recover_mode
  dk_compression :: compression
  dk_threads :: u64
  dk_io :: disk_io

record hybrid_settings =
  hs_policy :: hybrid_policy
  hs_memory :: u64
  hs_shards :: u64
  hs_disk :: "disk_settings option"

record foyer_env =
  fo_device :: "string \<Rightarrow> u64 \<Rightarrow> bool \<Rightarrow> string + unit"
  fo_runtime :: "u64 \<Rightarrow> string + unit"
  fo_uring :: bool
  fo_build :: "hybrid_settings \<Rightarrow> string + unit"

definition hybrid_disk :: "foyer_env \<Rightarrow> cache_config \<Rightarrow> disk_config \<Rightarrow> string + disk_settings" where
  "hybrid_disk F cfg d =
     (case fo_device F (disk_path d) (disk_capacity d) (direct_io d) of
        Inl err \<Rightarrow> Inl err
      | Inr _ \<Rightarrow>
          if runtime_threads d = 0 then Inl ''disk runtime_threads must be at least 1''
          else case fo_runtime F (runtime_threads d) of
                 Inl err \<Rightarrow> Inl err
               | Inr _ \<Rightarrow>
                   (case io_engine (fo_uring F) (disk_io d) of
                      Inl err \<Rightarrow> Inl err
                    | Inr io \<Rightarrow>
                        Inr \<lparr>dk_path = disk_path d, dk_capacity = disk_capacity d, dk_direct = direct_io d,
                             dk_region_size = region_size d, dk_flushers = flushers d, dk_reclaimers = reclaimers d,
                             dk_buffer_pool = buffer_pool d, dk_indexer_shards = max (cache_shards cfg) 64,
                             dk_recover = disk_recover d, dk_compression = disk_compression d,
                             dk_threads = runtime_threads d, dk_io = io\<rparr>))"

definition hybrid_open :: "foyer_env \<Rightarrow> cache_config \<Rightarrow> string + hybrid_settings" where
  "hybrid_open F cfg =
     (let base = \<lparr>hs_policy = admission_policy (map_option admission (cache_disk cfg)), hs_memory = cache_memory cfg,
                  hs_shards = cache_shards cfg, hs_disk = None\<rparr>;
          built = (\<lambda>h. case fo_build F h of Inl err \<Rightarrow> Inl err | Inr _ \<Rightarrow> Inr h)
      in case cache_disk cfg of
           None \<Rightarrow> built base
         | Some d \<Rightarrow>
             (case hybrid_disk F cfg d of
                Inl err \<Rightarrow> Inl err
              | Inr dk \<Rightarrow> built (base\<lparr>hs_disk := Some dk\<rparr>)))"

text \<open>An open disk tier has a runtime with a thread, and at least as many indexer shards as the memory tier.\<close>

lemma hybrid_open_settings:
  assumes "hybrid_open F cfg = Inr h"
  shows "hs_memory h = cache_memory cfg" and "hs_disk h = None \<longleftrightarrow> cache_disk cfg = None"
    and "hs_disk h = Some dk \<Longrightarrow> 0 < dk_threads dk \<and> cache_shards cfg \<le> dk_indexer_shards dk"
proof -
  have pos: "0 < runtime_threads d" if "runtime_threads d \<noteq> 0" for d using that by (simp add: word_gt_0)
  show "hs_memory h = cache_memory cfg" and "hs_disk h = None \<longleftrightarrow> cache_disk cfg = None"
    and "hs_disk h = Some dk \<Longrightarrow> 0 < dk_threads dk \<and> cache_shards cfg \<le> dk_indexer_shards dk"
    using assms pos by (auto simp: hybrid_open_def hybrid_disk_def Let_def split: option.splits sum.splits if_splits)
qed

section \<open>Read counters\<close>

type_synonym reads_log = "(u64, u8) cache_log"

definition reads_record :: "(u64, u8) lru_answer \<Rightarrow> reads_log \<Rightarrow> u64 \<Rightarrow> u8 \<times> reads_log" where
  "reads_record ans h k =
     (case lru_get ans h k of
        (None, h) \<Rightarrow> (1, lru_insert h k 1)
      | (Some n, h) \<Rightarrow> if n = 255 then (n, h) else (n + 1, CMutate k (n + 1) # h))"

definition reads_keep :: "(u64, u8) lru_answer \<Rightarrow> reads_log \<Rightarrow> u64 \<Rightarrow> reads_log" where
  "reads_keep ans h k =
     (case lru_get ans h k of
        (Some n, h) \<Rightarrow> CMutate k (max n REUSED_READS) # h
      | (None, h) \<Rightarrow> lru_insert h k REUSED_READS)"

definition reads_forget :: "reads_log \<Rightarrow> u64 \<Rightarrow> reads_log" where
  "reads_forget h k = lru_remove h k"

text \<open>The counter of a block: what a read makes of it.\<close>

lemma reads_record_counts:
  assumes "honest ans" and "reads_record ans h k = (n, h')"
  shows "n = 1 \<or> (\<exists>m. latest h k = Some m \<and> (n = m + 1 \<or> m = 255 \<and> n = 255))"
    and "latest h' k = Some n"
proof -
  have "ans h k = Some m \<Longrightarrow> latest h k = Some m" for m using assms(1) by (auto simp: honest_def)
  then show "n = 1 \<or> (\<exists>m. latest h k = Some m \<and> (n = m + 1 \<or> m = 255 \<and> n = 255))"
    and "latest h' k = Some n"
    using assms(2)
    by (auto simp: reads_record_def lru_get_def lru_insert_def split: option.splits if_splits)
qed

section \<open>Blocks\<close>

datatype source = Outer | Memory | Disk

text \<open>
  The hybrid cache: what it answers from the log of its operations, the hash of a key, and whether
  the entry of the memory tier shares its buffer with the block at hand (\<^verbatim>\<open>as_ptr\<close> equality).
\<close>

record hybrid =
  hy_get :: "(block_key, block) cache_log \<Rightarrow> block_key \<Rightarrow> (block \<times> source) option"
  hy_contains :: "(block_key, block) cache_log \<Rightarrow> block_key \<Rightarrow> bool"
  hy_memory_get :: "(block_key, block) cache_log \<Rightarrow> block_key \<Rightarrow> block option"
  hy_same_buffer :: "(block_key, block) cache_log \<Rightarrow> block_key \<Rightarrow> block \<Rightarrow> bool"
  hy_hash :: "block_key \<Rightarrow> u64"
  hy_reads :: "(u64, u8) lru_answer"

record blocks =
  blocks_log :: "(block_key, block) cache_log"
  blocks_reads :: "reads_log option"
  blocks_reads_capacity :: u64
  blocks_memory_capacity :: u64

definition blocks_open :: "cache_config \<Rightarrow> block_size \<Rightarrow> blocks" where
  "blocks_open cfg smallest =
     (let reused = (case cache_disk cfg of None \<Rightarrow> False | Some d \<Rightarrow> admission d = Reused)
      in \<lparr>blocks_log = [], blocks_reads = (if reused then Some [] else None),
          blocks_reads_capacity = lru_capacity (tracked (cache_memory cfg) smallest),
          blocks_memory_capacity = cache_memory cfg\<rparr>)"

definition blocks_track :: "block_size \<Rightarrow> blocks \<Rightarrow> blocks" where
  "blocks_track bs b =
     (case blocks_reads b of
        None \<Rightarrow> b
      | Some h \<Rightarrow>
          let cap = tracked (blocks_memory_capacity b) bs
          in if cap > blocks_reads_capacity b
             then b\<lparr>blocks_reads := Some (CResize (unat cap) # h), blocks_reads_capacity := cap\<rparr>
             else b)"

definition blocks_get :: "hybrid \<Rightarrow> blocks \<Rightarrow> block_key \<Rightarrow> block option \<times> blocks" where
  "blocks_get H b k =
     (let b' = b\<lparr>blocks_log := CGet k # blocks_log b\<rparr>
      in case hy_get H (blocks_log b) k of
           None \<Rightarrow> (None, b')
         | Some (v, src) \<Rightarrow>
             (Some v,
              case blocks_reads b of
                Some h \<Rightarrow>
                  if src = Disk then b'\<lparr>blocks_reads := Some (reads_keep (hy_reads H) h (hy_hash H k))\<rparr>
                  else b'
              | None \<Rightarrow> b'))"

definition blocks_contains :: "hybrid \<Rightarrow> blocks \<Rightarrow> block_key \<Rightarrow> bool \<times> blocks" where
  "blocks_contains H b k =
     (hy_contains H (blocks_log b) k, b\<lparr>blocks_log := CContains k # blocks_log b\<rparr>)"

definition blocks_insert :: "blocks \<Rightarrow> block_key \<Rightarrow> block \<Rightarrow> blocks" where
  "blocks_insert b k v =
     b\<lparr>blocks_log :=
         (case blocks_reads b of
            Some _ \<Rightarrow> CInsertInMem k v # blocks_log b
          | None \<Rightarrow> CInsert k v # blocks_log b)\<rparr>"

definition blocks_record_read :: "hybrid \<Rightarrow> blocks \<Rightarrow> block_key \<Rightarrow> block \<Rightarrow> bool \<times> blocks" where
  "blocks_record_read H b k v =
     (case blocks_reads b of
        None \<Rightarrow> (False, b)
      | Some h \<Rightarrow>
          (case reads_record (hy_reads H) h (hy_hash H k) of
             (n, h) \<Rightarrow>
               let b = b\<lparr>blocks_reads := Some h\<rparr>
               in if n \<noteq> REUSED_READS then (False, b)
                  else let log = blocks_log b; b = b\<lparr>blocks_log := CGet k # log\<rparr>
                       in case hy_memory_get H log k of
                            None \<Rightarrow> (False, b)
                          | Some _ \<Rightarrow>
                              if \<not> hy_same_buffer H log k v then (False, b)
                              else (True, b\<lparr>blocks_log := CEnqueue k # blocks_log b\<rparr>)))"

definition blocks_remove :: "hybrid \<Rightarrow> blocks \<Rightarrow> block_key \<Rightarrow> blocks" where
  "blocks_remove H b k =
     b\<lparr>blocks_reads := map_option (\<lambda>h. reads_forget h (hy_hash H k)) (blocks_reads b),
       blocks_log := CRemove k # blocks_log b\<rparr>"

section \<open>The contract of the block cache\<close>

definition disk_image :: "block \<Rightarrow> block option" where
  "disk_image b = map_option fst (block_decode (block_encode b))"

definition block_reads_as :: "block \<Rightarrow> block \<Rightarrow> bool" where
  "block_reads_as u v \<longleftrightarrow> v = u \<or> disk_image u = Some v"

text \<open>
  What is assumed of the hybrid cache: it answers with the block last inserted under the key, or
  with what decoding its encoding gives.
\<close>

definition honest_hybrid :: "hybrid \<Rightarrow> bool" where
  "honest_hybrid H \<longleftrightarrow>
     (\<forall>log k v src. hy_get H log k = Some (v, src) \<longrightarrow>
        (\<exists>u. latest log k = Some u \<and> block_reads_as u v))"

definition blocks_held :: "blocks \<Rightarrow> block_key \<Rightarrow> block option" where
  "blocks_held b = latest (blocks_log b)"

lemma blocks_get_log [simp]: "blocks_log (snd (blocks_get H b k)) = CGet k # blocks_log b"
  by (auto simp: blocks_get_def Let_def split: option.splits prod.splits)

interpretation blocks_store: store_contract honest_hybrid blocks_get blocks_insert "blocks_remove H"
  blocks_held block_reads_as
  by unfold_locales
    (auto simp: honest_hybrid_def blocks_held_def blocks_insert_def blocks_remove_def latest_fun,
     auto simp: blocks_get_def Let_def split: option.splits prod.splits)

lemma blocks_contains_held [simp, frame]: "blocks_held (snd (blocks_contains H b k)) = blocks_held b"
  by (simp add: blocks_contains_def blocks_held_def latest_fun)

lemma blocks_record_read_held [simp, frame]:
  "blocks_held (snd (blocks_record_read H b k v)) = blocks_held b"
  by (auto simp: blocks_record_read_def blocks_held_def latest_fun Let_def split: option.splits prod.splits)

lemma blocks_track_held [simp, frame]: "blocks_held (blocks_track bs b) = blocks_held b"
  by (auto simp: blocks_track_def blocks_held_def latest_fun Let_def split: option.splits)

text \<open>
  Under the \<^verbatim>\<open>reused\<close> admission a block goes to disk on the read after the first one counted, from
  the memory tier, and then its counter is past the mark.
\<close>

theorem record_read_admits_on_reuse:
  assumes "honest (hy_reads H)" and "blocks_record_read H b k v = (True, b')"
  shows "\<exists>h h'. blocks_reads b = Some h \<and> latest h (hy_hash H k) = Some 1
    \<and> blocks_reads b' = Some h' \<and> latest h' (hy_hash H k) = Some 2
    \<and> hy_memory_get H (blocks_log b) k \<noteq> None
    \<and> blocks_log b' = CEnqueue k # CGet k # blocks_log b"
proof -
  obtain h where h: "blocks_reads b = Some h" using assms(2)
    by (auto simp: blocks_record_read_def split: option.splits)
  obtain n h' where r: "reads_record (hy_reads H) h (hy_hash H k) = (n, h')" by fastforce
  have n: "n = 2" and rest: "b' = b\<lparr>blocks_reads := Some h', blocks_log := CEnqueue k # CGet k # blocks_log b\<rparr>"
      "hy_memory_get H (blocks_log b) k \<noteq> None"
    using assms(2) h r
    by (auto simp: blocks_record_read_def REUSED_READS_def Let_def split: option.splits if_splits)
  note c = reads_record_counts [OF assms(1) r]
  have "latest h (hy_hash H k) = Some 1"
  proof -
    obtain m where m: "latest h (hy_hash H k) = Some m" "n = m + 1 \<or> m = 255 \<and> n = 255"
      using c(1) n by auto
    have "m = n - 1" using m(2) n by auto
    then show ?thesis using m(1) n by simp
  qed
  then show ?thesis using h rest c(2) n by simp
qed

theorem record_read_admits_on_reuse_witness:
  "\<forall>k v. \<exists>b' h'. blocks_record_read
      \<lparr>hy_get = \<lambda>_ _. None, hy_contains = \<lambda>_ _. False, hy_memory_get = latest, hy_same_buffer = \<lambda>_ _ _. True,
       hy_hash = \<lambda>_. 0, hy_reads = latest\<rparr>
      \<lparr>blocks_log = [CInsertInMem k v], blocks_reads = Some [CInsert 0 1], blocks_reads_capacity = 1,
       blocks_memory_capacity = 1\<rparr> k v = (True, b')
    \<and> blocks_reads b' = Some h' \<and> latest h' 0 = Some 2"
proof (intro allI)
  fix k v
  let ?H = "\<lparr>hy_get = \<lambda>_ _. None, hy_contains = \<lambda>_ _. False, hy_memory_get = latest, hy_same_buffer = \<lambda>_ _ _. True,
       hy_hash = \<lambda>_. 0, hy_reads = latest\<rparr>"
  let ?b = "\<lparr>blocks_log = [CInsertInMem k v], blocks_reads = Some [CInsert 0 1], blocks_reads_capacity = 1,
       blocks_memory_capacity = 1\<rparr>"
  obtain b' where r: "blocks_record_read ?H ?b k v = (True, b')"
    by (simp add: blocks_record_read_def reads_record_def lru_get_def REUSED_READS_def)
  moreover have "\<exists>h'. blocks_reads b' = Some h' \<and> latest h' 0 = Some 2"
    using record_read_admits_on_reuse [OF _ r] by (auto simp: honest_latest)
  ultimately show "\<exists>b' h'. blocks_record_read ?H ?b k v = (True, b')
      \<and> blocks_reads b' = Some h' \<and> latest h' 0 = Some 2" by blast
qed

text \<open>A block that went to disk and back has its data and its size.\<close>

lemma block_reads_as_data:
  assumes "block_reads_as u v" and "length (etag_bytes u) < 2 ^ 16" and "length (block_data u) < 2 ^ 32"
  shows "block_data v = block_data u" and "meta_size (block_meta v) = meta_size (block_meta u)"
    and "length (etag_bytes v) < 2 ^ 16"
proof -
  have "block_decode (block_encode u @ []) = Some (persisted u, [])"
    by (rule block_decode_encode [OF assms(2,3)])
  then have v: "v = u \<or> v = persisted u" using assms(1) by (auto simp: block_reads_as_def disk_image_def)
  then show "block_data v = block_data u" and "meta_size (block_meta v) = meta_size (block_meta u)"
    by (auto simp: persisted_def)
  show "length (etag_bytes v) < 2 ^ 16"
    using v assms(2) by (auto simp: persisted_def etag_bytes_def split: option.splits if_splits)
qed

end
