(* ===== verification/Meta_Cache.thy ===== *)
theory Meta_Cache
  imports Cache
begin

text \<open>
  The metadata cache, \<^verbatim>\<open>nestor/src/meta.rs\<close>, and the detection of sequential reads,
  \<^verbatim>\<open>nestor/src/readahead.rs\<close>. Both are \<^verbatim>\<open>lru\<close> caches keyed by object.
\<close>

section \<open>Metadata\<close>

record meta_entry =
  entry_meta :: object_meta
  entry_at :: nanos

datatype lookup_result = Fresh object_meta | StaleMeta object_meta | Missing

type_synonym meta_cache = "(object_key, meta_entry) cache_log"
type_synonym meta_answer = "(object_key, meta_entry) lru_answer"

definition meta_lookup :: "meta_answer \<Rightarrow> nanos \<Rightarrow> meta_cache \<Rightarrow> object_key \<Rightarrow> nanos option \<Rightarrow> lookup_result \<times> meta_cache" where
  "meta_lookup ans now c k ttl =
     (case lru_get ans c k of
        (None, c) \<Rightarrow> (Missing, c)
      | (Some entry, c) \<Rightarrow>
          (case ttl of
             Some t \<Rightarrow> if now - entry_at entry > t then (StaleMeta (entry_meta entry), c)
                      else (Fresh (entry_meta entry), c)
           | None \<Rightarrow> (Fresh (entry_meta entry), c)))"

definition meta_get :: "meta_answer \<Rightarrow> nanos \<Rightarrow> meta_cache \<Rightarrow> object_key \<Rightarrow> nanos option \<Rightarrow> object_meta option \<times> meta_cache" where
  "meta_get ans now c k ttl =
     (case meta_lookup ans now c k ttl of
        (Fresh m, c) \<Rightarrow> (Some m, c)
      | (StaleMeta _, c) \<Rightarrow> (None, c)
      | (Missing, c) \<Rightarrow> (None, c))"

definition meta_any :: "meta_answer \<Rightarrow> meta_cache \<Rightarrow> object_key \<Rightarrow> object_meta option \<times> meta_cache" where
  "meta_any ans c k = (case lru_get ans c k of (e, c) \<Rightarrow> (map_option entry_meta e, c))"

definition meta_put :: "nanos \<Rightarrow> meta_cache \<Rightarrow> object_key \<Rightarrow> object_meta \<Rightarrow> meta_cache" where
  "meta_put now c k m = lru_insert c k \<lparr>entry_meta = m, entry_at = now\<rparr>"

definition meta_remove :: "meta_cache \<Rightarrow> object_key \<Rightarrow> meta_cache" where
  "meta_remove c k = lru_remove c k"

section \<open>Read-ahead\<close>

type_synonym readahead_table = "(object_key, u64) cache_log"

definition readahead_observe ::
  "(object_key, u64) lru_answer \<Rightarrow> readahead_table \<Rightarrow> object_key \<Rightarrow> u64 urange \<Rightarrow> bool \<times> readahead_table" where
  "readahead_observe ans c k r =
     (case lru_get ans c k of
        (previous, c) \<Rightarrow> (previous = Some (range_start r), lru_insert c k (range_end r)))"

definition readahead_forget :: "readahead_table \<Rightarrow> object_key \<Rightarrow> readahead_table" where
  "readahead_forget c k = lru_remove c k"

section \<open>Facts\<close>

lemma meta_lookup_latest [simp, frame]:
  "latest (snd (meta_lookup ans now c k ttl)) = latest c"
  "latest (snd (meta_get ans now c k ttl)) = latest c"
  "latest (snd (meta_any ans c k)) = latest c"
  by (auto simp: meta_get_def meta_lookup_def meta_any_def lru_get_def latest_fun
      split: option.splits lookup_result.splits prod.splits)

lemma meta_put_latest [simp]: "latest (meta_put now c k m) = (latest c)(k \<mapsto> \<lparr>entry_meta = m, entry_at = now\<rparr>)"
  by (simp add: meta_put_def lru.insert_held)

lemma meta_remove_latest [simp]: "latest (meta_remove c k) = (latest c)(k := None)"
  by (simp add: meta_remove_def lru.remove_held)

text \<open>Metadata comes from the cache: fresh entries are within their time to live.\<close>

lemma meta_lookup_found:
  assumes "honest ans"
  shows "fst (meta_lookup ans now c k ttl) = Fresh m \<Longrightarrow>
      \<exists>e. latest c k = Some e \<and> entry_meta e = m \<and> (\<forall>t. ttl = Some t \<longrightarrow> now - entry_at e \<le> t)"
    and "fst (meta_lookup ans now c k ttl) = StaleMeta m \<Longrightarrow>
      \<exists>e t. latest c k = Some e \<and> entry_meta e = m \<and> ttl = Some t \<and> t < now - entry_at e"
    and "fst (meta_any ans c k) = Some m \<Longrightarrow> \<exists>e. latest c k = Some e \<and> entry_meta e = m"
  using assms
  by (fastforce simp: meta_lookup_def meta_any_def lru_get_def honest_def
      split: option.splits prod.splits if_splits)+

text \<open>
  A read is sequential exactly when the table still holds the end of the previous read of the
  object and it is where this one starts; after an invalidation it never is.
\<close>

theorem readahead_sequential:
  assumes "honest ans"
  shows "(fst (readahead_observe ans c k r) \<longrightarrow> latest c k = Some (range_start r))
    \<and> latest (snd (readahead_observe ans c k r)) k = Some (range_end r)
    \<and> \<not> fst (readahead_observe ans (readahead_forget c k) k r)"
proof -
  have "fst (readahead_observe ans c k r) \<Longrightarrow> latest c k = Some (range_start r)"
    using assms by (auto simp: readahead_observe_def lru_get_def honest_def)
  moreover have "latest (snd (readahead_observe ans c k r)) k = Some (range_end r)"
    by (simp add: readahead_observe_def lru_get_def lru_insert_def)
  moreover have "ans (lru_remove c k) k = None"
    using lru.get_after_remove [OF assms, of c k] by (simp add: lru_get_def)
  then have "\<not> fst (readahead_observe ans (readahead_forget c k) k r)"
    by (simp add: readahead_observe_def readahead_forget_def lru_get_def)
  ultimately show ?thesis by blast
qed

theorem readahead_sequential_witness:
  "fst (readahead_observe latest (snd (readahead_observe latest [] (object_key_new 1 ''a'') (Range 0 10)))
      (object_key_new 1 ''a'') (Range 10 20))
   \<and> latest (snd (readahead_observe latest [] (object_key_new 1 ''a'') (Range 0 10))) (object_key_new 1 ''a'') = Some 10"
  using readahead_sequential [OF honest_latest, of "[]" "object_key_new 1 ''a''" "Range 0 10"]
  by (simp add: readahead_observe_def lru_get_def lru_insert_def)

end
