(* ===== verification/Inflight.thy ===== *)
theory Inflight
  imports Key "HOL-Library.Multiset"
begin

text \<open>
  Request coalescing, \<^verbatim>\<open>nestor/src/inflight.rs\<close>. The in-flight map is an array of locked hash maps
  from block keys to the receiving end of a \<^verbatim>\<open>watch\<close> channel; the first caller to register a key
  owns the slot, later callers wait on its channel. A channel is its current value and whether its
  sender is still there. The hasher of the map is the parameter \<open>hash\<close>.
\<close>

unbundle bit_operations_syntax

type_synonym block_result = "nestor_error + block"

section \<open>Model\<close>

record channel =
  chan_value :: "block_result option"
  chan_open :: bool

record inflight =
  shards :: "(block_key \<Rightarrow> nat option) list"
  channels :: "channel list"

record slot =
  slot_key :: block_key
  slot_chan :: nat
  slot_resolved :: bool

text \<open>A handle is the receiver: the index of its channel.\<close>

type_synonym slot_handle = nat

datatype registration = Owner slot slot_handle | Waiter slot_handle

text \<open>\<^verbatim>\<open>usize::next_power_of_two\<close>.\<close>

fun next_power_of_two_from :: "nat \<Rightarrow> nat \<Rightarrow> nat \<Rightarrow> nat" where
  "next_power_of_two_from 0 p n = p"
| "next_power_of_two_from (Suc fuel) p n = (if n \<le> p then p else next_power_of_two_from fuel (2 * p) n)"

definition next_power_of_two :: "nat \<Rightarrow> nat" where
  "next_power_of_two n = next_power_of_two_from n 1 n"

definition inflight_new :: "nat \<Rightarrow> inflight" where
  "inflight_new n =
     \<lparr>shards = replicate (next_power_of_two (max n 1)) Map.empty, channels = []\<rparr>"

definition shard :: "(block_key \<Rightarrow> u64) \<Rightarrow> inflight \<Rightarrow> block_key \<Rightarrow> nat" where
  "shard hash s k = unat (hash k AND of_nat (length (shards s) - 1))"

definition channel_new :: "block_result option \<Rightarrow> bool \<Rightarrow> inflight \<Rightarrow> nat \<times> inflight" where
  "channel_new v op s =
     (length (channels s), s\<lparr>channels := channels s @ [\<lparr>chan_value = v, chan_open = op\<rparr>]\<rparr>)"

text \<open>\<^verbatim>\<open>SlotHandle::resolved\<close>: the sender is dropped at once, the value stays.\<close>

definition handle_resolved :: "block_result \<Rightarrow> inflight \<Rightarrow> slot_handle \<times> inflight" where
  "handle_resolved r s = channel_new (Some r) False s"

definition register :: "(block_key \<Rightarrow> u64) \<Rightarrow> block_key \<Rightarrow> inflight \<Rightarrow> registration \<times> inflight" where
  "register hash k s =
     (let i = shard hash s k
      in case (shards s ! i) k of
           Some rx \<Rightarrow> (Waiter rx, s)
         | None \<Rightarrow>
             (case channel_new None True s of
                (c, s) \<Rightarrow>
                  (Owner \<lparr>slot_key = k, slot_chan = c, slot_resolved = False\<rparr> c,
                   s\<lparr>shards := (shards s)[i := (shards s ! i)(k \<mapsto> c)]\<rparr>)))"

definition inflight_remove :: "(block_key \<Rightarrow> u64) \<Rightarrow> block_key \<Rightarrow> inflight \<Rightarrow> inflight" where
  "inflight_remove hash k s =
     (let i = shard hash s k in s\<lparr>shards := (shards s)[i := (shards s ! i)(k := None)]\<rparr>)"

definition send_replace :: "nat \<Rightarrow> block_result \<Rightarrow> inflight \<Rightarrow> inflight" where
  "send_replace c r s = s\<lparr>channels := (channels s)[c := (channels s ! c)\<lparr>chan_value := Some r\<rparr>]\<rparr>"

definition close_sender :: "nat \<Rightarrow> inflight \<Rightarrow> inflight" where
  "close_sender c s = s\<lparr>channels := (channels s)[c := (channels s ! c)\<lparr>chan_open := False\<rparr>]\<rparr>"

definition settle :: "(block_key \<Rightarrow> u64) \<Rightarrow> block_result \<Rightarrow> slot \<Rightarrow> inflight \<Rightarrow> slot \<times> inflight" where
  "settle hash r sl s =
     (if slot_resolved sl then (sl, s)
      else (sl\<lparr>slot_resolved := True\<rparr>,
            send_replace (slot_chan sl) r (inflight_remove hash (slot_key sl) s)))"

text \<open>\<^verbatim>\<open>Drop for Slot\<close>, with the sender that goes with it.\<close>

definition slot_drop :: "(block_key \<Rightarrow> u64) \<Rightarrow> slot \<Rightarrow> inflight \<Rightarrow> inflight" where
  "slot_drop hash sl s =
     (case settle hash (Inl Cancelled) sl s of (sl, s) \<Rightarrow> close_sender (slot_chan sl) s)"

text \<open>\<^verbatim>\<open>Slot::resolve\<close> takes the slot, which is dropped when it returns.\<close>

definition slot_resolve :: "(block_key \<Rightarrow> u64) \<Rightarrow> block_result \<Rightarrow> slot \<Rightarrow> inflight \<Rightarrow> inflight" where
  "slot_resolve hash r sl s = (case settle hash r sl s of (sl, s) \<Rightarrow> slot_drop hash sl s)"

text \<open>\<^verbatim>\<open>SlotHandle::wait\<close>: \<^const>\<open>None\<close> while it has to wait.\<close>

definition wait_slot :: "slot_handle \<Rightarrow> inflight \<Rightarrow> block_result option" where
  "wait_slot c s =
     (case chan_value (channels s ! c) of
        Some r \<Rightarrow> Some r
      | None \<Rightarrow> if chan_open (channels s ! c) then None else Some (Inl Cancelled))"

definition inflight_len :: "inflight \<Rightarrow> nat" where
  "inflight_len s = sum_list (map (\<lambda>m. card (dom m)) (shards s))"

section \<open>The map behind the shards\<close>

definition sharded :: "inflight \<Rightarrow> bool" where
  "sharded s \<longleftrightarrow> (\<exists>k. length (shards s) = 2 ^ k \<and> k \<le> 64)"

definition lookup :: "(block_key \<Rightarrow> u64) \<Rightarrow> inflight \<Rightarrow> block_key \<Rightarrow> nat option" where
  "lookup hash s k = (shards s ! shard hash s k) k"

lemma next_power_of_two_from_power: "\<exists>k \<le> fuel. next_power_of_two_from fuel p n = p * 2 ^ k"
proof (induction fuel arbitrary: p)
  case (Suc fuel)
  then obtain k where "k \<le> fuel" "next_power_of_two_from fuel (2 * p) n = 2 * p * 2 ^ k" by blast
  then show ?case by (auto intro: exI [of _ 0] exI [of _ "Suc k"])
qed simp

lemma next_power_of_two_ge: "n \<le> p * 2 ^ fuel \<Longrightarrow> n \<le> next_power_of_two_from fuel p n"
  by (induction fuel arbitrary: p) (auto simp: mult.assoc mult.commute)

lemma next_power_of_two_spec: "n \<le> next_power_of_two n \<and> (\<exists>k. next_power_of_two n = 2 ^ k)"
proof -
  have "n \<le> 1 * 2 ^ n" using less_exp [of n] by simp
  then show ?thesis unfolding next_power_of_two_def
    using next_power_of_two_ge [of n 1 n] next_power_of_two_from_power [of n 1 n] by auto
qed

lemma shard_lt:
  assumes "sharded s"
  shows "shard hash s k < length (shards s)"
proof -
  obtain j where j: "length (shards s) = 2 ^ j" "j \<le> 64" using assms by (auto simp: sharded_def)
  have "(of_nat (2 ^ j - 1) :: u64) = mask j" by (simp add: mask_eq_exp_minus_1 of_nat_diff)
  then have "hash k AND of_nat (length (shards s) - 1) = take_bit j (hash k)"
    unfolding j(1) by (simp only: take_bit_eq_mask)
  then have "shard hash s k = unat (take_bit j (hash k))" by (simp only: shard_def)
  also have "\<dots> < 2 ^ j" using j(2) by (simp only: unsigned_take_bit_eq) simp
  finally show ?thesis using j by simp
qed

lemma shards_update_lookup:
  assumes "sharded s"
  shows "lookup hash (s\<lparr>shards := (shards s)[shard hash s k := (shards s ! shard hash s k)(k := v)]\<rparr>)
    = (lookup hash s)(k := v)"
proof -
  let ?i = "shard hash s k"
  let ?s = "s\<lparr>shards := (shards s)[?i := (shards s ! ?i)(k := v)]\<rparr>"
  have same: "shard hash ?s k' = shard hash s k'" for k' by (simp add: shard_def)
  have "lookup hash ?s k' = ((lookup hash s)(k := v)) k'" for k'
    using shard_lt [OF assms, of hash k] by (auto simp: lookup_def same nth_list_update)
  then show ?thesis by blast
qed

lemma sharded_shards: "length (shards s') = length (shards s) \<Longrightarrow> sharded s \<Longrightarrow> sharded s'"
  by (simp add: sharded_def)

lemma channels_lookup [simp, frame]:
  "lookup hash (s\<lparr>channels := cs\<rparr>) = lookup hash s" "sharded (s\<lparr>channels := cs\<rparr>) = sharded s"
  by (simp_all add: lookup_def shard_def sharded_def fun_eq_iff)

lemma send_close_frame [simp, frame]:
  "lookup hash (send_replace c r s) = lookup hash s" "sharded (send_replace c r s) = sharded s"
  "lookup hash (close_sender c s) = lookup hash s" "sharded (close_sender c s) = sharded s"
  by (simp_all add: send_replace_def close_sender_def)

lemma remove_lookup [simp]:
  "sharded s \<Longrightarrow> lookup hash (inflight_remove hash k s) = (lookup hash s)(k := None)"
  "sharded (inflight_remove hash k s) = sharded s"
  "channels (inflight_remove hash k s) = channels s"
  by (simp_all add: inflight_remove_def Let_def shards_update_lookup) (simp add: sharded_def)

lemma register_spec:
  assumes "sharded s"
  shows "lookup hash s k = Some c \<Longrightarrow> register hash k s = (Waiter c, s)"
    and "lookup hash s k = None \<Longrightarrow>
      \<exists>s'. register hash k s =
             (Owner \<lparr>slot_key = k, slot_chan = length (channels s), slot_resolved = False\<rparr> (length (channels s)), s')
        \<and> lookup hash s' = (lookup hash s)(k \<mapsto> length (channels s)) \<and> sharded s'
        \<and> channels s' = channels s @ [\<lparr>chan_value = None, chan_open = True\<rparr>]"
proof -
  show "register hash k s = (Waiter c, s)" if "lookup hash s k = Some c"
    using that by (simp add: register_def lookup_def Let_def)
  assume n: "lookup hash s k = None"
  let ?s = "s\<lparr>channels := channels s @ [\<lparr>chan_value = None, chan_open = True\<rparr>]\<rparr>"
  let ?i = "shard hash s k"
  let ?s' = "?s\<lparr>shards := (shards ?s)[?i := (shards ?s ! ?i)(k \<mapsto> length (channels s))]\<rparr>"
  have i: "shard hash ?s k = ?i" by (simp add: shard_def)
  have "lookup hash ?s' = (lookup hash ?s)(k \<mapsto> length (channels s))"
    using shards_update_lookup [of ?s hash k "Some (length (channels s))"] assms i by simp
  moreover have "sharded ?s'" using assms by (simp add: sharded_def)
  ultimately show "\<exists>s'. register hash k s =
             (Owner \<lparr>slot_key = k, slot_chan = length (channels s), slot_resolved = False\<rparr> (length (channels s)), s')
        \<and> lookup hash s' = (lookup hash s)(k \<mapsto> length (channels s)) \<and> sharded s'
        \<and> channels s' = channels s @ [\<lparr>chan_value = None, chan_open = True\<rparr>]"
    using n by (intro exI [of _ ?s']) (simp add: register_def lookup_def channel_new_def Let_def)
qed

section \<open>The contract of a slot table\<close>

text \<open>
  What the fetcher relies on. \<open>table\<close> says which key is in flight on which channel, \<open>seen\<close> what a
  waiter on a channel sees, \<open>width\<close> is the next channel. \<open>reg\<close> answers whether the caller owns the
  fetch and on which channel its result will appear; \<open>res\<close> settles the slot of a key.
\<close>

locale slot_table =
  fixes good :: "'s \<Rightarrow> bool"
    and table :: "'s \<Rightarrow> 'k \<Rightarrow> nat option"
    and seen :: "'s \<Rightarrow> nat \<Rightarrow> 'r option"
    and width :: "'s \<Rightarrow> nat"
    and reg :: "'k \<Rightarrow> 's \<Rightarrow> bool \<times> nat \<times> 's"
    and res :: "'r \<Rightarrow> 'k \<Rightarrow> nat \<Rightarrow> 's \<Rightarrow> 's"
  assumes reg_waits: "good s \<Longrightarrow> table s k = Some c \<Longrightarrow> reg k s = (False, c, s)"
    and reg_owns: "good s \<Longrightarrow> table s k = None \<Longrightarrow>
      \<exists>s'. reg k s = (True, width s, s') \<and> good s' \<and> table s' = (table s)(k \<mapsto> width s)
        \<and> width s' = Suc (width s) \<and> (\<forall>c < width s. seen s' c = seen s c) \<and> seen s' (width s) = None"
    and res_settles: "good s \<Longrightarrow> table s k = Some c \<Longrightarrow>
      good (res r k c s) \<and> table (res r k c s) = (table s)(k := None) \<and> width (res r k c s) = width s
        \<and> (\<forall>d < width s. seen (res r k c s) d = (if d = c then Some r else seen s d))"
    and table_pending: "good s \<Longrightarrow> table s k = Some c \<Longrightarrow> c < width s \<and> seen s c = None"
    and table_inj: "good s \<Longrightarrow> table s k = Some c \<Longrightarrow> table s k' = Some c \<Longrightarrow> k = k'"
begin

text \<open>A use of the table: a registration, or the settlement of a key in flight.\<close>

fun use :: "'k \<times> 'r option \<Rightarrow> 's \<Rightarrow> 's" where
  "use (k, None) s = snd (snd (reg k s))"
| "use (k, Some r) s = (case table s k of Some c \<Rightarrow> res r k c s | None \<Rightarrow> s)"

lemma use_good: "good s \<Longrightarrow> good (use u s)"
proof (cases u)
  case (Pair k r)
  assume g: "good s"
  show ?thesis
  proof (cases r)
    case None
    then show ?thesis using Pair g reg_owns [OF g, of k] reg_waits [OF g, of k]
      by (cases "table s k") auto
  next
    case (Some v)
    then show ?thesis using Pair g res_settles [OF g, of k] by (cases "table s k") auto
  qed
qed

lemma uses_good: "good s \<Longrightarrow> good (fold use us s)"
  by (induction us arbitrary: s) (auto simp: use_good)

lemma use_width: "good s \<Longrightarrow> width s \<le> width (use u s)"
  using reg_owns [of s "fst u"] reg_waits [of s "fst u"] res_settles [of s "fst u"]
  by (cases u; cases "snd u"; cases "table s (fst u)") auto

text \<open>A waiter that has seen a result goes on seeing it.\<close>

lemma use_seen:
  assumes "good s" and "c < width s" and "seen s c = Some r"
  shows "seen (use u s) c = Some r"
proof (cases u)
  case (Pair k v)
  show ?thesis
  proof (cases "table s k")
    case None
    then show ?thesis using Pair assms reg_owns [OF assms(1) None] by (cases v) auto
  next
    case (Some d)
    have "d \<noteq> c" using table_pending [OF assms(1) Some] assms(3) by auto
    then show ?thesis using Pair Some assms reg_waits [OF assms(1) Some] res_settles [OF assms(1) Some]
      by (cases v) auto
  qed
qed

lemma uses_seen:
  assumes "good s" and "c < width s" and "seen s c = Some r"
  shows "seen (fold use us s) c = Some r"
  using assms
proof (induction us arbitrary: s)
  case (Cons u us)
  have "c < width (use u s)" using Cons.prems(2) use_width [OF Cons.prems(1), of u] by linarith
  then show ?case using Cons use_good use_seen by simp
qed simp

text \<open>
  While a key is in flight every caller gets the same channel, and the settlement reaches all of
  them.
\<close>

lemma in_flight_shared:
  assumes "good s" and "table s k = Some c"
    and "\<forall>u \<in> set us. fst u = k \<longrightarrow> snd u = None"
  shows "reg k (fold use us s) = (False, c, fold use us s)"
    and "table (fold use us s) k = Some c"
  using assms
proof (induction us arbitrary: s)
  case Nil
  {
    case 1
    then show ?case using reg_waits by simp
  next
    case 2
    then show ?case by simp
  }
next
  case (Cons u us)
  have t: "table (use u s) k = Some c" if "good s" "table s k = Some c" "fst u = k \<longrightarrow> snd u = None" for s
  proof (cases u)
    case (Pair k' v)
    show ?thesis
      using that Pair reg_waits [of s k'] reg_owns [of s k'] res_settles [of s k']
      by (cases v; cases "table s k'") (auto split: if_splits)
  qed
  {
    case 1
    then have "table (use u s) k = Some c" by (intro t) auto
    then show ?case using Cons.IH(1) [OF use_good [OF 1(1)]] 1(3) by simp
  next
    case 2
    then have "table (use u s) k = Some c" by (intro t) auto
    then show ?case using Cons.IH(2) [OF use_good [OF 2(1)]] 2(3) by simp
  }
qed

lemma settled_for_all:
  assumes "good s" and "table s k = Some c"
  shows "seen (fold use us (use (k, Some r) s)) c = Some r"
  using assms use_good [of s "(k, Some r)"] table_pending [OF assms] res_settles [OF assms, of r]
  by (intro uses_seen) auto

end

section \<open>The in-flight map satisfies it\<close>

definition flight_inv :: "(block_key \<Rightarrow> u64) \<Rightarrow> inflight \<Rightarrow> bool" where
  "flight_inv hash s \<longleftrightarrow> sharded s
     \<and> (\<forall>k c. lookup hash s k = Some c \<longrightarrow>
          c < length (channels s) \<and> channels s ! c = \<lparr>chan_value = None, chan_open = True\<rparr>)
     \<and> (\<forall>k k' c. lookup hash s k = Some c \<longrightarrow> lookup hash s k' = Some c \<longrightarrow> k = k')"

definition flight_register :: "(block_key \<Rightarrow> u64) \<Rightarrow> block_key \<Rightarrow> inflight \<Rightarrow> bool \<times> nat \<times> inflight" where
  "flight_register hash k s =
     (case register hash k s of (Owner sl c, s) \<Rightarrow> (True, c, s) | (Waiter c, s) \<Rightarrow> (False, c, s))"

definition slot_of :: "block_key \<Rightarrow> nat \<Rightarrow> slot" where
  "slot_of k c = \<lparr>slot_key = k, slot_chan = c, slot_resolved = False\<rparr>"

lemma slot_of_sel [simp]: "slot_key (slot_of k c) = k" "slot_chan (slot_of k c) = c"
  "\<not> slot_resolved (slot_of k c)"
  by (simp_all add: slot_of_def)

lemma channel_both: "(ch :: channel)\<lparr>chan_value := v, chan_open := b\<rparr> = \<lparr>chan_value = v, chan_open = b\<rparr>"
  by (cases ch) simp

lemma slot_resolve_eq:
  "\<not> slot_resolved sl \<Longrightarrow> slot_chan sl < length (channels s) \<Longrightarrow>
    slot_resolve hash r sl s =
      (inflight_remove hash (slot_key sl) s)
        \<lparr>channels := (channels s)[slot_chan sl := \<lparr>chan_value = Some r, chan_open = False\<rparr>]\<rparr>"
  by (simp add: slot_resolve_def slot_drop_def settle_def close_sender_def send_replace_def channel_both)

lemma slot_drop_eq:
  "\<not> slot_resolved sl \<Longrightarrow> slot_chan sl < length (channels s) \<Longrightarrow>
    slot_drop hash sl s = slot_resolve hash (Inl Cancelled) sl s"
  by (simp add: slot_resolve_def slot_drop_def settle_def close_sender_def send_replace_def)

lemma flight_inv_new: "flight_inv hash (inflight_new 64)"
proof -
  have n: "next_power_of_two 64 = 64" by code_simp
  have "sharded (inflight_new 64)"
    by (auto simp: sharded_def inflight_new_def n intro!: exI [of _ 6])
  moreover from this have "lookup hash (inflight_new 64) k = None" for k
    using shard_lt [of "inflight_new 64" hash k] by (simp add: lookup_def inflight_new_def n)
  ultimately show ?thesis by (simp add: flight_inv_def)
qed

interpretation flight: slot_table "flight_inv hash" "lookup hash" "\<lambda>s c. wait_slot c s"
  "\<lambda>s. length (channels s)" "flight_register hash" "\<lambda>r k c. slot_resolve hash r (slot_of k c)"
proof unfold_locales
  fix s k c
  assume g: "flight_inv hash s" and t: "lookup hash s k = Some c"
  note g' = g [unfolded flight_inv_def]
  show "flight_register hash k s = (False, c, s)"
    using g' t register_spec(1) [of s hash k c] by (simp add: flight_register_def)
  show "c < length (channels s) \<and> wait_slot c s = None" using g' t by (auto simp: wait_slot_def)
  show "k = k'" if "lookup hash s k' = Some c" for k' using g' t that by blast
  fix r
  have c: "c < length (channels s)" using g' t by blast
  have l: "lookup hash (slot_resolve hash r (slot_of k c) s) = (lookup hash s)(k := None)"
    using g' c by (simp add: slot_resolve_eq)
  have neq: "lookup hash s k' = Some d \<Longrightarrow> k' \<noteq> k \<Longrightarrow> d \<noteq> c" for k' d using g' t by blast
  have "flight_inv hash (slot_resolve hash r (slot_of k c) s)"
    using g' l neq c by (auto simp: flight_inv_def slot_resolve_eq nth_list_update)
  then show "flight_inv hash (slot_resolve hash r (slot_of k c) s)
      \<and> lookup hash (slot_resolve hash r (slot_of k c) s) = (lookup hash s)(k := None)
      \<and> length (channels (slot_resolve hash r (slot_of k c) s)) = length (channels s)
      \<and> (\<forall>d < length (channels s). wait_slot d (slot_resolve hash r (slot_of k c) s) =
            (if d = c then Some r else wait_slot d s))"
    using l c by (simp add: slot_resolve_eq wait_slot_def nth_list_update)
next
  fix s k
  assume g: "flight_inv hash s" and t: "lookup hash s k = None"
  note g' = g [unfolded flight_inv_def]
  let ?n = "length (channels s)"
  obtain s' where s': "register hash k s =
      (Owner \<lparr>slot_key = k, slot_chan = ?n, slot_resolved = False\<rparr> ?n, s')"
      "lookup hash s' = (lookup hash s)(k \<mapsto> ?n)" "sharded s'"
      "channels s' = channels s @ [\<lparr>chan_value = None, chan_open = True\<rparr>]"
    using register_spec(2) [OF _ t] g' by blast
  have "flight_inv hash s'" using g' s' by (fastforce simp: flight_inv_def nth_append split: if_splits)
  then show "\<exists>s'. flight_register hash k s = (True, ?n, s') \<and> flight_inv hash s'
      \<and> lookup hash s' = (lookup hash s)(k \<mapsto> ?n) \<and> length (channels s') = Suc ?n
      \<and> (\<forall>c < ?n. wait_slot c s' = wait_slot c s) \<and> wait_slot ?n s' = None"
    using s' by (intro exI [of _ s']) (simp add: flight_register_def wait_slot_def nth_append)
qed

lemma register_waiter:
  assumes "sharded s" and "register hash k s = (Waiter c, m)"
  shows "lookup hash s k = Some c \<and> m = s"
proof (cases "lookup hash s k")
  case None
  then show ?thesis using register_spec(2) [OF assms(1) None] assms(2) by auto
next
  case (Some d)
  then show ?thesis using register_spec(1) [OF assms(1) Some] assms(2) by simp
qed

lemma register_owner:
  assumes "sharded s" and "register hash k s = (Owner sl c, m)"
  shows "lookup hash s k = None \<and> sl = slot_of k (length (channels s)) \<and> c = length (channels s)
    \<and> sharded m \<and> lookup hash m = (lookup hash s)(k \<mapsto> length (channels s))
    \<and> channels m = channels s @ [\<lparr>chan_value = None, chan_open = True\<rparr>]"
proof (cases "lookup hash s k")
  case None
  then show ?thesis using register_spec(2) [OF assms(1) None] assms(2) by (auto simp: slot_of_def)
next
  case (Some d)
  then show ?thesis using register_spec(1) [OF assms(1) Some] assms(2) by simp
qed

section \<open>Any interleaving\<close>

text \<open>
  The steps of concurrent callers and owners at the granularity of the code: \<^verbatim>\<open>register\<close> holds the
  lock of a shard, \<^verbatim>\<open>settle\<close> first takes the key out of the map and then sends. \<open>fs_live\<close> are the
  slots held by running fetches, \<open>fs_sending\<close> those between the two halves of \<^verbatim>\<open>settle\<close>, and
  \<open>fs_handles\<close> the handles given out, each with the key it was asked for.
\<close>

record flight_state =
  fs_map :: inflight
  fs_live :: "slot list"
  fs_sending :: "(slot \<times> block_result) list"
  fs_handles :: "(block_key \<times> slot_handle) list"

definition flight_init :: "nat \<Rightarrow> flight_state" where
  "flight_init n = \<lparr>fs_map = inflight_new n, fs_live = [], fs_sending = [], fs_handles = []\<rparr>"

inductive flight_step :: "(block_key \<Rightarrow> u64) \<Rightarrow> flight_state \<Rightarrow> flight_state \<Rightarrow> bool" for hash where
  joins: "register hash k (fs_map st) = (Waiter c, m) \<Longrightarrow>
    flight_step hash st (st\<lparr>fs_map := m, fs_handles := (k, c) # fs_handles st\<rparr>)"
| owns: "register hash k (fs_map st) = (Owner sl c, m) \<Longrightarrow>
    flight_step hash st (st\<lparr>fs_map := m, fs_live := sl # fs_live st, fs_handles := (k, c) # fs_handles st\<rparr>)"
| unlinks: "sl \<in> set (fs_live st) \<Longrightarrow>
    flight_step hash st (st\<lparr>fs_map := inflight_remove hash (slot_key sl) (fs_map st),
      fs_live := remove1 sl (fs_live st), fs_sending := (sl, r) # fs_sending st\<rparr>)"
| sends: "(sl, r) \<in> set (fs_sending st) \<Longrightarrow>
    flight_step hash st (st\<lparr>fs_map := close_sender (slot_chan sl) (send_replace (slot_chan sl) r (fs_map st)),
      fs_sending := remove1 (sl, r) (fs_sending st)\<rparr>)"

definition pending :: "flight_state \<Rightarrow> slot list" where
  "pending st = fs_live st @ map fst (fs_sending st)"

definition flight_ok :: "(block_key \<Rightarrow> u64) \<Rightarrow> flight_state \<Rightarrow> bool" where
  "flight_ok hash st \<longleftrightarrow>
     sharded (fs_map st)
     \<and> (\<forall>k c. lookup hash (fs_map st) k = Some c \<longleftrightarrow> (\<exists>sl \<in> set (fs_live st). slot_key sl = k \<and> slot_chan sl = c))
     \<and> distinct (map slot_chan (pending st))
     \<and> (\<forall>c < length (channels (fs_map st)).
          (wait_slot c (fs_map st) = None) = (c \<in> slot_chan ` set (pending st)))
     \<and> (\<forall>sl \<in> set (pending st). slot_chan sl < length (channels (fs_map st)))
     \<and> (\<forall>(k, c) \<in> set (fs_handles st). c < length (channels (fs_map st))
          \<and> (\<forall>sl \<in> set (pending st). slot_chan sl = c \<longrightarrow> slot_key sl = k))"

lemma wait_slot_append:
  "c < length (channels s) \<Longrightarrow> channels s' = channels s @ xs \<Longrightarrow> wait_slot c s' = wait_slot c s"
  by (simp add: wait_slot_def nth_append)

lemma flight_ok_init: "flight_ok hash (flight_init 64)"
  using flight_inv_new [of hash]
  by (auto simp: flight_ok_def flight_init_def flight_inv_def pending_def inflight_new_def)

lemma flight_okD:
  assumes "flight_ok hash st"
  shows "sharded (fs_map st)"
    and "lookup hash (fs_map st) k = Some c \<longleftrightarrow> (\<exists>sl \<in> set (fs_live st). slot_key sl = k \<and> slot_chan sl = c)"
    and "distinct (map slot_chan (pending st))"
    and "c < length (channels (fs_map st)) \<Longrightarrow>
      (wait_slot c (fs_map st) = None) = (c \<in> slot_chan ` set (pending st))"
    and "sl \<in> set (pending st) \<Longrightarrow> slot_chan sl < length (channels (fs_map st))"
    and "(k, c) \<in> set (fs_handles st) \<Longrightarrow> c < length (channels (fs_map st))"
    and "(k, c) \<in> set (fs_handles st) \<Longrightarrow> sl \<in> set (pending st) \<Longrightarrow> slot_chan sl = c \<Longrightarrow> slot_key sl = k"
proof -
  note ok = assms [unfolded flight_ok_def]
  note ok2 = ok [THEN conjunct2] and ok3 = ok [THEN conjunct2, THEN conjunct2]
  note ok4 = ok3 [THEN conjunct2] and ok5 = ok3 [THEN conjunct2, THEN conjunct2]
  note h = bspec [OF ok5 [THEN conjunct2], of "(k, c)"]
  show "sharded (fs_map st)" by (rule ok [THEN conjunct1])
  show "lookup hash (fs_map st) k = Some c \<longleftrightarrow> (\<exists>sl \<in> set (fs_live st). slot_key sl = k \<and> slot_chan sl = c)"
    by (rule ok2 [THEN conjunct1, rule_format])
  show "distinct (map slot_chan (pending st))" by (rule ok3 [THEN conjunct1])
  show "c < length (channels (fs_map st)) \<Longrightarrow>
      (wait_slot c (fs_map st) = None) = (c \<in> slot_chan ` set (pending st))"
    by (rule ok4 [THEN conjunct1, rule_format])
  show "sl \<in> set (pending st) \<Longrightarrow> slot_chan sl < length (channels (fs_map st))"
    by (rule ok5 [THEN conjunct1, rule_format])
  show "(k, c) \<in> set (fs_handles st) \<Longrightarrow> c < length (channels (fs_map st))" using h by simp
  show "(k, c) \<in> set (fs_handles st) \<Longrightarrow> sl \<in> set (pending st) \<Longrightarrow> slot_chan sl = c \<Longrightarrow> slot_key sl = k"
    using h by simp
qed

lemma flight_okI:
  assumes "sharded (fs_map st)"
    and "\<And>k c. lookup hash (fs_map st) k = Some c \<longleftrightarrow> (\<exists>sl \<in> set (fs_live st). slot_key sl = k \<and> slot_chan sl = c)"
    and "distinct (map slot_chan (pending st))"
    and "\<And>c. c < length (channels (fs_map st)) \<Longrightarrow>
      (wait_slot c (fs_map st) = None) = (c \<in> slot_chan ` set (pending st))"
    and "\<And>sl. sl \<in> set (pending st) \<Longrightarrow> slot_chan sl < length (channels (fs_map st))"
    and "\<And>k c. (k, c) \<in> set (fs_handles st) \<Longrightarrow> c < length (channels (fs_map st))"
    and "\<And>k c sl. (k, c) \<in> set (fs_handles st) \<Longrightarrow> sl \<in> set (pending st) \<Longrightarrow> slot_chan sl = c \<Longrightarrow> slot_key sl = k"
  shows "flight_ok hash st"
proof -
  have "\<forall>(k, c) \<in> set (fs_handles st). c < length (channels (fs_map st))
      \<and> (\<forall>sl \<in> set (pending st). slot_chan sl = c \<longrightarrow> slot_key sl = k)"
    using assms(6,7) by (intro ballI case_prodI2 conjI impI) simp_all
  then show ?thesis unfolding flight_ok_def using assms(1-5) by (intro conjI allI impI ballI) simp_all
qed

lemma pending_chan_inj:
  "flight_ok hash st \<Longrightarrow> a \<in> set (pending st) \<Longrightarrow> b \<in> set (pending st) \<Longrightarrow> slot_chan a = slot_chan b \<Longrightarrow> a = b"
  using flight_okD(3) [of hash st] by (auto simp: distinct_map inj_on_def)

lemma live_pending: "sl \<in> set (fs_live st) \<Longrightarrow> sl \<in> set (pending st)"
  by (simp add: pending_def)

lemma flight_ok_joins:
  assumes "flight_ok hash st" and "register hash k (fs_map st) = (Waiter c, m)"
  shows "flight_ok hash (st\<lparr>fs_map := m, fs_handles := (k, c) # fs_handles st\<rparr>)"
proof -
  note ok = flight_okD [OF assms(1)]
  have l: "lookup hash (fs_map st) k = Some c" and m: "m = fs_map st"
    using register_waiter [OF ok(1) assms(2)] by simp_all
  obtain sl where sl: "sl \<in> set (pending st)" "slot_key sl = k" "slot_chan sl = c"
    using l ok(2) live_pending by blast
  have key: "slot_key sl' = k" if "sl' \<in> set (pending st)" "slot_chan sl' = c" for sl'
    using pending_chan_inj [OF assms(1) that(1) sl(1)] that(2) sl by simp
  have "pending (st\<lparr>fs_map := m, fs_handles := (k, c) # fs_handles st\<rparr>) = pending st"
    by (simp add: pending_def)
  then show ?thesis
    using assms(1) key ok(5) [OF sl(1)] sl(3) by (simp add: flight_ok_def m)
qed

lemma flight_ok_owns:
  assumes "flight_ok hash st" and "register hash k (fs_map st) = (Owner sl c, m)"
  shows "flight_ok hash (st\<lparr>fs_map := m, fs_live := sl # fs_live st, fs_handles := (k, c) # fs_handles st\<rparr>)"
proof -
  let ?n = "length (channels (fs_map st))"
  let ?st = "st\<lparr>fs_map := m, fs_live := sl # fs_live st, fs_handles := (k, c) # fs_handles st\<rparr>"
  note ok = flight_okD [OF assms(1)]
  note m' = register_owner [OF ok(1) assms(2)]
  have n: "lookup hash (fs_map st) k = None" and m: "sl = slot_of k ?n" "c = ?n" "sharded m"
      "lookup hash m = (lookup hash (fs_map st))(k \<mapsto> ?n)"
      "channels m = channels (fs_map st) @ [\<lparr>chan_value = None, chan_open = True\<rparr>]"
    using m' by simp_all
  have nolive: "slot_key sl' \<noteq> k" if "sl' \<in> set (fs_live st)" for sl'
    using ok(2) [of k "slot_chan sl'"] that n by auto
  have old: "wait_slot c' m = wait_slot c' (fs_map st)" if "c' < ?n" for c'
    using that m(5) by (rule wait_slot_append)
  have new: "wait_slot ?n m = None" using m(5) by (simp add: wait_slot_def)
  have p: "pending ?st = sl # pending st" by (simp add: pending_def)
  show ?thesis
  proof (rule flight_okI, unfold p)
    show "sharded (fs_map ?st)" using m by simp
    show "lookup hash (fs_map ?st) k' = Some c' \<longleftrightarrow>
        (\<exists>sl \<in> set (fs_live ?st). slot_key sl = k' \<and> slot_chan sl = c')" for k' c'
      using m(1,4) ok(2) [of k'] nolive by auto
    show "distinct (map slot_chan (sl # pending st))" using ok(3,5) m(1) by fastforce
    fix c' assume "c' < length (channels (fs_map ?st))"
    then have "c' < ?n \<or> c' = ?n" using m(5) by auto
    then show "(wait_slot c' (fs_map ?st) = None) = (c' \<in> slot_chan ` set (sl # pending st))"
      using old new ok(4) [of c'] ok(5) m(1) by fastforce
  next
    fix sl' assume "sl' \<in> set (sl # pending st)"
    then show "slot_chan sl' < length (channels (fs_map ?st))" using ok(5) m(1,5) by fastforce
  next
    fix k' c' assume h: "(k', c') \<in> set (fs_handles ?st)"
    then show "c' < length (channels (fs_map ?st))" using ok(6) m(2,5) by fastforce
    fix sl' assume "sl' \<in> set (sl # pending st)" "slot_chan sl' = c'"
    then show "slot_key sl' = k'" using h ok(5,6,7) m(1,2) by fastforce
  qed
qed

lemma remove_wait [simp, frame]: "wait_slot c (inflight_remove hash k s) = wait_slot c s"
  by (simp add: wait_slot_def)

lemma flight_ok_unlinks:
  assumes "flight_ok hash st" and "sl \<in> set (fs_live st)"
  shows "flight_ok hash (st\<lparr>fs_map := inflight_remove hash (slot_key sl) (fs_map st),
      fs_live := remove1 sl (fs_live st), fs_sending := (sl, r) # fs_sending st\<rparr>)"
proof -
  let ?st = "st\<lparr>fs_map := inflight_remove hash (slot_key sl) (fs_map st),
      fs_live := remove1 sl (fs_live st), fs_sending := (sl, r) # fs_sending st\<rparr>"
  note ok = flight_okD [OF assms(1)]
  have d: "distinct (fs_live st)" using ok(3) by (simp add: pending_def distinct_map)
  have l: "lookup hash (fs_map st) (slot_key sl) = Some (slot_chan sl)" using ok(2) assms(2) by blast
  have other: "slot_key sl' \<noteq> slot_key sl" if "sl' \<in> set (fs_live st)" "sl' \<noteq> sl" for sl'
  proof
    assume "slot_key sl' = slot_key sl"
    then have "slot_chan sl' = slot_chan sl" using ok(2) [of "slot_key sl" "slot_chan sl'"] l that(1) by auto
    then show False using pending_chan_inj [OF assms(1)] live_pending that assms(2) by blast
  qed
  have ps: "mset (pending ?st) = mset (pending st)" using assms(2) by (simp add: pending_def)
  then have pset: "set (pending ?st) = set (pending st)" by (rule mset_eq_setD)
  have dist: "distinct (map slot_chan (pending ?st))"
    using ok(3) ps by (metis mset_map mset_eq_imp_distinct_iff)
  show ?thesis
  proof (rule flight_okI, unfold pset)
    show "sharded (fs_map ?st)" using ok(1) by simp
    show "lookup hash (fs_map ?st) k' = Some c' \<longleftrightarrow>
        (\<exists>sl \<in> set (fs_live ?st). slot_key sl = k' \<and> slot_chan sl = c')" for k' c'
      using ok(1) ok(2) [of k' c'] other d by (auto simp: set_remove1_eq)
    show "distinct (map slot_chan (pending ?st))" by (rule dist)
  qed (use ok(4-7) in simp_all)
qed

lemma flight_ok_sends:
  assumes "flight_ok hash st" and "(sl, r) \<in> set (fs_sending st)"
  shows "flight_ok hash (st\<lparr>fs_map := close_sender (slot_chan sl) (send_replace (slot_chan sl) r (fs_map st)),
      fs_sending := remove1 (sl, r) (fs_sending st)\<rparr>)"
proof -
  let ?m = "close_sender (slot_chan sl) (send_replace (slot_chan sl) r (fs_map st))"
  let ?st = "st\<lparr>fs_map := ?m, fs_sending := remove1 (sl, r) (fs_sending st)\<rparr>"
  note ok = flight_okD [OF assms(1)]
  have sl: "sl \<in> set (pending st)" using assms(2) by (force simp: pending_def)
  have c: "slot_chan sl < length (channels (fs_map st))" by (rule ok(5) [OF sl])
  have ps: "mset (pending st) = add_mset sl (mset (pending ?st))"
  proof -
    have "mset (fs_sending st) = add_mset (sl, r) (mset (remove1 (sl, r) (fs_sending st)))"
      using assms(2) by simp
    then have "image_mset fst (mset (fs_sending st)) =
        add_mset sl (image_mset fst (mset (remove1 (sl, r) (fs_sending st))))"
      by (metis fst_conv image_mset_add_mset)
    then show ?thesis unfolding pending_def mset_append mset_map by simp
  qed
  have dist: "distinct (map slot_chan (sl # pending ?st))"
    using ok(3) ps by (metis mset.simps(2) mset_map mset_eq_imp_distinct_iff)
  have pset: "set (pending st) = insert sl (set (pending ?st))"
    using arg_cong [OF ps, of set_mset] by simp
  have len: "length (channels ?m) = length (channels (fs_map st))"
    by (simp add: close_sender_def send_replace_def)
  have w: "wait_slot c' ?m = (if c' = slot_chan sl then Some r else wait_slot c' (fs_map st))" for c'
    using c by (simp add: wait_slot_def close_sender_def send_replace_def nth_list_update)
  show ?thesis
  proof (rule flight_okI)
    show "sharded (fs_map ?st)" using ok(1) by simp
    show "lookup hash (fs_map ?st) k' = Some c' \<longleftrightarrow>
        (\<exists>sl \<in> set (fs_live ?st). slot_key sl = k' \<and> slot_chan sl = c')" for k' c'
      using ok(2) [of k' c'] by simp
    show "distinct (map slot_chan (pending ?st))" using dist by simp
    fix c' assume "c' < length (channels (fs_map ?st))"
    then show "(wait_slot c' (fs_map ?st) = None) = (c' \<in> slot_chan ` set (pending ?st))"
      using ok(4) [of c'] dist w [of c'] len pset by auto
  next
    fix sl' assume "sl' \<in> set (pending ?st)"
    then show "slot_chan sl' < length (channels (fs_map ?st))" using ok(5) [of sl'] pset len by simp
  next
    fix k' c' assume h: "(k', c') \<in> set (fs_handles ?st)"
    then show "c' < length (channels (fs_map ?st))" using ok(6) len by simp
    fix sl' assume "sl' \<in> set (pending ?st)" "slot_chan sl' = c'"
    then show "slot_key sl' = k'" using h ok(7) [of k' c' sl'] pset by simp
  qed
qed

lemma flight_ok_step: "flight_step hash st st' \<Longrightarrow> flight_ok hash st \<Longrightarrow> flight_ok hash st'"
  by (induction rule: flight_step.induct)
    (rule flight_ok_joins flight_ok_owns flight_ok_unlinks flight_ok_sends; assumption)+

lemma flight_ok_reachable:
  assumes "(flight_step hash)\<^sup>*\<^sup>* (flight_init 64) st"
  shows "flight_ok hash st"
  using assms by (induction rule: rtranclp_induct) (auto intro: flight_ok_init flight_ok_step)

text \<open>A fetch in flight, and the same after its slot has been settled.\<close>

definition flight_key :: block_key where
  "flight_key = \<lparr>bk_namespace = 0, bk_tag = 1, bk_index = 0, bk_object = []\<rparr>"

definition one_flight :: flight_state where
  "one_flight = (flight_init 64)\<lparr>fs_map := snd (register (\<lambda>_. 0) flight_key (inflight_new 64)),
     fs_live := [\<lparr>slot_key = flight_key, slot_chan = 0, slot_resolved = False\<rparr>], fs_handles := [(flight_key, 0)]\<rparr>"

definition landed_flight :: flight_state where
  "landed_flight = one_flight\<lparr>fs_map := close_sender 0 (send_replace 0 (Inl ENotFound)
     (inflight_remove (\<lambda>_. 0) flight_key (fs_map one_flight))), fs_live := []\<rparr>"

lemma inflight_new_64: "inflight_new 64 = \<lparr>shards = replicate 64 Map.empty, channels = []\<rparr>"
proof -
  have "next_power_of_two 64 = 64" by code_simp
  then show ?thesis by (simp add: inflight_new_def)
qed

lemmas flight_simps = inflight_new_64 register_def shard_def channel_new_def Let_def flight_init_def
  inflight_remove_def send_replace_def close_sender_def

lemma one_flight_reached: "(flight_step (\<lambda>_. 0))\<^sup>*\<^sup>* (flight_init 64) one_flight"
  using flight_step.owns [of "\<lambda>_. 0" flight_key "flight_init 64"]
  by (intro r_into_rtranclp) (simp add: one_flight_def flight_simps)

lemma landed_flight_reached: "(flight_step (\<lambda>_. 0))\<^sup>*\<^sup>* (flight_init 64) landed_flight"
proof -
  let ?sl = "\<lparr>slot_key = flight_key, slot_chan = 0, slot_resolved = False\<rparr>"
  let ?st = "one_flight\<lparr>fs_map := inflight_remove (\<lambda>_. 0) flight_key (fs_map one_flight),
      fs_live := [], fs_sending := [(?sl, Inl ENotFound)]\<rparr>"
  have "flight_step (\<lambda>_. 0) one_flight ?st"
    using flight_step.unlinks [of ?sl one_flight "\<lambda>_. 0" "Inl ENotFound"]
    by (simp add: one_flight_def flight_init_def)
  moreover have "flight_step (\<lambda>_. 0) ?st landed_flight"
    using flight_step.sends [of ?sl "Inl ENotFound" ?st "\<lambda>_. 0"]
    by (simp add: landed_flight_def one_flight_def flight_init_def)
  ultimately show ?thesis using one_flight_reached by (meson rtranclp.rtrancl_into_rtrancl)
qed

text \<open>
  C17: single flight. Whatever the interleaving of callers and owners, no two running fetches own
  the same block.
\<close>

theorem single_flight:
  assumes "(flight_step hash)\<^sup>*\<^sup>* (flight_init 64) st"
  shows "distinct (map slot_key (fs_live st))"
proof -
  note ok = flight_okD [OF flight_ok_reachable [OF assms]]
  have "slot_chan a = slot_chan b" if "a \<in> set (fs_live st)" "b \<in> set (fs_live st)" "slot_key a = slot_key b" for a b
  proof -
    have "lookup hash (fs_map st) (slot_key a) = Some (slot_chan a)"
      using ok(2) [of "slot_key a" "slot_chan a"] that(1) by auto
    moreover have "lookup hash (fs_map st) (slot_key b) = Some (slot_chan b)"
      using ok(2) [of "slot_key b" "slot_chan b"] that(2) by auto
    ultimately show ?thesis using that(3) by simp
  qed
  moreover have d: "distinct (map slot_chan (fs_live st))" using ok(3) by (simp add: pending_def)
  then have "inj_on slot_chan (set (fs_live st))" by (simp add: distinct_map)
  ultimately have "inj_on slot_key (set (fs_live st))" unfolding inj_on_def by blast
  then show ?thesis using d by (simp add: distinct_map)
qed

theorem single_flight_witness:
  "fs_live one_flight \<noteq> [] \<and> distinct (map slot_key (fs_live one_flight))"
  using single_flight [OF one_flight_reached] by (simp add: one_flight_def)

text \<open>
  C18: no waiter is forgotten. A handle given out for a key either has its result, or the slot of
  that same key that will provide it is held by a running fetch or is being settled.
\<close>

theorem waiter_served:
  assumes "(flight_step hash)\<^sup>*\<^sup>* (flight_init 64) st" and "(k, c) \<in> set (fs_handles st)"
  shows "wait_slot c (fs_map st) \<noteq> None \<or>
    (\<exists>sl. (sl \<in> set (fs_live st) \<or> sl \<in> fst ` set (fs_sending st)) \<and> slot_key sl = k \<and> slot_chan sl = c)"
proof -
  note ok = flight_okD [OF flight_ok_reachable [OF assms(1)]]
  have "c < length (channels (fs_map st))" by (rule ok(6) [OF assms(2)])
  then have "wait_slot c (fs_map st) \<noteq> None \<or> (\<exists>sl \<in> set (pending st). slot_chan sl = c)"
    using ok(4) by blast
  then show ?thesis
  proof
    assume "\<exists>sl \<in> set (pending st). slot_chan sl = c"
    then obtain sl where sl: "sl \<in> set (pending st)" "slot_chan sl = c" by blast
    then have "slot_key sl = k" by (rule ok(7) [OF assms(2)])
    moreover have "sl \<in> set (fs_live st) \<or> sl \<in> fst ` set (fs_sending st)"
      using sl(1) by (simp add: pending_def)
    ultimately show ?thesis using sl(2) by blast
  qed simp
qed

theorem waiter_served_witness:
  "\<exists>sl. (sl \<in> set (fs_live one_flight) \<or> sl \<in> fst ` set (fs_sending one_flight))
      \<and> slot_key sl = flight_key \<and> slot_chan sl = 0"
proof -
  have "wait_slot 0 (fs_map one_flight) = None" by (simp add: one_flight_def flight_simps wait_slot_def)
  then show ?thesis
    using waiter_served [OF one_flight_reached, of flight_key 0] by (auto simp: one_flight_def)
qed

lemma result_final_step:
  assumes "flight_step hash st st'" and "flight_ok hash st"
    and "c < length (channels (fs_map st))" and "wait_slot c (fs_map st) = Some r"
  shows "c < length (channels (fs_map st')) \<and> wait_slot c (fs_map st') = Some r"
  using assms(1)
proof (cases rule: flight_step.cases)
  case (joins k c' m)
  have "m = fs_map st" using register_waiter [OF flight_okD(1) [OF assms(2)] joins(2)] by simp
  then show ?thesis using joins(1) assms(3,4) by simp
next
  case (owns k sl c' m)
  have "channels m = channels (fs_map st) @ [\<lparr>chan_value = None, chan_open = True\<rparr>]"
    using register_owner [OF flight_okD(1) [OF assms(2)] owns(2)] by simp
  moreover from this have "wait_slot c m = wait_slot c (fs_map st)"
    by (rule wait_slot_append [OF assms(3)])
  ultimately show ?thesis using owns(1) assms(3,4) by simp
next
  case (unlinks sl v)
  then show ?thesis using assms(3,4) by simp
next
  case (sends sl v)
  have p: "sl \<in> set (pending st)" using sends(2) by (force simp: pending_def)
  have "slot_chan sl \<noteq> c" using flight_okD(4) [OF assms(2) assms(3)] assms(4) p by auto
  then show ?thesis using sends(1) assms(3,4) by (simp add: close_sender_def send_replace_def wait_slot_def split: if_splits)
qed

text \<open>A result once seen by a waiter is never replaced.\<close>

theorem result_final:
  assumes "(flight_step hash)\<^sup>*\<^sup>* (flight_init 64) st" and "(flight_step hash)\<^sup>*\<^sup>* st st'"
    and "c < length (channels (fs_map st))" and "wait_slot c (fs_map st) = Some r"
  shows "wait_slot c (fs_map st') = Some r"
proof -
  have "flight_ok hash st' \<and> c < length (channels (fs_map st')) \<and> wait_slot c (fs_map st') = Some r"
    using assms(2)
  proof (induction rule: rtranclp_induct)
    case base
    show ?case using assms(3,4) flight_ok_reachable [OF assms(1)] by simp
  next
    case (step a b)
    show ?case using step.IH flight_ok_step [OF step.hyps(2)] result_final_step [OF step.hyps(2)] by simp
  qed
  then show ?thesis by simp
qed

theorem result_final_witness:
  "wait_slot 0 (fs_map (landed_flight\<lparr>fs_map := snd (register (\<lambda>_. 0) flight_key (fs_map landed_flight)),
      fs_live := [\<lparr>slot_key = flight_key, slot_chan = 1, slot_resolved = False\<rparr>],
      fs_handles := [(flight_key, 1), (flight_key, 0)]\<rparr>)) = Some (Inl ENotFound)"
proof (rule result_final [OF landed_flight_reached r_into_rtranclp])
  show "flight_step (\<lambda>_. 0) landed_flight
      (landed_flight\<lparr>fs_map := snd (register (\<lambda>_. 0) flight_key (fs_map landed_flight)),
        fs_live := [\<lparr>slot_key = flight_key, slot_chan = 1, slot_resolved = False\<rparr>],
        fs_handles := [(flight_key, 1), (flight_key, 0)]\<rparr>)"
    using flight_step.owns [of "\<lambda>_. 0" flight_key landed_flight]
    by (simp add: landed_flight_def one_flight_def flight_simps)
  show "0 < length (channels (fs_map landed_flight))"
    and "wait_slot 0 (fs_map landed_flight) = Some (Inl ENotFound)"
    by (simp_all add: landed_flight_def one_flight_def flight_simps wait_slot_def)
qed

end
