(* ===== verification/World.thy ===== *)
theory World
  imports Meta_Cache Inflight
begin

text \<open>
  The state of a node and its environment. The state gathers what \<^verbatim>\<open>Engine\<close>, \<^verbatim>\<open>Fetcher\<close> and
  \<^verbatim>\<open>NamespaceState\<close> keep behind their locks and atomics, together with the clock and the number of
  origin calls made. The environment is everything that is not under the repository's control: the
  origins, the cache library, the hash functions, and the rounding of floating point.

  A task runs from one \<^verbatim>\<open>await\<close> that has to wait for the clock or for an origin to the next; tasks
  that were spawned run, in the order they were spawned, when a reader waits for a slot that is not
  settled yet. Where \<^verbatim>\<open>select!\<close> finds two branches ready at one instant the model takes the first.
\<close>

section \<open>Metrics\<close>

text \<open>The counters of \<^verbatim>\<open>NamespaceMetrics\<close>, \<^verbatim>\<open>nestor/src/metrics.rs\<close>; gauges and histograms are left out.\<close>

datatype metric =
    Hits | Misses | Joined | StaleBlocks | ReusedBlocks | Extra
  | OriginRequests | OriginBytes | OriginErrors | OriginRetries | OriginTimeouts
  | HeaderHedges | HeaderHedgeWins | BodyHedges | BodyHedgeWins
  | ReadaheadBlocks | MetaHeads | BytesServed

section \<open>Read contexts and tasks\<close>

datatype priority = Foreground | Background

text \<open>\<^verbatim>\<open>ReadCtx\<close> of \<^verbatim>\<open>nestor/src/fetch.rs\<close>.\<close>

record read_ctx =
  ctx_namespace :: namespace_state
  ctx_key :: object_key
  ctx_name :: string
  ctx_tag :: u64
  ctx_if_match :: "bytes option"
  ctx_meta :: "object_meta option"
  ctx_policy :: fetch_policy

definition read_ctx_new ::
  "tag_hash \<Rightarrow> namespace_state \<Rightarrow> object_key \<Rightarrow> string \<Rightarrow> object_meta option \<Rightarrow> fetch_policy \<Rightarrow> read_ctx" where
  "read_ctx_new h ns key name meta pol =
     (let c = consistency_of ns;
          (tag, ifm) =
            (case meta of
               Some m \<Rightarrow> (block_tag h c m, if is_immutable c then None else meta_etag m)
             | None \<Rightarrow> (IMMUTABLE_TAG, None))
      in \<lparr>ctx_namespace = ns, ctx_key = key, ctx_name = name, ctx_tag = tag, ctx_if_match = ifm,
          ctx_meta = meta, ctx_policy = pol\<rparr>)"

definition ctx_size :: "read_ctx \<Rightarrow> u64 option" where
  "ctx_size ctx = map_option meta_size (ctx_meta ctx)"

abbreviation ctx_bs :: "read_ctx \<Rightarrow> block_size" where
  "ctx_bs ctx \<equiv> bs_of (ctx_namespace ctx)"

abbreviation ctx_ns :: "read_ctx \<Rightarrow> u32" where
  "ctx_ns ctx \<equiv> ns_id (ctx_namespace ctx)"

datatype task =
    FetchGroup read_ctx "slot list" priority "get_response option"
  | Prefetch read_ctx "u32 urange"

section \<open>Environment\<close>

text \<open>
  \<open>e_get n t ns name options\<close> is the answer of the origin of the namespace to the \<open>n\<close>-th call, made
  at the instant \<open>t\<close>: when it is there, and what it is.
\<close>

record env =
  e_get :: "nat \<Rightarrow> nanos \<Rightarrow> u32 \<Rightarrow> string \<Rightarrow> get_options \<Rightarrow> nanos \<times> (origin_error + get_response)"
  e_head :: "nat \<Rightarrow> nanos \<Rightarrow> u32 \<Rightarrow> string \<Rightarrow> nanos \<times> (origin_error + object_meta)"
  e_hybrid :: hybrid
  e_meta :: meta_answer
  e_readahead :: "(object_key, u64) lru_answer"
  e_tag :: tag_hash
  e_hash :: "block_key \<Rightarrow> u64"
  e_round :: "real \<Rightarrow> real"
  e_unique :: "nat \<Rightarrow> bool"
  e_clock :: "nanos \<Rightarrow> systime"

section \<open>State\<close>

record world =
  now :: nanos
  calls :: nat
  w_blocks :: blocks
  w_flight :: inflight
  w_meta :: meta_cache
  w_readahead :: readahead_table
  w_ttfb :: "u32 \<Rightarrow> latency"
  w_block :: "u32 \<Rightarrow> latency"
  w_hedges :: nat
  w_metrics :: "u32 \<Rightarrow> metric \<Rightarrow> nat"
  w_tasks :: "task list"
  w_by_name :: "string \<Rightarrow> u32 option"
  w_states :: "namespace_state list"
  w_closed :: bool

definition count :: "u32 \<Rightarrow> metric \<Rightarrow> nat \<Rightarrow> world \<Rightarrow> world" where
  "count ns m n w = w\<lparr>w_metrics := (w_metrics w)(ns := (w_metrics w ns)(m := w_metrics w ns m + n))\<rparr>"

definition until :: "nanos \<Rightarrow> world \<Rightarrow> world" where
  "until t w = w\<lparr>now := max (now w) t\<rparr>"

definition call_get :: "env \<Rightarrow> u32 \<Rightarrow> string \<Rightarrow> get_options \<Rightarrow> world \<Rightarrow> (nanos \<times> (origin_error + get_response)) \<times> world" where
  "call_get e ns name opts w = (e_get e (calls w) (now w) ns name opts, w\<lparr>calls := calls w + 1\<rparr>)"

definition call_head :: "env \<Rightarrow> u32 \<Rightarrow> string \<Rightarrow> world \<Rightarrow> (nanos \<times> (origin_error + object_meta)) \<times> world" where
  "call_head e ns name w = (e_head e (calls w) (now w) ns name, w\<lparr>calls := calls w + 1\<rparr>)"

text \<open>The caches and the in-flight map, lifted to the state.\<close>

definition cache_get :: "env \<Rightarrow> block_key \<Rightarrow> world \<Rightarrow> block option \<times> world" where
  "cache_get e k w = (case blocks_get (e_hybrid e) (w_blocks w) k of (r, b) \<Rightarrow> (r, w\<lparr>w_blocks := b\<rparr>))"

definition cache_contains :: "env \<Rightarrow> block_key \<Rightarrow> world \<Rightarrow> bool \<times> world" where
  "cache_contains e k w = (case blocks_contains (e_hybrid e) (w_blocks w) k of (r, b) \<Rightarrow> (r, w\<lparr>w_blocks := b\<rparr>))"

definition cache_insert :: "block_key \<Rightarrow> block \<Rightarrow> world \<Rightarrow> world" where
  "cache_insert k b w = w\<lparr>w_blocks := blocks_insert (w_blocks w) k b\<rparr>"

definition put_meta :: "object_key \<Rightarrow> object_meta \<Rightarrow> world \<Rightarrow> world" where
  "put_meta k m w = w\<lparr>w_meta := meta_put (now w) (w_meta w) k m\<rparr>"

definition remove_meta :: "object_key \<Rightarrow> world \<Rightarrow> world" where
  "remove_meta k w = w\<lparr>w_meta := meta_remove (w_meta w) k\<rparr>"

definition register_slot :: "env \<Rightarrow> block_key \<Rightarrow> world \<Rightarrow> registration \<times> world" where
  "register_slot e k w = (case register (e_hash e) k (w_flight w) of (r, f) \<Rightarrow> (r, w\<lparr>w_flight := f\<rparr>))"

definition resolve_slot :: "env \<Rightarrow> block_result \<Rightarrow> slot \<Rightarrow> world \<Rightarrow> world" where
  "resolve_slot e r sl w = w\<lparr>w_flight := slot_resolve (e_hash e) r sl (w_flight w)\<rparr>"

definition drop_slot :: "env \<Rightarrow> slot \<Rightarrow> world \<Rightarrow> world" where
  "drop_slot e sl w = w\<lparr>w_flight := slot_drop (e_hash e) sl (w_flight w)\<rparr>"

definition resolve_all :: "env \<Rightarrow> block_result \<Rightarrow> slot list \<Rightarrow> world \<Rightarrow> world" where
  "resolve_all e r slots w = fold (resolve_slot e r) slots w"

definition drop_all :: "env \<Rightarrow> slot list \<Rightarrow> world \<Rightarrow> world" where
  "drop_all e slots w = fold (drop_slot e) slots w"

definition release_hedge :: "world \<Rightarrow> world" where
  "release_hedge w = w\<lparr>w_hedges := w_hedges w + 1\<rparr>"

definition spawn :: "task \<Rightarrow> world \<Rightarrow> world" where
  "spawn t w = w\<lparr>w_tasks := w_tasks w @ [t]\<rparr>"

lemmas world_ops = count_def until_def call_get_def call_head_def release_hedge_def

end
