(* ===== verification/Body.thy ===== *)
theory Body
  imports World
begin

text \<open>
  The body of an origin attempt cut into blocks, \<^verbatim>\<open>nestor/src/body.rs\<close>. \<^verbatim>\<open>BlockStream\<close> buffers
  chunks until a whole block is available; \<^verbatim>\<open>HedgedBody\<close> races the primary stream against a backup
  request for the range still owed when a block takes longer than the hedge delay.

  A future that runs under \<^verbatim>\<open>timeout_at\<close> gets the instant \<open>limit\<close>: it takes what is available up to
  then and otherwise returns \<^const>\<open>None\<close> at that instant. The loop of \<^verbatim>\<open>HedgedBody::next_block\<close> is
  the iteration of one round, and a stall takes at least one nanosecond, so it ends.
\<close>

section \<open>Block streams\<close>

record block_stream =
  bs_body :: "chunk list"
  bs_buf :: bytes
  bs_skip :: u64
  bs_since :: nanos

definition block_stream_new :: "chunk list \<Rightarrow> nanos \<Rightarrow> block_stream" where
  "block_stream_new body t = \<lparr>bs_body = body, bs_buf = [], bs_skip = 0, bs_since = t\<rparr>"

definition skipping :: "u64 \<Rightarrow> block_stream \<Rightarrow> block_stream" where
  "skipping n s = s\<lparr>bs_skip := n\<rparr>"

text \<open>
  \<^verbatim>\<open>BlockStream::next_block\<close>: the block or the error and the instant it is there.
\<close>

fun stream_loop ::
  "nanos \<Rightarrow> nat \<Rightarrow> nanos \<Rightarrow> chunk list \<Rightarrow> bytes \<Rightarrow> u64
   \<Rightarrow> (origin_error + bytes) option \<times> nanos \<times> chunk list \<times> bytes \<times> u64" where
  "stream_loop limit expected t body buf skip =
     (if length buf \<ge> expected
      then (Some (Inr (take expected buf)), t, body, drop expected buf, skip)
      else case body of
             [] \<Rightarrow> (Some (Inl (ShortRead (of_nat expected) (of_nat (length buf)))), t, [], buf, skip)
           | (ready, item) # rest \<Rightarrow>
               if ready > max t limit then (None, max t limit, body, buf, skip)
               else case item of
                      Inl e \<Rightarrow> (Some (Inl e), max t ready, rest, buf, skip)
                    | Inr chunk \<Rightarrow>
                        let skipped = (if skip > 0 then min (length chunk) (unat skip) else 0);
                            chunk = drop skipped chunk;
                            skip = skip - of_nat skipped
                        in if buf = [] \<and> length chunk \<ge> expected
                           then (Some (Inr (take expected chunk)), max t ready, rest, drop expected chunk, skip)
                           else stream_loop limit expected (max t ready) rest (buf @ chunk) skip)"

declare stream_loop.simps [simp del]

definition stream_next ::
  "nanos \<Rightarrow> nat \<Rightarrow> nanos \<Rightarrow> block_stream \<Rightarrow> (origin_error + bytes) option \<times> nanos \<times> block_stream" where
  "stream_next limit expected t s =
     (case stream_loop limit expected t (bs_body s) (bs_buf s) (bs_skip s) of
        (r, t, body, buf, skip) \<Rightarrow> (r, t, s\<lparr>bs_body := body, bs_buf := buf, bs_skip := skip\<rparr>))"

definition lap :: "nanos \<Rightarrow> block_stream \<Rightarrow> nanos \<times> block_stream" where
  "lap t s = (t - bs_since s, s\<lparr>bs_since := t\<rparr>)"

section \<open>Hedged bodies\<close>

datatype backup =
    BIdle
  | BOpening nanos "origin_error + get_response"
  | BStreaming block_stream

definition adopt_backup ::
  "env \<Rightarrow> read_ctx \<Rightarrow> origin_error + get_response \<Rightarrow> u64 \<Rightarrow> nanos \<Rightarrow> block_stream option" where
  "adopt_backup e ctx response start t =
     (case response of
        Inl _ \<Rightarrow> None
      | Inr resp \<Rightarrow>
          let tag = content_tag (e_tag e) (meta_etag (resp_meta resp)) (meta_size (resp_meta resp));
              consistent = (ctx_tag ctx = IMMUTABLE_TAG \<or> tag = ctx_tag ctx);
              aligned = (range_start (resp_range resp) mod block_bytes (ctx_bs ctx) = 0)
          in case checked_sub start (range_start (resp_range resp)) of
               None \<Rightarrow> None
             | Some behind \<Rightarrow>
                 if consistent \<and> aligned then Some (skipping behind (block_stream_new (resp_body resp) t))
                 else None)"

text \<open>\<^verbatim>\<open>HedgeConfig::delay\<close> on the block latency of the namespace.\<close>

definition body_delay :: "env \<Rightarrow> read_ctx \<Rightarrow> hedge_config \<Rightarrow> world \<Rightarrow> nanos \<times> world" where
  "body_delay e ctx cfg w =
     (case hedge_delay (e_round e) cfg (now w) (w_block w (ctx_ns ctx)) of
        (d, l) \<Rightarrow> (unwrap_or d (hedge_max cfg), w\<lparr>w_block := (w_block w)(ctx_ns ctx := l)\<rparr>))"

datatype hedge_step =
    Return "(origin_error + bytes) option" world block_stream
  | Again world block_stream backup

text \<open>A block of the primary stream on its own.\<close>

definition primary_only :: "nanos \<Rightarrow> nat \<Rightarrow> world \<Rightarrow> block_stream \<Rightarrow> hedge_step" where
  "primary_only limit expected w p =
     (case stream_next limit expected (now w) p of (r, t, p) \<Rightarrow> Return r (until t w) p)"

definition idle_step :: "env \<Rightarrow> read_ctx \<Rightarrow> u64 \<Rightarrow> u64 \<Rightarrow> nat \<Rightarrow> nanos \<Rightarrow> world \<Rightarrow> block_stream \<Rightarrow> hedge_step" where
  "idle_step e ctx start stop expected limit w p =
     (case hedge (ctx_policy ctx) of
        None \<Rightarrow> primary_only limit expected w p
      | Some cfg \<Rightarrow>
          (case body_delay e ctx cfg w of
             (delay, w) \<Rightarrow>
               let stall = now w + max delay 1; limit = max (now w) limit
               in case stream_next (min stall limit) expected (now w) p of
                    (Some r, t, p) \<Rightarrow> Return (Some r) (until t w) p
                  | (None, t, p) \<Rightarrow>
                      if stall > limit then Return None (until limit w) p
                      else let w = until stall w
                           in if w_hedges w = 0 then primary_only limit expected w p
                              else let w = count (ctx_ns ctx) BodyHedges 1 (w\<lparr>w_hedges := w_hedges w - 1\<rparr>);
                                       opts = \<lparr>opt_range = Some (Range start stop),
                                               opt_if_match = ctx_if_match ctx, opt_if_none_match = None\<rparr>
                                   in case call_get e (ctx_ns ctx) (ctx_name ctx) opts w of
                                        ((ready, response), w) \<Rightarrow> Again w p (BOpening ready response)))"

definition opening_step ::
  "env \<Rightarrow> read_ctx \<Rightarrow> u64 \<Rightarrow> nat \<Rightarrow> nanos \<Rightarrow> world \<Rightarrow> block_stream \<Rightarrow> nanos \<Rightarrow> origin_error + get_response \<Rightarrow> hedge_step" where
  "opening_step e ctx start expected limit w p ready response =
     (let ready = max (now w) ready; limit = max (now w) limit
      in case stream_next (min ready limit) expected (now w) p of
           (Some (Inr b), t, p) \<Rightarrow> Return (Some (Inr b)) (release_hedge (until t w)) p
         | (Some (Inl err), t, p) \<Rightarrow>
             if \<not> is_retryable err then Return (Some (Inl err)) (release_hedge (until t w)) p
             else if ready > limit then Return None (release_hedge (until limit w)) p
             else let w = release_hedge (until ready w)
                  in (case adopt_backup e ctx response start (now w) of
                        None \<Rightarrow> Return (Some (Inl err)) w p
                      | Some s \<Rightarrow> Again w s BIdle)
         | (None, t, p) \<Rightarrow>
             if ready > limit then Return None (release_hedge (until limit w)) p
             else let w = until ready w
                  in (case adopt_backup e ctx response start (now w) of
                        None \<Rightarrow> Again (release_hedge w) p BIdle
                      | Some s \<Rightarrow> Again w p (BStreaming s)))"

text \<open>
  Both streams run. The backup is polled after the primary, so when the primary is there at the
  instant \<open>t\<close> the backup has got as far as it can before \<open>t\<close>; when the backup is there first the
  primary has got as far as it can up to that instant.
\<close>

definition backup_run ::
  "nanos \<Rightarrow> nat \<Rightarrow> nanos \<Rightarrow> 'a option \<Rightarrow> nanos \<Rightarrow> block_stream
   \<Rightarrow> (origin_error + bytes) option \<times> nanos \<times> block_stream" where
  "backup_run limit expected t0 r t b =
     (if r = None then stream_next limit expected t0 b
      else if t = t0 then (None, t0, b)
      else stream_next (t - 1) expected t0 b)"

definition streaming_step ::
  "read_ctx \<Rightarrow> nat \<Rightarrow> nanos \<Rightarrow> world \<Rightarrow> block_stream \<Rightarrow> block_stream \<Rightarrow> hedge_step" where
  "streaming_step ctx expected limit w p b =
     (case stream_next limit expected (now w) p of
        (r, t, p') \<Rightarrow>
          (case backup_run limit expected (now w) r t b of
             (Some (Inr blk), tb, b') \<Rightarrow>
               Return (Some (Inr blk)) (count (ctx_ns ctx) BodyHedgeWins 1 (release_hedge (until tb w))) b'
           | (Some (Inl _), tb, b') \<Rightarrow>
               (case stream_next tb expected (now w) p of
                  (_, _, p) \<Rightarrow> Again (release_hedge (until tb w)) p BIdle)
           | (None, tb, b') \<Rightarrow>
               (case r of
                  Some (Inr blk) \<Rightarrow> Return (Some (Inr blk)) (release_hedge (until t w)) p'
                | Some (Inl err) \<Rightarrow>
                    if is_retryable err then Again (release_hedge (until t w)) b' BIdle
                    else Return (Some (Inl err)) (release_hedge (until t w)) p'
                | None \<Rightarrow> Return None (release_hedge (until t w)) p')))"

definition hedge_round ::
  "env \<Rightarrow> read_ctx \<Rightarrow> u64 \<Rightarrow> u64 \<Rightarrow> nat \<Rightarrow> nanos \<Rightarrow> world \<Rightarrow> block_stream \<Rightarrow> backup \<Rightarrow> hedge_step" where
  "hedge_round e ctx start stop expected limit w p b =
     (case b of
        BIdle \<Rightarrow> idle_step e ctx start stop expected limit w p
      | BOpening ready response \<Rightarrow> opening_step e ctx start expected limit w p ready response
      | BStreaming s \<Rightarrow> streaming_step ctx expected limit w p s)"

section \<open>The loop by cases\<close>

lemma stream_loop_full:
  "length buf \<ge> expected \<Longrightarrow> stream_loop limit expected t body buf skip =
    (Some (Inr (take expected buf)), t, body, drop expected buf, skip)"
  by (simp add: stream_loop.simps)

lemma stream_loop_end:
  "length buf < expected \<Longrightarrow> stream_loop limit expected t [] buf skip =
    (Some (Inl (ShortRead (of_nat expected) (of_nat (length buf)))), t, [], buf, skip)"
  by (simp add: stream_loop.simps)

lemma stream_loop_late:
  "length buf < expected \<Longrightarrow> ready > max t limit \<Longrightarrow> stream_loop limit expected t ((ready, item) # rest) buf skip =
    (None, max t limit, (ready, item) # rest, buf, skip)"
  by (simp add: stream_loop.simps)

lemma stream_loop_error:
  assumes "length buf < expected" and "ready \<le> max t limit"
  shows "stream_loop limit expected t ((ready, Inl e) # rest) buf skip =
    (Some (Inl e), max t ready, rest, buf, skip)"
proof -
  have "\<not> expected \<le> length buf" "\<not> max t limit < ready" using assms by linarith+
  then show ?thesis
    by (subst stream_loop.simps) (simp only: if_False list.case prod.case sum.case)
qed

text \<open>The bytes of a chunk that are not skipped, and what is left to skip.\<close>

definition kept :: "u64 \<Rightarrow> bytes \<Rightarrow> bytes" where
  "kept skip chunk = drop (unat skip) chunk"

definition skip_left :: "u64 \<Rightarrow> bytes \<Rightarrow> u64" where
  "skip_left skip chunk = of_nat (unat skip - length chunk)"

lemma unat_skip_left: "unat (skip_left skip chunk) = unat skip - length chunk"
  unfolding skip_left_def by (rule unat_of_nat_le [of _ skip]) simp

lemma skip_arith:
  "drop (if skip > 0 then min (length chunk) (unat skip) else 0) chunk = kept skip chunk"
  "skip - of_nat (if skip > 0 then min (length chunk) (unat skip) else 0) = skip_left skip chunk"
proof -
  have n: "skip > 0 \<longleftrightarrow> unat skip > 0" by (simp add: word_less_nat_alt)
  show "drop (if skip > 0 then min (length chunk) (unat skip) else 0) chunk = kept skip chunk"
    unfolding n kept_def by (auto simp: min_def)
  have "unat skip - length chunk = unat skip - (if unat skip > 0 then min (length chunk) (unat skip) else 0)"
    by auto
  moreover have "of_nat (unat skip - m) = skip - of_nat m" if "m \<le> unat skip" for m
    using that by (simp add: of_nat_diff)
  ultimately show "skip - of_nat (if skip > 0 then min (length chunk) (unat skip) else 0) = skip_left skip chunk"
    unfolding n skip_left_def by simp
qed

lemma stream_loop_chunk:
  assumes "length buf < expected" and "ready \<le> max t limit"
  shows "stream_loop limit expected t ((ready, Inr chunk) # rest) buf skip =
    (if buf = [] \<and> length (kept skip chunk) \<ge> expected
     then (Some (Inr (take expected (kept skip chunk))), max t ready, rest,
           drop expected (kept skip chunk), skip_left skip chunk)
     else stream_loop limit expected (max t ready) rest (buf @ kept skip chunk) (skip_left skip chunk))"
proof -
  have "\<not> expected \<le> length buf" "\<not> max t limit < ready" using assms by linarith+
  then show ?thesis
    by (subst stream_loop.simps) (simp only: if_False list.case prod.case sum.case Let_def skip_arith)
qed

text \<open>Every fact about the loop is proved over the chunks, with these five cases.\<close>

lemma stream_loop_cases [case_names full finish late error chunk]:
  fixes body :: "chunk list" and buf :: bytes
  assumes "length buf \<ge> expected \<Longrightarrow> P"
    and "length buf < expected \<Longrightarrow> body = [] \<Longrightarrow> P"
    and "\<And>ready item rest. length buf < expected \<Longrightarrow> body = (ready, item) # rest \<Longrightarrow> ready > max t limit \<Longrightarrow> P"
    and "\<And>ready e rest. length buf < expected \<Longrightarrow> body = (ready, Inl e) # rest \<Longrightarrow> ready \<le> max t limit \<Longrightarrow> P"
    and "\<And>ready chunk rest. length buf < expected \<Longrightarrow> body = (ready, Inr chunk) # rest \<Longrightarrow> ready \<le> max t limit \<Longrightarrow> P"
  shows P
proof (cases "length buf \<ge> expected")
  case False
  then have lt: "length buf < expected" by simp
  show P
  proof (cases body)
    case (Cons x rest)
    obtain ready item where x: "x = (ready, item)" by (cases x)
    show P
    proof (cases "ready > max t limit")
      case True
      then show P using assms(3) [OF lt] Cons x by blast
    next
      case False
      then have "ready \<le> max t limit" by linarith
      then show P using assms(4,5) [OF lt] Cons x by (cases item) blast+
    qed
  qed (use assms(2) [OF lt] in blast)
qed (use assms(1) in blast)

section \<open>Time\<close>

lemma stream_loop_time:
  "stream_loop limit expected t body buf skip = (r, t', out) \<Longrightarrow>
    t \<le> t' \<and> t' \<le> max t limit \<and> (r = None \<longrightarrow> t' = max t limit)"
proof (induction body arbitrary: t buf skip)
  case Nil
  then show ?case by (cases "length buf \<ge> expected") (auto simp: stream_loop_full stream_loop_end)
next
  case (Cons x body)
  show ?case
  proof (cases rule: stream_loop_cases [where expected = expected and buf = buf and body = "x # body"
        and t = t and limit = limit])
    case full
    then show ?thesis using Cons.prems by (auto simp: stream_loop_full)
  next
    case (late ready item rest)
    then show ?thesis using Cons.prems by (auto simp: stream_loop_late)
  next
    case (error ready e rest)
    then show ?thesis using Cons.prems by (auto simp: stream_loop_error)
  next
    case (chunk ready chunk rest)
    show ?thesis
    proof (cases "buf = [] \<and> length (kept skip chunk) \<ge> expected")
      case True
      then show ?thesis using Cons.prems chunk by (auto simp: stream_loop_chunk)
    next
      case False
      then have "stream_loop limit expected (max t ready) body (buf @ kept skip chunk) (skip_left skip chunk)
          = (r, t', out)"
        using Cons.prems chunk by (auto simp: stream_loop_chunk split: if_splits)
      from Cons.IH [OF this] chunk show ?thesis by linarith
    qed
  qed simp
qed

lemma stream_next_time:
  assumes "stream_next limit expected t s = (r, t', s')"
  shows "t \<le> t'" and "t' \<le> max t limit" and "r = None \<Longrightarrow> t' = max t limit"
  using assms stream_loop_time [of limit expected t "bs_body s" "bs_buf s" "bs_skip s" r t']
  by (auto simp: stream_next_def split: prod.splits)

text \<open>A stream that is not done by \<open>limit\<close>, or only after \<open>early\<close>, is not done by \<open>early\<close>.\<close>

lemma stream_loop_early:
  assumes "stream_loop limit expected t body buf skip = (r, t', out)"
    and "t \<le> early" and "r = None \<and> early \<le> max t limit \<or> early < t'"
  shows "fst (stream_loop early expected t body buf skip) = None"
  using assms
proof (induction body arbitrary: t buf skip)
  case Nil
  then show ?case by (cases "length buf \<ge> expected") (auto simp: stream_loop_full stream_loop_end)
next
  case (Cons x body)
  show ?case
  proof (cases rule: stream_loop_cases [where expected = expected and buf = buf and body = "x # body"
        and t = t and limit = limit])
    case full
    then show ?thesis using Cons.prems by (auto simp: stream_loop_full)
  next
    case (late ready item rest)
    moreover have "early < ready" using late Cons.prems by (auto simp: stream_loop_late)
    ultimately show ?thesis using Cons.prems(2) by (simp add: stream_loop_late)
  next
    case (error ready e rest)
    moreover have "early < ready" using error Cons.prems by (auto simp: stream_loop_error)
    ultimately show ?thesis using Cons.prems(2) by (simp add: stream_loop_late)
  next
    case (chunk ready chunk rest)
    show ?thesis
    proof (cases "early < ready")
      case True
      then show ?thesis using chunk Cons.prems(2) by (simp add: stream_loop_late)
    next
      case False
      then have le: "ready \<le> max t early" by simp
      show ?thesis
      proof (cases "buf = [] \<and> length (kept skip chunk) \<ge> expected")
        case True
        then show ?thesis using Cons.prems chunk False by (auto simp: stream_loop_chunk)
      next
        case no: False
        have "stream_loop limit expected (max t ready) body (buf @ kept skip chunk) (skip_left skip chunk) = (r, t', out)"
          using Cons.prems(1) chunk no by (auto simp: stream_loop_chunk split: if_splits)
        moreover have "max t ready \<le> early" using False Cons.prems(2) by simp
        moreover have "r = None \<and> early \<le> max (max t ready) limit \<or> early < t'"
          using Cons.prems(3) by auto
        ultimately have "fst (stream_loop early expected (max t ready) body (buf @ kept skip chunk) (skip_left skip chunk)) = None"
          by (rule Cons.IH)
        then show ?thesis using chunk le no by (simp add: stream_loop_chunk)
      qed
    qed
  qed simp
qed

lemma stream_next_early:
  assumes "stream_next limit expected t s = (r, t', s')" and "t \<le> early"
    and "r = None \<and> early \<le> max t limit \<or> early < t'"
  shows "fst (stream_next early expected t s) = None"
  using assms stream_loop_early [of limit expected t "bs_body s" "bs_buf s" "bs_skip s" r t' _ early]
  by (auto simp: stream_next_def split: prod.splits)

section \<open>Bytes\<close>

text \<open>The bytes a stream still has to deliver are the beginning of \<open>data\<close>.\<close>

definition owed :: "chunk list \<Rightarrow> bytes \<Rightarrow> u64 \<Rightarrow> bytes" where
  "owed body buf skip = buf @ drop (unat skip) (body_bytes body)"

definition feeds :: "block_stream \<Rightarrow> bytes \<Rightarrow> bool" where
  "feeds s data \<longleftrightarrow> (0 < unat (bs_skip s) \<longrightarrow> bs_buf s = [])
     \<and> prefix (owed (bs_body s) (bs_buf s) (bs_skip s)) data"

lemma owed_chunk:
  assumes "0 < unat skip \<longrightarrow> buf = []"
  shows "owed ((ready, Inr chunk) # rest) buf skip = owed rest (buf @ kept skip chunk) (skip_left skip chunk)"
    and "0 < unat (skip_left skip chunk) \<longrightarrow> buf @ kept skip chunk = []"
  using assms by (auto simp: owed_def kept_def unat_skip_left drop_append)

lemma stream_loop_bytes:
  assumes "stream_loop limit expected t body buf skip = (r, t', body', buf', skip')"
    and "0 < unat skip \<longrightarrow> buf = []" and "prefix (owed body buf skip) data" and "\<And>e. r \<noteq> Some (Inl e)"
  shows "(0 < unat skip' \<longrightarrow> buf' = []) \<and>
    (case r of
       Some (Inr b) \<Rightarrow> b = take expected data \<and> length b = expected \<and> prefix (owed body' buf' skip') (drop expected data)
     | _ \<Rightarrow> prefix (owed body' buf' skip') data)"
  using assms
proof (induction body arbitrary: t buf skip)
  case Nil
  then show ?case by (cases "length buf \<ge> expected") (auto simp: stream_loop_full stream_loop_end owed_def
        intro: prefix_bslice_take prefix_bslice_drop elim!: prefixE)
next
  case (Cons x body)
  show ?case
  proof (cases rule: stream_loop_cases [where expected = expected and buf = buf and body = "x # body"
        and t = t and limit = limit])
    case full
    then show ?thesis using Cons.prems by (auto simp: stream_loop_full owed_def elim!: prefixE)
  next
    case (late ready item rest)
    then show ?thesis using Cons.prems by (auto simp: stream_loop_late)
  next
    case (error ready e rest)
    then show ?thesis using Cons.prems(1,4) by (auto simp: stream_loop_error)
  next
    case (chunk ready chunk rest)
    note o = owed_chunk [OF Cons.prems(2)]
    have p: "prefix (owed rest (buf @ kept skip chunk) (skip_left skip chunk)) data"
      using Cons.prems(3) chunk(2) o(1) by simp
    show ?thesis
    proof (cases "buf = [] \<and> length (kept skip chunk) \<ge> expected")
      case True
      then show ?thesis using Cons.prems(1) chunk p o(2)
        by (auto simp: stream_loop_chunk owed_def elim!: prefixE)
    next
      case False
      then have "stream_loop limit expected (max t ready) body (buf @ kept skip chunk) (skip_left skip chunk)
          = (r, t', body', buf', skip')"
        using Cons.prems(1) chunk by (auto simp: stream_loop_chunk split: if_splits)
      from Cons.IH [OF this o(2) _ Cons.prems(4)] p chunk(2) show ?thesis by simp
    qed
  qed simp
qed

lemma stream_next_bytes:
  assumes "stream_next limit expected t s = (r, t', s')" and "feeds s data"
  shows "r = Some (Inr b) \<Longrightarrow> b = take expected data \<and> length b = expected \<and> feeds s' (drop expected data)"
    and "r = None \<Longrightarrow> feeds s' data"
proof -
  obtain body buf skip where l: "stream_loop limit expected t (bs_body s) (bs_buf s) (bs_skip s) = (r, t', body, buf, skip)"
      and s': "s' = s\<lparr>bs_body := body, bs_buf := buf, bs_skip := skip\<rparr>"
    using assms(1) by (auto simp: stream_next_def split: prod.splits)
  note b = stream_loop_bytes [OF l, of data]
  show "r = Some (Inr b) \<Longrightarrow> b = take expected data \<and> length b = expected \<and> feeds s' (drop expected data)"
    using b assms(2) s' by (auto simp: feeds_def)
  show "r = None \<Longrightarrow> feeds s' data" using b assms(2) s' by (auto simp: feeds_def)
qed

section \<open>The loop ends\<close>

fun backup_rank :: "backup \<Rightarrow> nat" where
  "backup_rank BIdle = 0"
| "backup_rank (BStreaming _) = 1"
| "backup_rank (BOpening _ _) = 2"

lemma until_now [simp]: "now (until t w) = max (now w) t"
  by (simp add: until_def)

lemma release_hedge_now [simp]: "now (release_hedge w) = now w"
  by (simp add: release_hedge_def)

lemma count_now [simp]: "now (count ns m n w) = now w"
  by (simp add: count_def)

lemma body_delay_now [simp]: "now (snd (body_delay e ctx cfg w)) = now w"
  by (simp add: body_delay_def split: prod.splits)

lemma primary_only_Return: "\<exists>r w' p'. primary_only limit expected w p = Return r w' p'"
  by (simp add: primary_only_def split: prod.splits)

text \<open>An idle round by cases: the primary alone, a block in time, the limit, or a stall.\<close>

lemma idle_step_cases:
  obtains (alone) "idle_step e ctx start stop expected limit w p = primary_only limit expected w p"
  | (block) cfg delay w1 r t p1 where "hedge (ctx_policy ctx) = Some cfg" "body_delay e ctx cfg w = (delay, w1)"
      "stream_next (min (now w1 + max delay 1) (max (now w1) limit)) expected (now w1) p = (Some r, t, p1)"
      "idle_step e ctx start stop expected limit w p = Return (Some r) (until t w1) p1"
  | (expired) cfg delay w1 t p1 where "hedge (ctx_policy ctx) = Some cfg" "body_delay e ctx cfg w = (delay, w1)"
      "stream_next (min (now w1 + max delay 1) (max (now w1) limit)) expected (now w1) p = (None, t, p1)"
      "idle_step e ctx start stop expected limit w p = Return None (until (max (now w1) limit) w1) p1"
  | (refused) cfg delay w1 t p1 where "hedge (ctx_policy ctx) = Some cfg" "body_delay e ctx cfg w = (delay, w1)"
      "stream_next (min (now w1 + max delay 1) (max (now w1) limit)) expected (now w1) p = (None, t, p1)"
      "now w1 + max delay 1 \<le> max (now w1) limit"
      "idle_step e ctx start stop expected limit w p =
        primary_only (max (now w1) limit) expected (until (now w1 + max delay 1) w1) p1"
  | (stalled) cfg delay w1 t p1 w2 ready response opts where
      "hedge (ctx_policy ctx) = Some cfg" "body_delay e ctx cfg w = (delay, w1)"
      "stream_next (min (now w1 + max delay 1) (max (now w1) limit)) expected (now w1) p = (None, t, p1)"
      "now w1 + max delay 1 \<le> max (now w1) limit" "0 < w_hedges w1"
      "w2 = count (ctx_ns ctx) BodyHedges 1 ((until (now w1 + max delay 1) w1)\<lparr>w_hedges := w_hedges w1 - 1\<rparr>)"
      "e_get e (calls w2) (now w2) (ctx_ns ctx) (ctx_name ctx) opts = (ready, response)"
      "idle_step e ctx start stop expected limit w p = Again (w2\<lparr>calls := calls w2 + 1\<rparr>) p1 (BOpening ready response)"
proof (cases "hedge (ctx_policy ctx)")
  case None
  then show ?thesis using alone by (simp add: idle_step_def)
next
  case (Some cfg)
  obtain delay w1 where d: "body_delay e ctx cfg w = (delay, w1)" by fastforce
  let ?stall = "now w1 + max delay 1" and ?limit = "max (now w1) limit"
  obtain r t p1 where s: "stream_next (min ?stall ?limit) expected (now w1) p = (r, t, p1)"
    by (cases "stream_next (min ?stall ?limit) expected (now w1) p")
  show ?thesis
  proof (cases r)
    case (Some v)
    then show ?thesis using block [OF \<open>hedge (ctx_policy ctx) = Some cfg\<close> d] s
      \<open>hedge (ctx_policy ctx) = Some cfg\<close> d by (simp add: idle_step_def Let_def)
  next
    case None
    note s = s [unfolded None]
    show ?thesis
    proof (cases "?stall > ?limit")
      case True
      then show ?thesis using expired [OF Some d s] Some d s by (simp add: idle_step_def Let_def)
    next
      case le: False
      show ?thesis
      proof (cases "w_hedges w1 = 0")
        case True
        then show ?thesis using refused [OF Some d s] le Some d s
          by (simp add: idle_step_def Let_def until_def)
      next
        case False
        let ?w = "count (ctx_ns ctx) BodyHedges 1 ((until ?stall w1)\<lparr>w_hedges := w_hedges w1 - 1\<rparr>)"
        let ?opts = "\<lparr>opt_range = Some (Range start stop), opt_if_match = ctx_if_match ctx, opt_if_none_match = None\<rparr>"
        obtain ready response where g:
          "e_get e (calls ?w) (now ?w) (ctx_ns ctx) (ctx_name ctx) ?opts = (ready, response)" by fastforce
        have "idle_step e ctx start stop expected limit w p = Again (?w\<lparr>calls := calls ?w + 1\<rparr>) p1 (BOpening ready response)"
          using le False Some d s g by (simp add: idle_step_def Let_def until_def call_get_def)
        then show ?thesis using stalled [OF Some d s _ _ refl g] le False by simp
      qed
    qed
  qed
qed

lemma idle_step_again:
  assumes "idle_step e ctx start stop expected limit w p = Again w' p' b'"
  shows "now w < now w'" and "now w' \<le> limit"
proof -
  have "now w < now w' \<and> now w' \<le> limit"
  proof (cases rule: idle_step_cases [of e ctx start stop expected limit w p])
    case (stalled cfg delay w1 t p1 w2 ready response opts)
    have n: "now w1 = now w" using body_delay_now [of e ctx cfg w] stalled(2) by simp
    have "now w' = now w1 + max delay 1" using assms stalled(6,8) by (auto simp: max_def)
    moreover have "1 \<le> max delay 1" by simp
    ultimately show ?thesis using stalled(4) n by linarith
  qed (use assms in \<open>auto simp: primary_only_def split: prod.splits\<close>)
  then show "now w < now w'" and "now w' \<le> limit" by simp_all
qed

lemma opening_step_again:
  assumes "opening_step e ctx start expected limit w p ready response = Again w' p' b'"
  shows "now w \<le> now w'" and "backup_rank b' < 2"
  using assms
  by (auto simp: opening_step_def Let_def split: prod.splits option.splits sum.splits if_splits)

lemma streaming_step_again:
  assumes "streaming_step ctx expected limit w p b = Again w' p' b'"
  shows "now w \<le> now w'" and "b' = BIdle"
  using assms
  by (auto simp: streaming_step_def split: prod.splits option.splits sum.splits if_splits)

lemma hedge_round_again:
  assumes "hedge_round e ctx start stop expected limit w p b = Again w' p' b'"
  shows "limit - now w' < limit - now w \<or> limit - now w' \<le> limit - now w \<and> backup_rank b' < backup_rank b"
proof (cases b)
  case BIdle
  then show ?thesis using assms idle_step_again [of e ctx start stop expected limit w p w' p' b']
    by (simp add: hedge_round_def)
next
  case (BOpening ready response)
  then show ?thesis using assms opening_step_again [of e ctx start expected limit w p ready response w' p' b']
    by (simp add: hedge_round_def diff_le_mono2)
next
  case (BStreaming s)
  then show ?thesis using assms streaming_step_again [of ctx expected limit w p s w' p' b']
    by (simp add: hedge_round_def diff_le_mono2)
qed

text \<open>\<^verbatim>\<open>HedgedBody::next_block\<close>.\<close>

function hedged_loop ::
  "env \<Rightarrow> read_ctx \<Rightarrow> u64 \<Rightarrow> u64 \<Rightarrow> nat \<Rightarrow> nanos \<Rightarrow> world \<Rightarrow> block_stream \<Rightarrow> backup
   \<Rightarrow> (origin_error + bytes) option \<times> world \<times> block_stream" where
  "hedged_loop e ctx start stop expected limit w p b =
     (case hedge_round e ctx start stop expected limit w p b of
        Return r w p \<Rightarrow> (r, w, p)
      | Again w p b \<Rightarrow> hedged_loop e ctx start stop expected limit w p b)"
  by pat_completeness auto
termination
  by (relation "measures [\<lambda>(e, ctx, start, stop, expected, limit, w, p, b). limit - now w,
      \<lambda>(e, ctx, start, stop, expected, limit, w, p, b). backup_rank b]")
    (auto dest: hedge_round_again)

declare hedged_loop.simps [simp del]

definition hedged_next ::
  "env \<Rightarrow> read_ctx \<Rightarrow> u64 \<Rightarrow> u32 \<Rightarrow> nat \<Rightarrow> nanos \<Rightarrow> world \<Rightarrow> block_stream
   \<Rightarrow> (origin_error + bytes) option \<times> world \<times> block_stream" where
  "hedged_next e ctx stop i expected limit w p =
     hedged_loop e ctx (block_offset (ctx_bs ctx) i) stop expected limit w p BIdle"

section \<open>What a hedged body leaves alone\<close>

text \<open>The parts of the state only the fetcher and the readers touch.\<close>

definition same_stores :: "world \<Rightarrow> world \<Rightarrow> bool" where
  "same_stores w w' \<longleftrightarrow>
     w_blocks w' = w_blocks w \<and> w_flight w' = w_flight w \<and> w_meta w' = w_meta w
     \<and> w_readahead w' = w_readahead w \<and> w_tasks w' = w_tasks w \<and> w_by_name w' = w_by_name w
     \<and> w_states w' = w_states w \<and> w_closed w' = w_closed w"

lemma same_stores_refl [simp]: "same_stores w w"
  by (simp add: same_stores_def)

lemma same_stores_trans: "same_stores a b \<Longrightarrow> same_stores b c \<Longrightarrow> same_stores a c"
  by (simp add: same_stores_def)

lemma same_stores_ops [simp, intro]:
  "same_stores w w' \<Longrightarrow> same_stores w (until t w')"
  "same_stores w w' \<Longrightarrow> same_stores w (count ns m n w')"
  "same_stores w w' \<Longrightarrow> same_stores w (release_hedge w')"
  "same_stores w w' \<Longrightarrow> same_stores w (w'\<lparr>w_hedges := h\<rparr>)"
  "same_stores w w' \<Longrightarrow> same_stores w (w'\<lparr>calls := c\<rparr>)"
  "same_stores w w' \<Longrightarrow> same_stores w (w'\<lparr>now := c\<rparr>)"
  "same_stores w w' \<Longrightarrow> same_stores w (w'\<lparr>w_block := l\<rparr>)"
  "same_stores w w' \<Longrightarrow> same_stores w (w'\<lparr>w_ttfb := l\<rparr>)"
  by (simp_all add: same_stores_def until_def count_def release_hedge_def)

lemma call_get_stores [simp]: "same_stores w (snd (call_get e ns name opts w))"
  by (simp add: call_get_def)

lemma body_delay_stores [simp]: "same_stores w (snd (body_delay e ctx cfg w))"
  by (simp add: body_delay_def split: prod.splits)

fun step_world :: "hedge_step \<Rightarrow> world" where
  "step_world (Return r w p) = w"
| "step_world (Again w p b) = w"

lemma primary_only_stores: "same_stores w (step_world (primary_only limit expected w p))"
  by (simp add: primary_only_def split: prod.splits)

section \<open>Faithful origins\<close>

text \<open>
  What is assumed of an origin. \<open>ver ns name tag\<close> are the bytes of the version of the object that
  the tag names. A response that carries the metadata of a version has a body that begins like the
  requested part of that version and may end early, and its range and metadata are those of that
  version. In an immutable namespace there is one version, with the tag 0.
\<close>

type_synonym versions = "u32 \<Rightarrow> string \<Rightarrow> u64 \<Rightarrow> bytes"

definition meta_of_version :: "tag_hash \<Rightarrow> versions \<Rightarrow> namespace_state \<Rightarrow> string \<Rightarrow> object_meta \<Rightarrow> bool" where
  "meta_of_version h ver ns name m \<longleftrightarrow>
     length (ver (ns_id ns) name (block_tag h (consistency_of ns) m)) = unat (meta_size m)
     \<and> fits (bs_of ns) (unat (meta_size m))
     \<and> (\<forall>t. meta_etag m = Some t \<longrightarrow> length t < 2 ^ 16)"

definition response_of_version :: "tag_hash \<Rightarrow> versions \<Rightarrow> namespace_state \<Rightarrow> string \<Rightarrow> get_response \<Rightarrow> bool" where
  "response_of_version h ver ns name resp \<longleftrightarrow>
     meta_of_version h ver ns name (resp_meta resp)
     \<and> prefix (body_bytes (resp_body resp))
         (bslice (unat (range_start (resp_range resp))) (unat (range_end (resp_range resp)))
            (ver (ns_id ns) name (block_tag h (consistency_of ns) (resp_meta resp))))"

definition faithful :: "env \<Rightarrow> versions \<Rightarrow> namespace_state \<Rightarrow> bool" where
  "faithful e ver ns \<longleftrightarrow>
     (\<forall>n t name opts ready resp. e_get e n t (ns_id ns) name opts = (ready, Inr resp) \<longrightarrow>
        response_of_version (e_tag e) ver ns name resp)
     \<and> (\<forall>n t name ready m. e_head e n t (ns_id ns) name = (ready, Inr m) \<longrightarrow>
        meta_of_version (e_tag e) ver ns name m)"

text \<open>A read context whose tag fits the consistency mode, as \<^verbatim>\<open>ReadCtx::new\<close> builds it.\<close>

definition ctx_ok :: "read_ctx \<Rightarrow> bool" where
  "ctx_ok ctx \<longleftrightarrow> (ctx_tag ctx = IMMUTABLE_TAG \<longleftrightarrow> is_immutable (consistency_of (ctx_namespace ctx)))"

abbreviation ctx_content :: "versions \<Rightarrow> read_ctx \<Rightarrow> bytes" where
  "ctx_content ver ctx \<equiv> ver (ctx_ns ctx) (ctx_name ctx) (ctx_tag ctx)"

lemma ctx_tag_of_response:
  assumes "ctx_ok ctx"
    and "ctx_tag ctx = IMMUTABLE_TAG \<or> content_tag h (meta_etag m) (meta_size m) = ctx_tag ctx"
  shows "block_tag h (consistency_of (ctx_namespace ctx)) m = ctx_tag ctx"
  using assms by (auto simp: ctx_ok_def block_tag_def)

lemma prefix_drop_content:
  "prefix ys (bslice a b xs) \<Longrightarrow> prefix (drop n ys) (drop (a + n) xs)"
proof -
  assume "prefix ys (bslice a b xs)"
  moreover have "prefix (bslice a b xs) (drop a xs)" by (simp add: bslice_def take_is_prefix)
  ultimately have "prefix ys (drop a xs)" by (rule prefix_order.trans)
  then obtain zs where "drop a xs = ys @ zs" by (auto elim: prefixE)
  then have "drop n (drop a xs) = drop n ys @ drop (n - length ys) zs" by simp
  then have "drop (a + n) xs = drop n ys @ drop (n - length ys) zs" by (simp add: add.commute)
  then show ?thesis by (rule prefixI)
qed

lemma adopt_backup_feeds:
  assumes "adopt_backup e ctx response start t = Some s" and "ctx_ok ctx"
    and "\<And>resp. response = Inr resp \<Longrightarrow>
      response_of_version (e_tag e) ver (ctx_namespace ctx) (ctx_name ctx) resp"
  shows "feeds s (drop (unat start) (ctx_content ver ctx))"
proof -
  obtain resp behind where resp: "response = Inr resp"
      and behind: "checked_sub start (range_start (resp_range resp)) = Some behind"
      and tag: "ctx_tag ctx = IMMUTABLE_TAG \<or>
        content_tag (e_tag e) (meta_etag (resp_meta resp)) (meta_size (resp_meta resp)) = ctx_tag ctx"
      and s: "s = skipping behind (block_stream_new (resp_body resp) t)"
    using assms(1) by (auto simp: adopt_backup_def Let_def split: sum.splits option.splits if_splits)
  have sub: "unat (range_start (resp_range resp)) + unat behind = unat start"
    using behind by (auto simp: checked_sub_Some unat_sub_le word_le_nat_alt)
  have "prefix (drop (unat behind) (body_bytes (resp_body resp)))
      (drop (unat (range_start (resp_range resp)) + unat behind) (ctx_content ver ctx))"
    using assms(3) [OF resp] ctx_tag_of_response [OF assms(2) tag]
    by (intro prefix_drop_content [where b = "unat (range_end (resp_range resp))"])
      (simp add: response_of_version_def)
  then show ?thesis unfolding sub s by (simp add: feeds_def owed_def skipping_def block_stream_new_def)
qed

section \<open>A hedged body delivers the version\<close>

text \<open>What every round keeps: both streams deliver \<open>data\<close>, and a permit is held while a backup is.\<close>

definition backup_ok :: "env \<Rightarrow> versions \<Rightarrow> read_ctx \<Rightarrow> bytes \<Rightarrow> backup \<Rightarrow> bool" where
  "backup_ok e ver ctx data b \<longleftrightarrow>
     (case b of
        BIdle \<Rightarrow> True
      | BOpening _ response \<Rightarrow> (\<forall>resp. response = Inr resp \<longrightarrow>
          response_of_version (e_tag e) ver (ctx_namespace ctx) (ctx_name ctx) resp)
      | BStreaming s \<Rightarrow> feeds s data)"

definition permits :: "world \<Rightarrow> backup \<Rightarrow> nat" where
  "permits w b = w_hedges w + (if b = BIdle then 0 else 1)"

definition round_ok :: "env \<Rightarrow> versions \<Rightarrow> read_ctx \<Rightarrow> bytes \<Rightarrow> nat \<Rightarrow> world \<Rightarrow> nat \<Rightarrow> hedge_step \<Rightarrow> bool" where
  "round_ok e ver ctx data expected w n st \<longleftrightarrow>
     (case st of
        Return r w' p' \<Rightarrow> same_stores w w' \<and> now w \<le> now w' \<and> w_hedges w' = n
          \<and> (\<forall>b. r = Some (Inr b) \<longrightarrow> b = take expected data \<and> length b = expected \<and> feeds p' (drop expected data))
      | Again w' p' b' \<Rightarrow> same_stores w w' \<and> now w \<le> now w' \<and> permits w' b' = n \<and> feeds p' data
          \<and> backup_ok e ver ctx data b')"

lemma w_hedges_ops [simp]:
  "w_hedges (until t w) = w_hedges w" "w_hedges (count ns m n w) = w_hedges w"
  "w_hedges (release_hedge w) = Suc (w_hedges w)"
  by (simp_all add: until_def count_def release_hedge_def)

lemma body_delay_hedges [simp]: "w_hedges (snd (body_delay e ctx cfg w)) = w_hedges w"
  by (simp add: body_delay_def split: prod.splits)

lemma primary_only_ok:
  assumes "feeds p data" and "same_stores w0 w" and "now w0 \<le> now w" and "w_hedges w = n"
  shows "round_ok e ver ctx data expected w0 n (primary_only limit expected w p)"
  using assms stream_next_bytes(1) [of limit expected "now w" p]
  by (auto simp: primary_only_def round_ok_def split: prod.splits)

lemma idle_step_ok:
  assumes "faithful e ver (ctx_namespace ctx)" and "feeds p data"
  shows "round_ok e ver ctx data expected w (permits w BIdle) (idle_step e ctx start stop expected limit w p)"
proof (cases rule: idle_step_cases [of e ctx start stop expected limit w p])
  case alone
  then show ?thesis using assms(2) by (simp add: primary_only_ok permits_def)
next
  case (block cfg delay w1 r t p1)
  have w1: "same_stores w w1" "now w1 = now w" "w_hedges w1 = w_hedges w"
    using body_delay_stores [of w e ctx cfg] body_delay_now [of e ctx cfg w]
      body_delay_hedges [of e ctx cfg w] block(2) by simp_all
  show ?thesis using block(4) w1 stream_next_bytes(1) [OF block(3) assms(2)]
    by (auto simp: round_ok_def permits_def)
next
  case (expired cfg delay w1 t p1)
  have w1: "same_stores w w1" "now w1 = now w" "w_hedges w1 = w_hedges w"
    using body_delay_stores [of w e ctx cfg] body_delay_now [of e ctx cfg w]
      body_delay_hedges [of e ctx cfg w] expired(2) by simp_all
  show ?thesis using expired(4) w1 by (auto simp: round_ok_def permits_def)
next
  case (refused cfg delay w1 t p1)
  have w1: "same_stores w w1" "now w1 = now w" "w_hedges w1 = w_hedges w"
    using body_delay_stores [of w e ctx cfg] body_delay_now [of e ctx cfg w]
      body_delay_hedges [of e ctx cfg w] refused(2) by simp_all
  have "feeds p1 data" by (rule stream_next_bytes(2) [OF refused(3) assms(2) refl])
  then show ?thesis unfolding refused(5) using w1 by (intro primary_only_ok) (auto simp: permits_def)
next
  case (stalled cfg delay w1 t p1 w2 ready response opts)
  have w1: "same_stores w w1" "now w1 = now w" "w_hedges w1 = w_hedges w"
    using body_delay_stores [of w e ctx cfg] body_delay_now [of e ctx cfg w]
      body_delay_hedges [of e ctx cfg w] stalled(2) by simp_all
  have f: "feeds p1 data" by (rule stream_next_bytes(2) [OF stalled(3) assms(2) refl])
  have "response = Inr resp \<Longrightarrow> response_of_version (e_tag e) ver (ctx_namespace ctx) (ctx_name ctx) resp" for resp
    using assms(1) stalled(7) by (auto simp: faithful_def)
  then show ?thesis using stalled(5,6,8) w1 f by (auto simp: round_ok_def permits_def backup_ok_def)
qed

lemma opening_step_ok:
  assumes "ctx_ok ctx" and "feeds p (drop (unat start) (ctx_content ver ctx))"
    and "backup_ok e ver ctx data (BOpening ready response)" and "data = drop (unat start) (ctx_content ver ctx)"
  shows "round_ok e ver ctx data expected w (permits w (BOpening ready response))
    (opening_step e ctx start expected limit w p ready response)"
proof -
  let ?ready = "max (now w) ready" and ?limit = "max (now w) limit"
  obtain r t p1 where s: "stream_next (min ?ready ?limit) expected (now w) p = (r, t, p1)"
    by (cases "stream_next (min ?ready ?limit) expected (now w) p")
  have adopt: "feeds s data" if "adopt_backup e ctx response start t' = Some s" for s t'
    using adopt_backup_feeds [OF that assms(1), of ver] assms(3,4) by (simp add: backup_ok_def)
  note b = stream_next_bytes [OF s assms(2)]
  show ?thesis
    using s b adopt assms(4)
    by (auto simp: opening_step_def Let_def round_ok_def permits_def backup_ok_def
        split: option.splits sum.splits if_splits)
qed

lemma backup_run_time:
  assumes "backup_run limit expected t0 r t b = (rb, tb, b')" and "t0 \<le> t"
  shows "t0 \<le> tb" and "rb \<noteq> None \<Longrightarrow> r = None \<and> tb \<le> max t0 limit \<or> tb < t"
  using assms stream_next_time [of limit expected t0 b rb tb b'] stream_next_time [of "t - 1" expected t0 b rb tb b']
  by (auto simp: backup_run_def split: if_splits)

lemma backup_run_bytes:
  assumes "backup_run limit expected t0 r t b = (rb, tb, b')" and "feeds b data"
  shows "rb = Some (Inr blk) \<Longrightarrow> blk = take expected data \<and> length blk = expected \<and> feeds b' (drop expected data)"
    and "rb = None \<Longrightarrow> feeds b' data"
  using assms stream_next_bytes [OF _ assms(2)] by (auto simp: backup_run_def split: if_splits)

lemma streaming_step_ok:
  assumes "feeds p data" and "feeds b data"
  shows "round_ok e ver ctx data expected w (permits w (BStreaming b)) (streaming_step ctx expected limit w p b)"
proof -
  obtain r t p1 where s: "stream_next limit expected (now w) p = (r, t, p1)"
    by (cases "stream_next limit expected (now w) p")
  obtain rb tb b1 where sb: "backup_run limit expected (now w) r t b = (rb, tb, b1)"
    by (cases "backup_run limit expected (now w) r t b")
  note p1 = stream_next_bytes [OF s assms(1)] and b1 = backup_run_bytes [OF sb assms(2)]
  note tm = backup_run_time [OF sb stream_next_time(1) [OF s]]
  obtain r2 t2 p2 where s2: "stream_next tb expected (now w) p = (r2, t2, p2)"
    by (cases "stream_next tb expected (now w) p")
  have p2: "feeds p2 data" if "rb \<noteq> None"
    using stream_next_early [OF s tm(1)] tm(2) [OF that] s2 stream_next_bytes(2) [OF s2 assms(1)] by simp
  show ?thesis
    using s sb s2 p1 b1 p2
    by (auto simp: streaming_step_def round_ok_def permits_def backup_ok_def split: option.splits sum.splits)
qed

lemma hedge_round_ok:
  assumes "faithful e ver (ctx_namespace ctx)" and "ctx_ok ctx"
    and "data = drop (unat start) (ctx_content ver ctx)" and "feeds p data" and "backup_ok e ver ctx data b"
  shows "round_ok e ver ctx data expected w (permits w b) (hedge_round e ctx start stop expected limit w p b)"
proof (cases b)
  case BIdle
  then show ?thesis using idle_step_ok [OF assms(1,4)] by (simp add: hedge_round_def)
next
  case (BOpening ready response)
  then show ?thesis
    using opening_step_ok [of ctx p start ver e data ready response expected w limit] assms(2-5)
    by (simp add: hedge_round_def)
next
  case (BStreaming s)
  then show ?thesis using streaming_step_ok [OF assms(4)] assms(5)
    by (simp add: hedge_round_def backup_ok_def)
qed

lemma hedged_loop_ok:
  assumes "faithful e ver (ctx_namespace ctx)" and "ctx_ok ctx"
    and "data = drop (unat start) (ctx_content ver ctx)" and "feeds p data" and "backup_ok e ver ctx data b"
    and "hedged_loop e ctx start stop expected limit w p b = (r, w', p')"
  shows "same_stores w w' \<and> now w \<le> now w' \<and> w_hedges w' = permits w b
    \<and> (\<forall>blk. r = Some (Inr blk) \<longrightarrow> blk = take expected data \<and> length blk = expected \<and> feeds p' (drop expected data))"
  using assms
proof (induction e ctx start stop expected limit w p b arbitrary: r w' p' rule: hedged_loop.induct)
  case (1 e ctx start stop expected limit w p b)
  note ok = hedge_round_ok [OF "1.prems"(1-5), of expected w stop limit]
  show ?case
  proof (cases "hedge_round e ctx start stop expected limit w p b")
    case (Return r1 w1 p1)
    then show ?thesis using "1.prems"(6) ok by (simp add: hedged_loop.simps [of e] round_ok_def)
  next
    case (Again w1 p1 b1)
    then have "hedged_loop e ctx start stop expected limit w1 p1 b1 = (r, w', p')"
      using "1.prems"(6) by (simp add: hedged_loop.simps [of e ctx start stop expected limit w p b])
    note ih = "1.IH" [OF Again "1.prems"(1-3) _ _ this]
    show ?thesis using ih ok Again same_stores_trans [of w w1 w'] by (auto simp: round_ok_def)
  qed
qed

lemma hedged_next_ok:
  assumes "faithful e ver (ctx_namespace ctx)" and "ctx_ok ctx"
    and "feeds p (drop (unat (block_offset (ctx_bs ctx) i)) (ctx_content ver ctx))"
    and "hedged_next e ctx stop i expected limit w p = (r, w', p')"
  shows "same_stores w w'" and "now w \<le> now w'" and "w_hedges w' = w_hedges w"
    and "r = Some (Inr blk) \<Longrightarrow>
      blk = take expected (drop (unat (block_offset (ctx_bs ctx) i)) (ctx_content ver ctx))
      \<and> length blk = expected
      \<and> feeds p' (drop expected (drop (unat (block_offset (ctx_bs ctx) i)) (ctx_content ver ctx)))"
  using hedged_loop_ok [OF assms(1,2) refl assms(3), of BIdle stop expected limit w r w' p'] assms(4)
  by (auto simp: hedged_next_def backup_ok_def permits_def)

end
