(* ===== verification/Fetch.thy ===== *)
theory Fetch
  imports Body
begin

text \<open>
  Origin fetch scheduling, \<^verbatim>\<open>nestor/src/fetch.rs\<close>: lookups grouped into fetches, hedged requests,
  retries, the adoption of a response by a group of slots, and the blocks a wider response brings
  along. Each function of \<^verbatim>\<open>Fetcher\<close> is a function on the state. The permits of the foreground and
  background semaphores only delay a task and are left out; those of the hedge semaphore decide
  whether a hedge is sent and are counted.

  A group that is fetched holds its slots in a list; a slot that goes out of scope unresolved is
  dropped, which cancels its waiters.
\<close>

section \<open>Waiting\<close>

text \<open>The future that is there at \<open>t\<close>, awaited under the limit.\<close>

definition await_until :: "nanos \<Rightarrow> nanos \<Rightarrow> 'a \<Rightarrow> world \<Rightarrow> 'a option \<times> world" where
  "await_until limit t x w =
     (if t \<le> max (now w) limit then (Some x, until t w) else (None, until limit w))"

section \<open>Requests to the origin\<close>

definition observe_ttfb ::
  "u32 \<Rightarrow> nanos \<Rightarrow> (origin_error + get_response) option \<times> world \<Rightarrow> (origin_error + get_response) option \<times> world" where
  "observe_ttfb ns started rw =
     (case rw of
        (Some (Inr resp), w) \<Rightarrow>
          (Some (Inr resp), w\<lparr>w_ttfb := (w_ttfb w)(ns := observe_at (now w - started) (now w) (w_ttfb w ns))\<rparr>)
      | (r, w) \<Rightarrow> (r, w))"

definition headers_delay :: "env \<Rightarrow> read_ctx \<Rightarrow> hedge_config \<Rightarrow> world \<Rightarrow> nanos \<times> world" where
  "headers_delay e ctx cfg w =
     (case hedge_delay (e_round e) cfg (now w) (w_ttfb w (ctx_ns ctx)) of
        (d, l) \<Rightarrow> (unwrap_or d (hedge_max cfg), w\<lparr>w_ttfb := (w_ttfb w)(ctx_ns ctx := l)\<rparr>))"

text \<open>The race of the primary request, there at \<open>tp\<close>, with the secondary sent at \<open>hedged_at\<close>.\<close>

definition hedge_race ::
  "read_ctx \<Rightarrow> nanos \<Rightarrow> nanos \<Rightarrow> nanos \<Rightarrow> nanos \<Rightarrow> origin_error + get_response
   \<Rightarrow> nanos \<Rightarrow> origin_error + get_response \<Rightarrow> world \<Rightarrow> (origin_error + get_response) option \<times> world" where
  "hedge_race ctx limit started hedged_at tp primary ts secondary w =
     (let ns = ctx_ns ctx; won = count ns HeaderHedgeWins 1
      in if tp \<le> ts
         then (case await_until limit tp primary w of
                 (Some (Inl err), w) \<Rightarrow>
                   if is_retryable err
                   then observe_ttfb ns hedged_at (await_until limit ts secondary (won w))
                   else observe_ttfb ns started (Some (Inl err), w)
               | (r, w) \<Rightarrow> observe_ttfb ns started (r, w))
         else (case await_until limit ts secondary w of
                 (Some (Inl err), w) \<Rightarrow>
                   if is_retryable err then observe_ttfb ns started (await_until limit tp primary w)
                   else observe_ttfb ns hedged_at (Some (Inl err), won w)
               | (Some (Inr resp), w) \<Rightarrow> observe_ttfb ns hedged_at (Some (Inr resp), won w)
               | (None, w) \<Rightarrow> (None, w)))"

definition get_hedged ::
  "env \<Rightarrow> read_ctx \<Rightarrow> get_options \<Rightarrow> nanos \<Rightarrow> world \<Rightarrow> (origin_error + get_response) option \<times> world" where
  "get_hedged e ctx opts limit w =
     (let ns = ctx_ns ctx; started = now w
      in case call_get e ns (ctx_name ctx) opts w of
           ((ready, primary), w) \<Rightarrow>
             let tp = max started ready
             in case hedge (ctx_policy ctx) of
                  None \<Rightarrow> observe_ttfb ns started (await_until limit tp primary w)
                | Some cfg \<Rightarrow>
                    (case headers_delay e ctx cfg w of
                       (delay, w) \<Rightarrow>
                         let stall = started + delay
                         in if tp \<le> stall then observe_ttfb ns started (await_until limit tp primary w)
                            else if stall > max started limit then (None, until limit w)
                            else let w = until stall w
                                 in if w_hedges w = 0
                                    then observe_ttfb ns started (await_until limit tp primary w)
                                    else let w = count ns HeaderHedges 1 (w\<lparr>w_hedges := w_hedges w - 1\<rparr>)
                                         in case call_get e ns (ctx_name ctx) opts w of
                                              ((ready, secondary), w) \<Rightarrow>
                                                (case hedge_race ctx limit started stall tp primary
                                                        (max stall ready) secondary w of
                                                   (r, w) \<Rightarrow> (r, release_hedge w))))"

definition origin_get ::
  "env \<Rightarrow> read_ctx \<Rightarrow> get_options \<Rightarrow> nanos \<Rightarrow> world \<Rightarrow> (origin_error + get_response) \<times> world" where
  "origin_get e ctx opts dl w =
     (let w = count (ctx_ns ctx) OriginRequests 1 w;
          started = now w;
          headers_by = min (started + first_byte (ctx_policy ctx)) dl
      in case get_hedged e ctx opts headers_by w of
           (Some r, w) \<Rightarrow> (r, w)
         | (None, w) \<Rightarrow> (Inl (Timeout (headers_by - started)), count (ctx_ns ctx) OriginTimeouts 1 w))"

section \<open>Head\<close>

text \<open>One attempt of \<^verbatim>\<open>Fetcher::head\<close>.\<close>

definition head_attempt :: "env \<Rightarrow> namespace_state \<Rightarrow> string \<Rightarrow> retry \<Rightarrow> world \<Rightarrow> (origin_error + object_meta) \<times> world" where
  "head_attempt e ns name r w =
     (let w = count (ns_id ns) MetaHeads 1 w;
          started = now w;
          by_when = min (started + first_byte (retry_policy r)) (attempt_deadline r started)
      in case call_head e (ns_id ns) name w of
           ((ready, result), w) \<Rightarrow>
             (case await_until by_when (max started ready) result w of
                (Some result, w) \<Rightarrow> (result, w)
              | (None, w) \<Rightarrow> (Inl (Timeout (by_when - started)), count (ns_id ns) OriginTimeouts 1 w)))"

function head_loop ::
  "env \<Rightarrow> namespace_state \<Rightarrow> object_key \<Rightarrow> string \<Rightarrow> retry \<Rightarrow> world \<Rightarrow> (nestor_error + object_meta) \<times> world" where
  "head_loop e ns key name r w =
     (case head_attempt e ns name r w of
        (Inr m, w) \<Rightarrow> (Inr m, put_meta key m w)
      | (Inl err, w) \<Rightarrow>
          let w = count (ns_id ns) OriginErrors 1 w
          in case failed r err (now w) of
               (Inl err, _, _) \<Rightarrow> (Inl (from_origin err), remove_meta key w)
             | (Inr _, r, t) \<Rightarrow> head_loop e ns key name r (count (ns_id ns) OriginRetries 1 (until t w)))"
  by pat_completeness auto
termination
  by (relation "measure (\<lambda>(e, ns, key, name, r, w). retry_rank r)") (auto dest: failed_rank failed_rank [OF sym])

declare head_loop.simps [simp del]

definition fetch_head :: "env \<Rightarrow> namespace_state \<Rightarrow> object_key \<Rightarrow> string \<Rightarrow> world \<Rightarrow> (nestor_error + object_meta) \<times> world" where
  "fetch_head e ns key name w = head_loop e ns key name (retry_new (fetch (ns_config ns)) (now w)) w"

definition past_end :: "env \<Rightarrow> namespace_state \<Rightarrow> object_key \<Rightarrow> string \<Rightarrow> u64 \<Rightarrow> world \<Rightarrow> object_meta option \<times> world" where
  "past_end e ns key name start w =
     (case fetch_head e ns key name w of
        (Inl _, w) \<Rightarrow> (None, w)
      | (Inr m, w) \<Rightarrow> (if start \<ge> meta_size m then Some m else None, w))"

section \<open>Scheduling\<close>

fun lookup_all :: "env \<Rightarrow> block_key list \<Rightarrow> world \<Rightarrow> (block_key \<times> block option) list \<times> world" where
  "lookup_all e [] w = ([], w)"
| "lookup_all e (k # ks) w =
     (case cache_get e k w of
        (found, w) \<Rightarrow> (case lookup_all e ks w of (rest, w) \<Rightarrow> ((k, found) # rest, w)))"

fun register_all ::
  "env \<Rightarrow> u32 \<Rightarrow> (block_key \<times> block option) list \<Rightarrow> world \<Rightarrow> slot_handle list \<times> slot list \<times> world" where
  "register_all e ns [] w = ([], [], w)"
| "register_all e ns ((k, Some b) # rest) w =
     (case handle_resolved (Inr b) (w_flight w) of
        (h, f) \<Rightarrow>
          (case register_all e ns rest (count ns Hits 1 (w\<lparr>w_flight := f\<rparr>)) of
             (hs, owners, w) \<Rightarrow> (h # hs, owners, w)))"
| "register_all e ns ((k, None) # rest) w =
     (case register_slot e k w of
        (Owner sl h, w) \<Rightarrow>
          (case register_all e ns rest w of (hs, owners, w) \<Rightarrow> (h # hs, sl # owners, w))
      | (Waiter h, w) \<Rightarrow>
          (case register_all e ns rest (count ns Joined 1 w) of (hs, owners, w) \<Rightarrow> (h # hs, owners, w)))"

text \<open>Blocks that have landed since: their slots are resolved, the others remain.\<close>

fun resolve_landed :: "env \<Rightarrow> u32 \<Rightarrow> (slot \<times> block option) list \<Rightarrow> world \<Rightarrow> slot list \<times> world" where
  "resolve_landed e ns [] w = ([], w)"
| "resolve_landed e ns ((sl, Some b) # rest) w =
     resolve_landed e ns rest (resolve_slot e (Inr b) sl (count ns Hits 1 w))"
| "resolve_landed e ns ((sl, None) # rest) w =
     (case resolve_landed e ns rest (count ns Misses 1 w) of (sls, w) \<Rightarrow> (sl # sls, w))"

fun spawn_groups :: "env \<Rightarrow> read_ctx \<Rightarrow> priority \<Rightarrow> miss_group list \<Rightarrow> slot list \<Rightarrow> world \<Rightarrow> world" where
  "spawn_groups e ctx pri [] owners w = drop_all e owners w"
| "spawn_groups e ctx pri (g # gs) owners w =
     spawn_groups e ctx pri gs (drop (unat (group_count g)) owners)
       (spawn (FetchGroup ctx (take (unat (group_count g)) owners) pri None) w)"

definition schedule :: "env \<Rightarrow> read_ctx \<Rightarrow> u32 urange \<Rightarrow> priority \<Rightarrow> world \<Rightarrow> slot_handle list \<times> world" where
  "schedule e ctx indexes pri w =
     (case lookup_all e (map (block_key_new (ctx_key ctx) (ctx_tag ctx)) (range_list indexes)) w of
        (results, w) \<Rightarrow>
          (case register_all e (ctx_ns ctx) results w of
             (handles, owners, w) \<Rightarrow>
               if owners = [] then (handles, w)
               else (case lookup_all e (map slot_key owners) w of
                       (landed, w) \<Rightarrow>
                         (case resolve_landed e (ctx_ns ctx) (zip owners (map snd landed)) w of
                            (owners, w) \<Rightarrow>
                              if owners = [] then (handles, w)
                              else (handles,
                                    spawn_groups e ctx pri
                                      (group_misses (map (\<lambda>s. bk_index (slot_key s)) owners)
                                        (fetch_window (ns_config (ctx_namespace ctx))))
                                      owners w)))))"

section \<open>Adoption of a response\<close>

text \<open>Slots are registered as long as no other fetch has the block.\<close>

fun adopt_slots :: "env \<Rightarrow> block_key list \<Rightarrow> world \<Rightarrow> slot list \<times> slot_handle list \<times> world" where
  "adopt_slots e [] w = ([], [], w)"
| "adopt_slots e (k # ks) w =
     (case register_slot e k w of
        (Owner sl h, w) \<Rightarrow>
          (case adopt_slots e ks w of (sls, hs, w) \<Rightarrow> (sl # sls, h # hs, w))
      | (Waiter _, w) \<Rightarrow> ([], [], w))"

definition adopt :: "env \<Rightarrow> read_ctx \<Rightarrow> u32 urange \<Rightarrow> get_response \<Rightarrow> world \<Rightarrow> slot_handle list \<times> world" where
  "adopt e ctx indexes response w =
     (let stop = min (range_end indexes) (block_count (ctx_bs ctx) (meta_size (resp_meta response)))
      in case adopt_slots e
                (map (block_key_new (ctx_key ctx) (ctx_tag ctx)) (range_list (Range (range_start indexes) stop))) w of
           (slots, fetched, w) \<Rightarrow>
             let w = count (ctx_ns ctx) Misses (length slots) w
             in (fetched,
                 if slots \<noteq> [] then spawn (FetchGroup ctx slots Foreground (Some response)) w else w))"

section \<open>Consuming a response\<close>

definition claim :: "env \<Rightarrow> read_ctx \<Rightarrow> u32 \<Rightarrow> world \<Rightarrow> slot option \<times> world" where
  "claim e ctx i w =
     (let k = block_key_new (ctx_key ctx) (ctx_tag ctx) i
      in case cache_contains e k w of
           (True, w) \<Rightarrow> (None, w)
         | (False, w) \<Rightarrow>
             (case register_slot e k w of
                (Owner sl _, w) \<Rightarrow> (Some sl, w)
              | (Waiter _, w) \<Rightarrow> (None, w)))"

definition cache_extra :: "env \<Rightarrow> read_ctx \<Rightarrow> slot \<Rightarrow> object_meta \<Rightarrow> bytes \<Rightarrow> world \<Rightarrow> world" where
  "cache_extra e ctx sl meta data w =
     (let w = count (ctx_ns ctx) Extra 1 (count (ctx_ns ctx) OriginBytes (length data) w);
          b = block_new meta data
      in resolve_slot e (Inr b) sl (cache_insert (slot_key sl) b w))"

definition observe_block :: "read_ctx \<Rightarrow> block_stream \<Rightarrow> world \<Rightarrow> block_stream \<times> world" where
  "observe_block ctx p w =
     (case lap (now w) p of
        (d, p) \<Rightarrow> (p, w\<lparr>w_block := (w_block w)(ctx_ns ctx := observe_at d (now w) (w_block w (ctx_ns ctx)))\<rparr>))"

definition expected_of :: "read_ctx \<Rightarrow> object_meta \<Rightarrow> u32 \<Rightarrow> nat" where
  "expected_of ctx meta i = range_count (block_range (ctx_bs ctx) i (Some (meta_size meta)))"

text \<open>The outcome of a part of \<^verbatim>\<open>consume\<close>: done, an error, or out of time.\<close>

datatype progress = Done | Fail origin_error | Expired

text \<open>The blocks before the first one asked for.\<close>

fun consume_lead ::
  "env \<Rightarrow> read_ctx \<Rightarrow> object_meta \<Rightarrow> u64 \<Rightarrow> nanos \<Rightarrow> u32 list \<Rightarrow> block_stream \<Rightarrow> world
   \<Rightarrow> progress \<times> block_stream \<times> world" where
  "consume_lead e ctx meta stop limit [] p w = (Done, p, w)"
| "consume_lead e ctx meta stop limit (i # is) p w =
     (case claim e ctx i w of
        (claimed, w) \<Rightarrow>
          (case hedged_next e ctx stop i (expected_of ctx meta i) limit w p of
             (Some (Inr b), w, p) \<Rightarrow>
               (case observe_block ctx p w of
                  (p, w) \<Rightarrow>
                    consume_lead e ctx meta stop limit is p
                      (case claimed of Some sl \<Rightarrow> cache_extra e ctx sl meta b w | None \<Rightarrow> w))
           | (r, w, p) \<Rightarrow>
               (case r of Some (Inl err) \<Rightarrow> Fail err | _ \<Rightarrow> Expired, p,
                case claimed of Some sl \<Rightarrow> drop_slot e sl w | None \<Rightarrow> w)))"

text \<open>The blocks asked for; the slots left over are those not popped.\<close>

fun consume_slots ::
  "env \<Rightarrow> read_ctx \<Rightarrow> object_meta \<Rightarrow> u64 \<Rightarrow> nanos \<Rightarrow> u32 \<Rightarrow> slot list \<Rightarrow> block_stream \<Rightarrow> world
   \<Rightarrow> progress \<times> u32 \<times> slot list \<times> block_stream \<times> world" where
  "consume_slots e ctx meta stop limit next [] p w = (Done, next, [], p, w)"
| "consume_slots e ctx meta stop limit next (sl # sls) p w =
     (let i = bk_index (slot_key sl); expected = expected_of ctx meta i
      in if expected = 0
         then consume_slots e ctx meta stop limit (i + 1) sls p (resolve_slot e (Inr (block_empty meta)) sl w)
         else (case hedged_next e ctx stop i expected limit w p of
                 (Some (Inr b), w, p) \<Rightarrow>
                   (case observe_block ctx p w of
                      (p, w) \<Rightarrow>
                        let w = count (ctx_ns ctx) OriginBytes (length b) w; blk = block_new meta b
                        in consume_slots e ctx meta stop limit (i + 1) sls p
                             (resolve_slot e (Inr blk) sl (cache_insert (slot_key sl) blk w)))
               | (r, w, p) \<Rightarrow>
                   (case r of Some (Inl err) \<Rightarrow> Fail err | _ \<Rightarrow> Expired, i + 1, sl # sls, p, w)))"

fun claim_all :: "env \<Rightarrow> read_ctx \<Rightarrow> u32 list \<Rightarrow> world \<Rightarrow> slot list \<times> world" where
  "claim_all e ctx [] w = ([], w)"
| "claim_all e ctx (i # is) w =
     (case claim e ctx i w of
        (claimed, w) \<Rightarrow>
          (case claim_all e ctx is w of
             (sls, w) \<Rightarrow> (case claimed of Some sl \<Rightarrow> sl # sls | None \<Rightarrow> sls, w)))"

record trailing =
  tr_stream :: block_stream
  tr_next :: u32
  tr_slots :: "slot list"
  tr_meta :: object_meta

definition consume ::
  "env \<Rightarrow> read_ctx \<Rightarrow> get_response \<Rightarrow> slot list \<Rightarrow> u64 \<Rightarrow> nanos \<Rightarrow> world
   \<Rightarrow> progress \<times> trailing option \<times> slot list \<times> world" where
  "consume e ctx response slots stop limit w =
     (let bs = ctx_bs ctx;
          meta = resp_meta response;
          fin = min (range_end (resp_range response)) (meta_size meta);
          next = block_index bs (range_start (resp_range response));
          p = block_stream_new (resp_body response) (now w);
          first = min (case slots of [] \<Rightarrow> next | sl # _ \<Rightarrow> bk_index (slot_key sl)) (block_count bs (meta_size meta))
      in case consume_lead e ctx meta stop limit (range_list (Range next first)) p w of
           (Done, p, w) \<Rightarrow>
             (case consume_slots e ctx meta stop limit (max next first) slots p w of
                (Done, next, slots, p, w) \<Rightarrow>
                  (case claim_all e ctx
                          (takeWhile (\<lambda>i. range_end (block_range bs i (Some (meta_size meta))) \<le> fin)
                             (range_list (Range next (block_count bs fin)))) w of
                     (claimed, w) \<Rightarrow>
                       (Done,
                        if claimed = [] then None
                        else Some \<lparr>tr_stream = p, tr_next = next, tr_slots = claimed, tr_meta = meta\<rparr>,
                        slots, w))
              | (r, _, slots, _, w) \<Rightarrow> (r, None, slots, w))
         | (r, _, w) \<Rightarrow> (r, None, slots, w))"

definition accept ::
  "env \<Rightarrow> read_ctx \<Rightarrow> get_response \<Rightarrow> slot list \<Rightarrow> u64 urange \<Rightarrow> nanos \<Rightarrow> world
   \<Rightarrow> progress \<times> trailing option \<times> slot list \<times> world" where
  "accept e ctx response slots r limit w =
     (let w = put_meta (ctx_key ctx) (resp_meta response) w
      in if ctx_tag ctx \<noteq> IMMUTABLE_TAG
            \<and> content_tag (e_tag e) (meta_etag (resp_meta response)) (meta_size (resp_meta response)) \<noteq> ctx_tag ctx
         then (Done, None, [], resolve_all e (Inl Stale) slots (count (ctx_ns ctx) StaleBlocks 1 w))
         else if range_start (resp_range response) > range_start r
                 \<or> range_start (resp_range response) mod block_bytes (ctx_bs ctx) \<noteq> 0
         then (Fail (ShortRead (range_end r - range_start r) 0), None, slots, w)
         else consume e ctx response slots (range_end r) limit w)"

section \<open>Trailing blocks\<close>

text \<open>Blocks that are skipped on the way to the next trailing slot.\<close>

fun skip_blocks ::
  "read_ctx \<Rightarrow> object_meta \<Rightarrow> nanos \<Rightarrow> u32 list \<Rightarrow> block_stream \<Rightarrow> world \<Rightarrow> bool \<times> block_stream \<times> world" where
  "skip_blocks ctx meta limit [] s w = (True, s, w)"
| "skip_blocks ctx meta limit (i # is) s w =
     (case stream_next limit (expected_of ctx meta i) (now w) s of
        (Some (Inr _), t, s) \<Rightarrow> skip_blocks ctx meta limit is s (until t w)
      | (_, t, s) \<Rightarrow> (False, s, until t w))"

fun fill_slots ::
  "env \<Rightarrow> read_ctx \<Rightarrow> object_meta \<Rightarrow> nanos \<Rightarrow> u32 \<Rightarrow> slot list \<Rightarrow> block_stream \<Rightarrow> world \<Rightarrow> world" where
  "fill_slots e ctx meta limit next [] s w = w"
| "fill_slots e ctx meta limit next (sl # sls) s w =
     (let i = bk_index (slot_key sl)
      in case skip_blocks ctx meta limit (range_list (Range next i)) s w of
           (False, s, w) \<Rightarrow> drop_all e (sl # sls) w
         | (True, s, w) \<Rightarrow>
             (case stream_next limit (expected_of ctx meta i) (now w) s of
                (Some (Inr b), t, s) \<Rightarrow>
                  fill_slots e ctx meta limit (max next i + 1) sls s (cache_extra e ctx sl meta b (until t w))
              | (_, t, s) \<Rightarrow> drop_all e (sl # sls) (until t w)))"

definition fill_trailing :: "env \<Rightarrow> read_ctx \<Rightarrow> trailing \<Rightarrow> nanos \<Rightarrow> world \<Rightarrow> world" where
  "fill_trailing e ctx tr limit w =
     fill_slots e ctx (tr_meta tr) limit (tr_next tr) (tr_slots tr) (tr_stream tr) w"

section \<open>Fetching a group\<close>

text \<open>
  \<^verbatim>\<open>retry_or_fail\<close> and the wait it may include: the retry state to go on with, or \<^const>\<open>None\<close> when the
  slots have been failed.
\<close>

definition retry_or_fail :: "env \<Rightarrow> read_ctx \<Rightarrow> retry \<Rightarrow> slot list \<Rightarrow> origin_error \<Rightarrow> world \<Rightarrow> retry option \<times> world" where
  "retry_or_fail e ctx r slots err w =
     (case failed r err (now w) of
        (Inr _, r, t) \<Rightarrow> (Some r, count (ctx_ns ctx) OriginRetries 1 (until t w))
      | (Inl err, _, _) \<Rightarrow> (None, resolve_all e (Inl (from_origin err)) slots w))"

text \<open>What one pass of the loop of \<^verbatim>\<open>fetch_group\<close> leads to.\<close>

datatype group_step =
    Finished world
  | Retry retry "object_meta option" "slot list" world

definition group_failed :: "env \<Rightarrow> read_ctx \<Rightarrow> retry \<Rightarrow> object_meta option \<Rightarrow> slot list \<Rightarrow> origin_error \<Rightarrow> world \<Rightarrow> group_step" where
  "group_failed e ctx r meta slots err w =
     (case retry_or_fail e ctx r slots err w of
        (Some r, w) \<Rightarrow> Retry r meta slots w
      | (None, w) \<Rightarrow> Finished w)"

definition group_accept ::
  "env \<Rightarrow> read_ctx \<Rightarrow> retry \<Rightarrow> slot list \<Rightarrow> u64 urange \<Rightarrow> nanos \<Rightarrow> get_response \<Rightarrow> world \<Rightarrow> group_step" where
  "group_accept e ctx r slots rng dl response w =
     (case accept e ctx response slots rng dl w of
        (Done, None, slots, w) \<Rightarrow> Finished (drop_all e slots w)
      | (Done, Some tr, slots, w) \<Rightarrow> Finished (drop_all e slots (fill_trailing e ctx tr dl w))
      | (Fail err, _, slots, w) \<Rightarrow>
          group_failed e ctx r (Some (resp_meta response)) slots err (count (ctx_ns ctx) OriginErrors 1 w)
      | (Expired, _, slots, w) \<Rightarrow>
          group_failed e ctx r (Some (resp_meta response)) slots (Timeout (attempt_timeout (ctx_policy ctx)))
            (count (ctx_ns ctx) OriginErrors 1 (count (ctx_ns ctx) OriginTimeouts 1 w)))"

definition group_refused ::
  "env \<Rightarrow> read_ctx \<Rightarrow> retry \<Rightarrow> object_meta option \<Rightarrow> slot list \<Rightarrow> u64 urange \<Rightarrow> origin_error \<Rightarrow> world \<Rightarrow> group_step" where
  "group_refused e ctx r meta slots rng err w =
     (if err = NotFound then Finished (resolve_all e (Inl ENotFound) slots (remove_meta (ctx_key ctx) w))
      else if err = PreconditionFailed
      then Finished (resolve_all e (Inl Stale) slots (count (ctx_ns ctx) StaleBlocks 1 (remove_meta (ctx_key ctx) w)))
      else
          let w = count (ctx_ns ctx) OriginErrors 1 w
          in if meta = None
             then (case past_end e (ctx_namespace ctx) (ctx_key ctx) (ctx_name ctx) (range_start rng) w of
                     (Some known, w) \<Rightarrow> Finished (resolve_all e (Inr (block_empty known)) slots w)
                   | (None, w) \<Rightarrow> group_failed e ctx r meta slots err w)
             else group_failed e ctx r meta slots err w)"

definition group_pass ::
  "env \<Rightarrow> read_ctx \<Rightarrow> retry \<Rightarrow> object_meta option \<Rightarrow> slot \<Rightarrow> slot list \<Rightarrow> get_response option \<Rightarrow> world \<Rightarrow> group_step" where
  "group_pass e ctx r meta front rest initial w =
     (let slots = front # rest;
          dl = attempt_deadline r (now w);
          rng = span (ctx_bs ctx) (bk_index (slot_key front)) (of_nat (length slots)) (map_option meta_size meta)
      in case (meta, range_is_empty rng) of
           (Some known, True) \<Rightarrow> Finished (resolve_all e (Inr (block_empty known)) slots w)
         | _ \<Rightarrow>
             (case initial of
                Some response \<Rightarrow> group_accept e ctx r slots rng dl response w
              | None \<Rightarrow>
                  (case origin_get e ctx
                          \<lparr>opt_range = Some rng, opt_if_match = ctx_if_match ctx, opt_if_none_match = None\<rparr> dl w of
                     (Inr response, w) \<Rightarrow> group_accept e ctx r slots rng dl response w
                   | (Inl err, w) \<Rightarrow> group_refused e ctx r meta slots rng err w)))"

lemma group_failed_rank: "group_failed e ctx r meta slots err w = Retry r' meta' slots' w' \<Longrightarrow> retry_rank r' < retry_rank r"
  by (auto simp: group_failed_def retry_or_fail_def split: prod.splits option.splits sum.splits dest: failed_rank)

lemma group_pass_rank: "group_pass e ctx r meta front rest initial w = Retry r' meta' slots' w' \<Longrightarrow> retry_rank r' < retry_rank r"
  by (auto simp: group_pass_def group_accept_def group_refused_def Let_def
      split: option.splits bool.splits prod.splits sum.splits progress.splits origin_error.splits if_splits
      dest!: group_failed_rank)

function group_loop ::
  "env \<Rightarrow> read_ctx \<Rightarrow> retry \<Rightarrow> object_meta option \<Rightarrow> slot list \<Rightarrow> get_response option \<Rightarrow> world \<Rightarrow> world" where
  "group_loop e ctx r meta [] initial w = w"
| "group_loop e ctx r meta (front # rest) initial w =
     (case group_pass e ctx r meta front rest initial w of
        Finished w \<Rightarrow> w
      | Retry r meta slots w \<Rightarrow> group_loop e ctx r meta slots None w)"
  by pat_completeness auto
termination
  by (relation "measure (\<lambda>(e, ctx, r, meta, slots, initial, w). retry_rank r)") (auto dest: group_pass_rank)

declare group_loop.simps [simp del]

definition fetch_group :: "env \<Rightarrow> read_ctx \<Rightarrow> slot list \<Rightarrow> priority \<Rightarrow> get_response option \<Rightarrow> world \<Rightarrow> world" where
  "fetch_group e ctx slots pri initial w =
     group_loop e ctx (retry_new (ctx_policy ctx) (now w)) (ctx_meta ctx) slots initial w"

section \<open>Probing\<close>

definition build_ctx ::
  "env \<Rightarrow> namespace_state \<Rightarrow> object_key \<Rightarrow> string \<Rightarrow> fetch_policy \<Rightarrow> object_meta \<Rightarrow> world \<Rightarrow> read_ctx \<times> world" where
  "build_ctx e ns key name pol m w =
     (read_ctx_new (e_tag e) ns key name (Some m) pol, put_meta key m w)"

function probe_loop ::
  "env \<Rightarrow> namespace_state \<Rightarrow> object_key \<Rightarrow> string \<Rightarrow> u32 urange \<Rightarrow> object_meta option \<Rightarrow> fetch_policy
   \<Rightarrow> retry \<Rightarrow> world \<Rightarrow> (nestor_error + read_ctx \<times> slot_handle list) \<times> world" where
  "probe_loop e ns key name indexes stale pol r w =
     (let bs = bs_of ns;
          start = range_start indexes;
          ctx = read_ctx_new (e_tag e) ns key name None pol;
          opts = \<lparr>opt_range = Some (span bs start (range_end indexes - start) None), opt_if_match = None,
                  opt_if_none_match = (case stale of None \<Rightarrow> None | Some m \<Rightarrow> meta_etag m)\<rparr>
      in case origin_get e ctx opts (attempt_deadline r (now w)) w of
           (Inr response, w) \<Rightarrow>
             (case build_ctx e ns key name pol (resp_meta response) w of
                (ctx, w) \<Rightarrow> (case adopt e ctx indexes response w of (fetched, w) \<Rightarrow> (Inr (ctx, fetched), w)))
         | (Inl err, w) \<Rightarrow>
             if err = NotModified
             then (case stale of
                     None \<Rightarrow> (Inl (EOrigin NotModified), w)
                   | Some m \<Rightarrow> (case build_ctx e ns key name pol m w of (ctx, w) \<Rightarrow> (Inr (ctx, []), w)))
             else if err = NotFound then (Inl ENotFound, remove_meta key w)
             else
             (case past_end e ns key name (block_offset bs start) (count (ns_id ns) OriginErrors 1 w) of
                (Some m, w) \<Rightarrow> (case build_ctx e ns key name pol m w of (ctx, w) \<Rightarrow> (Inr (ctx, []), w))
              | (None, w) \<Rightarrow>
                  (case failed r err (now w) of
                     (Inl err, _, _) \<Rightarrow> (Inl (from_origin err), w)
                   | (Inr _, r, t) \<Rightarrow>
                       probe_loop e ns key name indexes stale pol r (count (ns_id ns) OriginRetries 1 (until t w)))))"
  by pat_completeness auto
termination
  by (relation "measure (\<lambda>(e, ns, key, name, indexes, stale, pol, r, w). retry_rank r)") (auto dest: failed_rank failed_rank [OF sym])

declare probe_loop.simps [simp del]

definition probe ::
  "env \<Rightarrow> namespace_state \<Rightarrow> string \<Rightarrow> u32 urange \<Rightarrow> object_meta option \<Rightarrow> fetch_policy \<Rightarrow> world
   \<Rightarrow> (nestor_error + read_ctx \<times> slot_handle list) \<times> world" where
  "probe e ns name indexes stale pol w =
     probe_loop e ns (object_key_new (ns_id ns) name) name indexes stale pol (retry_new pol (now w)) w"

section \<open>Tasks\<close>

fun run_task :: "env \<Rightarrow> task \<Rightarrow> world \<Rightarrow> world" where
  "run_task e (FetchGroup ctx slots pri initial) w = fetch_group e ctx slots pri initial w"
| "run_task e (Prefetch ctx indexes) w = snd (schedule e ctx indexes Background w)"

end
