(* ===== verification/Settlement.thy ===== *)
theory Settlement
  imports Fetch
begin

text \<open>
  The calculus of settlement, in which the correctness of the fetcher is stated. \<open>ver\<close> gives the
  bytes of every version of every object and \<open>nsf\<close> the namespace of every id. A block is right for
  its key when its data are the bytes of that block of that version; the state is sound when
  everything the caches may answer is right and the in-flight map is consistent. Every operation
  keeps the state sound, keeps the promise behind every handle, and settles the slots it was given
  or claimed.
\<close>

section \<open>Soundness of the state\<close>

type_synonym namespaces = "u32 \<Rightarrow> namespace_state"

definition key_content :: "versions \<Rightarrow> block_key \<Rightarrow> bytes" where
  "key_content ver k = ver (bk_namespace k) (of_bytes (bk_object k)) (bk_tag k)"

definition block_ok :: "namespaces \<Rightarrow> versions \<Rightarrow> block_key \<Rightarrow> block \<Rightarrow> bool" where
  "block_ok nsf ver k b \<longleftrightarrow>
     block_data b = block_of (bs_of (nsf (bk_namespace k))) (key_content ver k) (unat (bk_index k))
     \<and> unat (meta_size (block_meta b)) = length (key_content ver k)
     \<and> fits (bs_of (nsf (bk_namespace k))) (length (key_content ver k))
     \<and> length (etag_bytes b) < 2 ^ 16"

definition result_ok :: "namespaces \<Rightarrow> versions \<Rightarrow> block_key \<Rightarrow> block_result \<Rightarrow> bool" where
  "result_ok nsf ver k r \<longleftrightarrow> (\<forall>b. r = Inr b \<longrightarrow> block_ok nsf ver k b)"

lemma result_ok_simps [simp]:
  "result_ok nsf ver k (Inl err)" "result_ok nsf ver k (Inr b) \<longleftrightarrow> block_ok nsf ver k b"
  by (simp_all add: result_ok_def)

definition meta_ok :: "env \<Rightarrow> versions \<Rightarrow> namespaces \<Rightarrow> object_key \<Rightarrow> object_meta \<Rightarrow> bool" where
  "meta_ok e ver nsf k m \<longleftrightarrow>
     meta_of_version (e_tag e) ver (nsf (ok_namespace k)) (of_bytes (ok_object k)) m"

text \<open>What is assumed of the environment.\<close>

definition env_ok :: "env \<Rightarrow> versions \<Rightarrow> namespaces \<Rightarrow> bool" where
  "env_ok e ver nsf \<longleftrightarrow> honest_hybrid (e_hybrid e) \<and> honest (e_meta e) \<and>
     (\<forall>i. faithful e ver (nsf i) \<and> ns_id (nsf i) = i \<and> valid_config (ns_config (nsf i)))"

abbreviation flying :: "env \<Rightarrow> world \<Rightarrow> block_key \<Rightarrow> nat option" where
  "flying e w \<equiv> lookup (e_hash e) (w_flight w)"

definition world_ok :: "env \<Rightarrow> versions \<Rightarrow> namespaces \<Rightarrow> world \<Rightarrow> bool" where
  "world_ok e ver nsf w \<longleftrightarrow>
     blocks_store.all_held (block_ok nsf ver) (w_blocks w)
     \<and> (\<forall>k en. latest (w_meta w) k = Some en \<longrightarrow> meta_ok e ver nsf k (entry_meta en))
     \<and> flight_inv (e_hash e) (w_flight w)"

text \<open>What a handle promises: the block of its key, now or when its slot is settled.\<close>

definition serves :: "env \<Rightarrow> versions \<Rightarrow> namespaces \<Rightarrow> world \<Rightarrow> slot_handle \<Rightarrow> block_key \<Rightarrow> bool" where
  "serves e ver nsf w h k \<longleftrightarrow> h < length (channels (w_flight w)) \<and>
     (flying e w k = Some h \<or> (\<exists>r. wait_slot h (w_flight w) = Some r \<and> result_ok nsf ver k r))"

text \<open>
  The guarantee of an operation: the state stays sound, no promise is broken, time does not go
  back, and the registry and the queue of tasks are as they were.
\<close>

definition guarantees :: "env \<Rightarrow> versions \<Rightarrow> namespaces \<Rightarrow> world \<Rightarrow> world \<Rightarrow> bool" where
  "guarantees e ver nsf w w' \<longleftrightarrow>
     world_ok e ver nsf w'
     \<and> (\<forall>h k. serves e ver nsf w h k \<longrightarrow> serves e ver nsf w' h k)
     \<and> now w \<le> now w' \<and> w_hedges w' = w_hedges w
     \<and> w_tasks w' = w_tasks w \<and> w_by_name w' = w_by_name w \<and> w_states w' = w_states w
     \<and> w_closed w' = w_closed w \<and> w_readahead w' = w_readahead w"

text \<open>The guarantee together with the settlement of a set of keys.\<close>

definition settles :: "env \<Rightarrow> versions \<Rightarrow> namespaces \<Rightarrow> block_key set \<Rightarrow> world \<Rightarrow> world \<Rightarrow> bool" where
  "settles e ver nsf K w w' \<longleftrightarrow> guarantees e ver nsf w w'
     \<and> flying e w' = (\<lambda>k. if k \<in> K then None else flying e w k)"

lemma guarantees_refl: "world_ok e ver nsf w \<Longrightarrow> guarantees e ver nsf w w"
  by (simp add: guarantees_def)

lemma guarantees_trans:
  "guarantees e ver nsf a b \<Longrightarrow> guarantees e ver nsf b c \<Longrightarrow> guarantees e ver nsf a c"
  by (simp add: guarantees_def)

lemma settles_refl: "world_ok e ver nsf w \<Longrightarrow> settles e ver nsf {} w w"
  by (simp add: settles_def guarantees_refl)

lemma settles_trans:
  assumes "settles e ver nsf K a b" and "settles e ver nsf L b c"
  shows "settles e ver nsf (K \<union> L) a c"
  using assms guarantees_trans by (fastforce simp: settles_def)

lemma settles_world_ok: "settles e ver nsf K w w' \<Longrightarrow> world_ok e ver nsf w'"
  by (simp add: settles_def guarantees_def)

lemma settles_none: "settles e ver nsf K a b \<Longrightarrow> settles e ver nsf {} b c \<Longrightarrow> settles e ver nsf K a c"
  using settles_trans [of e ver nsf K a b "{}" c] by simp

lemma settles_none': "settles e ver nsf {} a b \<Longrightarrow> settles e ver nsf K b c \<Longrightarrow> settles e ver nsf K a c"
  using settles_trans [of e ver nsf "{}" a b K c] by simp

section \<open>Operations that leave the in-flight map alone\<close>

text \<open>Operations that do not touch the stores at all.\<close>

lemma same_stores_settles:
  assumes "world_ok e ver nsf w" and "same_stores w w'" and "now w \<le> now w'" and "w_hedges w' = w_hedges w"
  shows "settles e ver nsf {} w w'"
  using assms by (simp add: settles_def guarantees_def world_ok_def serves_def same_stores_def)

lemma count_settles: "world_ok e ver nsf w \<Longrightarrow> settles e ver nsf {} w (count ns m n w)"
  by (rule same_stores_settles) simp_all

lemma until_settles: "world_ok e ver nsf w \<Longrightarrow> settles e ver nsf {} w (until t w)"
  by (rule same_stores_settles) simp_all

lemma put_meta_settles:
  assumes "world_ok e ver nsf w" and "meta_ok e ver nsf k m"
  shows "settles e ver nsf {} w (put_meta k m w)"
  using assms by (simp add: settles_def guarantees_def world_ok_def serves_def put_meta_def)

lemma remove_meta_settles:
  assumes "world_ok e ver nsf w"
  shows "settles e ver nsf {} w (remove_meta k w)"
  using assms by (simp add: settles_def guarantees_def world_ok_def serves_def remove_meta_def)

lemma block_ok_reads_as:
  assumes "env_ok e ver nsf" and "block_ok nsf ver k u" and "block_reads_as u v"
  shows "block_ok nsf ver k v"
proof -
  have "valid_block_size (bs_of (nsf (bk_namespace k)))"
    using assms(1) by (simp add: env_ok_def valid_config_def)
  from block_usize_le [OF this] have "length (block_data u) < 2 ^ 32"
    using assms(2) length_block_of_le [of "bs_of (nsf (bk_namespace k))" "key_content ver k" "unat (bk_index k)"]
    by (simp add: block_ok_def)
  with block_reads_as_data [OF assms(3)] assms(2) show ?thesis by (auto simp: block_ok_def)
qed

lemma cache_get_settles:
  assumes "env_ok e ver nsf" and "world_ok e ver nsf w" and "cache_get e k w = (r, w')"
  shows "settles e ver nsf {} w w'" and "r = Some b \<Longrightarrow> block_ok nsf ver k b"
proof -
  obtain bl where bl: "blocks_get (e_hybrid e) (w_blocks w) k = (r, bl)" and w': "w' = w\<lparr>w_blocks := bl\<rparr>"
    using assms(3) by (auto simp: cache_get_def split: prod.splits)
  have held: "blocks_store.all_held (block_ok nsf ver) (w_blocks w)" using assms(2) by (simp add: world_ok_def)
  have "blocks_store.all_held (block_ok nsf ver) bl"
    using blocks_store.all_held_get [of "block_ok nsf ver" "e_hybrid e" "w_blocks w" k] bl held by simp
  then show "settles e ver nsf {} w w'"
    using assms(2) w' by (simp add: settles_def guarantees_def world_ok_def serves_def)
  assume "r = Some b"
  then show "block_ok nsf ver k b"
    using blocks_store.get_all_held [OF _ held, of "e_hybrid e" k b] block_ok_reads_as [OF assms(1)] bl assms(1)
    by (auto simp: env_ok_def)
qed

lemma cache_contains_settles:
  "world_ok e ver nsf w \<Longrightarrow> settles e ver nsf {} w (snd (cache_contains e k w))"
  by (simp add: settles_def guarantees_def world_ok_def serves_def cache_contains_def
      blocks_store.all_held_def split: prod.splits) (metis blocks_contains_held snd_conv)

lemma cache_insert_settles:
  assumes "world_ok e ver nsf w" and "block_ok nsf ver k b"
  shows "settles e ver nsf {} w (cache_insert k b w)"
  using assms blocks_store.all_held_insert [of "block_ok nsf ver" "w_blocks w" k b]
  by (simp add: settles_def guarantees_def world_ok_def serves_def cache_insert_def)

section \<open>Slots\<close>

text \<open>A slot that is held and not settled.\<close>

definition owned :: "env \<Rightarrow> world \<Rightarrow> slot \<Rightarrow> bool" where
  "owned e w sl \<longleftrightarrow> \<not> slot_resolved sl \<and> flying e w (slot_key sl) = Some (slot_chan sl)"

abbreviation keys_of :: "slot list \<Rightarrow> block_key set" where
  "keys_of sls \<equiv> slot_key ` set sls"

lemma slot_of_owned: "owned e w sl \<Longrightarrow> slot_of (slot_key sl) (slot_chan sl) = sl"
  by (cases sl) (simp add: owned_def slot_of_def)

lemma owned_frame: "owned e w sl \<Longrightarrow> flying e w' (slot_key sl) = flying e w (slot_key sl) \<Longrightarrow> owned e w' sl"
  by (simp add: owned_def)

lemma owned_settles:
  "settles e ver nsf K w w' \<Longrightarrow> owned e w sl \<Longrightarrow> slot_key sl \<notin> K \<Longrightarrow> owned e w' sl"
  by (simp add: owned_def settles_def)

lemma resolve_slot_settles:
  assumes "world_ok e ver nsf w" and "owned e w sl" and "result_ok nsf ver (slot_key sl) r"
  shows "settles e ver nsf {slot_key sl} w (resolve_slot e r sl w)"
proof -
  let ?f = "w_flight w" and ?f' = "slot_resolve (e_hash e) r sl (w_flight w)"
  have inv: "flight_inv (e_hash e) ?f" using assms(1) by (simp add: world_ok_def)
  have fly: "lookup (e_hash e) ?f (slot_key sl) = Some (slot_chan sl)" using assms(2) by (simp add: owned_def)
  note res = flight.res_settles [OF inv fly, of r, unfolded slot_of_owned [OF assms(2)]]
  note pend = flight.table_pending [OF inv fly]
  have "serves e ver nsf (resolve_slot e r sl w) h k" if s: "serves e ver nsf w h k" for h k
  proof (cases "k = slot_key sl")
    case True
    then show ?thesis using s res fly assms(3) by (auto simp: serves_def resolve_slot_def)
  next
    case False
    then have "h \<noteq> slot_chan sl \<or> flying e w k \<noteq> Some h" using flight.table_inj [OF inv fly, of k] by auto
    then show ?thesis using s res False pend by (auto simp: serves_def resolve_slot_def)
  qed
  then show ?thesis using assms(1) res
    by (auto simp: settles_def guarantees_def world_ok_def resolve_slot_def)
qed

lemma drop_slot_eq:
  assumes "world_ok e ver nsf w" and "owned e w sl"
  shows "drop_slot e sl w = resolve_slot e (Inl Cancelled) sl w"
proof -
  have "slot_chan sl < length (channels (w_flight w))"
    using flight.table_pending [of "e_hash e" "w_flight w" "slot_key sl" "slot_chan sl"] assms
    by (simp add: world_ok_def owned_def)
  then show ?thesis using assms(2) by (simp add: drop_slot_def resolve_slot_def slot_drop_eq owned_def)
qed

lemma drop_slot_settles:
  "world_ok e ver nsf w \<Longrightarrow> owned e w sl \<Longrightarrow> settles e ver nsf {slot_key sl} w (drop_slot e sl w)"
  using resolve_slot_settles [of e ver nsf w sl "Inl Cancelled"] by (simp add: drop_slot_eq)

lemma fold_settles:
  assumes "world_ok e ver nsf w" and "\<forall>sl \<in> set sls. owned e w sl" and "distinct (map slot_key sls)"
    and "\<And>w sl. world_ok e ver nsf w \<Longrightarrow> owned e w sl \<Longrightarrow> sl \<in> set sls \<Longrightarrow> settles e ver nsf {slot_key sl} w (f sl w)"
  shows "settles e ver nsf (keys_of sls) w (fold f sls w)"
  using assms
proof (induction sls arbitrary: w)
  case Nil
  then show ?case by (simp add: settles_refl)
next
  case (Cons sl sls)
  have s: "settles e ver nsf {slot_key sl} w (f sl w)" using Cons.prems by simp
  have o: "\<forall>sl' \<in> set sls. owned e (f sl w) sl'"
  proof
    fix sl' assume sl': "sl' \<in> set sls"
    have "slot_key sl \<notin> keys_of sls" using Cons.prems(3) by simp
    then have "slot_key sl' \<noteq> slot_key sl" using sl' by (metis imageI)
    then show "owned e (f sl w) sl'" using Cons.prems(2) sl' by (intro owned_settles [OF s]) auto
  qed
  have "settles e ver nsf (keys_of sls) (f sl w) (fold f sls (f sl w))"
    by (rule Cons.IH [OF settles_world_ok [OF s] o]) (use Cons.prems in auto)
  from settles_trans [OF s this] show ?case by simp
qed

lemma resolve_all_settles:
  assumes "world_ok e ver nsf w" and "\<forall>sl \<in> set sls. owned e w sl" and "distinct (map slot_key sls)"
    and "\<And>sl. sl \<in> set sls \<Longrightarrow> result_ok nsf ver (slot_key sl) r"
  shows "settles e ver nsf (keys_of sls) w (resolve_all e r sls w)"
  unfolding resolve_all_def using assms by (intro fold_settles) (auto intro: resolve_slot_settles)

lemma drop_all_settles:
  assumes "world_ok e ver nsf w" and "\<forall>sl \<in> set sls. owned e w sl" and "distinct (map slot_key sls)"
  shows "settles e ver nsf (keys_of sls) w (drop_all e sls w)"
  unfolding drop_all_def using assms by (intro fold_settles) (auto intro: drop_slot_settles)

text \<open>A registration: either a new slot, or the channel of the one in flight.\<close>

definition opens :: "env \<Rightarrow> versions \<Rightarrow> namespaces \<Rightarrow> slot \<Rightarrow> world \<Rightarrow> world \<Rightarrow> bool" where
  "opens e ver nsf sl w w' \<longleftrightarrow> guarantees e ver nsf w w' \<and> flying e w (slot_key sl) = None
     \<and> flying e w' = (flying e w)(slot_key sl \<mapsto> slot_chan sl) \<and> owned e w' sl
     \<and> serves e ver nsf w' (slot_chan sl) (slot_key sl)"

lemma register_slot_owner:
  assumes "world_ok e ver nsf w" and "register_slot e k w = (Owner sl h, w')"
  shows "opens e ver nsf sl w w'" and "slot_key sl = k" and "slot_chan sl = h"
proof -
  obtain f where f: "register (e_hash e) k (w_flight w) = (Owner sl h, f)" and w': "w' = w\<lparr>w_flight := f\<rparr>"
    using assms(2) by (auto simp: register_slot_def split: prod.splits)
  have inv: "flight_inv (e_hash e) (w_flight w)" using assms(1) by (simp add: world_ok_def)
  have sh: "sharded (w_flight w)" using inv by (simp add: flight_inv_def)
  note r = register_owner [OF sh f]
  then have none: "lookup (e_hash e) (w_flight w) k = None" by simp
  have reg: "flight_register (e_hash e) k (w_flight w) = (True, h, f)" by (simp add: flight_register_def f)
  note own = flight.reg_owns [OF inv none, unfolded reg]
  show "slot_key sl = k" and "slot_chan sl = h" using r by simp_all
  have "serves e ver nsf w' h' k'" if "serves e ver nsf w h' k'" for h' k'
    using that own none w' by (auto simp: serves_def)
  then show "opens e ver nsf sl w w'"
    using own r none w' assms(1) by (auto simp: opens_def guarantees_def world_ok_def owned_def serves_def)
qed

lemma register_slot_waiter:
  assumes "world_ok e ver nsf w" and "register_slot e k w = (Waiter h, w')"
  shows "w' = w" and "flying e w k = Some h" and "serves e ver nsf w h k"
proof -
  obtain f where f: "register (e_hash e) k (w_flight w) = (Waiter h, f)" and w': "w' = w\<lparr>w_flight := f\<rparr>"
    using assms(2) by (auto simp: register_slot_def split: prod.splits)
  have inv: "flight_inv (e_hash e) (w_flight w)" using assms(1) by (simp add: world_ok_def)
  have sh: "sharded (w_flight w)" using inv by (simp add: flight_inv_def)
  note r = register_waiter [OF sh f]
  show "w' = w" using r w' by simp
  show fly: "flying e w k = Some h" using r by simp
  show "serves e ver nsf w h k" using flight.table_pending [OF inv fly] fly by (simp add: serves_def)
qed

lemma opens_then_settles:
  assumes "opens e ver nsf sl w w1" and "settles e ver nsf K w1 w2" and "slot_key sl \<in> K"
  shows "settles e ver nsf (K - {slot_key sl}) w w2"
  using assms guarantees_trans [of e ver nsf w w1 w2] by (auto simp: opens_def settles_def fun_eq_iff)

lemma settles_then_opens:
  assumes "settles e ver nsf {} w w1" and "opens e ver nsf sl w1 w2"
  shows "opens e ver nsf sl w w2"
  using assms guarantees_trans [of e ver nsf w w1 w2] by (auto simp: opens_def settles_def)

lemma opens_then_quiet:
  assumes "opens e ver nsf sl w w1" and "settles e ver nsf {} w1 w2"
  shows "opens e ver nsf sl w w2"
  using assms guarantees_trans [of e ver nsf w w1 w2]
  by (auto simp: opens_def settles_def owned_def) (simp add: guarantees_def)

lemma opens_world_ok: "opens e ver nsf sl w w' \<Longrightarrow> world_ok e ver nsf w'"
  by (simp add: opens_def guarantees_def)

section \<open>Claims\<close>

text \<open>What \<^verbatim>\<open>claim\<close> does: it opens a slot or changes nothing.\<close>

definition claims :: "env \<Rightarrow> versions \<Rightarrow> namespaces \<Rightarrow> slot option \<Rightarrow> world \<Rightarrow> world \<Rightarrow> bool" where
  "claims e ver nsf c w w' \<longleftrightarrow>
     (case c of Some sl \<Rightarrow> opens e ver nsf sl w w' | None \<Rightarrow> settles e ver nsf {} w w')"

lemma claim_claims:
  assumes "world_ok e ver nsf w" and "claim e ctx i w = (c, w')"
  shows "claims e ver nsf c w w'"
    and "c = Some sl \<Longrightarrow> slot_key sl = block_key_new (ctx_key ctx) (ctx_tag ctx) i"
proof -
  let ?k = "block_key_new (ctx_key ctx) (ctx_tag ctx) i"
  obtain b w1 where w1: "cache_contains e ?k w = (b, w1)" by fastforce
  have s1: "settles e ver nsf {} w w1" using cache_contains_settles [OF assms(1), of ?k] w1 by simp
  note ok1 = settles_world_ok [OF s1]
  obtain r w2 where r: "register_slot e ?k w1 = (r, w2)" by fastforce
  have "claims e ver nsf c w w' \<and> (\<forall>sl. c = Some sl \<longrightarrow> slot_key sl = ?k)"
  proof (cases b)
    case True
    then show ?thesis using assms(2) w1 s1 by (simp add: claim_def claims_def)
  next
    case b: False
    show ?thesis
    proof (cases r)
      case (Owner sl h)
      note o = register_slot_owner [OF ok1 r [unfolded Owner]]
      then show ?thesis using assms(2) w1 r b Owner settles_then_opens [OF s1 o(1)]
        by (auto simp: claim_def claims_def)
    next
      case (Waiter h)
      then show ?thesis using assms(2) w1 r b s1 register_slot_waiter(1) [OF ok1 r [unfolded Waiter]]
        by (auto simp: claim_def claims_def)
    qed
  qed
  then show "claims e ver nsf c w w'" and "c = Some sl \<Longrightarrow> slot_key sl = ?k" by auto
qed

lemma cache_extra_settles:
  assumes "world_ok e ver nsf w" and "owned e w sl" and "block_ok nsf ver (slot_key sl) (block_new meta data)"
  shows "settles e ver nsf {slot_key sl} w (cache_extra e ctx sl meta data w)"
proof -
  let ?w1 = "count (ctx_ns ctx) Extra 1 (count (ctx_ns ctx) OriginBytes (length data) w)"
  let ?w2 = "cache_insert (slot_key sl) (block_new meta data) ?w1"
  have s1: "settles e ver nsf {} w ?w1" by (rule same_stores_settles [OF assms(1)]) simp_all
  have s2: "settles e ver nsf {} ?w1 ?w2" by (rule cache_insert_settles [OF settles_world_ok [OF s1] assms(3)])
  note s = settles_none' [OF s1 s2]
  have "settles e ver nsf {slot_key sl} ?w2 (resolve_slot e (Inr (block_new meta data)) sl ?w2)"
    by (rule resolve_slot_settles [OF settles_world_ok [OF s] owned_settles [OF s assms(2)]]) (simp_all add: assms(3))
  from settles_none' [OF s this] show ?thesis by (simp add: cache_extra_def Let_def)
qed

end
