(* ===== verification/Fetch_Correct.thy ===== *)
theory Fetch_Correct
  imports Settlement
begin

text \<open>
  Correctness of the fetcher of \<^verbatim>\<open>nestor/src/fetch.rs\<close>: requests to a faithful origin, the blocks
  cut from a response, and the settlement of every slot of a group with the right block or an error.
\<close>

section \<open>Read contexts\<close>

abbreviation ctx_block :: "read_ctx \<Rightarrow> u32 \<Rightarrow> block_key" where
  "ctx_block ctx i \<equiv> block_key_new (ctx_key ctx) (ctx_tag ctx) i"

text \<open>Metadata of the version a context is bound to.\<close>

definition carries :: "env \<Rightarrow> versions \<Rightarrow> read_ctx \<Rightarrow> object_meta \<Rightarrow> bool" where
  "carries e ver ctx m \<longleftrightarrow>
     meta_of_version (e_tag e) ver (ctx_namespace ctx) (ctx_name ctx) m
     \<and> block_tag (e_tag e) (consistency_of (ctx_namespace ctx)) m = ctx_tag ctx"

definition ctx_named :: "namespaces \<Rightarrow> read_ctx \<Rightarrow> bool" where
  "ctx_named nsf ctx \<longleftrightarrow> ctx_namespace ctx = nsf (ctx_ns ctx)
     \<and> ctx_key ctx = object_key_new (ctx_ns ctx) (ctx_name ctx)"

text \<open>Metadata a fetch may know: none in an immutable namespace only, otherwise that of the version.\<close>

definition known :: "env \<Rightarrow> versions \<Rightarrow> read_ctx \<Rightarrow> object_meta option \<Rightarrow> bool" where
  "known e ver ctx meta \<longleftrightarrow>
     (case meta of None \<Rightarrow> ctx_tag ctx = IMMUTABLE_TAG | Some m \<Rightarrow> carries e ver ctx m)"

definition ctx_sound :: "env \<Rightarrow> versions \<Rightarrow> namespaces \<Rightarrow> read_ctx \<Rightarrow> bool" where
  "ctx_sound e ver nsf ctx \<longleftrightarrow> ctx_ok ctx \<and> ctx_named nsf ctx \<and> known e ver ctx (ctx_meta ctx)"

lemma ctx_block_simps:
  assumes "ctx_named nsf ctx"
  shows "key_content ver (ctx_block ctx i) = ctx_content ver ctx"
    and "nsf (bk_namespace (ctx_block ctx i)) = ctx_namespace ctx"
    and "bk_index (ctx_block ctx i) = i"
  using assms by (simp_all add: ctx_named_def key_content_def block_key_new_def object_key_new_def)

lemma ctx_sound_valid: "env_ok e ver nsf \<Longrightarrow> ctx_named nsf ctx \<Longrightarrow> valid_block_size (ctx_bs ctx)"
  unfolding env_ok_def ctx_named_def valid_config_def by metis

lemma ctx_faithful: "env_ok e ver nsf \<Longrightarrow> ctx_named nsf ctx \<Longrightarrow> faithful e ver (ctx_namespace ctx)"
  unfolding env_ok_def ctx_named_def by metis

lemma carries_size:
  "carries e ver ctx m \<Longrightarrow> length (ctx_content ver ctx) = unat (meta_size m)"
  "carries e ver ctx m \<Longrightarrow> fits (ctx_bs ctx) (unat (meta_size m))"
  by (auto simp: carries_def meta_of_version_def)

lemma ctx_block_ok:
  assumes "ctx_named nsf ctx" and "carries e ver ctx m"
    and "data = block_of (ctx_bs ctx) (ctx_content ver ctx) (unat i)"
  shows "block_ok nsf ver (ctx_block ctx i) (block_new m data)"
proof -
  have "length (etag_bytes (block_new m data)) < 2 ^ 16"
    using assms(2)
    by (auto simp: carries_def meta_of_version_def etag_bytes_def block_new_def split: option.splits)
  then show ?thesis
    using assms carries_size [OF assms(2)]
    by (simp add: block_ok_def ctx_block_simps [OF assms(1)]) (simp add: block_new_def)
qed

lemma ctx_empty_ok:
  assumes "ctx_named nsf ctx" and "carries e ver ctx m"
    and "unat (meta_size m) \<le> unat i * block_usize (ctx_bs ctx)"
  shows "block_ok nsf ver (ctx_block ctx i) (block_empty m)"
  unfolding block_empty_def
  by (rule ctx_block_ok [OF assms(1,2)])
    (use assms(3) carries_size(1) [OF assms(2)] in \<open>simp add: block_of_def\<close>)

lemma past_end_index:
  "fits bs n \<Longrightarrow> unat i = 2 ^ 32 - 1 \<Longrightarrow> n \<le> unat (i :: u32) * block_usize bs"
  by (simp add: fits_def)

lemma expected_of_block:
  assumes "env_ok e ver nsf" and "ctx_named nsf ctx" and "carries e ver ctx m"
  shows "expected_of ctx m i = length (block_of (ctx_bs ctx) (ctx_content ver ctx) (unat i))"
proof -
  note v = ctx_sound_valid [OF assms(1,2)] and c = carries_size [OF assms(3)]
  show ?thesis
  proof (cases "unat i < 2 ^ 32 - 1")
    case True
    then show ?thesis using block_range_bounds [OF v True] c(1)
      by (auto simp: expected_of_def range_count_def length_block_of min_def)
  next
    case False
    then have i: "unat i = 2 ^ 32 - 1" using u32_bound [of i] by simp
    then have "i + 1 = 0" by (simp add: word_unat_eq_iff unat_word_ariths)
    then have "expected_of ctx m i = 0"
      by (simp add: expected_of_def range_count_def block_range_def span_def block_offset_def unat_min)
    then show ?thesis using past_end_index [OF c(2) i] c(1) by (simp add: length_block_of)
  qed
qed

section \<open>Positions in a body\<close>

text \<open>The stream that delivers the version from its \<open>n\<close>-th block on.\<close>

definition at_block :: "versions \<Rightarrow> read_ctx \<Rightarrow> block_stream \<Rightarrow> nat \<Rightarrow> bool" where
  "at_block ver ctx p n \<longleftrightarrow> feeds p (drop (n * block_usize (ctx_bs ctx)) (ctx_content ver ctx))"

lemma drop_block:
  "drop (length (block_of bs data n)) (drop (n * block_usize bs) data) = drop (Suc n * block_usize bs) data"
proof (cases "length data \<le> Suc n * block_usize bs")
  case True
  then show ?thesis by (simp add: length_block_of)
next
  case False
  then have "length (block_of bs data n) = block_usize bs" by (simp add: length_block_of)
  then show ?thesis by (simp add: add.commute)
qed

lemma take_block: "take (length (block_of bs data n)) (drop (n * block_usize bs) data) = block_of bs data n"
proof -
  have "prefix (block_of bs data n) (drop (n * block_usize bs) data)"
    by (simp add: block_of_def bslice_def take_is_prefix)
  then show ?thesis by (auto elim: prefixE)
qed

lemma at_block_past_end:
  assumes "at_block ver ctx p n" and "length (ctx_content ver ctx) \<le> n * block_usize (ctx_bs ctx)" and "n \<le> m"
  shows "at_block ver ctx p m"
proof -
  have "n * block_usize (ctx_bs ctx) \<le> m * block_usize (ctx_bs ctx)" using assms(3) by (rule mult_le_mono1)
  with assms(2) have "length (ctx_content ver ctx) \<le> m * block_usize (ctx_bs ctx)" by (rule le_trans)
  then show ?thesis using assms(1,2) by (simp add: at_block_def)
qed

lemma at_block_observe [simp]:
  "observe_block ctx p w = (p', w') \<Longrightarrow> at_block ver ctx' p' n \<longleftrightarrow> at_block ver ctx' p n"
  by (auto simp: observe_block_def lap_def at_block_def feeds_def)

lemma observe_block_world:
  "observe_block ctx p w = (p', w') \<Longrightarrow> same_stores w w' \<and> now w' = now w \<and> w_hedges w' = w_hedges w"
  by (auto simp: observe_block_def lap_def same_stores_def)

lemma hedged_next_at:
  assumes env: "env_ok e ver nsf" and ctx: "ctx_ok ctx" "ctx_named nsf ctx" and "carries e ver ctx m"
    and w: "world_ok e ver nsf w" and p: "at_block ver ctx p (unat i)"
    and h: "hedged_next e ctx stop i (expected_of ctx m i) limit w p = (r, w', p')"
  shows "settles e ver nsf {} w w'"
    and "r = Some (Inr b) \<Longrightarrow> b = block_of (ctx_bs ctx) (ctx_content ver ctx) (unat i)"
    and "r = Some (Inr b) \<Longrightarrow> at_block ver ctx p' (Suc (unat i))"
proof -
  note v = ctx_sound_valid [OF env ctx(2)] and x = expected_of_block [OF env ctx(2) assms(4), of i]
  note ok = hedged_next_ok [OF ctx_faithful [OF env ctx(2)] ctx(1) _ h]
  have p': "feeds p (drop (unat (block_offset (ctx_bs ctx) i)) (ctx_content ver ctx))"
    using p by (simp add: at_block_def unat_block_offset [OF v])
  show "settles e ver nsf {} w w'" using ok(1-3) [OF p'] by (rule same_stores_settles [OF w])
  show "b = block_of (ctx_bs ctx) (ctx_content ver ctx) (unat i)" if "r = Some (Inr b)"
    using ok(4) [OF p' that] by (simp add: unat_block_offset [OF v] x take_block)
  show "at_block ver ctx p' (Suc (unat i))" if "r = Some (Inr b)"
    using ok(4) [OF p' that] by (simp add: unat_block_offset [OF v] x drop_block at_block_def del: mult_Suc drop_drop)
qed

section \<open>Requests\<close>

text \<open>A future that leaves the stores and the hedge permits alone and does not turn back time.\<close>

definition quiet :: "world \<Rightarrow> world \<Rightarrow> bool" where
  "quiet w w' \<longleftrightarrow> same_stores w w' \<and> now w \<le> now w' \<and> w_hedges w' = w_hedges w"

lemma quiet_refl [simp]: "quiet w w"
  by (simp add: quiet_def)

lemma quiet_trans: "quiet a b \<Longrightarrow> quiet b c \<Longrightarrow> quiet a c"
  by (auto simp: quiet_def intro: same_stores_trans)

lemma quiet_settles: "world_ok e ver nsf w \<Longrightarrow> quiet w w' \<Longrightarrow> settles e ver nsf {} w w'"
  by (simp add: quiet_def same_stores_settles)

lemma quiet_ops [simp]: "quiet w (until t w)" "quiet w (count ns m n w)"
  by (simp_all add: quiet_def)

lemma quiet_count: "quiet a b \<Longrightarrow> quiet a (count ns m n b)"
  by (erule quiet_trans) simp

lemma await_until_quiet: "quiet w (snd (await_until limit t x w))"
  by (simp add: await_until_def)

lemma observe_ttfb_quiet: "quiet w (snd rw) \<Longrightarrow> quiet w (snd (observe_ttfb ns t rw))"
  by (auto simp: observe_ttfb_def quiet_def same_stores_def split: prod.splits option.splits sum.splits)

lemma observe_ttfb_value [simp]: "fst (observe_ttfb ns t rw) = fst rw"
  by (auto simp: observe_ttfb_def split: prod.splits option.splits sum.splits)

lemma headers_delay_quiet: "headers_delay e ctx cfg w = (d, w') \<Longrightarrow> quiet w w' \<and> now w' = now w"
  by (auto simp: headers_delay_def quiet_def same_stores_def split: prod.splits)

lemma observed_quiet: "quiet a b \<Longrightarrow> quiet a (snd (observe_ttfb ns t (await_until limit t' x b)))"
  by (intro observe_ttfb_quiet quiet_trans [OF _ await_until_quiet])

lemma hedge_race_quiet: "quiet w (snd (hedge_race ctx limit started hedged_at tp primary ts secondary w))"
proof -
  obtain r1 w1 where a1: "await_until limit tp primary w = (r1, w1)" by fastforce
  obtain r2 w2 where a2: "await_until limit ts secondary w = (r2, w2)" by fastforce
  have q1: "quiet w w1" and q2: "quiet w w2"
    using await_until_quiet [of w limit tp primary] await_until_quiet [of w limit ts secondary] a1 a2 by simp_all
  show ?thesis
    by (auto simp: hedge_race_def Let_def a1 a2 split: option.splits sum.splits
        intro!: observe_ttfb_quiet observed_quiet quiet_count q1 q2)
qed

lemma hedge_race_value:
  "fst (hedge_race ctx limit started hedged_at tp primary ts secondary w) \<in> {Some primary, Some secondary, None}"
  by (auto simp: hedge_race_def Let_def await_until_def split: sum.splits)

lemma call_get_eq: "call_get e ns name opts w = (a, w') \<Longrightarrow>
    a = e_get e (calls w) (now w) ns name opts \<and> quiet w w' \<and> now w' = now w"
  by (auto simp: call_get_def quiet_def same_stores_def)

lemma get_hedged_quiet: "quiet w (snd (get_hedged e ctx opts limit w))"
proof -
  obtain ready primary w1 where c1: "call_get e (ctx_ns ctx) (ctx_name ctx) opts w = ((ready, primary), w1)"
    by (metis surj_pair)
  have q1: "quiet w w1" using call_get_eq [OF c1] by simp
  show ?thesis
  proof (cases "hedge (ctx_policy ctx)")
    case None
    then show ?thesis using q1 by (simp add: get_hedged_def c1 Let_def observed_quiet)
  next
    case (Some cfg)
    obtain d w2 where d: "headers_delay e ctx cfg w1 = (d, w2)" by fastforce
    have q2: "quiet w w2" using quiet_trans [OF q1] headers_delay_quiet [OF d] by simp
    let ?w3 = "until (now w + d) w2"
    have q3: "quiet w ?w3" by (rule quiet_trans [OF q2]) simp
    let ?w4 = "count (ctx_ns ctx) HeaderHedges 1 (?w3\<lparr>w_hedges := w_hedges ?w3 - 1\<rparr>)"
    obtain ready2 secondary w5 where c2: "call_get e (ctx_ns ctx) (ctx_name ctx) opts ?w4 = ((ready2, secondary), w5)"
      by (metis surj_pair)
    obtain r w6 where hr: "hedge_race ctx limit (now w) (now w + d) (max (now w) ready) primary
        (max (now w + d) ready2) secondary w5 = (r, w6)" by fastforce
    have "quiet w (release_hedge w6)" if "w_hedges ?w3 \<noteq> 0"
    proof -
      have "quiet w5 w6" using hedge_race_quiet [of w5 ctx] hr by (metis snd_conv)
      then have "quiet ?w4 w6" using quiet_trans call_get_eq [OF c2] by blast
      moreover have "Suc (w_hedges ?w4) = w_hedges w" using that q3 by (simp add: quiet_def)
      moreover have "same_stores ?w3 ?w4" by (simp add: same_stores_def count_def)
      then have "same_stores w ?w4" "now w \<le> now ?w4" using q3 same_stores_trans by (auto simp: quiet_def)
      ultimately show ?thesis
        by (auto simp: quiet_def intro: same_stores_trans)
    qed
    then show ?thesis using Some q2 q3 c2 hr
      by (auto simp: get_hedged_def c1 d Let_def intro!: observed_quiet intro: quiet_trans simp del: One_nat_def)
  qed
qed

lemma get_hedged_value:
  assumes "get_hedged e ctx opts limit w = (Some (Inr resp), w')"
  shows "\<exists>n t ready. e_get e n t (ctx_ns ctx) (ctx_name ctx) opts = (ready, Inr resp)"
proof -
  have await: "await_until limit t x v = (Some y, v') \<Longrightarrow> y = x" for t v v' and x y :: "origin_error + get_response"
    by (auto simp: await_until_def split: if_splits)
  have obs: "observe_ttfb ns t rw = (Some x, v) \<Longrightarrow> \<exists>v'. rw = (Some x, v')" for ns t rw x v
    by (auto simp: observe_ttfb_def split: prod.splits option.splits sum.splits)
  have race: "hedge_race c l s h tp x ts y v = (Some z, v') \<Longrightarrow> z = x \<or> z = y" for c l s h tp x ts y v z v'
    using hedge_race_value [of c l s h tp x ts y v] by auto
  from assms show ?thesis
    by (auto simp: get_hedged_def call_get_def Let_def split: prod.splits option.splits if_splits
        dest!: obs await race)
qed

lemma origin_get_quiet:
  assumes "origin_get e ctx opts dl w = (r, w')"
  shows "quiet w w'"
proof -
  let ?w = "count (ctx_ns ctx) OriginRequests 1 w"
  have "get_hedged e ctx opts limit ?w = (r', v) \<Longrightarrow> quiet w v" for limit r' v
    using quiet_trans [OF quiet_ops(2) get_hedged_quiet [of ?w e ctx opts limit]] by simp
  then show ?thesis using assms
    by (auto simp: origin_get_def Let_def split: prod.splits option.splits intro!: quiet_count)
qed

lemma origin_get_faithful:
  assumes "origin_get e ctx opts dl w = (Inr resp, w')" and "faithful e ver (ctx_namespace ctx)"
  shows "response_of_version (e_tag e) ver (ctx_namespace ctx) (ctx_name ctx) resp"
proof -
  let ?w = "count (ctx_ns ctx) OriginRequests 1 w"
  obtain limit where "get_hedged e ctx opts limit ?w = (Some (Inr resp), w')"
    using assms(1) by (auto simp: origin_get_def Let_def split: prod.splits option.splits)
  from get_hedged_value [OF this] show ?thesis using assms(2) by (auto simp: faithful_def)
qed

section \<open>Head requests\<close>

lemma head_attempt_ok:
  assumes "head_attempt e ns name r w = (res, w')"
  shows "quiet w w'" and "res = Inr m \<Longrightarrow> faithful e ver ns \<Longrightarrow> meta_of_version (e_tag e) ver ns name m"
proof -
  let ?w = "count (ns_id ns) MetaHeads 1 w"
  let ?b = "min (now w + first_byte (retry_policy r)) (attempt_deadline r (now w))"
  obtain ready result w1 where c: "call_head e (ns_id ns) name ?w = ((ready, result), w1)" by (metis surj_pair)
  have hd: "e_head e (calls w) (now w) (ns_id ns) name = (ready, result)" and "quiet ?w w1"
    using c by (auto simp: call_head_def quiet_def same_stores_def count_def)
  then have q1: "quiet w w1" using quiet_trans quiet_ops(2) by blast
  obtain ra w2 where a: "await_until ?b (max (now w) ready) result w1 = (ra, w2)" by fastforce
  have q2: "quiet w w2" using quiet_trans [OF q1 await_until_quiet] a by (metis snd_conv)
  have ra: "ra = Some result \<or> ra = None" using a by (auto simp: await_until_def split: if_splits)
  show "quiet w w'" using assms q2 by (auto simp: head_attempt_def Let_def c a simp del: One_nat_def split: option.splits intro: quiet_count)
  show "meta_of_version (e_tag e) ver ns name m" if "res = Inr m" "faithful e ver ns"
    using assms ra hd that
    by (auto simp: head_attempt_def Let_def c a faithful_def simp del: One_nat_def split: option.splits)
qed

lemma head_loop_ok:
  assumes "env_ok e ver nsf" and "ns = nsf (ns_id ns)" and "key = object_key_new (ns_id ns) name"
    and "world_ok e ver nsf w" and "head_loop e ns key name r w = (res, w')"
  shows "settles e ver nsf {} w w' \<and> (\<forall>m. res = Inr m \<longrightarrow> meta_of_version (e_tag e) ver ns name m)"
  using assms
proof (induction e ns key name r w arbitrary: res w' rule: head_loop.induct)
  case (1 e ns key name r w)
  have faith: "faithful e ver ns" using "1.prems"(1,2) unfolding env_ok_def by metis
  obtain ra w1 where a: "head_attempt e ns name r w = (ra, w1)" by fastforce
  have s1: "settles e ver nsf {} w w1" by (rule quiet_settles [OF "1.prems"(4) head_attempt_ok(1) [OF a]])
  show ?case
  proof (cases ra)
    case (Inr m)
    have m: "meta_of_version (e_tag e) ver ns name m" using head_attempt_ok(2) [OF a Inr faith] .
    then have "meta_ok e ver nsf key m" using "1.prems"(2,3) by (simp add: meta_ok_def object_key_new_def)
    from settles_none [OF s1 put_meta_settles [OF settles_world_ok [OF s1] this]]
    show ?thesis using "1.prems"(5) m by (auto simp: head_loop.simps [of e] a Inr)
  next
    case (Inl err)
    let ?w2 = "count (ns_id ns) OriginErrors 1 w1"
    have s2: "settles e ver nsf {} w ?w2"
      by (rule settles_none [OF s1 count_settles [OF settles_world_ok [OF s1]]])
    obtain f r' t where f: "failed r err (now ?w2) = (f, r', t)" by (metis surj_pair)
    show ?thesis
    proof (cases f)
      case Inl': (Inl err')
      then show ?thesis
        using "1.prems"(5) settles_none [OF s2 remove_meta_settles [OF settles_world_ok [OF s2]]] f
        by (auto simp: head_loop.simps [of e ns] a Inl Let_def)
    next
      case (Inr u)
      let ?w3 = "count (ns_id ns) OriginRetries 1 (until t ?w2)"
      have s3: "settles e ver nsf {} w ?w3"
        by (rule settles_none [OF s2 quiet_settles [OF settles_world_ok [OF s2]]]) (simp add: quiet_count)
      have "head_loop e ns key name r' ?w3 = (res, w')"
        using "1.prems"(5) f Inr by (simp add: head_loop.simps [of e ns key name r w] a Inl Let_def)
      from "1.IH" [OF a [symmetric] Inl refl f [symmetric] Inr refl "1.prems"(1-3) settles_world_ok [OF s3] this]
      show ?thesis using settles_none [OF s3] by blast
    qed
  qed
qed

lemma past_end_ok:
  assumes "env_ok e ver nsf" and "ns = nsf (ns_id ns)" and "key = object_key_new (ns_id ns) name"
    and "world_ok e ver nsf w" and "past_end e ns key name start w = (res, w')"
  shows "settles e ver nsf {} w w'"
    and "res = Some m \<Longrightarrow> meta_of_version (e_tag e) ver ns name m \<and> meta_size m \<le> start"
proof -
  obtain r w1 where h: "head_loop e ns key name (retry_new (fetch (ns_config ns)) (now w)) w = (r, w1)" by fastforce
  note ok = head_loop_ok [OF assms(1-4) h]
  show "settles e ver nsf {} w w'" using ok assms(5) h
    by (auto simp: past_end_def fetch_head_def split: sum.splits)
  show "res = Some m \<Longrightarrow> meta_of_version (e_tag e) ver ns name m \<and> meta_size m \<le> start"
    using ok assms(5) h by (auto simp: past_end_def fetch_head_def split: sum.splits if_splits)
qed

section \<open>Runs of indexes\<close>

text \<open>Indexes that rise from a bound on, and indexes without a gap; none is the last index.\<close>

fun rises :: "u32 \<Rightarrow> u32 list \<Rightarrow> bool" where
  "rises n [] = True"
| "rises n (i # is) = (n \<le> i \<and> unat i < 2 ^ 32 - 1 \<and> rises (i + 1) is)"

fun consecutive :: "u32 \<Rightarrow> u32 list \<Rightarrow> bool" where
  "consecutive n [] = True"
| "consecutive n (i # is) = (i = n \<and> unat i < 2 ^ 32 - 1 \<and> consecutive (i + 1) is)"

lemma unat_next: "unat i < 2 ^ 32 - 1 \<Longrightarrow> unat (i + 1 :: u32) = Suc (unat i)"
  by (simp add: unat_word_ariths)

lemma consecutive_rises: "consecutive n is \<Longrightarrow> rises n is"
  by (induction n "is" rule: consecutive.induct) auto

lemma rises_mono: "rises n is \<Longrightarrow> m \<le> n \<Longrightarrow> rises m is"
  by (cases "is") auto

lemma rises_ge: "rises n is \<Longrightarrow> i \<in> set is \<Longrightarrow> n \<le> i"
proof (induction n "is" rule: rises.induct)
  case (2 n j js)
  then show ?case using unat_next [of j] by (auto simp: word_le_nat_alt)
qed simp

lemma rises_distinct: "rises n is \<Longrightarrow> distinct is"
proof (induction n "is" rule: rises.induct)
  case (2 n j js)
  then show ?case using rises_ge [of "j + 1" js j] unat_next [of j] by (auto simp: word_le_nat_alt)
qed simp

lemma rises_takeWhile: "rises n is \<Longrightarrow> rises n (takeWhile P is)"
  by (induction n "is" rule: rises.induct) auto

lemma consecutive_range: "consecutive a (range_list (Range a b))"
proof (induction "unat b - unat a" arbitrary: a)
  case 0
  then have "range_list (Range a b) = []" by (simp add: word_le_nat_alt)
  then show ?case by (metis consecutive.simps(1))
next
  case (Suc n)
  then have ab: "a < b" by (simp add: word_less_nat_alt)
  then have a: "unat a < 2 ^ 32 - 1" using u32_bound [of b] by (simp add: word_less_nat_alt)
  have "n = unat b - unat (a + 1)" using Suc.hyps(2) unat_next [OF a] by simp
  from Suc.hyps(1) [OF this] show ?case using range_list_Cons [OF ab] a by simp
qed

lemmas rises_range = consecutive_rises [OF consecutive_range]

lemma consecutive_append: "consecutive n (xs @ ys) \<Longrightarrow> \<exists>m. consecutive m ys"
  by (induction n xs rule: consecutive.induct) auto

lemma consecutive_bound: "consecutive n is \<Longrightarrow> is \<noteq> [] \<Longrightarrow> unat n + length is \<le> 2 ^ 32 - 1"
proof (induction n "is" rule: consecutive.induct)
  case (2 n i js)
  then show ?case using unat_next [of i] by (cases js) auto
qed simp

section \<open>Slots of a read\<close>

abbreviation slot_index :: "slot \<Rightarrow> u32" where
  "slot_index sl \<equiv> bk_index (slot_key sl)"

definition of_ctx :: "read_ctx \<Rightarrow> slot list \<Rightarrow> bool" where
  "of_ctx ctx sls \<longleftrightarrow> (\<forall>sl \<in> set sls. slot_key sl = ctx_block ctx (slot_index sl))"

lemma of_ctx_simps [simp]:
  "of_ctx ctx []" "of_ctx ctx (sl # sls) \<longleftrightarrow> slot_key sl = ctx_block ctx (slot_index sl) \<and> of_ctx ctx sls"
  "of_ctx ctx (xs @ ys) \<longleftrightarrow> of_ctx ctx xs \<and> of_ctx ctx ys"
  by (auto simp: of_ctx_def)

lemma ctx_block_inject [simp]: "ctx_block ctx i = ctx_block ctx j \<longleftrightarrow> i = j"
  by (simp add: block_key_new_def)

lemma bk_index_ctx_block [simp]: "bk_index (ctx_block ctx i) = i"
  by (simp add: block_key_new_def)

lemma rises_distinct_keys: "rises n (map slot_index sls) \<Longrightarrow> distinct (map slot_key sls)"
  using rises_distinct [of n "map slot_index sls"] by (auto simp: distinct_map inj_on_def)

text \<open>A group of slots that can be fetched: consecutive blocks, all held and not settled.\<close>

definition group_ready :: "env \<Rightarrow> read_ctx \<Rightarrow> slot list \<Rightarrow> world \<Rightarrow> bool" where
  "group_ready e ctx slots w \<longleftrightarrow> of_ctx ctx slots \<and> (\<exists>n. consecutive n (map slot_index slots))
     \<and> (\<forall>sl \<in> set slots. owned e w sl)"

lemma group_ready_distinct: "group_ready e ctx slots w \<Longrightarrow> distinct (map slot_key slots)"
  by (auto simp: group_ready_def dest: consecutive_rises rises_distinct_keys)

lemma group_ready_rest:
  assumes "group_ready e ctx (popped @ slots) w" and "settles e ver nsf (keys_of popped) w w'"
  shows "group_ready e ctx slots w'"
proof -
  have d: "distinct (map slot_key (popped @ slots))" by (rule group_ready_distinct [OF assms(1)])
  have "owned e w' sl" if "sl \<in> set slots" for sl
    using assms(1) that d by (intro owned_settles [OF assms(2)]) (auto simp: group_ready_def)
  then show ?thesis using assms(1) consecutive_append by (fastforce simp: group_ready_def)
qed

lemma group_ready_quiet:
  "group_ready e ctx slots w \<Longrightarrow> settles e ver nsf {} w w' \<Longrightarrow> group_ready e ctx slots w'"
  using group_ready_rest [of e ctx "[]" slots w ver nsf w'] by simp

section \<open>Claimed slots\<close>

text \<open>Several slots opened one after the other.\<close>

definition opens_all :: "env \<Rightarrow> versions \<Rightarrow> namespaces \<Rightarrow> slot list \<Rightarrow> world \<Rightarrow> world \<Rightarrow> bool" where
  "opens_all e ver nsf sls w w' \<longleftrightarrow> guarantees e ver nsf w w' \<and> distinct (map slot_key sls)
     \<and> (\<forall>sl \<in> set sls. flying e w (slot_key sl) = None \<and> owned e w' sl)
     \<and> (\<forall>k. k \<notin> keys_of sls \<longrightarrow> flying e w' k = flying e w k)"

lemma opens_all_none: "opens_all e ver nsf [] w w' \<longleftrightarrow> settles e ver nsf {} w w'"
  by (auto simp: opens_all_def settles_def)

lemma opens_all_world_ok: "opens_all e ver nsf sls w w' \<Longrightarrow> world_ok e ver nsf w'"
  by (simp add: opens_all_def guarantees_def)

lemma opens_all_Cons:
  assumes "opens e ver nsf sl w w1" and "opens_all e ver nsf sls w1 w2"
  shows "opens_all e ver nsf (sl # sls) w w2"
proof -
  have "slot_key sl \<notin> keys_of sls" using assms by (auto simp: opens_def opens_all_def owned_def)
  then show ?thesis using assms guarantees_trans [of e ver nsf w w1 w2]
    by (auto simp: opens_def opens_all_def owned_def split: if_splits)
qed

lemma settles_opens_all:
  assumes "settles e ver nsf {} w w1" and "opens_all e ver nsf sls w1 w2"
  shows "opens_all e ver nsf sls w w2"
  using assms guarantees_trans [of e ver nsf w w1 w2] by (auto simp: opens_all_def settles_def)

lemma opens_all_settles:
  assumes "opens_all e ver nsf sls w w1" and "settles e ver nsf K w1 w2" and "K \<subseteq> keys_of sls"
  shows "opens_all e ver nsf (filter (\<lambda>sl. slot_key sl \<notin> K) sls) w w2"
  using assms guarantees_trans [of e ver nsf w w1 w2]
  by (auto simp: opens_all_def settles_def owned_def distinct_map_filter)

lemma opens_all_settled:
  assumes "opens_all e ver nsf sls w w1" and "settles e ver nsf (keys_of sls) w1 w2"
  shows "settles e ver nsf {} w w2"
  using opens_all_settles [OF assms] by (simp add: opens_all_none [symmetric])

text \<open>A claim that is given back, with or without a block.\<close>

lemma claims_quiet:
  "claims e ver nsf c w w1 \<Longrightarrow> settles e ver nsf {} w1 w2 \<Longrightarrow> claims e ver nsf c w w2"
  by (auto simp: claims_def intro: opens_then_quiet settles_none split: option.splits)

lemma claims_world_ok: "claims e ver nsf c w w' \<Longrightarrow> world_ok e ver nsf w'"
  by (auto simp: claims_def intro: opens_world_ok settles_world_ok split: option.splits)

lemma claims_closed:
  assumes "claims e ver nsf c w w1" and "c = None \<Longrightarrow> w2 = w1"
    and "\<And>sl. c = Some sl \<Longrightarrow> owned e w1 sl \<Longrightarrow> settles e ver nsf {slot_key sl} w1 w2"
  shows "settles e ver nsf {} w w2"
proof (cases c)
  case None
  then show ?thesis using assms(1,2) by (simp add: claims_def)
next
  case (Some sl)
  then have o: "opens e ver nsf sl w w1" using assms(1) by (simp add: claims_def)
  then show ?thesis
    using opens_then_settles [OF o assms(3) [OF Some]] by (simp add: opens_def)
qed

lemma claim_all_opens:
  assumes "world_ok e ver nsf w" and "rises n is" and "claim_all e ctx is w = (sls, w')"
  shows "opens_all e ver nsf sls w w' \<and> of_ctx ctx sls \<and> rises n (map slot_index sls)"
  using assms
proof (induction "is" arbitrary: n w sls w')
  case Nil
  then show ?case by (simp add: opens_all_none settles_refl)
next
  case (Cons i "is")
  obtain c w1 where c: "claim e ctx i w = (c, w1)" by fastforce
  obtain sls1 w2 where r: "claim_all e ctx is w1 = (sls1, w2)" by fastforce
  note cl = claim_claims [OF Cons.prems(1) c]
  note ih = Cons.IH [OF claims_world_ok [OF cl(1)] _ r, of "i + 1"]
  have i: "n \<le> i" "unat i < 2 ^ 32 - 1" "rises (i + 1) is" using Cons.prems(2) by auto
  have up: "n \<le> i + 1" using i unat_next [of i] by (simp add: word_le_nat_alt)
  show ?case
  proof (cases c)
    case None
    then have "settles e ver nsf {} w w1" using cl(1) by (simp add: claims_def)
    then show ?thesis using Cons.prems(3) ih [OF i(3)] None rises_mono [OF _ up]
      by (auto simp: c r intro: settles_opens_all)
  next
    case (Some sl)
    then have "opens e ver nsf sl w w1" "slot_key sl = ctx_block ctx i" using cl by (simp_all add: claims_def)
    then show ?thesis using Cons.prems(3) ih [OF i(3)] Some i by (auto simp: c r intro: opens_all_Cons)
  qed
qed

section \<open>Consuming a response\<close>

lemma consume_lead_ok:
  assumes env: "env_ok e ver nsf" and ctx: "ctx_ok ctx" "ctx_named nsf ctx" and m: "carries e ver ctx m"
    and "world_ok e ver nsf w" and "at_block ver ctx p (unat n)" and "consecutive n is"
    and "consume_lead e ctx m stop limit is p w = (res, p', w')"
  shows "settles e ver nsf {} w w' \<and> (res = Done \<longrightarrow> at_block ver ctx p' (unat n + length is))"
  using assms(5-)
proof (induction "is" arbitrary: n p w)
  case Nil
  then show ?case by (simp add: settles_refl)
next
  case (Cons i "is")
  have i: "i = n" "unat n < 2 ^ 32 - 1" "consecutive (n + 1) is" using Cons.prems(3) by auto
  obtain c w1 where c: "claim e ctx i w = (c, w1)" by fastforce
  note cl = claim_claims [OF Cons.prems(1) c]
  obtain r w2 p2 where h: "hedged_next e ctx stop i (expected_of ctx m i) limit w1 p = (r, w2, p2)"
    by (metis surj_pair)
  note hn = hedged_next_at [OF env ctx m claims_world_ok [OF cl(1)] Cons.prems(2) [folded i(1)] h]
  note c2 = claims_quiet [OF cl(1) hn(1)]
  show ?case
  proof (cases "\<exists>b. r = Some (Inr b)")
    case True
    then obtain b where r: "r = Some (Inr b)" by auto
    obtain p3 w3 where o: "observe_block ctx p2 w2 = (p3, w3)" by fastforce
    have "settles e ver nsf {} w2 w3"
      using observe_block_world [OF o] by (intro same_stores_settles [OF claims_world_ok [OF c2]]) auto
    note c3 = claims_quiet [OF c2 this]
    let ?w4 = "case c of Some sl \<Rightarrow> cache_extra e ctx sl m b w3 | None \<Rightarrow> w3"
    have "block_ok nsf ver (slot_key sl) (block_new m b)" if "c = Some sl" for sl
      using ctx_block_ok [OF ctx(2) m hn(2) [OF r]] cl(2) [OF that] by simp
    then have s4: "settles e ver nsf {} w ?w4"
      by (intro claims_closed [OF c3]) (auto intro: cache_extra_settles [OF claims_world_ok [OF c3]])
    have p3: "at_block ver ctx p3 (unat (n + 1))"
      using hn(3) [OF r] at_block_observe [OF o] i by (simp add: unat_next)
    have "consume_lead e ctx m stop limit is p3 ?w4 = (res, p', w')"
      using Cons.prems(4) by (simp add: c h r o)
    from Cons.IH [OF settles_world_ok [OF s4] p3 i(3) this]
    show ?thesis using settles_none [OF s4] unat_next [OF i(2)] by simp
  next
    case False
    have "settles e ver nsf {} w (case c of Some sl \<Rightarrow> drop_slot e sl w2 | None \<Rightarrow> w2)"
      by (intro claims_closed [OF c2]) (auto intro: drop_slot_settles [OF claims_world_ok [OF c2]])
    moreover have "w' = (case c of Some sl \<Rightarrow> drop_slot e sl w2 | None \<Rightarrow> w2)" and "res \<noteq> Done"
      using Cons.prems(4) False by (auto simp: c h split: option.splits sum.splits)
    ultimately show ?thesis by simp
  qed
qed

text \<open>One slot settled with its block, and the rest of the group as it was.\<close>

lemma group_ready_Cons:
  assumes "group_ready e ctx (sl # sls) w"
  shows "slot_key sl = ctx_block ctx (slot_index sl)" and "owned e w sl" and "unat (slot_index sl) < 2 ^ 32 - 1"
    and "sls \<noteq> [] \<Longrightarrow> slot_index (hd sls) = slot_index sl + 1"
  using assms by (auto simp: group_ready_def neq_Nil_conv)

lemma settle_front:
  assumes "group_ready e ctx (sl # sls) w" and "settles e ver nsf {} w w1" and "block_ok nsf ver (slot_key sl) b"
  shows "settles e ver nsf {slot_key sl} w (resolve_slot e (Inr b) sl w1)"
    and "settles e ver nsf {slot_key sl} w (resolve_slot e (Inr b) sl (cache_insert (slot_key sl) b w1))"
proof -
  note w1 = settles_world_ok [OF assms(2)]
  have o: "owned e w1 sl" by (rule owned_settles [OF assms(2) group_ready_Cons(2) [OF assms(1)]]) simp
  show "settles e ver nsf {slot_key sl} w (resolve_slot e (Inr b) sl w1)"
    using assms(3) by (intro settles_none' [OF assms(2)] resolve_slot_settles [OF w1 o]) simp
  have s2: "settles e ver nsf {} w (cache_insert (slot_key sl) b w1)"
    by (rule settles_none [OF assms(2) cache_insert_settles [OF w1 assms(3)]])
  have "owned e (cache_insert (slot_key sl) b w1) sl"
    by (rule owned_settles [OF s2 group_ready_Cons(2) [OF assms(1)]]) simp
  then show "settles e ver nsf {slot_key sl} w (resolve_slot e (Inr b) sl (cache_insert (slot_key sl) b w1))"
    using assms(3) by (intro settles_none' [OF s2] resolve_slot_settles [OF settles_world_ok [OF s2]]) simp_all
qed

text \<open>What a pass over the slots of a group leads to.\<close>

definition slots_consumed ::
  "env \<Rightarrow> versions \<Rightarrow> namespaces \<Rightarrow> read_ctx \<Rightarrow> slot list \<Rightarrow> world
   \<Rightarrow> progress \<times> u32 \<times> slot list \<times> block_stream \<times> world \<Rightarrow> bool" where
  "slots_consumed e ver nsf ctx slots w res \<longleftrightarrow>
     (case res of (pr, next, left, p', w') \<Rightarrow>
        (\<exists>popped. slots = popped @ left \<and> settles e ver nsf (keys_of popped) w w')
        \<and> (pr = Done \<longrightarrow> left = [] \<and> at_block ver ctx p' (unat next)))"

lemma slots_consumed_Cons:
  assumes "settles e ver nsf {slot_key sl} w w1" and "slots_consumed e ver nsf ctx sls w1 res"
  shows "slots_consumed e ver nsf ctx (sl # sls) w res"
proof -
  obtain pr nx left p' w' where res: "res = (pr, nx, left, p', w')" by (metis surj_pair)
  obtain popped where p: "sls = popped @ left" and s: "settles e ver nsf (keys_of popped) w1 w'"
    using assms(2) by (auto simp: slots_consumed_def res)
  have "settles e ver nsf (keys_of (sl # popped)) w w'" using settles_trans [OF assms(1) s] by simp
  then show ?thesis using assms(2) p unfolding slots_consumed_def res
    by (auto intro!: exI [of _ "sl # popped"])
qed

lemma consume_slots_ok:
  assumes env: "env_ok e ver nsf" and ctx: "ctx_ok ctx" "ctx_named nsf ctx" and m: "carries e ver ctx m"
    and "world_ok e ver nsf w" and "group_ready e ctx slots w"
    and "at_block ver ctx p (unat (case slots of [] \<Rightarrow> nx | sl # _ \<Rightarrow> slot_index sl))"
  shows "slots_consumed e ver nsf ctx slots w (consume_slots e ctx m stop limit nx slots p w)"
  using assms(5-)
proof (induction slots arbitrary: nx p w)
  case Nil
  then show ?case by (simp add: slots_consumed_def settles_refl)
next
  case (Cons sl sls)
  let ?i = "slot_index sl" and ?x = "expected_of ctx m (slot_index sl)"
  note ready = group_ready_Cons [OF Cons.prems(2)]
  note x = expected_of_block [OF env ctx(2) m, of ?i]
  have p: "at_block ver ctx p (unat ?i)" using Cons.prems(3) by simp
  have step: "slots_consumed e ver nsf ctx (sl # sls) w (consume_slots e ctx m stop limit (?i + 1) sls p1 w1)"
    if s: "settles e ver nsf {slot_key sl} w w1" and p1: "at_block ver ctx p1 (Suc (unat ?i))" for p1 w1
  proof (rule slots_consumed_Cons [OF s Cons.IH [OF settles_world_ok [OF s]]])
    show "group_ready e ctx sls w1" using group_ready_rest [of e ctx "[sl]"] Cons.prems(2) s by simp
    show "at_block ver ctx p1 (unat (case sls of [] \<Rightarrow> ?i + 1 | sl # _ \<Rightarrow> slot_index sl))"
      using p1 ready(3,4) by (auto simp: unat_next split: list.splits)
  qed
  show ?case
  proof (cases "?x = 0")
    case True
    then have "block_of (ctx_bs ctx) (ctx_content ver ctx) (unat ?i) = []" using x by simp
    then have past: "length (ctx_content ver ctx) \<le> unat ?i * block_usize (ctx_bs ctx)"
      by (simp add: block_of_empty_iff)
    have "block_ok nsf ver (slot_key sl) (block_empty m)"
      using ctx_empty_ok [OF ctx(2) m, of ?i] past carries_size(1) [OF m] ready(1) by simp
    from step [OF settle_front(1) [OF Cons.prems(2) settles_refl [OF Cons.prems(1)] this]
        at_block_past_end [OF p past]]
    show ?thesis using True by simp
  next
    case False
    obtain r w1 p1 where h: "hedged_next e ctx stop ?i ?x limit w p = (r, w1, p1)" by (metis surj_pair)
    note hn = hedged_next_at [OF env ctx m Cons.prems(1) p h]
    show ?thesis
    proof (cases "\<exists>b. r = Some (Inr b)")
      case True
      then obtain b where r: "r = Some (Inr b)" by auto
      obtain p2 w2 where o: "observe_block ctx p1 w1 = (p2, w2)" by fastforce
      have s2: "settles e ver nsf {} w (count (ctx_ns ctx) OriginBytes (length b) w2)"
        using observe_block_world [OF o]
        by (intro settles_none [OF hn(1) same_stores_settles [OF settles_world_ok [OF hn(1)]]])
          (auto intro: same_stores_trans)
      have "block_ok nsf ver (slot_key sl) (block_new m b)"
        using ctx_block_ok [OF ctx(2) m hn(2) [OF r]] ready(1) by simp
      from step [OF settle_front(2) [OF Cons.prems(2) s2 this], of p2]
      show ?thesis using False hn(3) [OF r] at_block_observe [OF o] by (simp add: h r o Let_def)
    next
      case other: False
      then show ?thesis using False hn(1)
        by (auto simp: h Let_def slots_consumed_def split: option.splits sum.splits)
    qed
  qed
qed

section \<open>Trailing blocks\<close>

lemma stream_next_at:
  assumes env: "env_ok e ver nsf" and ctx: "ctx_named nsf ctx" and m: "carries e ver ctx m"
    and p: "at_block ver ctx p (unat i)"
    and h: "stream_next limit (expected_of ctx m i) t p = (Some (Inr b), t', p')"
  shows "b = block_of (ctx_bs ctx) (ctx_content ver ctx) (unat i)" and "at_block ver ctx p' (Suc (unat i))"
  using stream_next_bytes(1) [OF h p [unfolded at_block_def] refl]
  by (simp_all add: expected_of_block [OF env ctx m] take_block drop_block at_block_def del: mult_Suc drop_drop)

lemma skip_blocks_ok:
  assumes env: "env_ok e ver nsf" and ctx: "ctx_named nsf ctx" and m: "carries e ver ctx m"
    and "at_block ver ctx p (unat n)" and "consecutive n is"
    and "skip_blocks ctx m limit is p w = (res, p', w')"
  shows "quiet w w' \<and> (res \<longrightarrow> at_block ver ctx p' (unat n + length is))"
  using assms(4-)
proof (induction "is" arbitrary: n p w)
  case (Cons i "is")
  have i: "i = n" "unat n < 2 ^ 32 - 1" "consecutive (n + 1) is" using Cons.prems(2) by auto
  obtain r t p1 where h: "stream_next limit (expected_of ctx m i) (now w) p = (r, t, p1)" by (metis surj_pair)
  show ?case
  proof (cases "\<exists>b. r = Some (Inr b)")
    case True
    then obtain b where r: "r = Some (Inr b)" by auto
    have "at_block ver ctx p1 (unat (n + 1))"
      using stream_next_at(2) [OF env ctx m Cons.prems(1) [folded i(1)] h [unfolded r]] i by (simp add: unat_next)
    from Cons.IH [OF this i(3), of "until t w"] Cons.prems(3)
    show ?thesis using quiet_trans [of w "until t w"] unat_next [OF i(2)] by (auto simp: h r)
  next
    case False
    then show ?thesis using Cons.prems(3) by (auto simp: h split: option.splits sum.splits)
  qed
qed simp

text \<open>Slots to be filled from a stream: rising indexes from the position on, all held.\<close>

definition fill_ready :: "env \<Rightarrow> read_ctx \<Rightarrow> u32 \<Rightarrow> slot list \<Rightarrow> world \<Rightarrow> bool" where
  "fill_ready e ctx n sls w \<longleftrightarrow> of_ctx ctx sls \<and> rises n (map slot_index sls) \<and> (\<forall>sl \<in> set sls. owned e w sl)"

lemma fill_ready_drop:
  assumes "world_ok e ver nsf w" and "fill_ready e ctx n sls w" and "quiet w w'"
  shows "settles e ver nsf (keys_of sls) w (drop_all e sls w')"
proof -
  note s = quiet_settles [OF assms(1,3)]
  show ?thesis
    using assms(2) rises_distinct_keys
    by (intro settles_none' [OF s] drop_all_settles [OF settles_world_ok [OF s]])
      (auto simp: fill_ready_def intro: owned_settles [OF s])
qed

lemma fill_slots_ok:
  assumes env: "env_ok e ver nsf" and ctx: "ctx_named nsf ctx" and m: "carries e ver ctx m"
    and "world_ok e ver nsf w" and "fill_ready e ctx n sls w" and "at_block ver ctx p (unat n)"
  shows "settles e ver nsf (keys_of sls) w (fill_slots e ctx m limit n sls p w)"
  using assms(4-)
proof (induction sls arbitrary: n p w)
  case Nil
  then show ?case by (simp add: settles_refl)
next
  case (Cons sl sls)
  let ?i = "slot_index sl"
  have i: "n \<le> ?i" "unat ?i < 2 ^ 32 - 1" "rises (?i + 1) (map slot_index sls)" "owned e w sl"
      "slot_key sl = ctx_block ctx ?i"
    using Cons.prems(2) by (auto simp: fill_ready_def)
  obtain res p1 w1 where k: "skip_blocks ctx m limit (range_list (Range n ?i)) p w = (res, p1, w1)"
    by (metis surj_pair)
  note sk = skip_blocks_ok [OF env ctx m Cons.prems(3) consecutive_range k]
  obtain r t p2 where h: "stream_next limit (expected_of ctx m ?i) (now w1) p1 = (r, t, p2)" by (metis surj_pair)
  have q: "quiet w (until t w1)" using sk quiet_trans quiet_ops(1) by blast
  show ?case
  proof (cases "res \<and> (\<exists>b. r = Some (Inr b))")
    case True
    then obtain b where r: "r = Some (Inr b)" and res by auto
    have "at_block ver ctx p1 (unat ?i)" using sk \<open>res\<close> i(1) by (simp add: word_le_nat_alt)
    note b = stream_next_at [OF env ctx m this h [unfolded r]]
    let ?w3 = "cache_extra e ctx sl m b (until t w1)"
    note s = quiet_settles [OF Cons.prems(1) q]
    have o: "owned e (until t w1) sl" by (rule owned_settles [OF s i(4)]) simp
    have s3: "settles e ver nsf {slot_key sl} w ?w3"
      using ctx_block_ok [OF ctx m b(1)] i(5)
      by (intro settles_none' [OF s] cache_extra_settles [OF settles_world_ok [OF s] o]) simp
    have "fill_ready e ctx (?i + 1) sls ?w3"
    proof -
      have "slot_key sl \<notin> keys_of sls"
        using Cons.prems(2) rises_distinct_keys [of n "sl # sls"] by (auto simp: fill_ready_def)
      then show ?thesis using Cons.prems(2) i(3)
        by (auto simp: fill_ready_def intro!: owned_settles [OF s3]) (metis imageI)
    qed
    from Cons.IH [OF settles_world_ok [OF s3] this, of p2] settles_trans [OF s3] b(2) i(2)
    have "settles e ver nsf ({slot_key sl} \<union> keys_of sls) w (fill_slots e ctx m limit (?i + 1) sls p2 ?w3)"
      by (simp add: unat_next)
    moreover have "max n ?i = ?i" using i(1) by (simp add: max_def)
    ultimately show ?thesis using r \<open>res\<close> by (simp add: k h Let_def)
  next
    case False
    have "fill_slots e ctx m limit n (sl # sls) p w = drop_all e (sl # sls) (if res then until t w1 else w1)"
      using False by (auto simp: k h Let_def split: option.splits sum.splits bool.splits)
    then show ?thesis
      using fill_ready_drop [OF Cons.prems(1,2), of "if res then until t w1 else w1"] q sk by auto
  qed
qed

section \<open>Accepting a response\<close>

text \<open>What \<^verbatim>\<open>consume\<close> and \<^verbatim>\<open>accept\<close> lead to: some slots settled, and trailing slots claimed when all are.\<close>

definition consumed ::
  "env \<Rightarrow> versions \<Rightarrow> namespaces \<Rightarrow> read_ctx \<Rightarrow> slot list \<Rightarrow> world
   \<Rightarrow> progress \<times> trailing option \<times> slot list \<times> world \<Rightarrow> bool" where
  "consumed e ver nsf ctx slots w res \<longleftrightarrow>
     (case res of (pr, tr, left, w') \<Rightarrow>
        \<exists>popped w1. slots = popped @ left \<and> settles e ver nsf (keys_of popped) w w1
          \<and> (pr = Done \<longrightarrow> left = [])
          \<and> (case tr of
                None \<Rightarrow> w' = w1
              | Some t \<Rightarrow> pr = Done \<and> opens_all e ver nsf (tr_slots t) w1 w' \<and> carries e ver ctx (tr_meta t)
                  \<and> fill_ready e ctx (tr_next t) (tr_slots t) w' \<and> at_block ver ctx (tr_stream t) (unat (tr_next t))))"

lemma aligned_offset:
  assumes "valid_block_size bs" and "off \<le> block_offset bs i" and "off mod block_bytes bs = 0"
  shows "unat off = unat (block_index bs off) * block_usize bs" and "block_index bs off \<le> i"
proof -
  have le: "unat off \<le> unat i * block_usize bs"
    using assms(1,2) by (simp add: word_le_nat_alt unat_block_offset)
  have q: "unat off div block_usize bs \<le> unat i"
    using div_le_mono [OF le, of "block_usize bs"] by simp
  then have ix: "unat (block_index bs off) = unat off div block_usize bs"
    using u32_bound [of i] by (intro unat_block_index_less) simp
  have "unat off mod block_usize bs = 0"
    using assms(1,3) by (metis unat_block_bytes unat_mod unat_0)
  then show "unat off = unat (block_index bs off) * block_usize bs" using ix by auto
  show "block_index bs off \<le> i" using q ix by (simp add: word_le_nat_alt)
qed

lemma response_at_block:
  assumes "response_of_version (e_tag e) ver (ctx_namespace ctx) (ctx_name ctx) resp"
    and "carries e ver ctx (resp_meta resp)" and "unat (range_start (resp_range resp)) = n * block_usize (ctx_bs ctx)"
  shows "at_block ver ctx (block_stream_new (resp_body resp) t) n"
proof -
  have "prefix (body_bytes (resp_body resp))
      (bslice (unat (range_start (resp_range resp))) (unat (range_end (resp_range resp))) (ctx_content ver ctx))"
    using assms(1,2) by (simp add: response_of_version_def carries_def)
  from prefix_drop_content [OF this, of 0] show ?thesis
    using assms(3) by (simp add: at_block_def feeds_def owed_def block_stream_new_def)
qed

lemma consume_ok:
  assumes env: "env_ok e ver nsf" and ctx: "ctx_ok ctx" "ctx_named nsf ctx"
    and m: "carries e ver ctx (resp_meta resp)"
    and resp: "response_of_version (e_tag e) ver (ctx_namespace ctx) (ctx_name ctx) resp"
    and start: "range_start (resp_range resp) \<le> block_offset (ctx_bs ctx) (slot_index front)"
      "range_start (resp_range resp) mod block_bytes (ctx_bs ctx) = 0"
    and w: "world_ok e ver nsf w" and ready: "group_ready e ctx (front # rest) w"
  shows "consumed e ver nsf ctx (front # rest) w (consume e ctx resp (front # rest) stop limit w)"
proof -
  let ?bs = "ctx_bs ctx" and ?m = "resp_meta resp" and ?i = "slot_index front" and ?slots = "front # rest"
  let ?next = "block_index ?bs (range_start (resp_range resp))"
  let ?first = "min ?i (block_count ?bs (meta_size ?m))"
  let ?p = "block_stream_new (resp_body resp) (now w)"
  note v = ctx_sound_valid [OF env ctx(2)] and sz = carries_size [OF m]
  note al = aligned_offset [OF v start]
  have p: "at_block ver ctx ?p (unat ?next)" by (rule response_at_block [OF resp m al(1)])
  obtain r1 p1 w1 where l: "consume_lead e ctx ?m stop limit (range_list (Range ?next ?first)) ?p w = (r1, p1, w1)"
    by (metis surj_pair)
  note lead = consume_lead_ok [OF env ctx m w p consecutive_range l]
  have s1: "settles e ver nsf {} w w1" using lead by simp
  show ?thesis
  proof (cases "r1 = Done")
    case False
    then show ?thesis using s1
      by (auto simp: consume_def Let_def l consumed_def split: progress.splits intro!: exI [of _ "[]"])
  next
    case r1: True
    have "unat ?next + (unat ?first - unat ?next) = unat (max ?next ?first)" by (simp add: unat_max)
    then have "at_block ver ctx p1 (unat (max ?next ?first))" using lead r1 by simp
    have p1: "at_block ver ctx p1 (unat ?i)"
    proof (cases "?i \<le> block_count ?bs (meta_size ?m)")
      case True
      then show ?thesis using \<open>at_block ver ctx p1 (unat (max ?next ?first))\<close> al(2) by (simp add: max_def min_def split: if_splits)
    next
      case i: False
      then have "\<not> unat (block_count ?bs (meta_size ?m)) < unat (block_count ?bs (meta_size ?m))" by simp
      then have "length (ctx_content ver ctx) \<le> unat (block_count ?bs (meta_size ?m)) * block_usize ?bs"
        using less_block_count_iff [OF v sz(2)] sz(1) by (metis not_less)
      also have "\<dots> \<le> unat (max ?next ?first) * block_usize ?bs"
        using i by (intro mult_le_mono1) (simp add: unat_max unat_min word_le_nat_alt)
      finally show ?thesis
        using at_block_past_end [OF \<open>at_block ver ctx p1 (unat (max ?next ?first))\<close>] al(2)
        by (simp add: unat_max unat_min word_le_nat_alt)
    qed
    obtain r2 nx left p2 w2 where c: "consume_slots e ctx ?m stop limit (max ?next ?first) ?slots p1 w1 = (r2, nx, left, p2, w2)"
      by (metis surj_pair)
    have "slots_consumed e ver nsf ctx ?slots w1 (r2, nx, left, p2, w2)"
      using consume_slots_ok [OF env ctx m settles_world_ok [OF s1] group_ready_quiet [OF ready s1],
          of p1 "max ?next ?first" stop limit] p1 c by simp
    then obtain popped where po: "?slots = popped @ left" and s2: "settles e ver nsf (keys_of popped) w w2"
        and d: "r2 = Done \<longrightarrow> left = [] \<and> at_block ver ctx p2 (unat nx)"
      using settles_none' [OF s1] by (auto simp: slots_consumed_def)
    show ?thesis
    proof (cases "r2 = Done")
      case False
      then have "consume e ctx resp ?slots stop limit w = (r2, None, left, w2)"
        by (simp add: consume_def Let_def l r1 c del: consume_slots.simps split: progress.splits)
      then show ?thesis using po s2 False by (auto simp: consumed_def)
    next
      case r2: True
      let ?fin = "min (range_end (resp_range resp)) (meta_size ?m)"
      let ?whole = "takeWhile (\<lambda>i. range_end (block_range ?bs i (Some (meta_size ?m))) \<le> ?fin)
          (range_list (Range nx (block_count ?bs ?fin)))"
      obtain sls w3 where cl: "claim_all e ctx ?whole w2 = (sls, w3)" by fastforce
      have op: "opens_all e ver nsf sls w2 w3" "of_ctx ctx sls" "rises nx (map slot_index sls)"
        using claim_all_opens [OF settles_world_ok [OF s2] rises_takeWhile [OF rises_range] cl] by auto
      have s3: "settles e ver nsf (keys_of popped) w w3" if "sls = []"
        using op(1) that settles_none [OF s2] by (simp add: opens_all_none)
      have f: "fill_ready e ctx nx sls w3" using op by (auto simp: fill_ready_def opens_all_def)
      have "consume e ctx resp ?slots stop limit w =
          (Done, if sls = [] then None
             else Some \<lparr>tr_stream = p2, tr_next = nx, tr_slots = sls, tr_meta = ?m\<rparr>, left, w3)"
        using cl by (simp add: consume_def Let_def l r1 c r2 del: consume_slots.simps)
      then show ?thesis using po d r2 s2 s3 op(1) f m unfolding consumed_def
        by (auto intro!: exI [of _ popped])
    qed
  qed
qed

lemma accept_ok:
  assumes env: "env_ok e ver nsf" and ctx: "ctx_ok ctx" "ctx_named nsf ctx"
    and resp: "response_of_version (e_tag e) ver (ctx_namespace ctx) (ctx_name ctx) resp"
    and r: "range_start r = block_offset (ctx_bs ctx) (slot_index front)"
    and w: "world_ok e ver nsf w" and ready: "group_ready e ctx (front # rest) w"
  shows "consumed e ver nsf ctx (front # rest) w (accept e ctx resp (front # rest) r limit w)"
    and "fst (accept e ctx resp (front # rest) r limit w) \<noteq> Done \<Longrightarrow> carries e ver ctx (resp_meta resp)"
proof -
  let ?w1 = "put_meta (ctx_key ctx) (resp_meta resp) w" and ?slots = "front # rest"
  let ?w2 = "count (ctx_ns ctx) StaleBlocks 1 ?w1"
  have "meta_ok e ver nsf (ctx_key ctx) (resp_meta resp)"
    using resp ctx(2) by (simp add: meta_ok_def response_of_version_def ctx_named_def object_key_new_def)
  note s1 = put_meta_settles [OF w this]
  note ready1 = group_ready_quiet [OF ready s1]
  note s2 = settles_none [OF s1 count_settles [OF settles_world_ok [OF s1], of "ctx_ns ctx" StaleBlocks 1]]
  have stale: "settles e ver nsf (keys_of ?slots) w (resolve_all e (Inl Stale) ?slots ?w2)"
    using group_ready_quiet [OF ready s2] group_ready_distinct [OF ready]
    by (intro settles_none' [OF s2] resolve_all_settles [OF settles_world_ok [OF s2]]) (auto simp: group_ready_def)
  have later: "consumed e ver nsf ctx ?slots ?w1 res \<Longrightarrow> consumed e ver nsf ctx ?slots w res" for res
    using settles_none' [OF s1] by (fastforce simp: consumed_def)
  let ?old = "ctx_tag ctx \<noteq> IMMUTABLE_TAG
      \<and> content_tag (e_tag e) (meta_etag (resp_meta resp)) (meta_size (resp_meta resp)) \<noteq> ctx_tag ctx"
  have m: "carries e ver ctx (resp_meta resp)" if "\<not> ?old"
    using resp ctx_tag_of_response [OF ctx(1), of "e_tag e" "resp_meta resp"] that
    by (simp add: carries_def response_of_version_def)
  show "consumed e ver nsf ctx ?slots w (accept e ctx resp ?slots r limit w)"
  proof (cases ?old)
    case True
    then show ?thesis using stale by (auto simp: accept_def Let_def consumed_def intro!: exI [of _ ?slots])
  next
    case False
    have mis: "consumed e ver nsf ctx ?slots ?w1 (Fail err, None, ?slots, ?w1)" for err
      using settles_refl [OF settles_world_ok [OF s1]] by (auto simp: consumed_def intro!: exI [of _ "[]"])
    have con: "consumed e ver nsf ctx ?slots ?w1 (consume e ctx resp ?slots stop limit ?w1)"
      if "range_start (resp_range resp) \<le> range_start r"
        "range_start (resp_range resp) mod block_bytes (ctx_bs ctx) = 0" for stop
      by (rule consume_ok [OF env ctx m [OF False] resp _ that(2) settles_world_ok [OF s1] ready1])
        (use that(1) r in simp)
    show ?thesis
      unfolding accept_def Let_def if_not_P [OF False]
      by (cases "range_start (resp_range resp) > range_start r
          \<or> range_start (resp_range resp) mod block_bytes (ctx_bs ctx) \<noteq> 0")
        (simp_all only: if_P if_not_P later mis con not_less de_Morgan_disj not_not simp_thms)
  qed
  show "fst (accept e ctx resp ?slots r limit w) \<noteq> Done \<Longrightarrow> carries e ver ctx (resp_meta resp)"
    using m by (auto simp: accept_def Let_def split: if_splits)
qed

section \<open>Fetching a group\<close>

text \<open>What a pass of the loop leads to: all slots settled, or some and the rest to be tried again.\<close>

definition step_ok :: "env \<Rightarrow> versions \<Rightarrow> namespaces \<Rightarrow> read_ctx \<Rightarrow> slot list \<Rightarrow> world \<Rightarrow> group_step \<Rightarrow> bool" where
  "step_ok e ver nsf ctx slots w st \<longleftrightarrow>
     (case st of
        Finished w' \<Rightarrow> settles e ver nsf (keys_of slots) w w'
      | Retry r meta left w' \<Rightarrow> known e ver ctx meta
          \<and> (\<exists>popped. slots = popped @ left \<and> settles e ver nsf (keys_of popped) w w'))"

lemma step_ok_after:
  assumes "settles e ver nsf (keys_of popped) w w1" and "step_ok e ver nsf ctx left w1 st"
  shows "step_ok e ver nsf ctx (popped @ left) w st"
proof (cases st)
  case (Finished w')
  then show ?thesis using assms settles_trans [OF assms(1), of "keys_of left" w']
    by (simp add: step_ok_def image_Un)
next
  case (Retry r meta left' w')
  then obtain q where "known e ver ctx meta" "left = q @ left'" "settles e ver nsf (keys_of q) w1 w'"
    using assms(2) by (auto simp: step_ok_def)
  then show ?thesis using Retry settles_trans [OF assms(1), of "keys_of q" w']
    by (auto simp: step_ok_def image_Un intro!: exI [of _ "popped @ q"])
qed

lemma step_ok_quiet: "settles e ver nsf {} w w1 \<Longrightarrow> step_ok e ver nsf ctx slots w1 st \<Longrightarrow> step_ok e ver nsf ctx slots w st"
  using step_ok_after [of e ver nsf "[]" w w1 ctx slots st] by simp

text \<open>All slots resolved with one result.\<close>

lemma resolve_group:
  assumes "world_ok e ver nsf w" and "group_ready e ctx slots w" and "settles e ver nsf {} w w1"
    and "\<And>sl. sl \<in> set slots \<Longrightarrow> result_ok nsf ver (slot_key sl) res"
  shows "settles e ver nsf (keys_of slots) w (resolve_all e res slots w1)"
  using group_ready_quiet [OF assms(2,3)] group_ready_distinct [OF assms(2)] assms(4)
  by (intro settles_none' [OF assms(3)] resolve_all_settles [OF settles_world_ok [OF assms(3)]])
    (auto simp: group_ready_def)

lemma group_failed_ok:
  assumes w: "world_ok e ver nsf w" and ready: "group_ready e ctx slots w" and "settles e ver nsf {} w w1"
    and "known e ver ctx meta"
  shows "step_ok e ver nsf ctx slots w (group_failed e ctx r meta slots err w1)"
proof -
  obtain f r' t where f: "failed r err (now w1) = (f, r', t)" by (metis surj_pair)
  let ?w2 = "count (ctx_ns ctx) OriginRetries 1 (until t w1)"
  have s2: "settles e ver nsf {} w ?w2"
    by (rule settles_none [OF assms(3) quiet_settles [OF settles_world_ok [OF assms(3)]]]) (simp add: quiet_count)
  show ?thesis
  proof (cases f)
    case (Inl err')
    then show ?thesis using resolve_group [OF w ready assms(3), of "Inl (from_origin err')"] f
      by (simp add: group_failed_def retry_or_fail_def step_ok_def)
  next
    case (Inr u)
    then show ?thesis using s2 f assms(4)
      by (auto simp: group_failed_def retry_or_fail_def step_ok_def intro!: exI [of _ "[]"])
  qed
qed

lemma group_accept_ok:
  assumes env: "env_ok e ver nsf" and ctx: "ctx_ok ctx" "ctx_named nsf ctx"
    and resp: "response_of_version (e_tag e) ver (ctx_namespace ctx) (ctx_name ctx) resp"
    and rng: "range_start rng = block_offset (ctx_bs ctx) (slot_index front)"
    and w: "world_ok e ver nsf w" and ready: "group_ready e ctx (front # rest) w"
  shows "step_ok e ver nsf ctx (front # rest) w (group_accept e ctx r (front # rest) rng dl resp w)"
proof -
  let ?slots = "front # rest"
  obtain pr tr left w1 where a: "accept e ctx resp ?slots rng dl w = (pr, tr, left, w1)" by (metis surj_pair)
  note ok = accept_ok [OF env ctx resp rng w ready, of dl]
  then obtain popped w0 where po: "?slots = popped @ left" and s0: "settles e ver nsf (keys_of popped) w w0"
      and d: "pr = Done \<longrightarrow> left = []"
      and t: "case tr of None \<Rightarrow> w1 = w0
        | Some t \<Rightarrow> pr = Done \<and> opens_all e ver nsf (tr_slots t) w0 w1 \<and> carries e ver ctx (tr_meta t)
            \<and> fill_ready e ctx (tr_next t) (tr_slots t) w1 \<and> at_block ver ctx (tr_stream t) (unat (tr_next t))"
    by (auto simp: consumed_def a)
  have retry: "step_ok e ver nsf ctx ?slots w (group_failed e ctx r (Some (resp_meta resp)) left err w2)"
    if "pr \<noteq> Done" "quiet w1 w2" for err w2
  proof -
    have w10: "w1 = w0" using t that by (auto split: option.splits)
    have "known e ver ctx (Some (resp_meta resp))" using ok(2) that a by (simp add: known_def)
    moreover have "group_ready e ctx left w0" using group_ready_rest ready s0 po by metis
    ultimately have "step_ok e ver nsf ctx left w0 (group_failed e ctx r (Some (resp_meta resp)) left err w2)"
      using that(2) w10 settles_world_ok [OF s0] by (intro group_failed_ok quiet_settles) auto
    from step_ok_after [OF s0 this] show ?thesis unfolding po .
  qed
  show ?thesis
  proof (cases pr)
    case Done
    then have l: "left = []" and sl: "?slots = popped" using d po by auto
    show ?thesis
    proof (cases tr)
      case None
      then have "group_accept e ctx r ?slots rng dl resp w = Finished w1"
        using Done l by (simp add: group_accept_def a drop_all_def)
      then show ?thesis using None sl s0 t by (simp add: step_ok_def)
    next
      case (Some tr')
      then have op: "opens_all e ver nsf (tr_slots tr') w0 w1" and c: "carries e ver ctx (tr_meta tr')"
          and f: "fill_ready e ctx (tr_next tr') (tr_slots tr') w1"
          and p: "at_block ver ctx (tr_stream tr') (unat (tr_next tr'))"
        using t by auto
      have "settles e ver nsf {} w0 (fill_trailing e ctx tr' dl w1)"
        unfolding fill_trailing_def
        by (rule opens_all_settled [OF op fill_slots_ok [OF env ctx(2) c opens_all_world_ok [OF op] f p]])
      moreover have "group_accept e ctx r ?slots rng dl resp w = Finished (fill_trailing e ctx tr' dl w1)"
        using Done Some l by (simp add: group_accept_def a drop_all_def)
      ultimately show ?thesis using settles_none [OF s0] sl by (simp add: step_ok_def)
    qed
  next
    case (Fail err)
    then show ?thesis using retry by (simp add: group_accept_def a)
  next
    case Expired
    then show ?thesis using retry by (simp add: group_accept_def a quiet_count)
  qed
qed

text \<open>The range asked for begins at the first slot, and is empty only past the end.\<close>

lemma group_range:
  assumes env: "env_ok e ver nsf" and ctx: "ctx_named nsf ctx" and ready: "group_ready e ctx (front # rest) w"
  shows "range_start (span (ctx_bs ctx) (slot_index front) n sz) = block_offset (ctx_bs ctx) (slot_index front)"
    and "range_is_empty (span (ctx_bs ctx) (slot_index front) (of_nat (length (front # rest))) (Some m))
      \<Longrightarrow> unat m \<le> unat (slot_index front) * block_usize (ctx_bs ctx)"
proof -
  let ?i = "slot_index front" and ?n = "length (front # rest)"
  note v = ctx_sound_valid [OF env ctx]
  show "range_start (span (ctx_bs ctx) ?i n sz) = block_offset (ctx_bs ctx) ?i"
    by (auto simp: span_def Let_def split: option.splits)
  have "unat ?i + ?n \<le> 2 ^ 32 - 1"
    using ready consecutive_bound [of _ "map slot_index (front # rest)"] by (fastforce simp: group_ready_def)
  then have b: "unat ?i + unat (of_nat ?n :: u32) < 2 ^ 32" and n: "unat (of_nat ?n :: u32) = ?n"
    using unat_of_nat_lt [of ?n, where 'a = 32] by simp_all
  assume "range_is_empty (span (ctx_bs ctx) ?i (of_nat ?n) (Some m))"
  then have "min ((unat ?i + ?n) * block_usize (ctx_bs ctx)) (unat m) \<le> unat ?i * block_usize (ctx_bs ctx)"
    using span_bounds [OF v b, of "Some m"] n
    by (simp add: range_is_empty_def word_le_nat_alt not_less del: length_Cons)
  moreover have "unat ?i * block_usize (ctx_bs ctx) < (unat ?i + ?n) * block_usize (ctx_bs ctx)"
    by (intro mult_less_mono1) simp_all
  ultimately show "unat m \<le> unat ?i * block_usize (ctx_bs ctx)" by (simp add: min_def split: if_splits)
qed

lemma group_empty_ok:
  assumes "ctx_named nsf ctx" and "carries e ver ctx m" and "group_ready e ctx (front # rest) w"
    and "unat (meta_size m) \<le> unat (slot_index front) * block_usize (ctx_bs ctx)" and "sl \<in> set (front # rest)"
  shows "block_ok nsf ver (slot_key sl) (block_empty m)"
proof -
  obtain n where n: "consecutive n (map slot_index (front # rest))" using assms(3) by (auto simp: group_ready_def)
  then have "rises (slot_index front) (map slot_index (front # rest))" using consecutive_rises [OF n] by simp
  then have "slot_index front \<le> slot_index sl" using rises_ge [of _ _ "slot_index sl"] assms(5) by (auto simp del: rises.simps)
  then have "unat (meta_size m) \<le> unat (slot_index sl) * block_usize (ctx_bs ctx)"
    using assms(4) by (meson mult_le_mono1 order_trans word_le_nat_alt)
  from ctx_empty_ok [OF assms(1,2) this] show ?thesis using assms(3,5) by (auto simp: group_ready_def of_ctx_def)
qed

lemma group_refused_ok:
  assumes env: "env_ok e ver nsf" and ctx: "ctx_ok ctx" "ctx_named nsf ctx" and meta: "known e ver ctx meta"
    and rng: "range_start rng = block_offset (ctx_bs ctx) (slot_index front)"
    and w: "world_ok e ver nsf w" and ready: "group_ready e ctx (front # rest) w"
  shows "step_ok e ver nsf ctx (front # rest) w (group_refused e ctx r meta (front # rest) rng err w)"
proof -
  let ?slots = "front # rest" and ?w1 = "remove_meta (ctx_key ctx) w" and ?w3 = "count (ctx_ns ctx) OriginErrors 1 w"
  let ?w2 = "count (ctx_ns ctx) StaleBlocks 1 ?w1"
  note s1 = remove_meta_settles [OF w, of "ctx_key ctx"] and s3 = count_settles [OF w, of "ctx_ns ctx" OriginErrors 1]
  note s2 = settles_none [OF s1 count_settles [OF settles_world_ok [OF s1], of "ctx_ns ctx" StaleBlocks 1]]
  obtain res w4 where pe: "past_end e (ctx_namespace ctx) (ctx_key ctx) (ctx_name ctx) (range_start rng) ?w3 = (res, w4)"
    by fastforce
  have nm: "ctx_namespace ctx = nsf (ctx_ns ctx)" "ctx_key ctx = object_key_new (ctx_ns ctx) (ctx_name ctx)"
    using ctx(2) by (simp_all add: ctx_named_def)
  note past = past_end_ok [OF env nm settles_world_ok [OF s3] pe]
  note s4 = settles_none [OF s3 past(1)]
  have empty: "settles e ver nsf (keys_of ?slots) w (resolve_all e (Inr (block_empty m)) ?slots w4)"
    if "meta = None" "res = Some m" for m
  proof -
    have "is_immutable (consistency_of (ctx_namespace ctx))" using meta ctx(1) that(1) by (simp add: known_def ctx_ok_def)
    then have "block_tag (e_tag e) (consistency_of (ctx_namespace ctx)) m = ctx_tag ctx"
      using meta that(1) by (simp add: known_def block_tag_def)
    then have c: "carries e ver ctx m" using past(2) [OF that(2)] by (simp add: carries_def)
    have "unat (meta_size m) \<le> unat (slot_index front) * block_usize (ctx_bs ctx)"
      using past(2) [OF that(2)] rng ctx_sound_valid [OF env ctx(2)] by (simp add: word_le_nat_alt unat_block_offset)
    from group_empty_ok [OF ctx(2) c ready this] show ?thesis by (intro resolve_group [OF w ready s4]) simp
  qed
  show ?thesis
  proof (cases "err = NotFound \<or> err = PreconditionFailed")
    case True
    then show ?thesis
      using resolve_group [OF w ready s1, of "Inl ENotFound"] resolve_group [OF w ready s2, of "Inl Stale"]
      by (auto simp: group_refused_def step_ok_def)
  next
    case False
    show ?thesis
    proof (cases "meta = None \<and> res \<noteq> None")
      case True
      then obtain m where "meta = None" "res = Some m" by auto
      then have "group_refused e ctx r meta ?slots rng err w = Finished (resolve_all e (Inr (block_empty m)) ?slots w4)"
        using False pe by (simp add: group_refused_def Let_def)
      then show ?thesis using empty [OF \<open>meta = None\<close> \<open>res = Some m\<close>] by (simp add: step_ok_def)
    next
      case other: False
      have "group_refused e ctx r meta ?slots rng err w =
          group_failed e ctx r meta ?slots err (if meta = None then w4 else ?w3)"
        using False other pe by (auto simp: group_refused_def Let_def)
      then show ?thesis using group_failed_ok [OF w ready _ meta] s3 s4 by simp
    qed
  qed
qed

lemma group_pass_ok:
  assumes env: "env_ok e ver nsf" and ctx: "ctx_ok ctx" "ctx_named nsf ctx" and meta: "known e ver ctx meta"
    and init: "\<And>resp. initial = Some resp \<Longrightarrow> response_of_version (e_tag e) ver (ctx_namespace ctx) (ctx_name ctx) resp"
    and w: "world_ok e ver nsf w" and ready: "group_ready e ctx (front # rest) w"
  shows "step_ok e ver nsf ctx (front # rest) w (group_pass e ctx r meta front rest initial w)"
proof -
  let ?slots = "front # rest" and ?dl = "attempt_deadline r (now w)"
  let ?rng = "span (ctx_bs ctx) (slot_index front) (of_nat (length ?slots)) (map_option meta_size meta)"
  let ?opts = "\<lparr>opt_range = Some ?rng, opt_if_match = ctx_if_match ctx, opt_if_none_match = None\<rparr>"
  note rng = group_range(1) [OF env ctx(2) ready, of "of_nat (length ?slots)" "map_option meta_size meta"]
  obtain og w1 where g: "origin_get e ctx ?opts ?dl w = (og, w1)" by fastforce
  note s1 = quiet_settles [OF w origin_get_quiet [OF g]]
  note w1 = settles_world_ok [OF s1] and ready1 = group_ready_quiet [OF ready s1]
  have fetched: "step_ok e ver nsf ctx ?slots w
      (case og of Inr response \<Rightarrow> group_accept e ctx r ?slots ?rng ?dl response w1
       | Inl err \<Rightarrow> group_refused e ctx r meta ?slots ?rng err w1)"
  proof (cases og)
    case (Inl err)
    then show ?thesis using step_ok_quiet [OF s1 group_refused_ok [OF env ctx meta rng w1 ready1]] by simp
  next
    case (Inr resp)
    from origin_get_faithful [OF g [unfolded Inr] ctx_faithful [OF env ctx(2)]]
    show ?thesis using Inr step_ok_quiet [OF s1 group_accept_ok [OF env ctx _ rng w1 ready1]] by simp
  qed
  have given: "step_ok e ver nsf ctx ?slots w (group_accept e ctx r ?slots ?rng ?dl resp w)" if "initial = Some resp" for resp
    by (rule group_accept_ok [OF env ctx init [OF that] rng w ready])
  show ?thesis
  proof (cases "\<exists>m. meta = Some m \<and> range_is_empty ?rng")
    case True
    then obtain m where m: "meta = Some m" and "range_is_empty ?rng" by auto
    then have past: "unat (meta_size m) \<le> unat (slot_index front) * block_usize (ctx_bs ctx)"
      using group_range(2) [OF env ctx(2) ready, of "meta_size m"] by (simp del: length_Cons)
    have "carries e ver ctx m" using meta m by (simp add: known_def)
    from group_empty_ok [OF ctx(2) this ready past]
    have "settles e ver nsf (keys_of ?slots) w (resolve_all e (Inr (block_empty m)) ?slots w)"
      by (intro resolve_group [OF w ready settles_refl [OF w]]) simp
    then show ?thesis using m \<open>range_is_empty ?rng\<close> by (simp add: group_pass_def step_ok_def Let_def)
  next
    case False
    then have "group_pass e ctx r meta front rest initial w =
        (case initial of
           Some response \<Rightarrow> group_accept e ctx r ?slots ?rng ?dl response w
         | None \<Rightarrow> (case og of Inr response \<Rightarrow> group_accept e ctx r ?slots ?rng ?dl response w1
             | Inl err \<Rightarrow> group_refused e ctx r meta ?slots ?rng err w1))"
      using g by (auto simp: group_pass_def Let_def split: option.splits bool.splits sum.splits)
    then show ?thesis using fetched given by (simp split: option.splits)
  qed
qed

lemma group_loop_ok:
  assumes "env_ok e ver nsf" and "ctx_ok ctx" and "ctx_named nsf ctx" and "known e ver ctx meta"
    and "\<And>resp. initial = Some resp \<Longrightarrow> response_of_version (e_tag e) ver (ctx_namespace ctx) (ctx_name ctx) resp"
    and "world_ok e ver nsf w" and "group_ready e ctx slots w"
  shows "settles e ver nsf (keys_of slots) w (group_loop e ctx r meta slots initial w)"
  using assms
proof (induction e ctx r meta slots initial w rule: group_loop.induct)
  case (1 e ctx r meta initial w)
  then show ?case by (simp add: group_loop.simps settles_refl)
next
  case (2 e ctx r meta front rest initial w)
  note ok = group_pass_ok [OF "2.prems"(1-4) _ "2.prems"(6,7), of initial r, OF "2.prems"(5)]
  show ?case
  proof (cases "group_pass e ctx r meta front rest initial w")
    case (Finished w')
    then show ?thesis using ok by (simp add: group_loop.simps(2) step_ok_def)
  next
    case (Retry r' meta' left w')
    then obtain popped where m: "known e ver ctx meta'" and po: "front # rest = popped @ left"
        and s: "settles e ver nsf (keys_of popped) w w'"
      using ok by (auto simp: step_ok_def)
    have "group_ready e ctx left w'" using group_ready_rest "2.prems"(7) po s by metis
    from "2.IH" [OF Retry "2.prems"(1-3) m _ settles_world_ok [OF s] this]
    have "settles e ver nsf (keys_of left) w' (group_loop e ctx r' meta' left None w')" by simp
    note all = settles_trans [OF s this]
    have "keys_of (front # rest) = keys_of popped \<union> keys_of left" by (simp only: po set_append image_Un)
    then show ?thesis using all by (simp only: group_loop.simps(2) Retry group_step.case)
  qed
qed

text \<open>
  What a queued fetch needs: a sound context, a group that can be fetched, and, where a response
  comes with it, a response of the version.
\<close>

definition fetch_ready :: "env \<Rightarrow> versions \<Rightarrow> namespaces \<Rightarrow> read_ctx \<Rightarrow> slot list \<Rightarrow> get_response option \<Rightarrow> world \<Rightarrow> bool" where
  "fetch_ready e ver nsf ctx slots initial w \<longleftrightarrow> ctx_sound e ver nsf ctx \<and> group_ready e ctx slots w
     \<and> (\<forall>resp. initial = Some resp \<longrightarrow> response_of_version (e_tag e) ver (ctx_namespace ctx) (ctx_name ctx) resp)"

lemma fetch_group_settles:
  assumes "env_ok e ver nsf" and "world_ok e ver nsf w" and "fetch_ready e ver nsf ctx slots initial w"
  shows "settles e ver nsf (keys_of slots) w (fetch_group e ctx slots pri initial w)"
  unfolding fetch_group_def using assms
  by (intro group_loop_ok) (auto simp: fetch_ready_def ctx_sound_def)

end
