(* ===== verification/Fetch_Schedule.thy ===== *)
theory Fetch_Schedule
  imports Fetch_Correct
begin

text \<open>
  Scheduling of fetches, \<^verbatim>\<open>schedule\<close>, \<^verbatim>\<open>adopt\<close> and \<^verbatim>\<open>probe\<close> of \<^verbatim>\<open>nestor/src/fetch.rs\<close>. The queue of
  tasks is sound when every queued fetch can run and every key in flight belongs to one of them, so
  that nobody waits for a slot that no task will settle. The operations keep the queue sound and
  return handles that serve the blocks asked for.
\<close>

section \<open>The queue\<close>

fun task_keys :: "task \<Rightarrow> block_key list" where
  "task_keys (FetchGroup ctx slots pri initial) = map slot_key slots"
| "task_keys (Prefetch ctx indexes) = []"

fun task_ready :: "env \<Rightarrow> versions \<Rightarrow> namespaces \<Rightarrow> task \<Rightarrow> world \<Rightarrow> bool" where
  "task_ready e ver nsf (FetchGroup ctx slots pri initial) w = fetch_ready e ver nsf ctx slots initial w"
| "task_ready e ver nsf (Prefetch ctx indexes) w = ctx_sound e ver nsf ctx"

abbreviation queue_keys :: "task list \<Rightarrow> block_key list" where
  "queue_keys ts \<equiv> concat (map task_keys ts)"

definition queue_ok :: "env \<Rightarrow> versions \<Rightarrow> namespaces \<Rightarrow> task list \<Rightarrow> world \<Rightarrow> bool" where
  "queue_ok e ver nsf ts w \<longleftrightarrow> (\<forall>t \<in> set ts. task_ready e ver nsf t w)
     \<and> distinct (queue_keys ts) \<and> (\<forall>k. flying e w k \<noteq> None \<longrightarrow> k \<in> set (queue_keys ts))"

text \<open>A sound node: stores and queue.\<close>

definition node_ok :: "env \<Rightarrow> versions \<Rightarrow> namespaces \<Rightarrow> world \<Rightarrow> bool" where
  "node_ok e ver nsf w \<longleftrightarrow> world_ok e ver nsf w \<and> queue_ok e ver nsf (w_tasks w) w"

text \<open>The guarantee of an operation that may queue tasks.\<close>

definition advances :: "env \<Rightarrow> versions \<Rightarrow> namespaces \<Rightarrow> world \<Rightarrow> world \<Rightarrow> bool" where
  "advances e ver nsf w w' \<longleftrightarrow> node_ok e ver nsf w'
     \<and> (\<forall>h k. serves e ver nsf w h k \<longrightarrow> serves e ver nsf w' h k)
     \<and> now w \<le> now w' \<and> w_hedges w' = w_hedges w \<and> w_by_name w' = w_by_name w
     \<and> w_states w' = w_states w \<and> w_closed w' = w_closed w"

lemma advances_refl: "node_ok e ver nsf w \<Longrightarrow> advances e ver nsf w w"
  by (simp add: advances_def)

lemma advances_trans: "advances e ver nsf a b \<Longrightarrow> advances e ver nsf b c \<Longrightarrow> advances e ver nsf a c"
  by (simp add: advances_def)

lemma advances_node_ok: "advances e ver nsf w w' \<Longrightarrow> node_ok e ver nsf w'"
  by (simp add: advances_def)

lemma advances_serves: "advances e ver nsf w w' \<Longrightarrow> serves e ver nsf w h k \<Longrightarrow> serves e ver nsf w' h k"
  by (simp add: advances_def)

lemma tasks_frame [simp]:
  "serves e ver nsf (w\<lparr>w_tasks := ts\<rparr>) = serves e ver nsf w"
  "world_ok e ver nsf (w\<lparr>w_tasks := ts\<rparr>) = world_ok e ver nsf w"
  by (simp_all add: serves_def world_ok_def fun_eq_iff)

text \<open>A queued task stays ready while other keys are settled.\<close>

lemma task_ready_frame:
  assumes "task_ready e ver nsf t w" and "\<forall>k \<in> set (task_keys t). flying e w' k = flying e w k"
  shows "task_ready e ver nsf t w'"
proof (cases t)
  case (FetchGroup ctx slots pri initial)
  then show ?thesis using assms by (auto simp: fetch_ready_def group_ready_def owned_def)
qed (use assms in simp)

lemma queue_ok_frame:
  assumes "queue_ok e ver nsf ts w" and "flying e w' = flying e w"
  shows "queue_ok e ver nsf ts w'"
  using assms task_ready_frame by (fastforce simp: queue_ok_def)

lemma settles_none_advances:
  assumes "node_ok e ver nsf w" and "settles e ver nsf {} w w'"
  shows "advances e ver nsf w w'"
proof -
  have "flying e w' = flying e w" using assms(2) by (simp add: settles_def)
  then have "queue_ok e ver nsf (w_tasks w') w'"
    using assms queue_ok_frame [of e ver nsf "w_tasks w" w w'] by (simp add: settles_def guarantees_def node_ok_def)
  then show ?thesis using assms by (simp add: advances_def settles_def guarantees_def node_ok_def)
qed

lemma quiet_advances: "node_ok e ver nsf w \<Longrightarrow> quiet w w' \<Longrightarrow> advances e ver nsf w w'"
  by (intro settles_none_advances quiet_settles) (simp_all add: node_ok_def)

section \<open>Handles that are settled at birth\<close>

lemma handle_resolved_settles:
  assumes "world_ok e ver nsf w" and "handle_resolved (Inr b) (w_flight w) = (h, f)" and "block_ok nsf ver k b"
  shows "settles e ver nsf {} w (w\<lparr>w_flight := f\<rparr>)" and "serves e ver nsf (w\<lparr>w_flight := f\<rparr>) h k"
proof -
  have h: "h = length (channels (w_flight w))"
    and f: "f = (w_flight w)\<lparr>channels := channels (w_flight w) @ [\<lparr>chan_value = Some (Inr b), chan_open = False\<rparr>]\<rparr>"
    using assms(2) by (auto simp: handle_resolved_def channel_new_def)
  have keep: "c < length (channels (w_flight w)) \<Longrightarrow> wait_slot c f = wait_slot c (w_flight w)" for c
    by (simp add: f wait_slot_def nth_append)
  have "flight_inv (e_hash e) f" using assms(1) unfolding world_ok_def flight_inv_def f
    by (auto simp: nth_append intro: less_SucI)
  then show "settles e ver nsf {} w (w\<lparr>w_flight := f\<rparr>)"
    using assms(1) keep by (auto simp: settles_def guarantees_def world_ok_def serves_def f)
  show "serves e ver nsf (w\<lparr>w_flight := f\<rparr>) h k"
    using assms(3) by (simp add: serves_def h f wait_slot_def)
qed

section \<open>Lookups and registrations\<close>

fun found_ok :: "namespaces \<Rightarrow> versions \<Rightarrow> block_key \<times> block option \<Rightarrow> bool" where
  "found_ok nsf ver (k, Some b) = block_ok nsf ver k b"
| "found_ok nsf ver (k, None) = True"

lemma lookup_all_settles:
  assumes "env_ok e ver nsf" and "world_ok e ver nsf w" and "lookup_all e ks w = (rs, w')"
  shows "settles e ver nsf {} w w' \<and> map fst rs = ks
    \<and> list_all (found_ok nsf ver) rs"
  using assms(2,3)
proof (induction ks arbitrary: w rs w')
  case Nil
  then show ?case by (simp add: settles_refl)
next
  case (Cons k ks)
  obtain r w1 where g: "cache_get e k w = (r, w1)" by fastforce
  obtain rs1 w2 where l: "lookup_all e ks w1 = (rs1, w2)" by fastforce
  note s = cache_get_settles [OF assms(1) Cons.prems(1) g]
  show ?case using Cons.IH [OF settles_world_ok [OF s(1)] l] s(2) settles_none' [OF s(1)] Cons.prems(2)
    by (cases r) (auto simp: g l)
qed

text \<open>A registration with its handle.\<close>

lemma serves_opens_all: "opens_all e ver nsf sls w w' \<Longrightarrow> serves e ver nsf w h k \<Longrightarrow> serves e ver nsf w' h k"
  by (simp add: opens_all_def guarantees_def)

lemma register_all_opens:
  assumes "world_ok e ver nsf w" and "list_all (found_ok nsf ver) rs"
    and "register_all e ns rs w = (hs, owners, w')"
  shows "opens_all e ver nsf owners w w' \<and> list_all2 (serves e ver nsf w') hs (map fst rs)
    \<and> subseq (map slot_key owners) (map fst rs)"
  using assms
proof (induction e ns rs w arbitrary: hs owners w' rule: register_all.induct)
  case (1 e ns w)
  then show ?case by (simp add: opens_all_none settles_refl)
next
  case (2 e ns k b rest w)
  obtain h f where hr: "handle_resolved (Inr b) (w_flight w) = (h, f)" by fastforce
  let ?w1 = "w\<lparr>w_flight := f\<rparr>"
  let ?w2 = "count ns Hits 1 ?w1"
  have "block_ok nsf ver k b" using "2.prems"(2) by simp
  note s1 = handle_resolved_settles [OF "2.prems"(1) hr this]
  note s2 = settles_none [OF s1(1) count_settles [OF settles_world_ok [OF s1(1)], of ns Hits 1]]
  have "serves e ver nsf ?w2 h k"
    using s1(2) count_settles [OF settles_world_ok [OF s1(1)], of ns Hits 1] by (simp add: settles_def guarantees_def)
  moreover obtain hs1 o1 w3 where r: "register_all e ns rest ?w2 = (hs1, o1, w3)" by (metis surj_pair)
  ultimately show ?case
    using "2.IH" [OF hr [symmetric] settles_world_ok [OF s2] _ r] "2.prems"(2,3) settles_opens_all [OF s2]
      serves_opens_all [of e ver nsf o1 ?w2 w3]
    by (auto simp: hr r simp del: One_nat_def)
next
  case (3 e ns k rest w)
  obtain rg w1 where rg: "register_slot e k w = (rg, w1)" by fastforce
  show ?case
  proof (cases rg)
    case (Owner sl h)
    note o = register_slot_owner [OF "3.prems"(1) rg [unfolded Owner]]
    obtain hs1 o1 w3 where r: "register_all e ns rest w1 = (hs1, o1, w3)" by (metis surj_pair)
    note ih = "3.IH"(1) [OF rg [symmetric] Owner opens_world_ok [OF o(1)] _ r]
    have "serves e ver nsf w1 h k" using o by (auto simp: opens_def)
    then show ?thesis using ih "3.prems"(2,3) opens_all_Cons [OF o(1)] o(2) serves_opens_all [of e ver nsf o1 w1 w3]
      by (auto simp: rg Owner r simp del: One_nat_def)
  next
    case (Waiter h)
    note wt = register_slot_waiter [OF "3.prems"(1) rg [unfolded Waiter]]
    let ?w2 = "count ns Joined 1 w1"
    have s2: "settles e ver nsf {} w ?w2" using count_settles [OF "3.prems"(1)] wt(1) by simp
    obtain hs1 o1 w3 where r: "register_all e ns rest ?w2 = (hs1, o1, w3)" by (metis surj_pair)
    note ih = "3.IH"(2) [OF rg [symmetric] Waiter settles_world_ok [OF s2] _ r]
    have "serves e ver nsf ?w2 h k" using wt(3) s2 by (simp add: settles_def guarantees_def)
    then show ?thesis using ih "3.prems"(2,3) settles_opens_all [OF s2] serves_opens_all [of e ver nsf o1 ?w2 w3]
      by (auto simp: rg Waiter r simp del: One_nat_def)
  qed
qed

lemma owned_settles_all:
  assumes "settles e ver nsf K w w'" and "\<forall>sl \<in> S. owned e w sl" and "K \<inter> slot_key ` S = {}"
  shows "\<forall>sl \<in> S. owned e w' sl"
  using assms by (auto intro!: owned_settles [OF assms(1)])

lemma resolve_landed_settles:
  assumes "world_ok e ver nsf w" and "\<forall>sl \<in> set (map fst ls). owned e w sl" and "distinct (map (slot_key \<circ> fst) ls)"
    and "list_all (\<lambda>(sl, r). found_ok nsf ver (slot_key sl, r)) ls"
    and "resolve_landed e ns ls w = (left, w')"
  shows "\<exists>K. settles e ver nsf K w w' \<and> K \<subseteq> keys_of (map fst ls)
    \<and> left = filter (\<lambda>sl. slot_key sl \<notin> K) (map fst ls)"
  using assms
proof (induction e ns ls w arbitrary: left w' rule: resolve_landed.induct)
  case (1 e ns w)
  then show ?case by (auto intro!: exI [of _ "{}"] settles_refl)
next
  case (2 e ns sl b rest w)
  let ?w1 = "count ns Hits 1 w"
  have s1: "settles e ver nsf {} w ?w1" by (rule count_settles [OF "2.prems"(1)])
  have o1: "owned e ?w1 sl" using "2.prems"(2) by (intro owned_settles [OF s1]) auto
  have s2: "settles e ver nsf {slot_key sl} w (resolve_slot e (Inr b) sl ?w1)"
    using "2.prems"(4) by (intro settles_none' [OF s1] resolve_slot_settles [OF settles_world_ok [OF s1] o1]) simp
  have d: "slot_key sl \<notin> keys_of (map fst rest)" using "2.prems"(3) by (auto simp: image_image)
  then have o2: "\<forall>sl' \<in> set (map fst rest). owned e (resolve_slot e (Inr b) sl ?w1) sl'"
    using "2.prems"(2) by (intro owned_settles_all [OF s2]) (simp_all only: set_map list.set, auto)
  obtain K where K: "settles e ver nsf K (resolve_slot e (Inr b) sl ?w1) w'" "K \<subseteq> keys_of (map fst rest)"
      "left = filter (\<lambda>sl. slot_key sl \<notin> K) (map fst rest)"
    using "2.IH" [OF settles_world_ok [OF s2] o2, of left w'] "2.prems"(3-5) by (auto simp del: One_nat_def)
  have "left = filter (\<lambda>sl'. slot_key sl' \<notin> {slot_key sl} \<union> K) (map fst ((sl, Some b) # rest))"
    unfolding K(3) using d by (auto intro!: filter_cong) (metis fst_conv image_eqI)
  then show ?case using settles_trans [OF s2 K(1)] K(2) by (intro exI [of _ "{slot_key sl} \<union> K"]) auto
next
  case (3 e ns sl rest w)
  let ?w1 = "count ns Misses 1 w"
  have s1: "settles e ver nsf {} w ?w1" by (rule count_settles [OF "3.prems"(1)])
  obtain left1 w2 where r: "resolve_landed e ns rest ?w1 = (left1, w2)" by fastforce
  have "\<forall>sl' \<in> set (map fst rest). owned e ?w1 sl'" using "3.prems"(2)
    by (intro owned_settles_all [OF s1]) simp_all
  then obtain K where K: "settles e ver nsf K ?w1 w2" "K \<subseteq> keys_of (map fst rest)"
      "left1 = filter (\<lambda>sl. slot_key sl \<notin> K) (map fst rest)"
    using "3.IH" [OF settles_world_ok [OF s1] _ _ _ r] "3.prems"(3,4) by auto
  have "slot_key sl \<notin> K" using K(2) "3.prems"(3) by (auto simp: image_image)
  then show ?case using settles_none' [OF s1 K(1)] K "3.prems"(5) by (intro exI [of _ K]) (auto simp: r simp del: One_nat_def)
qed

section \<open>Groups\<close>

lemma consecutive_steps:
  "\<forall>k < n. unat (i + of_nat k :: u32) < 2 ^ 32 - 1 \<Longrightarrow> consecutive i (map (\<lambda>k. i + of_nat k) [0..<n])"
proof (induction n arbitrary: i)
  case (Suc n)
  have "\<forall>k < n. unat (i + 1 + of_nat k :: u32) < 2 ^ 32 - 1"
  proof (intro allI impI)
    fix k assume "k < n"
    then show "unat (i + 1 + of_nat k :: u32) < 2 ^ 32 - 1"
      using Suc.prems [rule_format, of "Suc k"] by (simp add: add.assoc)
  qed
  from Suc.IH [OF this] show ?case
    using Suc.prems [rule_format, of 0]
    by (simp add: upt_conv_Cons map_Suc_upt [symmetric] comp_def add.assoc del: upt_Suc)
qed simp

lemma consecutive_group:
  "\<forall>i \<in> set (group_indexes g). unat i < 2 ^ 32 - 1 \<Longrightarrow> consecutive (group_first g) (group_indexes g)"
  unfolding group_indexes_def by (rule consecutive_steps) simp

text \<open>Fetches queued: the world is the same but for the tasks, which hold the slots in order.\<close>

lemma spawn_groups_eq:
  assumes "concat (map group_indexes gs) = map slot_index owners"
  shows "\<exists>sss. spawn_groups e ctx pri gs owners w =
      w\<lparr>w_tasks := w_tasks w @ map (\<lambda>ss. FetchGroup ctx ss pri None) sss\<rparr>
    \<and> concat sss = owners \<and> list_all2 (\<lambda>ss g. map slot_index ss = group_indexes g) sss gs"
  using assms
proof (induction gs arbitrary: owners w)
  case Nil
  then show ?case by (auto simp: drop_all_def)
next
  case (Cons g gs)
  let ?n = "unat (group_count g)"
  let ?w1 = "spawn (FetchGroup ctx (take ?n owners) pri None) w"
  have n: "length (group_indexes g) = ?n" by (simp add: group_indexes_def)
  have first: "map slot_index (take ?n owners) = group_indexes g"
    using arg_cong [OF Cons.prems, of "take ?n"] n by (simp add: take_map)
  have "concat (map group_indexes gs) = map slot_index (drop ?n owners)"
    using arg_cong [OF Cons.prems, of "drop ?n"] n by (simp add: drop_map)
  from Cons.IH [OF this, of ?w1] obtain sss where
    sss: "spawn_groups e ctx pri gs (drop ?n owners) ?w1 =
        ?w1\<lparr>w_tasks := w_tasks ?w1 @ map (\<lambda>ss. FetchGroup ctx ss pri None) sss\<rparr>"
      "concat sss = drop ?n owners" "list_all2 (\<lambda>ss g. map slot_index ss = group_indexes g) sss gs"
    by blast
  then show ?case using first by (intro exI [of _ "take ?n owners # sss"]) (simp add: spawn_def)
qed

lemma queue_keys_groups: "queue_keys (map (\<lambda>ss. FetchGroup ctx ss pri init) sss) = map slot_key (concat sss)"
  by (induction sss) simp_all

text \<open>Slots opened for a context, cut into consecutive groups and queued.\<close>

lemma queue_groups_advances:
  assumes "node_ok e ver nsf w" and "opens_all e ver nsf (concat sss) w w1" and "ctx_sound e ver nsf ctx"
    and "of_ctx ctx (concat sss)" and "\<forall>ss \<in> set sss. \<exists>n. consecutive n (map slot_index ss)"
    and "\<forall>resp. init = Some resp \<longrightarrow> response_of_version (e_tag e) ver (ctx_namespace ctx) (ctx_name ctx) resp"
  shows "advances e ver nsf w (w1\<lparr>w_tasks := w_tasks w1 @ map (\<lambda>ss. FetchGroup ctx ss pri init) sss\<rparr>)"
proof -
  let ?ts = "map (\<lambda>ss. FetchGroup ctx ss pri init) sss"
  let ?w2 = "w1\<lparr>w_tasks := w_tasks w1 @ ?ts\<rparr>"
  have g: "guarantees e ver nsf w w1" using assms(2) by (simp add: opens_all_def)
  have tk: "w_tasks w1 = w_tasks w" using g by (simp add: guarantees_def)
  have q: "queue_ok e ver nsf (w_tasks w) w" using assms(1) by (simp add: node_ok_def)
  have fresh: "flying e w k = None" if "k \<in> keys_of (concat sss)" for k
    using assms(2) that by (auto simp: opens_all_def)
  have old: "flying e w k \<noteq> None" if "t \<in> set (w_tasks w)" "k \<in> set (task_keys t)" for t k
    using q that by (cases t) (auto simp: queue_ok_def fetch_ready_def group_ready_def owned_def)
  have "task_ready e ver nsf t ?w2" if t: "t \<in> set (w_tasks w)" for t
  proof (rule task_ready_frame [of _ _ _ _ w])
    show "task_ready e ver nsf t w" using q t by (simp add: queue_ok_def)
    have "k \<notin> keys_of (concat sss)" if "k \<in> set (task_keys t)" for k using old [OF t that] fresh [of k] by metis
    then show "\<forall>k \<in> set (task_keys t). flying e ?w2 k = flying e w k" using assms(2) by (simp add: opens_all_def)
  qed
  moreover have "task_ready e ver nsf t ?w2" if t: "t \<in> set ?ts" for t
    using t assms(2-6) by (auto simp: fetch_ready_def group_ready_def of_ctx_def opens_all_def owned_def)
  moreover have "distinct (queue_keys (w_tasks w @ ?ts))"
  proof -
    have "k \<notin> keys_of (concat sss)" if k: "k \<in> set (queue_keys (w_tasks w))" for k
    proof -
      obtain t where "t \<in> set (w_tasks w)" "k \<in> set (task_keys t)" using k by auto
      from old [OF this] show ?thesis using fresh [of k] by metis
    qed
    then have "set (queue_keys (w_tasks w)) \<inter> set (map slot_key (concat sss)) = {}" by (simp only: set_map) blast
    then show ?thesis using q assms(2)
      by (simp only: queue_ok_def opens_all_def map_append concat_append queue_keys_groups distinct_append)
  qed
  moreover have "k \<in> set (queue_keys (w_tasks w @ ?ts))" if "flying e w1 k \<noteq> None" for k
  proof (cases "k \<in> keys_of (concat sss)")
    case True
    then show ?thesis by auto
  next
    case False
    then have "flying e w k \<noteq> None" using that assms(2) by (simp add: opens_all_def)
    then show ?thesis using q by (auto simp: queue_ok_def)
  qed
  ultimately have "queue_ok e ver nsf (w_tasks ?w2) ?w2" by (auto simp: queue_ok_def tk)
  then show ?thesis using g by (simp add: advances_def node_ok_def guarantees_def)
qed

section \<open>Scheduling\<close>

lemma subseq_filter_keys: "subseq (map f (filter P xs)) (map f xs)"
  by (simp add: subseq_map)

lemma range_list_bound: "i \<in> set (range_list (Range a b)) \<Longrightarrow> unat (i :: u32) < 2 ^ 32 - 1"
  using u32_bound [of b] by (auto simp: set_range_list word_less_nat_alt)

lemma subseq_set: "subseq xs ys \<Longrightarrow> set xs \<subseteq> set ys"
  by (metis notin_set_nthsI subseq_conv_nths subsetI)

lemma keys_of_ctx:
  assumes "set (map slot_key sls) \<subseteq> set (map (ctx_block ctx) is)"
  shows "of_ctx ctx sls" and "sl \<in> set sls \<Longrightarrow> slot_index sl \<in> set is"
  using assms by (fastforce simp: of_ctx_def)+

lemma zip_found:
  assumes "map fst rs = map slot_key owners" and "list_all (found_ok nsf ver) rs"
  shows "map fst (zip owners (map snd rs)) = owners"
    and "list_all (\<lambda>(sl, r). found_ok nsf ver (slot_key sl, r)) (zip owners (map snd rs))"
proof -
  show "map fst (zip owners (map snd rs)) = owners" using assms(1) by (metis length_map map_fst_zip)
  show "list_all (\<lambda>(sl, r). found_ok nsf ver (slot_key sl, r)) (zip owners (map snd rs))"
    using assms
  proof (induction rs arbitrary: owners)
    case (Cons r rs)
    then show ?case by (cases owners; cases r) auto
  qed simp
qed

lemma schedule_advances:
  assumes env: "env_ok e ver nsf" and node: "node_ok e ver nsf w" and ctx: "ctx_sound e ver nsf ctx"
    and sch: "schedule e ctx (Range a b) pri w = (hs, w')"
  shows "advances e ver nsf w w'"
    and "list_all2 (serves e ver nsf w') hs (map (ctx_block ctx) (range_list (Range a b)))"
    and "\<exists>sss. w_tasks w' = w_tasks w @ map (\<lambda>ss. FetchGroup ctx ss pri None) sss"
proof -
  let ?is = "range_list (Range a b)" and ?ns = "ctx_ns ctx"
  let ?ks = "map (ctx_block ctx) ?is"
  have w: "world_ok e ver nsf w" using node by (simp add: node_ok_def)
  obtain rs w1 where l1: "lookup_all e ?ks w = (rs, w1)" by fastforce
  note la = lookup_all_settles [OF env w l1]
  then have s1: "settles e ver nsf {} w w1" by simp
  obtain handles owners w2 where r: "register_all e ?ns rs w1 = (handles, owners, w2)" by (metis surj_pair)
  have ra: "opens_all e ver nsf owners w1 w2" "list_all2 (serves e ver nsf w2) handles ?ks"
      "subseq (map slot_key owners) ?ks"
    using register_all_opens [OF settles_world_ok [OF s1] _ r] la by auto
  have o2: "opens_all e ver nsf owners w w2" by (rule settles_opens_all [OF s1 ra(1)])
  note w2 = opens_all_world_ok [OF o2]
  obtain landed w3 where l3: "lookup_all e (map slot_key owners) w2 = (landed, w3)" by fastforce
  note lb = lookup_all_settles [OF env w2 l3]
  then have s3: "settles e ver nsf {} w2 w3" by simp
  note zf = zip_found [OF lb [THEN conjunct2, THEN conjunct1] lb [THEN conjunct2, THEN conjunct2]]
  let ?ls = "zip owners (map snd landed)"
  have o3: "\<forall>sl \<in> set (map fst ?ls). owned e w3 sl"
    unfolding zf(1) using o2 by (intro owned_settles_all [OF s3]) (auto simp: opens_all_def)
  have d: "distinct (map (slot_key \<circ> fst) ?ls)" using o2 zf(1) by (simp add: opens_all_def flip: map_map)
  obtain left w4 where rl: "resolve_landed e ?ns ?ls w3 = (left, w4)" by fastforce
  from resolve_landed_settles [OF settles_world_ok [OF s3] o3 d zf(2) rl]
  obtain K where K: "settles e ver nsf K w3 w4" "K \<subseteq> keys_of owners" "left = filter (\<lambda>sl. slot_key sl \<notin> K) owners"
    unfolding zf(1) by blast
  note s4 = settles_none' [OF s3 K(1)]
  have o4: "opens_all e ver nsf left w w4" unfolding K(3) by (rule opens_all_settles [OF o2 s4 K(2)])
  have serve4: "list_all2 (serves e ver nsf w4) handles ?ks"
    using ra(2) s4 by (elim list_all2_mono) (simp add: settles_def guarantees_def)
  have "set (map slot_key left) \<subseteq> set ?ks" using subseq_set [OF ra(3)] unfolding K(3) by auto
  note ko = keys_of_ctx [OF this]
  let ?gs = "group_misses (map slot_index left) (fetch_window (ns_config (ctx_namespace ctx)))"
  have part: "concat (map group_indexes ?gs) = map slot_index left"
    using group_misses_loop_correct [of "max (fetch_window (ns_config (ctx_namespace ctx))) 1" "[]" "map slot_index left"]
    by (simp add: group_misses_def unat_max)
  obtain sss where sp: "spawn_groups e ctx pri ?gs left w4 = w4\<lparr>w_tasks := w_tasks w4 @ map (\<lambda>ss. FetchGroup ctx ss pri None) sss\<rparr>"
      "concat sss = left" "list_all2 (\<lambda>ss g. map slot_index ss = group_indexes g) sss ?gs"
    using spawn_groups_eq [OF part, of e ctx pri w4] by auto
  have "\<exists>n. consecutive n (map slot_index ss)" if "ss \<in> set sss" for ss
  proof -
    obtain g where g: "map slot_index ss = group_indexes g" using sp(3) \<open>ss \<in> set sss\<close> by (auto simp: list_all2_conv_all_nth in_set_conv_nth)
    have "set ss \<subseteq> set left" using that sp(2) by auto
    then have "\<forall>i \<in> set (group_indexes g). unat i < 2 ^ 32 - 1"
      unfolding g [symmetric] using ko(2) range_list_bound by fastforce
    then show ?thesis unfolding g using consecutive_group by blast
  qed
  then have adv: "advances e ver nsf w (spawn_groups e ctx pri ?gs left w4)"
    unfolding sp(1) using o4 ko(1) ctx by (intro queue_groups_advances [OF node]) (simp_all add: sp(2))
  have tk4: "w_tasks w4 = w_tasks w" using o4 by (simp add: opens_all_def guarantees_def)
  have serve5: "list_all2 (serves e ver nsf (spawn_groups e ctx pri ?gs left w4)) handles ?ks"
    using serve4 unfolding sp(1) by (elim list_all2_mono) (simp add: serves_def)
  consider (hits) "owners = []" "w' = w2" | (landed) "owners \<noteq> []" "left = []" "w' = w4"
    | (fetch) "left \<noteq> []" "w' = spawn_groups e ctx pri ?gs left w4"
    using sch by (auto simp: schedule_def l1 r l3 rl split: if_splits)
  then have "advances e ver nsf w w' \<and> list_all2 (serves e ver nsf w') handles ?ks
      \<and> (\<exists>sss. w_tasks w' = w_tasks w @ map (\<lambda>ss. FetchGroup ctx ss pri None) sss)"
  proof cases
    case hits
    then show ?thesis using o2 ra(2) settles_none_advances [OF node, of w2]
      by (auto simp: opens_all_none settles_def guarantees_def intro: exI [of _ "[]"])
  next
    case landed
    then show ?thesis using o4 serve4 settles_none_advances [OF node, of w4] tk4
      by (auto simp: opens_all_none intro: exI [of _ "[]"])
  next
    case fetch
    then show ?thesis using adv serve5 sp(1) tk4 by auto
  qed
  moreover have "hs = handles" using sch by (auto simp: schedule_def l1 r l3 rl split: if_splits)
  ultimately show "advances e ver nsf w w'"
    and "list_all2 (serves e ver nsf w') hs (map (ctx_block ctx) (range_list (Range a b)))"
    and "\<exists>sss. w_tasks w' = w_tasks w @ map (\<lambda>ss. FetchGroup ctx ss pri None) sss" by simp_all
qed

section \<open>Adoption and probing\<close>

lemma adopt_slots_opens:
  assumes "world_ok e ver nsf w" and "adopt_slots e ks w = (sls, hs, w')"
  shows "opens_all e ver nsf sls w w' \<and> prefix (map slot_key sls) ks
    \<and> list_all2 (serves e ver nsf w') hs (map slot_key sls)"
  using assms
proof (induction e ks w arbitrary: sls hs w' rule: adopt_slots.induct)
  case (1 e w)
  then show ?case by (simp add: opens_all_none settles_refl)
next
  case (2 e k ks w)
  obtain rg w1 where rg: "register_slot e k w = (rg, w1)" by fastforce
  show ?case
  proof (cases rg)
    case (Owner sl h)
    note o = register_slot_owner [OF "2.prems"(1) rg [unfolded Owner]]
    obtain sls1 hs1 w2 where a: "adopt_slots e ks w1 = (sls1, hs1, w2)" by (metis surj_pair)
    note ih = "2.IH" [OF rg [symmetric] Owner opens_world_ok [OF o(1)] a]
    have "serves e ver nsf w1 h k" using o by (auto simp: opens_def)
    then show ?thesis
      using ih "2.prems"(2) opens_all_Cons [OF o(1)] o(2) serves_opens_all [of e ver nsf sls1 w1 w2]
      by (auto simp: rg Owner a)
  next
    case (Waiter h)
    then show ?thesis using "2.prems" register_slot_waiter(1) [OF "2.prems"(1) rg [unfolded Waiter]]
      by (auto simp: rg opens_all_none settles_refl)
  qed
qed

lemma consecutive_prefix: "consecutive n (xs @ ys) \<Longrightarrow> consecutive n xs"
  by (induction n xs rule: consecutive.induct) auto

lemma range_list_take:
  "n \<le> unat c - unat a \<Longrightarrow> c \<le> b \<Longrightarrow> take n (range_list (Range a c)) = take n (range_list (Range a b))"
  by (cases "n = 0") (simp_all add: range_list_def take_map take_upt word_le_nat_alt)

lemma adopt_advances:
  assumes node: "node_ok e ver nsf w" and ctx: "ctx_sound e ver nsf ctx"
    and resp: "response_of_version (e_tag e) ver (ctx_namespace ctx) (ctx_name ctx) resp"
    and ad: "adopt e ctx (Range a b) resp w = (hs, w')"
  shows "advances e ver nsf w w'"
    and "\<exists>n \<le> unat (min b (block_count (ctx_bs ctx) (meta_size (resp_meta resp)))) - unat a.
      list_all2 (serves e ver nsf w') hs (map (ctx_block ctx) (take n (range_list (Range a b))))"
proof -
  let ?stop = "min b (block_count (ctx_bs ctx) (meta_size (resp_meta resp)))"
  let ?is = "range_list (Range a ?stop)"
  have w: "world_ok e ver nsf w" using node by (simp add: node_ok_def)
  obtain sls hs1 w1 where as: "adopt_slots e (map (ctx_block ctx) ?is) w = (sls, hs1, w1)" by (metis surj_pair)
  have op: "opens_all e ver nsf sls w w1" "prefix (map slot_key sls) (map (ctx_block ctx) ?is)"
      "list_all2 (serves e ver nsf w1) hs1 (map slot_key sls)"
    using adopt_slots_opens [OF w as] by auto
  let ?w2 = "count (ctx_ns ctx) Misses (length sls) w1"
  have s2: "settles e ver nsf {} w1 ?w2" by (rule count_settles [OF opens_all_world_ok [OF op(1)]])
  have op2: "opens_all e ver nsf sls w ?w2" using opens_all_settles [OF op(1) s2] by simp
  have sv2: "list_all2 (serves e ver nsf ?w2) hs1 (map slot_key sls)"
    using op(3) s2 by (elim list_all2_mono) (simp add: settles_def guarantees_def)
  define n where "n = length sls"
  have keys: "map slot_key sls = map (ctx_block ctx) (take n ?is)"
    using op(2) unfolding n_def by (metis append_eq_conv_conj length_map prefixE take_map)
  have n: "n \<le> unat ?stop - unat a" using prefix_length_le [OF op(2)] by (simp add: n_def)
  have take: "take n ?is = take n (range_list (Range a b))"
    using n by (intro range_list_take) simp_all
  have idx: "map slot_index sls = take n ?is"
    using arg_cong [OF keys, of "map bk_index"] by (simp add: comp_def)
  have "of_ctx ctx sls" using keys by (intro keys_of_ctx(1) [of sls ctx "take n ?is"]) simp
  moreover have "consecutive a (take n ?is)"
    using consecutive_range [of a ?stop] consecutive_prefix [of a "take n ?is" "drop n ?is"] by simp
  ultimately have adv: "advances e ver nsf w (spawn (FetchGroup ctx sls Foreground (Some resp)) ?w2)"
    using queue_groups_advances [OF node, of "[sls]" ?w2 ctx "Some resp" Foreground] op2 ctx resp idx
    by (auto simp: spawn_def)
  have w': "w' = (if sls \<noteq> [] then spawn (FetchGroup ctx sls Foreground (Some resp)) ?w2 else ?w2)" and hs: "hs = hs1"
    using ad by (auto simp: adopt_def Let_def as)
  show "advances e ver nsf w w'"
    using adv w' op2 settles_none_advances [OF node] by (auto simp: opens_all_none)
  have "list_all2 (serves e ver nsf w') hs (map slot_key sls)"
    using sv2 unfolding hs w' by (elim list_all2_mono) (auto simp: serves_def spawn_def)
  then show "\<exists>n \<le> unat ?stop - unat a. list_all2 (serves e ver nsf w') hs (map (ctx_block ctx) (take n (range_list (Range a b))))"
    using n unfolding keys take by blast
qed

text \<open>A context built from metadata of a version is sound.\<close>

lemma read_ctx_new_sound:
  assumes "env_ok e ver nsf" and "ns = nsf (ns_id ns)" and "meta_of_version (e_tag e) ver ns name m"
  shows "ctx_sound e ver nsf (read_ctx_new (e_tag e) ns (object_key_new (ns_id ns) name) name (Some m) pol)"
  using assms
  by (simp add: ctx_sound_def ctx_ok_def ctx_named_def known_def carries_def read_ctx_new_def Let_def
      block_tag_immutable_iff)

lemma read_ctx_new_immutable_sound:
  assumes "ns = nsf (ns_id ns)" and "is_immutable (consistency_of ns)"
  shows "ctx_sound e ver nsf (read_ctx_new (e_tag e) ns (object_key_new (ns_id ns) name) name None pol)"
  using assms by (simp add: ctx_sound_def ctx_ok_def ctx_named_def known_def read_ctx_new_def Let_def)

lemma read_ctx_new_fields [simp]:
  "ctx_namespace (read_ctx_new h ns key name m pol) = ns" "ctx_name (read_ctx_new h ns key name m pol) = name"
  "ctx_key (read_ctx_new h ns key name m pol) = key" "ctx_meta (read_ctx_new h ns key name m pol) = m"
  "ctx_policy (read_ctx_new h ns key name m pol) = pol"
  by (simp_all add: read_ctx_new_def Let_def split: option.splits)

text \<open>
  What resolving a context leads to: a sound context of the object, and handles that serve its
  blocks from the first one on, no more than the object has.
\<close>

definition resolved ::
  "env \<Rightarrow> versions \<Rightarrow> namespaces \<Rightarrow> namespace_state \<Rightarrow> string \<Rightarrow> fetch_policy \<Rightarrow> u32 urange option
   \<Rightarrow> nestor_error + read_ctx \<times> slot_handle list \<Rightarrow> world \<Rightarrow> bool" where
  "resolved e ver nsf ns name pol indexes res w \<longleftrightarrow>
     (\<forall>ctx hs. res = Inr (ctx, hs) \<longrightarrow>
        ctx_sound e ver nsf ctx \<and> ctx_namespace ctx = ns \<and> ctx_name ctx = name \<and> ctx_policy ctx = pol
        \<and> (hs \<noteq> [] \<longrightarrow> (\<exists>a b m. indexes = Some (Range a b) \<and> ctx_meta ctx = Some m
              \<and> length hs \<le> unat (min b (block_count (bs_of ns) (meta_size m))) - unat a
              \<and> list_all2 (serves e ver nsf w) hs (map (ctx_block ctx) (take (length hs) (range_list (Range a b)))))))"

lemma resolved_error [simp]: "resolved e ver nsf ns name pol indexes (Inl err) w"
  by (simp add: resolved_def)

lemma build_ctx_resolved:
  assumes "env_ok e ver nsf" and "ns = nsf (ns_id ns)" and "meta_of_version (e_tag e) ver ns name m"
    and "world_ok e ver nsf w" and "build_ctx e ns (object_key_new (ns_id ns) name) name pol m w = (ctx, w')"
  shows "settles e ver nsf {} w w'" and "ctx_sound e ver nsf ctx" and "ctx_namespace ctx = ns"
    and "ctx_name ctx = name" and "ctx_policy ctx = pol" and "ctx_meta ctx = Some m"
    and "resolved e ver nsf ns name pol indexes (Inr (ctx, [])) w''"
proof -
  have "meta_ok e ver nsf (object_key_new (ns_id ns) name) m"
    using assms(2,3) by (simp add: meta_ok_def object_key_new_def)
  then show "settles e ver nsf {} w w'" using assms(5) put_meta_settles [OF assms(4)] by (auto simp: build_ctx_def)
  show sound: "ctx_sound e ver nsf ctx"
    using read_ctx_new_sound [OF assms(1-3)] assms(5) by (auto simp: build_ctx_def)
  show f: "ctx_namespace ctx = ns" "ctx_name ctx = name" "ctx_policy ctx = pol" "ctx_meta ctx = Some m"
    using assms(5) by (auto simp: build_ctx_def)
  show "resolved e ver nsf ns name pol indexes (Inr (ctx, [])) w''" using sound f by (simp add: resolved_def)
qed

lemma probe_loop_resolved:
  assumes "env_ok e ver nsf" and "ns = nsf (ns_id ns)" and "key = object_key_new (ns_id ns) name"
    and "\<And>m. stale = Some m \<Longrightarrow> meta_of_version (e_tag e) ver ns name m"
    and "node_ok e ver nsf w" and "probe_loop e ns key name (Range a b) stale pol r w = (res, w')"
  shows "advances e ver nsf w w' \<and> resolved e ver nsf ns name pol (Some (Range a b)) res w'"
  using assms
proof (induction e ns key name "Range a b" stale pol r w arbitrary: res w' rule: probe_loop.induct)
  case (1 e ns key name stale pol r w)
  note ns = "1.prems"(2) and key = "1.prems"(3)
  let ?bs = "bs_of ns" and ?ctx = "read_ctx_new (e_tag e) ns key name None pol"
  let ?opts = "\<lparr>opt_range = Some (span ?bs a (b - a) None), opt_if_match = None,
      opt_if_none_match = (case stale of None \<Rightarrow> None | Some m \<Rightarrow> meta_etag m)\<rparr>"
  obtain og w1 where og: "origin_get e ?ctx ?opts (attempt_deadline r (now w)) w = (og, w1)" by fastforce
  have w: "world_ok e ver nsf w" using "1.prems"(5) by (simp add: node_ok_def)
  note s1 = quiet_settles [OF w origin_get_quiet [OF og]]
  note a1 = settles_none_advances [OF "1.prems"(5) s1] and w1 = settles_world_ok [OF s1]
  have faith: "faithful e ver ns" using "1.prems"(1) ns unfolding env_ok_def by metis
  have build: "advances e ver nsf w w'' \<and> resolved e ver nsf ns name pol (Some (Range a b)) (Inr (ctx, [])) w''"
    if "build_ctx e ns key name pol m v = (ctx, w'')" "meta_of_version (e_tag e) ver ns name m"
      "settles e ver nsf {} w v" for m v ctx w''
  proof -
    note b = build_ctx_resolved [OF "1.prems"(1) ns that(2) settles_world_ok [OF that(3)] that(1) [unfolded key]]
    show ?thesis using settles_none_advances [OF "1.prems"(5) settles_none [OF that(3) b(1)]] b(7) by simp
  qed
  show ?case
  proof (cases og)
    case (Inr resp)
    have rv: "response_of_version (e_tag e) ver ns name resp"
      using origin_get_faithful [OF og [unfolded Inr]] faith by simp
    then have mv: "meta_of_version (e_tag e) ver ns name (resp_meta resp)" by (simp add: response_of_version_def)
    obtain ctx w2 where bc: "build_ctx e ns key name pol (resp_meta resp) w1 = (ctx, w2)" by fastforce
    note b = build_ctx_resolved [OF "1.prems"(1) ns mv w1 bc [unfolded key]]
    note a2 = settles_none_advances [OF "1.prems"(5) settles_none [OF s1 b(1)]]
    obtain hs w3 where ad: "adopt e ctx (Range a b) resp w2 = (hs, w3)" by fastforce
    note aa = adopt_advances [OF advances_node_ok [OF a2] b(2) _ ad]
    obtain n where n: "n \<le> unat (min b (block_count (ctx_bs ctx) (meta_size (resp_meta resp)))) - unat a"
        "list_all2 (serves e ver nsf w3) hs (map (ctx_block ctx) (take n (range_list (Range a b))))"
      using aa(2) b(3,4) rv by auto
    have "length hs = n" using n by (auto dest!: list_all2_lengthD simp: unat_min)
    then have "resolved e ver nsf ns name pol (Some (Range a b)) (Inr (ctx, hs)) w3"
      using n b(2-6) by (simp add: resolved_def)
    then show ?thesis using aa(1) b(3,4) rv advances_trans [OF a2] "1.prems"(6) og Inr
      by (simp add: probe_loop.simps [of e] Let_def bc ad)
  next
    case (Inl err)
    let ?w2 = "count (ns_id ns) OriginErrors 1 w1"
    note s2 = settles_none [OF s1 count_settles [OF w1, of "ns_id ns" OriginErrors 1]]
    obtain pe w3 where pe: "past_end e ns key name (block_offset ?bs a) ?w2 = (pe, w3)" by fastforce
    note po = past_end_ok [OF "1.prems"(1) ns key settles_world_ok [OF s2] pe]
    note s3 = settles_none [OF s2 po(1)]
    obtain f r' t where f: "failed r err (now w3) = (f, r', t)" by (metis surj_pair)
    let ?w4 = "count (ns_id ns) OriginRetries 1 (until t w3)"
    have s4: "settles e ver nsf {} w ?w4"
      by (rule settles_none [OF s3 quiet_settles [OF settles_world_ok [OF s3]]]) (simp add: quiet_count)
    note a4 = settles_none_advances [OF "1.prems"(5) s4]
    note step = probe_loop.simps [of e ns key name "Range a b" stale pol r w]
    consider (nm) "err = NotModified" | (nf) "err = NotFound" | (past) m where "err \<noteq> NotModified" "err \<noteq> NotFound" "pe = Some m"
      | (fail) err' where "err \<noteq> NotModified" "err \<noteq> NotFound" "pe = None" "f = Inl err'"
      | (again) u where "err \<noteq> NotModified" "err \<noteq> NotFound" "pe = None" "f = Inr u"
      by (cases pe; cases f) auto
    then show ?thesis
    proof cases
      case nm
      then show ?thesis
      proof (cases stale)
        case None
        then show ?thesis using "1.prems"(6) [unfolded step] og Inl nm a1 by (auto simp: Let_def simp del: One_nat_def)
      next
        case (Some m)
        obtain ctx w'' where "build_ctx e ns key name pol m w1 = (ctx, w'')" by fastforce
        with build [OF this "1.prems"(4) [OF Some] s1] show ?thesis
          using "1.prems"(6) [unfolded step] og Inl nm Some by (auto simp: Let_def simp del: One_nat_def)
      qed
    next
      case nf
      then show ?thesis
        using "1.prems"(6) [unfolded step] og Inl settles_none_advances [OF "1.prems"(5) settles_none [OF s1 remove_meta_settles [OF w1, of key]]]
        by (auto simp: Let_def simp del: One_nat_def)
    next
      case (past m)
      obtain ctx w'' where bc: "build_ctx e ns key name pol m w3 = (ctx, w'')" by fastforce
      with build [OF this _ s3] po(2) [OF past(3)] show ?thesis
        using "1.prems"(6) [unfolded step] og Inl past pe by (auto simp: Let_def simp del: One_nat_def)
    next
      case (fail err')
      then show ?thesis using "1.prems"(6) [unfolded step] og Inl pe f settles_none_advances [OF "1.prems"(5) s3]
        by (auto simp: Let_def simp del: One_nat_def)
    next
      case (again u)
      have "probe_loop e ns key name (Range a b) stale pol r' ?w4 = (res, w')"
        using "1.prems"(6) [unfolded step] og Inl pe f again by (simp add: Let_def del: One_nat_def)
      moreover have "probe_loop e ns key name (Range a b) stale pol r' ?w4 = (res, w') \<Longrightarrow>
          advances e ver nsf ?w4 w' \<and> resolved e ver nsf ns name pol (Some (Range a b)) res w'"
        using "1.hyps" og Inl pe f again "1.prems"(1-4) advances_node_ok [OF a4] by simp
      ultimately show ?thesis using advances_trans [OF a4] by blast
    qed
  qed
qed

end
