(* ===== verification/Engine.thy ===== *)
theory Engine
  imports Fetch
begin

text \<open>
  The engine, \<^verbatim>\<open>nestor/src/nestor.rs\<close>: the registry of namespaces, the resolution of a read to a
  context, head, insert, invalidate and close, the snapshot of a node, and the builder. The caches
  and the fetcher are components of the state \<^typ>\<open>world\<close>.
\<close>

section \<open>Waiting\<close>

text \<open>
  \<^verbatim>\<open>SlotHandle::wait\<close> on the state: while the slot is not settled, the next queued task runs.
  \<^const>\<open>None\<close> means that the wait never ends.
\<close>

partial_function (option) await_slot :: "env \<Rightarrow> slot_handle \<Rightarrow> world \<Rightarrow> (block_result \<times> world) option" where
  "await_slot e h w =
     (case wait_slot h (w_flight w) of
        Some r \<Rightarrow> Some (r, w)
      | None \<Rightarrow>
          (case w_tasks w of
             [] \<Rightarrow> None
           | t # ts \<Rightarrow> await_slot e h (run_task e t (w\<lparr>w_tasks := ts\<rparr>))))"

section \<open>Metadata and namespaces\<close>

definition lookup_meta :: "env \<Rightarrow> object_key \<Rightarrow> nanos option \<Rightarrow> world \<Rightarrow> lookup_result \<times> world" where
  "lookup_meta e k ttl w =
     (case meta_lookup (e_meta e) (now w) (w_meta w) k ttl of (r, c) \<Rightarrow> (r, w\<lparr>w_meta := c\<rparr>))"

definition get_meta :: "env \<Rightarrow> object_key \<Rightarrow> nanos option \<Rightarrow> world \<Rightarrow> object_meta option \<times> world" where
  "get_meta e k ttl w =
     (case meta_get (e_meta e) (now w) (w_meta w) k ttl of (r, c) \<Rightarrow> (r, w\<lparr>w_meta := c\<rparr>))"

definition any_meta :: "env \<Rightarrow> object_key \<Rightarrow> world \<Rightarrow> object_meta option \<times> world" where
  "any_meta e k w = (case meta_any (e_meta e) (w_meta w) k of (r, c) \<Rightarrow> (r, w\<lparr>w_meta := c\<rparr>))"

definition engine_namespace :: "world \<Rightarrow> u32 \<Rightarrow> nestor_error + namespace_state" where
  "engine_namespace w i =
     (if unat i < length (w_states w) then Inr (w_states w ! unat i) else Inl UnknownNamespace)"

text \<open>\<^verbatim>\<open>Nestor::state\<close>: no operation on a closed node, none on an unknown namespace.\<close>

definition engine_state :: "world \<Rightarrow> u32 \<Rightarrow> nestor_error + namespace_state" where
  "engine_state w i = (if w_closed w then Inl Closed else engine_namespace w i)"

definition cached_meta ::
  "env \<Rightarrow> namespace_state \<Rightarrow> object_key \<Rightarrow> read_range \<Rightarrow> world \<Rightarrow> object_meta option \<times> world" where
  "cached_meta e ns key request w =
     (let i = (case first_group (bs_of ns) request 1 of None \<Rightarrow> 0 | Some g \<Rightarrow> range_start g)
      in case cache_get e (block_key_new key IMMUTABLE_TAG i) w of
           (None, w) \<Rightarrow> (None, w)
         | (Some b, w) \<Rightarrow> (Some (block_meta b), put_meta key (block_meta b) w))"

text \<open>The part of \<^verbatim>\<open>resolve_ctx\<close> that asks the origin.\<close>

definition resolve_origin ::
  "env \<Rightarrow> namespace_state \<Rightarrow> string \<Rightarrow> read_range \<Rightarrow> object_meta option \<Rightarrow> fetch_policy \<Rightarrow> world
   \<Rightarrow> (nestor_error + read_ctx \<times> slot_handle list) \<times> world" where
  "resolve_origin e ns name request stale pol w =
     (let key = object_key_new (ns_id ns) name
      in case first_group (bs_of ns) request (fetch_window (ns_config ns)) of
           Some indexes \<Rightarrow> probe e ns name indexes stale pol w
         | None \<Rightarrow>
             (case fetch_head e ns key name w of
                (Inl err, w) \<Rightarrow> (Inl err, w)
              | (Inr m, w) \<Rightarrow> (Inr (read_ctx_new (e_tag e) ns key name (Some m) pol, []), w)))"

definition resolve_ctx ::
  "env \<Rightarrow> namespace_state \<Rightarrow> string \<Rightarrow> read_range \<Rightarrow> fetch_policy \<Rightarrow> world
   \<Rightarrow> (nestor_error + read_ctx \<times> slot_handle list) \<times> world" where
  "resolve_ctx e ns name request pol w =
     (let key = object_key_new (ns_id ns) name;
          built = (\<lambda>m. read_ctx_new (e_tag e) ns key name m pol);
          missed = (\<lambda>stale w.
            if is_immutable (consistency_of ns)
            then if \<not> needs_size request then (Inr (built None, []), w)
                 else (case cached_meta e ns key request w of
                         (Some m, w) \<Rightarrow> (Inr (built (Some m), []), w)
                       | (None, w) \<Rightarrow> resolve_origin e ns name request stale pol w)
            else resolve_origin e ns name request stale pol w)
      in case lookup_meta e key (ns_meta_ttl ns) w of
           (Fresh m, w) \<Rightarrow> (Inr (built (Some m), []), w)
         | (StaleMeta m, w) \<Rightarrow> missed (Some m) w
         | (Missing, w) \<Rightarrow> missed None w)"

section \<open>Operations of a node\<close>

text \<open>\<^verbatim>\<open>Nestor::register\<close>: the id of the namespace of that name, new when there is none.\<close>

definition node_register :: "namespace \<Rightarrow> world \<Rightarrow> u32 \<times> world" where
  "node_register n w =
     (case w_by_name w (namespace_name n) of
        Some i \<Rightarrow> (i, w)
      | None \<Rightarrow>
          let i = of_nat (length (w_states w))
          in (i, w\<lparr>w_blocks := blocks_track (ns_block_size (namespace_config n)) (w_blocks w),
                   w_by_name := (w_by_name w)(namespace_name n \<mapsto> i),
                   w_states := w_states w @ [namespace_state_new i n],
                   w_ttfb := (w_ttfb w)(i := latency_default (now w)),
                   w_block := (w_block w)(i := latency_default (now w))\<rparr>))"

definition node_namespace :: "world \<Rightarrow> string \<Rightarrow> u32 option" where
  "node_namespace w name = w_by_name w name"

definition node_head :: "env \<Rightarrow> u32 \<Rightarrow> string \<Rightarrow> world \<Rightarrow> (nestor_error + object_meta) \<times> world" where
  "node_head e i object w =
     (case engine_state w i of
        Inl err \<Rightarrow> (Inl err, w)
      | Inr ns \<Rightarrow>
          (case get_meta e (object_key_new i object) (ns_meta_ttl ns) w of
             (Some m, w) \<Rightarrow> (Inr m, w)
           | (None, w) \<Rightarrow> fetch_head e ns (object_key_new i object) object w))"

definition object_meta_new :: "u64 \<Rightarrow> bytes option \<Rightarrow> object_meta" where
  "object_meta_new sz etag = \<lparr>meta_size = sz, meta_etag = etag, meta_last_modified = None\<rparr>"

definition insert_block :: "object_key \<Rightarrow> u64 \<Rightarrow> block_size \<Rightarrow> object_meta \<Rightarrow> bytes \<Rightarrow> u32 \<Rightarrow> world \<Rightarrow> world" where
  "insert_block key tag bs m data i w =
     (let r = block_range bs i (Some (meta_size m))
      in cache_insert (block_key_new key tag i)
           (block_new m (bslice (unat (range_start r)) (unat (range_end r)) data)) w)"

definition node_insert :: "env \<Rightarrow> u32 \<Rightarrow> string \<Rightarrow> bytes option \<Rightarrow> bytes \<Rightarrow> world \<Rightarrow> (nestor_error + unit) \<times> world" where
  "node_insert e i object etag data w =
     (case engine_state w i of
        Inl err \<Rightarrow> (Inl err, w)
      | Inr ns \<Rightarrow>
          let m = object_meta_new (of_nat (length data)) etag;
              key = object_key_new i object;
              tag = block_tag (e_tag e) (consistency_of ns) m;
              bs = bs_of ns;
              w = fold (insert_block key tag bs m data) (range_list (Range 0 (block_count bs (meta_size m)))) w
          in (Inr (), put_meta key m w))"

definition remove_block :: "env \<Rightarrow> object_key \<Rightarrow> u32 \<Rightarrow> world \<Rightarrow> world" where
  "remove_block e key i w =
     w\<lparr>w_blocks := blocks_remove (e_hybrid e) (w_blocks w) (block_key_new key IMMUTABLE_TAG i)\<rparr>"

definition node_invalidate :: "env \<Rightarrow> u32 \<Rightarrow> string \<Rightarrow> world \<Rightarrow> (nestor_error + unit) \<times> world" where
  "node_invalidate e i object w =
     (case engine_state w i of
        Inl err \<Rightarrow> (Inl err, w)
      | Inr ns \<Rightarrow>
          let key = object_key_new i object;
              w = w\<lparr>w_readahead := readahead_forget (w_readahead w) key\<rparr>;
              w = (if is_immutable (consistency_of ns)
                   then (case get_meta e key None w of
                           (None, w) \<Rightarrow> w
                         | (Some m, w) \<Rightarrow>
                             fold (remove_block e key) (range_list (Range 0 (block_count (bs_of ns) (meta_size m)))) w)
                   else w)
          in (Inr (), remove_meta key w))"

text \<open>\<^verbatim>\<open>Nestor::close\<close>; \<open>closing\<close> is what closing the cache returns.\<close>

definition node_close :: "nestor_error + unit \<Rightarrow> world \<Rightarrow> (nestor_error + unit) \<times> world" where
  "node_close closing w =
     (if w_closed w then (Inr (), w) else (closing, w\<lparr>w_closed := True\<rparr>))"

section \<open>Snapshots\<close>

record cache_snapshot =
  snap_memory_used :: nat
  snap_memory_cap :: u64
  snap_disk_cap :: "u64 option"
  snap_meta_used :: nat
  snap_meta_cap :: nat
  snap_inflight :: nat

record namespace_snapshot =
  snap_name :: string
  snap_id :: u32
  snap_config :: namespace_config

record snapshot =
  snap_cache :: cache_snapshot
  snap_namespaces :: "namespace_snapshot list"

text \<open>\<open>used\<close> are the usages the cache library reports; \<open>has_disk\<close> is whether its disk tier is open.\<close>

definition node_snapshot :: "nat \<times> nat \<Rightarrow> bool \<Rightarrow> u64 option \<Rightarrow> nat \<Rightarrow> world \<Rightarrow> snapshot" where
  "node_snapshot used has_disk disk_cap meta_cap w =
     \<lparr>snap_cache =
        \<lparr>snap_memory_used = fst used, snap_memory_cap = blocks_memory_capacity (w_blocks w),
         snap_disk_cap = (if has_disk then disk_cap else None),
         snap_meta_used = snd used, snap_meta_cap = meta_cap, snap_inflight = inflight_len (w_flight w)\<rparr>,
      snap_namespaces =
        map (\<lambda>s. \<lparr>snap_name = ns_name s, snap_id = ns_id s, snap_config = ns_config s\<rparr>) (w_states w)\<rparr>"

definition node_namespaces :: "snapshot \<Rightarrow> (string \<times> u32) list" where
  "node_namespaces s = map (\<lambda>n. (snap_name n, snap_id n)) (snap_namespaces s)"

section \<open>Builder\<close>

record nestor_builder =
  nb_cache :: cache_config
  nb_namespaces :: "namespace list"
  nb_origin_concurrency :: nat
  nb_readahead_concurrency :: nat
  nb_hedge_concurrency :: nat
  nb_meta_capacity :: nat

definition builder_new :: "cache_config \<Rightarrow> nestor_builder" where
  "builder_new cache =
     \<lparr>nb_cache = cache, nb_namespaces = [], nb_origin_concurrency = 64, nb_readahead_concurrency = 16,
      nb_hedge_concurrency = 16, nb_meta_capacity = 100000\<rparr>"

definition builder_namespace :: "namespace \<Rightarrow> nestor_builder \<Rightarrow> nestor_builder" where
  "builder_namespace n b = b\<lparr>nb_namespaces := nb_namespaces b @ [n]\<rparr>"

definition builder_origin_concurrency :: "nat \<Rightarrow> nestor_builder \<Rightarrow> nestor_builder" where
  "builder_origin_concurrency n b = b\<lparr>nb_origin_concurrency := n\<rparr>"

definition builder_readahead_concurrency :: "nat \<Rightarrow> nestor_builder \<Rightarrow> nestor_builder" where
  "builder_readahead_concurrency n b = b\<lparr>nb_readahead_concurrency := n\<rparr>"

definition builder_hedge_concurrency :: "nat \<Rightarrow> nestor_builder \<Rightarrow> nestor_builder" where
  "builder_hedge_concurrency n b = b\<lparr>nb_hedge_concurrency := n\<rparr>"

definition builder_meta_capacity :: "nat \<Rightarrow> nestor_builder \<Rightarrow> nestor_builder" where
  "builder_meta_capacity n b = b\<lparr>nb_meta_capacity := n\<rparr>"

text \<open>\<^verbatim>\<open>min_by_key\<close> over the block sizes, the first of the smallest, or the default.\<close>

definition smallest_block_size :: "namespace list \<Rightarrow> block_size" where
  "smallest_block_size ns =
     (case map (\<lambda>n. ns_block_size (namespace_config n)) ns of
        [] \<Rightarrow> default_block_size
      | b # bs \<Rightarrow> fold (\<lambda>x best. if block_bytes x < block_bytes best then x else best) bs b)"

definition world_new :: "blocks \<Rightarrow> nat \<Rightarrow> nanos \<Rightarrow> world" where
  "world_new b hedges t =
     \<lparr>now = t, calls = 0, w_blocks = b, w_flight = inflight_new 64, w_meta = [], w_readahead = [],
      w_ttfb = (\<lambda>_. latency_default t), w_block = (\<lambda>_. latency_default t), w_hedges = hedges,
      w_metrics = (\<lambda>_ _. 0), w_tasks = [], w_by_name = Map.empty, w_states = [], w_closed = False\<rparr>"

definition builder_build :: "nestor_builder \<Rightarrow> nanos \<Rightarrow> world" where
  "builder_build b t =
     fold (\<lambda>n w. snd (node_register n w)) (nb_namespaces b)
       (world_new (blocks_open (nb_cache b) (smallest_block_size (nb_namespaces b))) (nb_hedge_concurrency b) t)"

end
