(* ===== verification/Reader.thy ===== *)
theory Reader
  imports Engine
begin

text \<open>
  Streaming reads, \<^verbatim>\<open>nestor/src/reader.rs\<close>, and the reads of \<^verbatim>\<open>nestor/src/nestor.rs\<close>. A reader walks
  the blocks of a range with a window of handles in flight, cuts each block to the range, fetches a
  cancelled block once more and starts again once when the object changed before its first byte.

  The cell \<^verbatim>\<open>known\<close> is shared by a reader and its stream until the reader starts again with a cell
  of its own: \<open>rd_known\<close> is the reader's cell, \<open>rd_shared\<close> the one the stream sees.
\<close>

section \<open>Readers\<close>

record reader =
  rd_request :: read_range
  rd_ctx :: read_ctx
  rd_range :: "u64 urange"
  rd_known :: "object_meta option"
  rd_shared :: "object_meta option"
  rd_first :: u32
  rd_next :: u32
  rd_end :: u32
  rd_emit :: u32
  rd_window :: "slot_handle list"
  rd_restarted :: bool
  rd_refetched :: "u32 option"
  rd_done :: bool

definition reader_new :: "read_range \<Rightarrow> read_ctx \<Rightarrow> u64 urange \<Rightarrow> slot_handle list \<Rightarrow> reader" where
  "reader_new request ctx r fetched =
     (let blocks = blocks_of (ctx_bs ctx) r
      in \<lparr>rd_request = request, rd_ctx = ctx, rd_range = r, rd_known = ctx_meta ctx, rd_shared = ctx_meta ctx,
          rd_first = range_start blocks, rd_next = range_start blocks + of_nat (length fetched),
          rd_end = range_end blocks, rd_emit = range_start blocks, rd_window = fetched,
          rd_restarted = False, rd_refetched = None, rd_done = False\<rparr>)"

definition rd_size :: "reader \<Rightarrow> u64 option" where
  "rd_size rd = map_option meta_size (rd_known rd)"

definition learn :: "env \<Rightarrow> object_meta option \<Rightarrow> reader \<Rightarrow> world \<Rightarrow> reader \<times> world" where
  "learn e meta rd w =
     (if rd_known rd \<noteq> None then (rd, w)
      else case (case meta of Some m \<Rightarrow> (Some m, w) | None \<Rightarrow> any_meta e (ctx_key (rd_ctx rd)) w) of
             (None, w) \<Rightarrow> (rd, w)
           | (Some m, w) \<Rightarrow>
               (rd\<lparr>rd_range := Range (range_start (rd_range rd)) (min (range_end (rd_range rd)) (meta_size m)),
                   rd_end := min (rd_end rd) (block_count (ctx_bs (rd_ctx rd)) (meta_size m)),
                   rd_known := Some m, rd_shared := (if rd_restarted rd then rd_shared rd else Some m)\<rparr>, w))"

definition fill_take :: "reader \<Rightarrow> u32" where
  "fill_take rd = aligned_take (rd_next rd) (rd_end rd) (fetch_window (ns_config (ctx_namespace (rd_ctx rd))))"

lemma fill_take_bounds:
  assumes "rd_next rd < rd_end rd"
  shows "0 < unat (fill_take rd)" and "unat (rd_next rd + fill_take rd) = unat (rd_next rd) + unat (fill_take rd)"
    and "unat (rd_next rd) + unat (fill_take rd) \<le> unat (rd_end rd)"
proof -
  note b = aligned_take_bounds [OF assms, of "fetch_window (ns_config (ctx_namespace (rd_ctx rd)))", folded fill_take_def]
  show "0 < unat (fill_take rd)" and "unat (rd_next rd) + unat (fill_take rd) \<le> unat (rd_end rd)" using b by simp_all
  then show "unat (rd_next rd + fill_take rd) = unat (rd_next rd) + unat (fill_take rd)"
    using u32_bound [of "rd_end rd"] by (intro unat_plus_no_wrap) simp
qed

function fill_loop :: "env \<Rightarrow> nat \<Rightarrow> reader \<Rightarrow> world \<Rightarrow> reader \<times> world" where
  "fill_loop e limit rd w =
     (if length (rd_window rd) < limit \<and> rd_next rd < rd_end rd
      then if rd_window rd \<noteq> [] \<and> length (rd_window rd) + unat (fill_take rd) > limit then (rd, w)
           else (case schedule e (rd_ctx rd) (Range (rd_next rd) (rd_next rd + fill_take rd)) Foreground w of
                   (handles, w) \<Rightarrow>
                     let rd' = rd\<lparr>rd_next := rd_next rd + fill_take rd, rd_window := rd_window rd @ handles\<rparr>
                     in if rd_size rd' = None then (rd', w) else fill_loop e limit rd' w)
      else (rd, w))"
  by pat_completeness auto
termination
  by (relation "measure (\<lambda>(e, limit, rd, w). unat (rd_end rd) - unat (rd_next rd))")
    (use fill_take_bounds in \<open>fastforce+\<close>)

declare fill_loop.simps [simp del]

definition reader_fill :: "env \<Rightarrow> reader \<Rightarrow> world \<Rightarrow> reader \<times> world" where
  "reader_fill e rd w =
     (case learn e None rd w of
        (rd, w) \<Rightarrow>
          let config = ns_config (ctx_namespace (rd_ctx rd));
              limit = unat (if rd_size rd \<noteq> None then read_window config else fetch_window config)
          in fill_loop e limit rd w)"

definition reader_restart :: "env \<Rightarrow> reader \<Rightarrow> world \<Rightarrow> (nestor_error + unit) \<times> reader \<times> world" where
  "reader_restart e rd w =
     (let rd = rd\<lparr>rd_restarted := True, rd_window := []\<rparr>; ctx = rd_ctx rd
      in case resolve_ctx e (ctx_namespace ctx) (ctx_name ctx) (rd_request rd) (ctx_policy ctx) w of
           (Inl err, w) \<Rightarrow> (Inl err, rd, w)
         | (Inr (ctx, fetched), w) \<Rightarrow>
             (case ctx_meta ctx of
                None \<Rightarrow> (Inl Stale, rd, w)
              | Some m \<Rightarrow>
                  (case resolve (rd_request rd) (meta_size m) of
                     Inl err \<Rightarrow> (Inl err, rd, w)
                   | Inr r \<Rightarrow>
                       let blocks = blocks_of (ctx_bs ctx) r
                       in (Inr (),
                           rd\<lparr>rd_range := r, rd_ctx := ctx, rd_known := Some m, rd_first := range_start blocks,
                              rd_next := range_start blocks + of_nat (length fetched), rd_end := range_end blocks,
                              rd_emit := range_start blocks, rd_window := fetched\<rparr>, w))))"

text \<open>What the reader makes of a block at \<open>index\<close>.\<close>

definition reader_block :: "env \<Rightarrow> u32 \<Rightarrow> block \<Rightarrow> reader \<Rightarrow> world \<Rightarrow> (nestor_error + bytes) option \<times> reader \<times> world" where
  "reader_block e i b rd w =
     (case learn e (Some (block_meta b)) rd w of
        (rd, w) \<Rightarrow>
          let ctx = rd_ctx rd; bs = ctx_bs ctx; data = block_data b
          in case slice_within bs i (rd_range rd) of
               (start, stop) \<Rightarrow>
                 if data = [] \<or> start \<ge> length data
                 then (if i = rd_first rd
                       then Some (Inl (ERange (rd_range rd) (case rd_size rd of Some n \<Rightarrow> n | None \<Rightarrow> 0)))
                       else None,
                       rd\<lparr>rd_done := True\<rparr>, w)
                 else
                   case blocks_record_read (e_hybrid e) (w_blocks w) (block_key_new (ctx_key ctx) (ctx_tag ctx) i) b of
                     (written, bl) \<Rightarrow>
                       let w = w\<lparr>w_blocks := bl\<rparr>;
                           w = (if written then count (ctx_ns ctx) ReusedBlocks 1 w else w);
                           out = bslice start (min stop (length data)) data;
                           rd = (if length data < block_usize bs \<or> i + 1 \<ge> rd_end rd then rd\<lparr>rd_done := True\<rparr> else rd)
                       in (Some (Inr out), rd, count (ctx_ns ctx) BytesServed (length out) w))"

text \<open>One round of the loop of \<^verbatim>\<open>Reader::next\<close>: an item, another round, or a wait that never ends.\<close>

datatype round_outcome =
    Waits
  | Emits "(nestor_error + bytes) option" reader world
  | Loops reader world

definition reader_failed :: "env \<Rightarrow> u32 \<Rightarrow> nestor_error \<Rightarrow> reader \<Rightarrow> world \<Rightarrow> round_outcome" where
  "reader_failed e i err rd w =
     (if is_cancelled err \<and> rd_refetched rd \<noteq> Some i
      then (case schedule e (rd_ctx rd) (Range i (i + 1)) Foreground w of
              (handles, w) \<Rightarrow>
                Loops (rd\<lparr>rd_refetched := Some i, rd_emit := i, rd_window := handles @ rd_window rd\<rparr>) w)
      else if is_stale err \<and> \<not> rd_restarted rd \<and> i = rd_first rd
      then (case reader_restart e rd w of
              (Inl err, rd, w) \<Rightarrow> Emits (Some (Inl err)) (rd\<lparr>rd_done := True\<rparr>) w
            | (Inr _, rd, w) \<Rightarrow> Loops rd w)
      else Emits (Some (Inl (from_arc (e_unique e (calls w)) err))) (rd\<lparr>rd_done := True\<rparr>) w)"

definition reader_round :: "env \<Rightarrow> reader \<Rightarrow> world \<Rightarrow> round_outcome" where
  "reader_round e rd w =
     (if rd_done rd then Emits None rd w
      else case reader_fill e rd w of
             (rd, w) \<Rightarrow>
               (case rd_window rd of
                  [] \<Rightarrow> Emits None (rd\<lparr>rd_done := True\<rparr>) w
                | h # hs \<Rightarrow>
                    let i = rd_emit rd; rd = rd\<lparr>rd_window := hs, rd_emit := i + 1\<rparr>
                    in case await_slot e h w of
                         None \<Rightarrow> Waits
                       | Some (Inr b, w) \<Rightarrow> (case reader_block e i b rd w of (r, rd, w) \<Rightarrow> Emits r rd w)
                       | Some (Inl err, w) \<Rightarrow> reader_failed e i err rd w))"

lemma learn_frame:
  "learn e m rd w = (rd', w') \<Longrightarrow>
    rd_restarted rd' = rd_restarted rd \<and> rd_refetched rd' = rd_refetched rd \<and> rd_emit rd' = rd_emit rd
    \<and> rd_request rd' = rd_request rd \<and> rd_ctx rd' = rd_ctx rd \<and> rd_first rd' = rd_first rd
    \<and> rd_next rd' = rd_next rd \<and> rd_window rd' = rd_window rd \<and> rd_done rd' = rd_done rd"
  by (auto simp: learn_def split: if_splits prod.splits option.splits)

lemma fill_loop_frame:
  "fill_loop e limit rd w = (rd', w') \<Longrightarrow>
    rd_restarted rd' = rd_restarted rd \<and> rd_refetched rd' = rd_refetched rd \<and> rd_emit rd' = rd_emit rd"
proof (induction e limit rd w arbitrary: rd' w' rule: fill_loop.induct)
  case (1 e limit rd w)
  obtain hs w1 where sch: "schedule e (rd_ctx rd) (Range (rd_next rd) (rd_next rd + fill_take rd)) Foreground w = (hs, w1)"
    by fastforce
  show ?case
    using "1.prems" "1.IH" [OF _ _ sch [symmetric] refl, of rd' w']
    by (auto simp: fill_loop.simps [of e limit rd] sch Let_def split: if_splits)
qed

lemma reader_fill_frame:
  assumes "reader_fill e rd w = (rd', w')"
  shows "rd_restarted rd' = rd_restarted rd" and "rd_refetched rd' = rd_refetched rd" and "rd_emit rd' = rd_emit rd"
proof -
  obtain rd1 w1 where l: "learn e None rd w = (rd1, w1)" by fastforce
  obtain limit where "fill_loop e limit rd1 w1 = (rd', w')"
    using assms by (auto simp: reader_fill_def l Let_def)
  from fill_loop_frame [OF this] learn_frame [OF l]
  show "rd_restarted rd' = rd_restarted rd" "rd_refetched rd' = rd_refetched rd" "rd_emit rd' = rd_emit rd" by simp_all
qed

lemma reader_restart_frame:
  "reader_restart e rd w = (r, rd', w') \<Longrightarrow> rd_restarted rd'"
  by (auto simp: reader_restart_def Let_def split: sum.splits prod.splits option.splits)

text \<open>What the loop uses up.\<close>

definition reader_rank :: "reader \<Rightarrow> nat" where
  "reader_rank rd = (if rd_restarted rd then 0 else 2) + (if rd_refetched rd = Some (rd_emit rd) then 0 else 1)"

lemma reader_round_rank:
  assumes "reader_round e rd w = Loops rd' w'"
  shows "reader_rank rd' < reader_rank rd"
proof -
  obtain rd1 w1 where f: "reader_fill e rd w = (rd1, w1)" by fastforce
  obtain h hs err w2 where "reader_failed e (rd_emit rd1) err (rd1\<lparr>rd_window := hs, rd_emit := rd_emit rd1 + 1\<rparr>) w2 = Loops rd' w'"
    using assms by (auto simp: reader_round_def f Let_def split: if_splits list.splits option.splits prod.splits sum.splits)
  then show ?thesis
    using reader_fill_frame [OF f]
    by (auto simp: reader_failed_def reader_rank_def split: if_splits prod.splits sum.splits dest!: reader_restart_frame)
qed

text \<open>
  \<^verbatim>\<open>Reader::next\<close>. A block is fetched again at most once and the reader starts again at most once,
  so the loop ends.
\<close>

function reader_next :: "env \<Rightarrow> reader \<Rightarrow> world \<Rightarrow> ((nestor_error + bytes) option \<times> reader \<times> world) option" where
  "reader_next e rd w =
     (case reader_round e rd w of
        Waits \<Rightarrow> None
      | Emits r rd w \<Rightarrow> Some (r, rd, w)
      | Loops rd w \<Rightarrow> reader_next e rd w)"
  by pat_completeness auto
termination
  by (relation "measure (\<lambda>(e, rd, w). reader_rank rd)") (simp_all add: reader_round_rank)

declare reader_next.simps [simp del]

section \<open>Streams\<close>

record read_stream =
  rs_reader :: reader
  rs_range :: "u64 urange"
  rs_peeked :: "bytes option"

definition into_stream :: "reader \<Rightarrow> read_stream" where
  "into_stream rd = \<lparr>rs_reader = rd, rs_range = rd_range rd, rs_peeked = None\<rparr>"

definition stream_meta :: "read_stream \<Rightarrow> object_meta option" where
  "stream_meta st = rd_shared (rs_reader st)"

definition stream_size :: "read_stream \<Rightarrow> u64 option" where
  "stream_size st = map_option meta_size (stream_meta st)"

definition stream_range :: "read_stream \<Rightarrow> u64 urange" where
  "stream_range st =
     (case stream_size st of
        Some n \<Rightarrow> Range (range_start (rs_range st)) (min (range_end (rs_range st)) n)
      | None \<Rightarrow> rs_range st)"

definition content_length :: "read_stream \<Rightarrow> u64 option" where
  "content_length st =
     map_option (\<lambda>_. range_end (stream_range st) - range_start (stream_range st)) (stream_size st)"

text \<open>\<^verbatim>\<open>poll_next\<close>: the chunk looked at before, else the next of the reader.\<close>

definition stream_poll :: "env \<Rightarrow> read_stream \<Rightarrow> world \<Rightarrow> ((nestor_error + bytes) option \<times> read_stream \<times> world) option" where
  "stream_poll e st w =
     (case rs_peeked st of
        Some chunk \<Rightarrow> Some (Some (Inr chunk), st\<lparr>rs_peeked := None\<rparr>, w)
      | None \<Rightarrow>
          (case reader_next e (rs_reader st) w of
             None \<Rightarrow> None
           | Some (r, rd, w) \<Rightarrow> Some (r, st\<lparr>rs_reader := rd\<rparr>, w)))"

definition stream_ready :: "env \<Rightarrow> read_stream \<Rightarrow> world \<Rightarrow> ((nestor_error + object_meta) \<times> read_stream \<times> world) option" where
  "stream_ready e st w =
     (let answer = (\<lambda>st w. Some (case stream_meta st of Some m \<Rightarrow> Inr m | None \<Rightarrow> Inl (ERange (rs_range st) 0), st, w))
      in if stream_meta st = None \<and> rs_peeked st = None
         then (case stream_poll e st w of
                 None \<Rightarrow> None
               | Some (Some (Inl err), st, w) \<Rightarrow> Some (Inl err, st, w)
               | Some (Some (Inr chunk), st, w) \<Rightarrow> answer (st\<lparr>rs_peeked := Some chunk\<rparr>) w
               | Some (None, st, w) \<Rightarrow> answer st w)
         else answer st w)"

text \<open>\<^verbatim>\<open>collect\<close>; the two chunks it looks at first only save a copy.\<close>

partial_function (option) collect_loop ::
  "env \<Rightarrow> bytes \<Rightarrow> read_stream \<Rightarrow> world \<Rightarrow> ((nestor_error + bytes) \<times> world) option" where
  "collect_loop e buf st w =
     (case stream_poll e st w of
        None \<Rightarrow> None
      | Some (None, st, w) \<Rightarrow> Some (Inr buf, w)
      | Some (Some (Inl err), st, w) \<Rightarrow> Some (Inl err, w)
      | Some (Some (Inr chunk), st, w) \<Rightarrow> collect_loop e (buf @ chunk) st w)"

definition stream_collect :: "env \<Rightarrow> read_stream \<Rightarrow> world \<Rightarrow> ((nestor_error + bytes) \<times> world) option" where
  "stream_collect e st w = collect_loop e [] st w"

section \<open>Reads\<close>

definition spawn_readahead :: "namespace_state \<Rightarrow> read_ctx \<Rightarrow> u64 urange \<Rightarrow> world \<Rightarrow> world" where
  "spawn_readahead ns ctx r w =
     (let bs = bs_of ns;
          start = block_count bs (range_end r);
          stop = start + readahead (ns_config ns);
          stop = (case ctx_size ctx of Some n \<Rightarrow> min stop (block_count bs n) | None \<Rightarrow> stop)
      in if start \<ge> stop then w
         else spawn (Prefetch ctx (Range start stop))
                (count (ns_id ns) ReadaheadBlocks (unat (stop - start)) w))"

definition observe_readahead :: "env \<Rightarrow> namespace_state \<Rightarrow> read_ctx \<Rightarrow> u64 urange \<Rightarrow> world \<Rightarrow> world" where
  "observe_readahead e ns ctx r w =
     (if readahead (ns_config ns) > 0
      then (case readahead_observe (e_readahead e) (w_readahead w) (ctx_key ctx) r of
              (sequential, t) \<Rightarrow>
                if sequential then spawn_readahead ns ctx r (w\<lparr>w_readahead := t\<rparr>) else w\<lparr>w_readahead := t\<rparr>)
      else w)"

record read_options =
  ro_range :: read_range
  ro_fetch :: fetch_overrides

text \<open>\<^verbatim>\<open>Nestor::get_opts\<close>; the outer \<^const>\<open>None\<close> is its \<^verbatim>\<open>unreachable!\<close>.\<close>

definition get_opts :: "env \<Rightarrow> u32 \<Rightarrow> string \<Rightarrow> read_options \<Rightarrow> world \<Rightarrow> ((nestor_error + read_stream) \<times> world) option" where
  "get_opts e i object options w =
     (case engine_state w i of
        Inl err \<Rightarrow> Some (Inl err, w)
      | Inr ns \<Rightarrow>
          let request = ro_range options; pol = policy_with (fetch (ns_config ns)) (ro_fetch options)
          in case resolve_ctx e ns object request pol w of
               (Inl err, w) \<Rightarrow> Some (Inl err, w)
             | (Inr (ctx, fetched), w) \<Rightarrow>
                 let go = (\<lambda>r. Some (Inr (into_stream (reader_new request ctx r fetched)),
                                     observe_readahead e ns ctx r w))
                 in case (ctx_size ctx, request) of
                      (Some n, _) \<Rightarrow>
                        (case resolve request n of Inl err \<Rightarrow> Some (Inl err, w) | Inr r \<Rightarrow> go r)
                    | (None, Bounded r) \<Rightarrow>
                        if range_start r \<ge> range_end r then Some (Inl (ERange r 0), w) else go r
                    | (None, _) \<Rightarrow> None)"

definition node_get :: "env \<Rightarrow> u32 \<Rightarrow> string \<Rightarrow> read_range \<Rightarrow> world \<Rightarrow> ((nestor_error + read_stream) \<times> world) option" where
  "node_get e i object request w =
     get_opts e i object \<lparr>ro_range = request, ro_fetch = overrides_default\<rparr> w"

definition node_read :: "env \<Rightarrow> u32 \<Rightarrow> string \<Rightarrow> u64 urange \<Rightarrow> world \<Rightarrow> ((nestor_error + bytes) \<times> world) option" where
  "node_read e i object r w =
     (case node_get e i object (Bounded r) w of
        None \<Rightarrow> None
      | Some (Inl err, w) \<Rightarrow> Some (Inl err, w)
      | Some (Inr st, w) \<Rightarrow> stream_collect e st w)"

end
