(* ===== verification/Engine_Correct.thy ===== *)
theory Engine_Correct
  imports Engine Fetch_Schedule
begin

text \<open>
  Correctness of the engine: queued tasks keep the node sound, every wait for a slot ends with the
  right block or an error, a read is resolved to a sound context, and insert, invalidate and
  register keep the node sound.
\<close>

section \<open>Tasks\<close>

lemma fetch_task_advances:
  assumes env: "env_ok e ver nsf" and node: "node_ok e ver nsf w"
    and ts: "w_tasks w = FetchGroup ctx slots pri initial # ts"
  shows "advances e ver nsf w (fetch_group e ctx slots pri initial (w\<lparr>w_tasks := ts\<rparr>))"
    and "w_tasks (fetch_group e ctx slots pri initial (w\<lparr>w_tasks := ts\<rparr>)) = ts"
proof -
  let ?w0 = "w\<lparr>w_tasks := ts\<rparr>"
  let ?w1 = "fetch_group e ctx slots pri initial ?w0"
  have w: "world_ok e ver nsf w" and q: "queue_ok e ver nsf (w_tasks w) w" using node by (simp_all add: node_ok_def)
  have "fetch_ready e ver nsf ctx slots initial ?w0"
    using q ts by (simp add: queue_ok_def fetch_ready_def group_ready_def owned_def)
  with fetch_group_settles [OF env, of ?w0] w
  have s: "settles e ver nsf (keys_of slots) ?w0 ?w1" by simp
  show tk: "w_tasks ?w1 = ts" using s by (simp add: settles_def guarantees_def)
  have d: "set (map slot_key slots) \<inter> set (queue_keys ts) = {}" using q ts by (simp add: queue_ok_def)
  have "task_ready e ver nsf t ?w1" if t: "t \<in> set ts" for t
  proof (rule task_ready_frame)
    show "task_ready e ver nsf t w" using q ts t by (simp add: queue_ok_def)
    have "k \<notin> keys_of slots" if "k \<in> set (task_keys t)" for k using d t that by auto
    then show "\<forall>k \<in> set (task_keys t). flying e ?w1 k = flying e w k" using s by (simp add: settles_def)
  qed
  moreover have "k \<in> set (queue_keys ts)" if "flying e ?w1 k \<noteq> None" for k
  proof -
    have "k \<notin> keys_of slots" "flying e w k \<noteq> None" using that s by (auto simp: settles_def split: if_splits)
    then show ?thesis using q ts by (auto simp: queue_ok_def)
  qed
  ultimately have "queue_ok e ver nsf ts ?w1" using q ts by (simp add: queue_ok_def)
  then show "advances e ver nsf w ?w1"
    using s tk by (simp add: advances_def node_ok_def settles_def guarantees_def)
qed

lemma prefetch_task_advances:
  assumes env: "env_ok e ver nsf" and node: "node_ok e ver nsf w"
    and ts: "w_tasks w = Prefetch ctx indexes # ts"
  shows "advances e ver nsf w (snd (schedule e ctx indexes Background (w\<lparr>w_tasks := ts\<rparr>)))"
    and "\<exists>sss. w_tasks (snd (schedule e ctx indexes Background (w\<lparr>w_tasks := ts\<rparr>))) =
      ts @ map (\<lambda>ss. FetchGroup ctx ss Background None) sss"
proof -
  obtain a b where r: "indexes = Range a b" by (cases indexes)
  let ?w0 = "w\<lparr>w_tasks := ts\<rparr>"
  obtain hs w1 where s: "schedule e ctx (Range a b) Background ?w0 = (hs, w1)" by fastforce
  have q: "queue_ok e ver nsf (w_tasks w) w" using node by (simp add: node_ok_def)
  have "queue_ok e ver nsf ts w" using q ts by (simp add: queue_ok_def)
  then have "queue_ok e ver nsf ts ?w0" by (rule queue_ok_frame) simp
  then have n0: "node_ok e ver nsf ?w0" using node by (simp add: node_ok_def)
  have a0: "advances e ver nsf w ?w0" using n0 by (simp add: advances_def)
  have ctx: "ctx_sound e ver nsf ctx" using q ts by (simp add: queue_ok_def)
  note sa = schedule_advances [OF env n0 ctx s]
  show "advances e ver nsf w (snd (schedule e ctx indexes Background ?w0))"
    using advances_trans [OF a0 sa(1)] s r by simp
  show "\<exists>sss. w_tasks (snd (schedule e ctx indexes Background ?w0)) =
      ts @ map (\<lambda>ss. FetchGroup ctx ss Background None) sss"
    using sa(3) s r by simp
qed

text \<open>What running a task uses up: a prefetch may queue fetches, a fetch queues nothing.\<close>

definition is_prefetch :: "task \<Rightarrow> bool" where
  "is_prefetch t = (case t of FetchGroup _ _ _ _ \<Rightarrow> False | Prefetch _ _ \<Rightarrow> True)"

definition queue_rank :: "world \<Rightarrow> nat \<times> nat" where
  "queue_rank w = (length (filter is_prefetch (w_tasks w)), length (w_tasks w))"

lemma run_task_advances:
  assumes "env_ok e ver nsf" and "node_ok e ver nsf w" and "w_tasks w = t # ts"
  shows "advances e ver nsf w (run_task e t (w\<lparr>w_tasks := ts\<rparr>))"
    and "(queue_rank (run_task e t (w\<lparr>w_tasks := ts\<rparr>)), queue_rank w) \<in> less_than <*lex*> less_than"
proof -
  have "advances e ver nsf w (run_task e t (w\<lparr>w_tasks := ts\<rparr>))
    \<and> (queue_rank (run_task e t (w\<lparr>w_tasks := ts\<rparr>)), queue_rank w) \<in> less_than <*lex*> less_than"
  proof (cases t)
    case (FetchGroup ctx slots pri initial)
    note f = fetch_task_advances [OF assms(1,2) assms(3) [unfolded FetchGroup]]
    then show ?thesis using FetchGroup assms(3) by (simp add: queue_rank_def is_prefetch_def)
  next
    case (Prefetch ctx indexes)
    note p = prefetch_task_advances [OF assms(1,2) assms(3) [unfolded Prefetch]]
    have none: "filter is_prefetch (map (\<lambda>ss. FetchGroup ctx ss Background None) sss) = []" for sss
      by (induction sss) (simp_all add: is_prefetch_def)
    obtain sss where "w_tasks (run_task e t (w\<lparr>w_tasks := ts\<rparr>)) = ts @ map (\<lambda>ss. FetchGroup ctx ss Background None) sss"
      using p(2) Prefetch by auto
    then show ?thesis using p(1) Prefetch assms(3) none by (simp add: queue_rank_def) (simp add: is_prefetch_def)
  qed
  then show "advances e ver nsf w (run_task e t (w\<lparr>w_tasks := ts\<rparr>))"
    and "(queue_rank (run_task e t (w\<lparr>w_tasks := ts\<rparr>)), queue_rank w) \<in> less_than <*lex*> less_than" by simp_all
qed

section \<open>Every wait ends\<close>

lemma await_slot_ends:
  assumes "env_ok e ver nsf" and "node_ok e ver nsf w" and "serves e ver nsf w h k"
  shows "\<exists>r w'. await_slot e h w = Some (r, w') \<and> advances e ver nsf w w' \<and> result_ok nsf ver k r"
proof -
  have "wf (inv_image (less_than <*lex*> less_than) queue_rank)" by (simp add: wf_lex_prod)
  then show ?thesis using assms(2,3)
  proof (induction w rule: wf_induct_rule)
    case (less w)
    show ?case
    proof (cases "wait_slot h (w_flight w)")
      case (Some r)
      then have "flying e w k \<noteq> Some h"
        using less.prems flight.table_pending [of "e_hash e" "w_flight w" k h] by (auto simp: node_ok_def world_ok_def)
      then have "result_ok nsf ver k r" using less.prems(2) Some by (simp add: serves_def)
      then show ?thesis using Some advances_refl [OF less.prems(1)] by (simp add: await_slot.simps)
    next
      case None
      then have "flying e w k = Some h" using less.prems(2) by (simp add: serves_def)
      then obtain t ts where ts: "w_tasks w = t # ts"
        using less.prems(1) by (cases "w_tasks w") (auto simp: node_ok_def queue_ok_def)
      let ?w1 = "run_task e t (w\<lparr>w_tasks := ts\<rparr>)"
      note r = run_task_advances [OF assms(1) less.prems(1) ts]
      from less.IH [of ?w1] r advances_node_ok [OF r(1)] advances_serves [OF r(1) less.prems(2)]
      obtain r' w' where "await_slot e h ?w1 = Some (r', w')" "advances e ver nsf ?w1 w'" "result_ok nsf ver k r'"
        by auto
      then show ?thesis using None ts advances_trans [OF r(1)] by (auto simp: await_slot.simps [of e h w])
    qed
  qed
qed

section \<open>Metadata\<close>

text \<open>The metadata cache answers with metadata of a version, and a lookup only reorders it.\<close>

lemma meta_cache_settles:
  assumes "world_ok e ver nsf w" and "latest c = latest (w_meta w)"
  shows "settles e ver nsf {} w (w\<lparr>w_meta := c\<rparr>)"
  using assms by (simp add: settles_def guarantees_def world_ok_def serves_def)

lemma meta_ok_version:
  assumes "ns = nsf (ns_id ns)"
  shows "meta_ok e ver nsf (object_key_new (ns_id ns) name) m \<longleftrightarrow> meta_of_version (e_tag e) ver ns name m"
  using assms by (simp add: meta_ok_def object_key_new_def)

lemma lookup_meta_settles:
  assumes "env_ok e ver nsf" and "world_ok e ver nsf w" and "lookup_meta e k ttl w = (r, w')"
  shows "settles e ver nsf {} w w'" and "r = Fresh m \<or> r = StaleMeta m \<Longrightarrow> meta_ok e ver nsf k m"
proof -
  let ?l = "meta_lookup (e_meta e) (now w) (w_meta w) k ttl"
  have r: "r = fst ?l" and w': "w' = w\<lparr>w_meta := snd ?l\<rparr>" using assms(3) by (auto simp: lookup_meta_def split: prod.splits)
  show "settles e ver nsf {} w w'" unfolding w' by (rule meta_cache_settles [OF assms(2)]) simp
  have "honest (e_meta e)" using assms(1) by (simp add: env_ok_def)
  then show "r = Fresh m \<or> r = StaleMeta m \<Longrightarrow> meta_ok e ver nsf k m"
    using meta_lookup_found(1,2) [of "e_meta e" "now w" "w_meta w" k ttl m] assms(2) unfolding r world_ok_def by metis
qed

lemma any_meta_settles:
  assumes "env_ok e ver nsf" and "world_ok e ver nsf w" and "any_meta e k w = (r, w')"
  shows "settles e ver nsf {} w w'" and "r = Some m \<Longrightarrow> meta_ok e ver nsf k m"
proof -
  let ?l = "meta_any (e_meta e) (w_meta w) k"
  have r: "r = fst ?l" and w': "w' = w\<lparr>w_meta := snd ?l\<rparr>" using assms(3) by (auto simp: any_meta_def split: prod.splits)
  show "settles e ver nsf {} w w'" unfolding w' by (rule meta_cache_settles [OF assms(2)]) simp
  have "honest (e_meta e)" using assms(1) by (simp add: env_ok_def)
  then show "r = Some m \<Longrightarrow> meta_ok e ver nsf k m"
    using meta_lookup_found(3) [of "e_meta e" "w_meta w" k m] assms(2) unfolding r world_ok_def by metis
qed

lemma get_meta_settles:
  assumes "env_ok e ver nsf" and "world_ok e ver nsf w" and "get_meta e k ttl w = (r, w')"
  shows "settles e ver nsf {} w w'" and "r = Some m \<Longrightarrow> meta_ok e ver nsf k m"
proof -
  obtain l w1 where l: "lookup_meta e k ttl w = (l, w1)" by fastforce
  have eq: "w' = w1 \<and> (r = Some m \<longleftrightarrow> l = Fresh m)" for m
    using assms(3) l by (auto simp: get_meta_def lookup_meta_def meta_get_def split: prod.splits lookup_result.splits)
  show "settles e ver nsf {} w w'" and "r = Some m \<Longrightarrow> meta_ok e ver nsf k m"
    using lookup_meta_settles [OF assms(1,2) l] eq by auto
qed

text \<open>A block of an immutable namespace carries the metadata of the object.\<close>

lemma block_ok_meta:
  assumes "ns = nsf (ns_id ns)" and "is_immutable (consistency_of ns)"
    and "block_ok nsf ver (block_key_new (object_key_new (ns_id ns) name) IMMUTABLE_TAG i) b"
  shows "meta_of_version (e_tag e) ver ns name (block_meta b)"
  using assms
  by (auto simp: block_ok_def meta_of_version_def key_content_def block_key_new_def object_key_new_def block_tag_def
      etag_bytes_def split: option.splits)

lemma cached_meta_settles:
  assumes "env_ok e ver nsf" and "ns = nsf (ns_id ns)" and "is_immutable (consistency_of ns)"
    and "world_ok e ver nsf w" and "cached_meta e ns (object_key_new (ns_id ns) name) request w = (r, w')"
  shows "settles e ver nsf {} w w'" and "r = Some m \<Longrightarrow> meta_of_version (e_tag e) ver ns name m"
proof -
  obtain i where i: "i = (case first_group (bs_of ns) request 1 of None \<Rightarrow> 0 | Some g \<Rightarrow> range_start g)" by simp
  obtain c w1 where c: "cache_get e (block_key_new (object_key_new (ns_id ns) name) IMMUTABLE_TAG i) w = (c, w1)" by fastforce
  note s = cache_get_settles [OF assms(1,4) c]
  have "settles e ver nsf {} w w' \<and> (\<forall>m. r = Some m \<longrightarrow> meta_of_version (e_tag e) ver ns name m)"
  proof (cases c)
    case None
    then show ?thesis using s(1) assms(5) c by (simp add: cached_meta_def i [symmetric] Let_def)
  next
    case (Some b)
    have m: "meta_of_version (e_tag e) ver ns name (block_meta b)"
      by (rule block_ok_meta [OF assms(2,3) s(2) [OF Some]])
    then have "meta_ok e ver nsf (object_key_new (ns_id ns) name) (block_meta b)" by (simp add: meta_ok_version [of ns nsf, OF assms(2)])
    from put_meta_settles [OF settles_world_ok [OF s(1)] this] settles_none [OF s(1)] m show ?thesis
      using assms(5) c Some by (auto simp: cached_meta_def i [symmetric] Let_def)
  qed
  then show "settles e ver nsf {} w w'" and "r = Some m \<Longrightarrow> meta_of_version (e_tag e) ver ns name m" by auto
qed

section \<open>Resolving a read\<close>

lemma resolved_no_handles:
  assumes "ctx_sound e ver nsf ctx" and "ctx_namespace ctx = ns" and "ctx_name ctx = name" and "ctx_policy ctx = pol"
  shows "resolved e ver nsf ns name pol indexes (Inr (ctx, [])) w"
  using assms by (simp add: resolved_def)

lemma resolved_of_meta:
  assumes "env_ok e ver nsf" and "ns = nsf (ns_id ns)" and "meta_of_version (e_tag e) ver ns name m"
  shows "resolved e ver nsf ns name pol indexes
    (Inr (read_ctx_new (e_tag e) ns (object_key_new (ns_id ns) name) name (Some m) pol, [])) w"
  by (rule resolved_no_handles [OF read_ctx_new_sound [OF assms]]) simp_all

lemma resolve_origin_resolved:
  assumes "env_ok e ver nsf" and "ns = nsf (ns_id ns)"
    and "\<And>m. stale = Some m \<Longrightarrow> meta_of_version (e_tag e) ver ns name m"
    and "node_ok e ver nsf w" and "resolve_origin e ns name request stale pol w = (res, w')"
  shows "advances e ver nsf w w'
    \<and> resolved e ver nsf ns name pol (first_group (bs_of ns) request (fetch_window (ns_config ns))) res w'"
proof (cases "first_group (bs_of ns) request (fetch_window (ns_config ns))")
  case (Some g)
  obtain a b where g: "g = Range a b" by (cases g)
  have "probe_loop e ns (object_key_new (ns_id ns) name) name (Range a b) stale pol (retry_new pol (now w)) w = (res, w')"
    using assms(5) Some g by (simp add: resolve_origin_def probe_def)
  from probe_loop_resolved [OF assms(1,2) refl assms(3,4) this] show ?thesis by (simp add: Some g)
next
  case None
  obtain r w1 where h: "fetch_head e ns (object_key_new (ns_id ns) name) name w = (r, w1)" by fastforce
  have w: "world_ok e ver nsf w" using assms(4) by (simp add: node_ok_def)
  have ok: "settles e ver nsf {} w w1" "\<And>m. r = Inr m \<Longrightarrow> meta_of_version (e_tag e) ver ns name m"
    using head_loop_ok [OF assms(1,2) refl w h [unfolded fetch_head_def]] by auto
  have "w' = w1" using assms(5) None h by (auto simp: resolve_origin_def split: sum.splits)
  moreover have "resolved e ver nsf ns name pol None res w'"
  proof (cases r)
    case (Inl err)
    then show ?thesis using assms(5) None h by (auto simp: resolve_origin_def)
  next
    case (Inr m)
    have "resolved e ver nsf ns name pol None
        (Inr (read_ctx_new (e_tag e) ns (object_key_new (ns_id ns) name) name (Some m) pol, [])) w1"
      by (rule resolved_of_meta [OF assms(1,2) ok(2) [OF Inr]])
    then show ?thesis using assms(5) None h Inr by (auto simp: resolve_origin_def)
  qed
  ultimately show ?thesis using settles_none_advances [OF assms(4) ok(1)] None by simp
qed

lemma resolve_ctx_resolved:
  assumes "env_ok e ver nsf" and "ns = nsf (ns_id ns)" and "node_ok e ver nsf w"
    and "resolve_ctx e ns name request pol w = (res, w')"
  shows "advances e ver nsf w w'
    \<and> resolved e ver nsf ns name pol (first_group (bs_of ns) request (fetch_window (ns_config ns))) res w'"
proof -
  let ?key = "object_key_new (ns_id ns) name"
  let ?goal = "\<lambda>res w w'. advances e ver nsf w w'
    \<and> resolved e ver nsf ns name pol (first_group (bs_of ns) request (fetch_window (ns_config ns))) res w'"
  obtain l w1 where l: "lookup_meta e ?key (ns_meta_ttl ns) w = (l, w1)" by fastforce
  have w: "world_ok e ver nsf w" using assms(3) by (simp add: node_ok_def)
  note s1 = lookup_meta_settles [OF assms(1) w l]
  note a1 = settles_none_advances [OF assms(3) s1(1)]
  have m1: "meta_of_version (e_tag e) ver ns name m" if "l = Fresh m \<or> l = StaleMeta m" for m
    using s1(2) [OF that] by (simp add: meta_ok_version [of ns nsf, OF assms(2)])
  define stale where "stale = (case l of StaleMeta m \<Rightarrow> Some m | _ \<Rightarrow> None)"
  have st: "stale = Some m \<Longrightarrow> meta_of_version (e_tag e) ver ns name m" for m
    using m1 by (auto simp: stale_def split: lookup_result.splits)
  have origin: "?goal res w w'" if "advances e ver nsf w v" "resolve_origin e ns name request stale pol v = (res, w')" for v
    using resolve_origin_resolved [OF assms(1,2) st advances_node_ok [OF that(1)] that(2)] advances_trans [OF that(1)] by blast
  consider (fresh) m where "l = Fresh m"
    | (mutable) "\<forall>m. l \<noteq> Fresh m" "\<not> is_immutable (consistency_of ns)"
    | (unsized) "\<forall>m. l \<noteq> Fresh m" "is_immutable (consistency_of ns)" "\<not> needs_size request"
    | (sized) "\<forall>m. l \<noteq> Fresh m" "is_immutable (consistency_of ns)" "needs_size request"
    by blast
  then show ?thesis
  proof cases
    case fresh
    then show ?thesis using resolved_of_meta [OF assms(1,2) m1] a1 assms(4) l
      by (auto simp: resolve_ctx_def Let_def)
  next
    case mutable
    then have "resolve_origin e ns name request stale pol w1 = (res, w')"
      using assms(4) l by (cases l) (simp_all add: resolve_ctx_def Let_def stale_def)
    from origin [OF a1 this] show ?thesis .
  next
    case unsized
    then have "res = Inr (read_ctx_new (e_tag e) ns ?key name None pol, [])" "w' = w1"
      using assms(4) l by (cases l; simp add: resolve_ctx_def Let_def)+
    then show ?thesis
      using resolved_no_handles [OF read_ctx_new_immutable_sound [of ns nsf, OF assms(2) unsized(2)]] a1 by simp
  next
    case sized
    obtain c w2 where c: "cached_meta e ns ?key request w1 = (c, w2)" by fastforce
    note s2 = cached_meta_settles [OF assms(1,2) sized(2) settles_world_ok [OF s1(1)] c]
    note a2 = settles_none_advances [OF assms(3) settles_none [OF s1(1) s2(1)]]
    show ?thesis
    proof (cases c)
      case None
      then have "resolve_origin e ns name request stale pol w2 = (res, w')"
        using assms(4) l sized c by (cases l) (simp_all add: resolve_ctx_def Let_def stale_def)
      from origin [OF a2 this] show ?thesis .
    next
      case (Some m)
      have "resolved e ver nsf ns name pol (first_group (bs_of ns) request (fetch_window (ns_config ns)))
          (Inr (read_ctx_new (e_tag e) ns ?key name (Some m) pol, [])) w2"
        by (rule resolved_of_meta [OF assms(1,2) s2(2) [OF Some]])
      moreover have "res = Inr (read_ctx_new (e_tag e) ns ?key name (Some m) pol, []) \<and> w' = w2"
        using assms(4) l sized c Some by (cases l) (simp_all add: resolve_ctx_def Let_def)
      ultimately show ?thesis using a2 by simp
    qed
  qed
qed

text \<open>A context without metadata comes only where no size is needed, in an immutable namespace.\<close>

lemma probe_loop_meta:
  "probe_loop e ns key name indexes stale pol r w = (Inr (ctx, hs), w') \<Longrightarrow> ctx_meta ctx \<noteq> None"
proof (induction e ns key name indexes stale pol r w rule: probe_loop.induct)
  case (1 e ns key name indexes stale pol r w)
  show ?case using "1.prems" "1.IH"
    by (subst (asm) probe_loop.simps)
      (auto simp: Let_def build_ctx_def split: prod.splits sum.splits option.splits if_splits)
qed

lemma resolve_origin_meta:
  "resolve_origin e ns name request stale pol w = (Inr (ctx, hs), w') \<Longrightarrow> ctx_meta ctx \<noteq> None"
  by (auto simp: resolve_origin_def probe_def Let_def split: prod.splits sum.splits option.splits dest: probe_loop_meta)

lemma resolve_ctx_unsized:
  assumes "resolve_ctx e ns name request pol w = (Inr (ctx, hs), w')" and "ctx_meta ctx = None"
  shows "\<not> needs_size request" and "is_immutable (consistency_of ns)" and "hs = []"
  using assms resolve_origin_meta
  by (fastforce simp: resolve_ctx_def Let_def split: prod.splits sum.splits option.splits if_splits lookup_result.splits)+

section \<open>Operations of a node\<close>

text \<open>Every namespace of the registry is the one of its id.\<close>

definition registered :: "namespaces \<Rightarrow> world \<Rightarrow> bool" where
  "registered nsf w \<longleftrightarrow> (\<forall>i. unat i < length (w_states w) \<longrightarrow> w_states w ! unat i = nsf i)"

lemma engine_state_registered:
  assumes "env_ok e ver nsf" and "registered nsf w" and "engine_state w i = Inr ns"
  shows "ns = nsf i" and "ns = nsf (ns_id ns)" and "ns_id ns = i"
  using assms by (auto simp: engine_state_def engine_namespace_def registered_def env_ok_def split: if_splits)

lemma registered_advances: "advances e ver nsf w w' \<Longrightarrow> registered nsf w \<Longrightarrow> registered nsf w'"
  by (simp add: advances_def registered_def)

lemma node_head_ok:
  assumes "env_ok e ver nsf" and "registered nsf w" and "node_ok e ver nsf w" and "node_head e i object w = (res, w')"
  shows "advances e ver nsf w w'" and "res = Inr m \<Longrightarrow> meta_of_version (e_tag e) ver (nsf i) object m"
proof -
  have w: "world_ok e ver nsf w" using assms(3) by (simp add: node_ok_def)
  have "advances e ver nsf w w' \<and> (\<forall>m. res = Inr m \<longrightarrow> meta_of_version (e_tag e) ver (nsf i) object m)"
  proof (cases "engine_state w i")
    case (Inl err)
    then show ?thesis using assms(4) advances_refl [OF assms(3)] by (auto simp: node_head_def)
  next
    case (Inr ns)
    note ns = engine_state_registered [OF assms(1,2) Inr]
    obtain g w1 where g: "get_meta e (object_key_new i object) (ns_meta_ttl ns) w = (g, w1)" by fastforce
    note s1 = get_meta_settles [OF assms(1) w g]
    show ?thesis
    proof (cases g)
      case (Some m)
      then have "meta_of_version (e_tag e) ver ns object m"
        using s1(2) [OF Some] ns(3) by (simp flip: meta_ok_version [of ns nsf, OF ns(2)])
      then show ?thesis
        using assms(4) Inr g Some s1(1) settles_none_advances [OF assms(3)] ns(1) by (auto simp: node_head_def)
    next
      case None
      obtain r w2 where h: "head_loop e ns (object_key_new i object) object (retry_new (fetch (ns_config ns)) (now w1)) w1 = (r, w2)"
        by fastforce
      have "settles e ver nsf {} w1 w2 \<and> (\<forall>m. r = Inr m \<longrightarrow> meta_of_version (e_tag e) ver ns object m)"
        by (rule head_loop_ok [OF assms(1) ns(2) _ settles_world_ok [OF s1(1)] h]) (simp add: ns(3))
      then show ?thesis
        using assms(4) Inr g None h settles_none_advances [OF assms(3) settles_none [OF s1(1)]] ns(1)
        by (auto simp: node_head_def fetch_head_def)
    qed
  qed
  then show "advances e ver nsf w w'" and "res = Inr m \<Longrightarrow> meta_of_version (e_tag e) ver (nsf i) object m" by auto
qed

text \<open>A fold of steps that settle nothing.\<close>

lemma fold_quiet:
  assumes "world_ok e ver nsf w" and "\<And>w x. world_ok e ver nsf w \<Longrightarrow> x \<in> set xs \<Longrightarrow> settles e ver nsf {} w (f x w)"
  shows "settles e ver nsf {} w (fold f xs w)"
  using assms
proof (induction xs arbitrary: w)
  case (Cons x xs)
  have s: "settles e ver nsf {} w (f x w)" using Cons.prems by simp
  from settles_none [OF s Cons.IH [OF settles_world_ok [OF s]]] Cons.prems(2) show ?case by simp
qed (simp add: settles_refl)

text \<open>Inserted bytes that are those of the version their metadata names keep the node sound.\<close>

lemma insert_block_settles:
  assumes "env_ok e ver nsf" and "ns = nsf (ns_id ns)" and "world_ok e ver nsf w"
    and "meta_of_version (e_tag e) ver ns object m"
    and "data = ver (ns_id ns) object (block_tag (e_tag e) (consistency_of ns) m)"
    and "i \<in> set (range_list (Range 0 (block_count (bs_of ns) (meta_size m))))"
  shows "settles e ver nsf {} w (insert_block (object_key_new (ns_id ns) object)
    (block_tag (e_tag e) (consistency_of ns) m) (bs_of ns) m data i w)"
proof -
  let ?bs = "bs_of ns" and ?tag = "block_tag (e_tag e) (consistency_of ns) m"
  let ?k = "block_key_new (object_key_new (ns_id ns) object) ?tag i"
  have v: "valid_block_size ?bs" using assms(1,2) unfolding env_ok_def valid_config_def by metis
  have sz: "length data = unat (meta_size m)" using assms(4,5) by (simp add: meta_of_version_def)
  note b = block_range_bounds [OF v range_list_bound [OF assms(6)]]
  have content: "key_content ver ?k = data"
    using assms(5) by (simp add: key_content_def block_key_new_def object_key_new_def)
  have cut: "bslice (unat (range_start (block_range ?bs i (Some (meta_size m)))))
      (unat (range_end (block_range ?bs i (Some (meta_size m))))) data = block_of ?bs data (unat i)"
    unfolding b block_of_def using sz bslice_min_length [of "unat i * block_usize ?bs" "(unat i + 1) * block_usize ?bs" data] by simp
  have "bk_namespace ?k = ns_id ns" "bk_index ?k = i" by (simp_all add: block_key_new_def object_key_new_def)
  then have "block_ok nsf ver ?k (block_new m (block_of ?bs data (unat i)))"
    using assms(4) sz content assms(2)
    by (auto simp: block_ok_def meta_of_version_def block_new_def etag_bytes_def split: option.splits)
  from cache_insert_settles [OF assms(3) this] show ?thesis by (simp add: insert_block_def cut)
qed

lemma node_insert_ok:
  assumes "env_ok e ver nsf" and "registered nsf w" and "node_ok e ver nsf w"
    and "meta_of_version (e_tag e) ver (nsf i) object (object_meta_new (of_nat (length data)) etag)"
    and "data = ver i object (block_tag (e_tag e) (consistency_of (nsf i)) (object_meta_new (of_nat (length data)) etag))"
  shows "advances e ver nsf w (snd (node_insert e i object etag data w))"
proof (cases "engine_state w i")
  case (Inl err)
  then show ?thesis using advances_refl [OF assms(3)] by (simp add: node_insert_def)
next
  case (Inr ns)
  note ns = engine_state_registered [OF assms(1,2) Inr]
  let ?m = "object_meta_new (of_nat (length data)) etag"
  let ?tag = "block_tag (e_tag e) (consistency_of ns) ?m"
  let ?w1 = "fold (insert_block (object_key_new i object) ?tag (bs_of ns) ?m data)
      (range_list (Range 0 (block_count (bs_of ns) (meta_size ?m)))) w"
  have w: "world_ok e ver nsf w" using assms(3) by (simp add: node_ok_def)
  have s1: "settles e ver nsf {} w ?w1"
  proof (rule fold_quiet [OF w])
    fix v k assume "world_ok e ver nsf v" "k \<in> set (range_list (Range 0 (block_count (bs_of ns) (meta_size ?m))))"
    from insert_block_settles [OF assms(1) ns(2) this(1) _ _ this(2), of object data] assms(4,5)
    show "settles e ver nsf {} v (insert_block (object_key_new i object) ?tag (bs_of ns) ?m data k v)"
      unfolding ns(1) [symmetric] ns(3) by simp
  qed
  have "meta_ok e ver nsf (object_key_new i object) ?m"
    using assms(4) by (simp add: meta_ok_def object_key_new_def)
  from settles_none [OF s1 put_meta_settles [OF settles_world_ok [OF s1] this]]
  show ?thesis using Inr settles_none_advances [OF assms(3)] by (simp add: node_insert_def Let_def)
qed

lemma readahead_table_advances:
  assumes "node_ok e ver nsf w"
  shows "advances e ver nsf w (w\<lparr>w_readahead := t\<rparr>)"
proof -
  have "world_ok e ver nsf (w\<lparr>w_readahead := t\<rparr>)" using assms by (simp add: node_ok_def world_ok_def)
  moreover have "queue_ok e ver nsf (w_tasks w) (w\<lparr>w_readahead := t\<rparr>)"
    by (rule queue_ok_frame [of e ver nsf _ w]) (use assms in \<open>simp_all add: node_ok_def\<close>)
  ultimately show ?thesis by (simp add: advances_def node_ok_def serves_def)
qed

lemma remove_block_settles:
  assumes "world_ok e ver nsf w"
  shows "settles e ver nsf {} w (remove_block e key i w)"
  using assms blocks_store.all_held_remove [of "block_ok nsf ver" "w_blocks w" "e_hybrid e" "block_key_new key IMMUTABLE_TAG i"]
  by (simp add: settles_def guarantees_def world_ok_def serves_def remove_block_def)

lemma node_invalidate_ok:
  assumes "env_ok e ver nsf" and "node_ok e ver nsf w"
  shows "advances e ver nsf w (snd (node_invalidate e i object w))"
proof (cases "engine_state w i")
  case (Inl err)
  then show ?thesis using advances_refl [OF assms(2)] by (simp add: node_invalidate_def)
next
  case (Inr ns)
  let ?key = "object_key_new i object"
  let ?w1 = "w\<lparr>w_readahead := readahead_forget (w_readahead w) ?key\<rparr>"
  note a1 = readahead_table_advances [OF assms(2), of "readahead_forget (w_readahead w) ?key"]
  have w1: "world_ok e ver nsf ?w1" using advances_node_ok [OF a1] by (simp add: node_ok_def)
  obtain g w2 where g: "get_meta e ?key None ?w1 = (g, w2)" by fastforce
  note s2 = get_meta_settles(1) [OF assms(1) w1 g]
  have s3: "settles e ver nsf {} ?w1 (fold (remove_block e ?key) is w2)" for "is"
    by (rule settles_none [OF s2 fold_quiet [OF settles_world_ok [OF s2]]]) (rule remove_block_settles)
  have drop: "advances e ver nsf w (remove_meta ?key v)" if "settles e ver nsf {} ?w1 v" for v
    using advances_trans [OF a1 settles_none_advances [OF advances_node_ok [OF a1]
          settles_none [OF that remove_meta_settles [OF settles_world_ok [OF that]]]]] .
  show ?thesis using Inr g drop [OF s2] drop [OF s3] drop [OF settles_refl [OF w1]]
    by (auto simp: node_invalidate_def Let_def split: option.splits)
qed

section \<open>Building a node\<close>

lemma node_register_ok:
  assumes "node_ok e ver nsf w" and "registered nsf w" and "length (w_states w) < 2 ^ 32"
    and "w_by_name w (namespace_name n) = None \<Longrightarrow> nsf (of_nat (length (w_states w))) = namespace_state_new (of_nat (length (w_states w))) n"
    and "node_register n w = (i, w')"
  shows "node_ok e ver nsf w'" and "registered nsf w'"
proof -
  have "node_ok e ver nsf w' \<and> registered nsf w'"
  proof (cases "w_by_name w (namespace_name n)")
    case (Some j)
    then show ?thesis using assms(1,2,5) by (simp add: node_register_def)
  next
    case None
    let ?i = "of_nat (length (w_states w)) :: u32"
    let ?w = "w\<lparr>w_blocks := blocks_track (ns_block_size (namespace_config n)) (w_blocks w),
        w_by_name := (w_by_name w)(namespace_name n \<mapsto> ?i), w_states := w_states w @ [namespace_state_new ?i n],
        w_ttfb := (w_ttfb w)(?i := latency_default (now w)), w_block := (w_block w)(?i := latency_default (now w))\<rparr>"
    have w': "w' = ?w" using assms(5) None by (auto simp: node_register_def Let_def)
    have "blocks_held (blocks_track bs b) = blocks_held b" for bs b
      by (auto simp: blocks_track_def blocks_held_def Let_def split: option.splits)
    then have "world_ok e ver nsf ?w" using assms(1) by (simp add: node_ok_def world_ok_def blocks_store.all_held_def)
    moreover have "queue_ok e ver nsf (w_tasks w) ?w"
      by (rule queue_ok_frame [of e ver nsf _ w]) (use assms(1) in \<open>simp_all add: node_ok_def\<close>)
    moreover have "registered nsf ?w"
    proof -
      have "(w_states w @ [namespace_state_new ?i n]) ! unat j = nsf j" if "unat j < Suc (length (w_states w))" for j
      proof (cases "unat j = length (w_states w)")
        case True
        then have "j = ?i" by (metis of_nat_unat ucast_id)
        then show ?thesis using True assms(4) [OF None] by simp
      next
        case False
        then show ?thesis using that assms(2) by (simp add: nth_append registered_def)
      qed
      then show ?thesis by (simp add: registered_def)
    qed
    ultimately show ?thesis by (simp add: node_ok_def w')
  qed
  then show "node_ok e ver nsf w'" and "registered nsf w'" by simp_all
qed

text \<open>A new node, with nothing registered yet.\<close>

lemma world_new_ok: "node_ok e ver nsf (world_new (blocks_open cfg bs) n t)" "registered nsf (world_new b n t)"
proof -
  have "lookup (e_hash e) (inflight_new 64) k = None" for k
    by (rule ccontr) (use flight.table_pending [OF flight_inv_new [of "e_hash e"], of k] in \<open>auto simp: inflight_new_def\<close>)
  then show "node_ok e ver nsf (world_new (blocks_open cfg bs) n t)" "registered nsf (world_new b n t)"
    by (simp_all add: node_ok_def world_ok_def world_new_def queue_ok_def registered_def flight_inv_new blocks_open_def
        blocks_store.all_held_def blocks_held_def Let_def)
qed

lemma register_fold_ok:
  assumes "node_ok e ver nsf w" and "registered nsf w" and "length (w_states w) + length ns \<le> 2 ^ 32"
    and "distinct (map namespace_name ns)" and "\<forall>n \<in> set ns. w_by_name w (namespace_name n) = None"
    and "\<forall>j < length ns. nsf (of_nat (length (w_states w) + j)) = namespace_state_new (of_nat (length (w_states w) + j)) (ns ! j)"
  shows "node_ok e ver nsf (fold (\<lambda>n w. snd (node_register n w)) ns w)
    \<and> registered nsf (fold (\<lambda>n w. snd (node_register n w)) ns w)"
  using assms
proof (induction ns arbitrary: w)
  case (Cons n ns)
  obtain i w1 where r: "node_register n w = (i, w1)" by fastforce
  have none: "w_by_name w (namespace_name n) = None" using Cons.prems(5) by simp
  have ok: "node_ok e ver nsf w1" "registered nsf w1"
    by (rule node_register_ok [OF Cons.prems(1,2) _ _ r]; use Cons.prems(3) Cons.prems(6) [rule_format, of 0] in simp)+
  have st: "length (w_states w1) = Suc (length (w_states w))"
      "w_by_name w1 = (w_by_name w)(namespace_name n \<mapsto> of_nat (length (w_states w)))"
    using r none by (auto simp: node_register_def Let_def)
  have "\<forall>m \<in> set ns. w_by_name w1 (namespace_name m) = None"
    using Cons.prems(4,5) st(2) by (auto simp: image_iff)
  moreover have "\<forall>j < length ns. nsf (of_nat (length (w_states w1) + j)) =
      namespace_state_new (of_nat (length (w_states w1) + j)) (ns ! j)"
    using Cons.prems(6) [rule_format, of "Suc j" for j] st(1) by simp
  ultimately show ?case using Cons.IH [OF ok] Cons.prems(3,4) st(1) r by simp
qed simp

text \<open>A node that was built is sound and knows its namespaces by their position.\<close>

lemma builder_build_ok:
  assumes "distinct (map namespace_name (nb_namespaces b))" and "length (nb_namespaces b) \<le> 2 ^ 32"
    and "\<forall>j < length (nb_namespaces b). nsf (of_nat j) = namespace_state_new (of_nat j) (nb_namespaces b ! j)"
  shows "node_ok e ver nsf (builder_build b t)" and "registered nsf (builder_build b t)"
proof -
  let ?w = "world_new (blocks_open (nb_cache b) (smallest_block_size (nb_namespaces b))) (nb_hedge_concurrency b) t"
  have "w_states ?w = []" "w_by_name ?w = Map.empty" by (simp_all add: world_new_def)
  then have "node_ok e ver nsf (fold (\<lambda>n w. snd (node_register n w)) (nb_namespaces b) ?w)
      \<and> registered nsf (fold (\<lambda>n w. snd (node_register n w)) (nb_namespaces b) ?w)"
    by (intro register_fold_ok world_new_ok) (use assms in simp_all)
  then show "node_ok e ver nsf (builder_build b t)" and "registered nsf (builder_build b t)"
    by (simp_all add: builder_build_def)
qed

section \<open>Invalidation\<close>

lemma remove_blocks_held:
  "blocks_held (w_blocks (fold (remove_block e key) is w)) k =
     (if k \<in> block_key_new key IMMUTABLE_TAG ` set is then None else blocks_held (w_blocks w) k)"
  by (induction "is" arbitrary: w) (auto simp: remove_block_def blocks_store.remove_held)

text \<open>What an invalidation leaves.\<close>

lemma node_invalidate_forgets:
  assumes "honest (e_meta e)" and "engine_state w i = Inr ns"
  shows "let key = object_key_new i object; w' = snd (node_invalidate e i object w) in
    fst (lookup_meta e key ttl w') = Missing \<and> latest (w_readahead w') key = None
    \<and> (is_immutable (consistency_of ns) \<and> e_meta e (w_meta w) key = Some en \<longrightarrow>
        (\<forall>j < block_count (bs_of ns) (meta_size (entry_meta en)).
           blocks_held (w_blocks w') (block_key_new key IMMUTABLE_TAG j) = None))
    \<and> (e_meta e (w_meta w) key = None \<longrightarrow> w_blocks w' = w_blocks w)"
proof -
  let ?key = "object_key_new i object"
  define w1 where "w1 = w\<lparr>w_readahead := readahead_forget (w_readahead w) ?key\<rparr>"
  obtain c where c: "get_meta e ?key None w1 = (map_option entry_meta (e_meta e (w_meta w) ?key), w1\<lparr>w_meta := c\<rparr>)"
    by (cases "e_meta e (w_meta w) ?key")
      (auto simp: get_meta_def meta_get_def meta_lookup_def lru_get_def w1_def)
  define drop where "drop = (\<lambda>en :: meta_entry. fold (remove_block e ?key)
      (range_list (Range 0 (block_count (bs_of ns) (meta_size (entry_meta en))))) (w1\<lparr>w_meta := c\<rparr>))"
  define v where "v = (if is_immutable (consistency_of ns)
      then (case e_meta e (w_meta w) ?key of None \<Rightarrow> w1\<lparr>w_meta := c\<rparr> | Some en \<Rightarrow> drop en) else w1)"
  have w': "snd (node_invalidate e i object w) = remove_meta ?key v"
    using assms(2) c by (auto simp: node_invalidate_def Let_def v_def w1_def [symmetric] drop_def split: option.splits)
  have ra: "w_readahead (fold (remove_block e ?key) is u) = w_readahead u" for "is" u
    by (induction "is" arbitrary: u) (simp_all add: remove_block_def)
  have "fst (lookup_meta e ?key ttl (remove_meta ?key v)) = Missing"
    using lru.get_after_remove [OF assms(1), of "w_meta v" ?key]
    by (simp add: lookup_meta_def remove_meta_def meta_remove_def meta_lookup_def lru_get_def)
  moreover have "latest (w_readahead (remove_meta ?key v)) ?key = None"
    by (simp add: remove_meta_def v_def drop_def ra w1_def readahead_forget_def lru.remove_held split: option.split)
  moreover have "blocks_held (w_blocks (drop en)) (block_key_new ?key IMMUTABLE_TAG j) = None"
    if "j < block_count (bs_of ns) (meta_size (entry_meta en))" for j
    using that by (auto simp: drop_def remove_blocks_held set_range_list)
  ultimately show ?thesis unfolding Let_def w' by (simp add: remove_meta_def) (simp add: v_def w1_def)
qed

end
