(* ===== verification/Reader_Correct.thy ===== *)
theory Reader_Correct
  imports Reader Engine_Correct
begin

text \<open>
  Correctness of streaming reads: whatever the caches answer and however the origin fails, a read
  ends, and a read that succeeds returns the bytes the request asks for of one version of the
  object.
\<close>

section \<open>What a read promises\<close>

definition answer :: "read_range \<Rightarrow> bytes \<Rightarrow> bytes" where
  "answer request data =
     (case requested request (length data) of None \<Rightarrow> [] | Some (a, b) \<Rightarrow> bslice a b data)"

text \<open>Every block of every version has an index of its own.\<close>

definition versions_fit :: "namespaces \<Rightarrow> versions \<Rightarrow> bool" where
  "versions_fit nsf ver \<longleftrightarrow> (\<forall>i name tag. fits (bs_of (nsf i)) (length (ver i name tag)))"

lemma answer_resolve:
  assumes "resolve request sz = Inr r" and "unat sz = length data"
  shows "answer request data = bslice (unat (range_start r)) (unat (range_end r)) data"
  using assms resolve_requested [of request sz] by (simp add: answer_def)

lemma answer_bounded: "range_start r < range_end r \<Longrightarrow>
    answer (Bounded r) data = bslice (unat (range_start r)) (unat (range_end r)) data"
  by (auto simp: answer_def bslice_min_length word_less_nat_alt)

section \<open>Blocks of a range\<close>

text \<open>
  The blocks from \<open>first\<close> to \<open>stop\<close> cover the range: the range starts in the first, unless it lies
  past the end of the data, and does not reach beyond the last.
\<close>

definition placed :: "block_size \<Rightarrow> u64 urange \<Rightarrow> bytes \<Rightarrow> u32 \<Rightarrow> u32 \<Rightarrow> bool" where
  "placed bs r data first stop \<longleftrightarrow>
     (length data \<le> unat (range_start r) \<or>
        range_start r < range_end r \<and> unat first * block_usize bs \<le> unat (range_start r)
        \<and> unat (range_start r) < (unat first + 1) * block_usize bs)
     \<and> min (unat (range_end r)) (length data) \<le> unat stop * block_usize bs"

text \<open>The part of the range before block \<open>i\<close>.\<close>

definition so_far :: "block_size \<Rightarrow> u64 urange \<Rightarrow> bytes \<Rightarrow> u32 \<Rightarrow> bytes" where
  "so_far bs r data i =
     bslice (unat (range_start r)) (min (unat (range_end r)) (unat i * block_usize bs)) data"

definition whole :: "u64 urange \<Rightarrow> bytes \<Rightarrow> bytes" where
  "whole r data = bslice (unat (range_start r)) (unat (range_end r)) data"

lemma bslice_covered:
  assumes "min t (length xs) \<le> k"
  shows "bslice s (min t k) xs = bslice s t xs"
proof -
  have "min (min t k) (length xs) = min t (length xs)" using assms by linarith
  then show ?thesis using bslice_min_length [of s "min t k" xs] bslice_min_length [of s t xs] by simp
qed

lemma count_covers:
  assumes "valid_block_size bs" and "fits bs n"
  shows "min (unat t) n \<le> unat (block_count bs t) * block_usize bs"
proof -
  let ?B = "block_usize bs"
  have "unat t \<le> (unat t + ?B - 1) div ?B * ?B"
    using ceil_gt_iff [OF block_usize_pos, of "(unat t + ?B - 1) div ?B" "unat t" bs] by simp
  then show ?thesis using assms(2) by (auto simp: unat_block_count [OF assms(1)] fits_def min_def)
qed

lemma placed_blocks:
  assumes "valid_block_size bs" and "fits bs (length data)" and "blocks_of bs r = Range a b"
    and "range_start r < range_end r \<or> data = []"
  shows "placed bs r data a b"
proof (cases "data = []")
  case False
  let ?s = "range_start r" and ?B = "block_usize bs"
  have lt: "?s < range_end r" using False assms(4) by simp
  then have ab: "a = block_index bs ?s" "b = block_count bs (range_end r)"
    using assms(3) by (auto simp: blocks_of_def not_le [symmetric] split: if_splits)
  have "unat a * ?B \<le> unat ?s \<and> unat ?s < (unat a + 1) * ?B" if "unat ?s < length data"
    unfolding ab(1) unat_block_index_fits [OF assms(1,2) that]
    by (simp add: dividend_less_div_times [of ?B "unat ?s"] add.commute)
  then show ?thesis using lt count_covers [OF assms(1,2), of "range_end r"] ab(2) by (auto simp: placed_def not_le)
qed (simp add: placed_def)

lemma placed_learn:
  assumes "valid_block_size bs" and "fits bs (unat sz)" and "length data = unat sz" and "placed bs r data first stop"
  shows "placed bs (Range (range_start r) (min (range_end r) sz)) data first (min stop (block_count bs sz))"
    and "whole (Range (range_start r) (min (range_end r) sz)) data = whole r data"
    and "so_far bs (Range (range_start r) (min (range_end r) sz)) data i = so_far bs r data i"
proof -
  have "min (unat (range_end r)) (unat sz) \<le> unat (min stop (block_count bs sz)) * block_usize bs"
    using assms(3,4) count_covers [OF assms(1,2), of sz] by (auto simp: placed_def min_def)
  then show "placed bs (Range (range_start r) (min (range_end r) sz)) data first (min stop (block_count bs sz))"
    using assms(3,4) by (auto simp: placed_def unat_min word_less_nat_alt)
  show "whole (Range (range_start r) (min (range_end r) sz)) data = whole r data"
    using assms(3) bslice_min_length [of "unat (range_start r)" "unat (range_end r)" data]
    by (simp add: whole_def unat_min)
  show "so_far bs (Range (range_start r) (min (range_end r) sz)) data i = so_far bs r data i"
    using assms(3) bslice_min_length [of "unat (range_start r)" "min (unat (range_end r)) (unat i * block_usize bs)" data]
    by (simp add: so_far_def unat_min min.assoc min.commute [of "unat sz"])
qed

lemma so_far_first:
  assumes "placed bs r data first stop"
  shows "so_far bs r data first = []"
  using assms by (auto simp: placed_def so_far_def)

lemma so_far_end:
  assumes "placed bs r data first stop" and "stop \<le> i"
  shows "so_far bs r data i = whole r data"
proof -
  have "min (unat (range_end r)) (length data) \<le> unat i * block_usize bs"
    using assms mult_le_mono1 [of "unat stop" "unat i" "block_usize bs"]
    unfolding placed_def word_le_nat_alt by linarith
  then show ?thesis unfolding so_far_def whole_def by (rule bslice_covered)
qed

text \<open>A block that has nothing of the range: the range lies past the end, or is done.\<close>

lemma cut_nothing:
  assumes "valid_block_size bs" and "placed bs r data first stop" and "first \<le> i"
    and "slice_within bs i r = (a, b)" and "length (block_of bs data (unat i)) \<le> a"
  shows "so_far bs r data i = whole r data" and "i = first \<Longrightarrow> length data \<le> unat (range_start r)"
proof -
  let ?B = "block_usize bs" and ?s = "unat (range_start r)" and ?n = "length data"
  have a: "a = clamp ?s (unat i * ?B) ((unat i + 1) * ?B) - unat i * ?B"
    using assms(4) by (simp add: slice_within_bounds [OF assms(1)])
  have len: "length (block_of bs data (unat i)) = min ((unat i + 1) * ?B) ?n - min (unat i * ?B) ?n"
    by (rule length_block_of)
  have over: "?n \<le> ?s \<or> ?n \<le> unat i * ?B"
  proof (rule ccontr)
    assume "\<not> ?thesis"
    then have n: "?s < ?n" "unat i * ?B < ?n" by simp_all
    then have s: "unat first * ?B \<le> ?s" "?s < (unat first + 1) * ?B" using assms(2) by (auto simp: placed_def)
    have "unat first * ?B \<le> unat i * ?B" using assms(3) by (simp add: word_le_nat_alt)
    then have "(unat first + 1) * ?B \<le> (unat i + 1) * ?B" by simp
    then have "?s < (unat i + 1) * ?B" using s(2) by linarith
    then have "a = max ?s (unat i * ?B) - unat i * ?B" using a by (auto simp: clamp_def max_def)
    then show False using assms(5) len n \<open>?s < (unat i + 1) * ?B\<close> by (auto simp: min_def max_def split: if_splits)
  qed
  then show "so_far bs r data i = whole r data"
    unfolding so_far_def whole_def by (elim disjE) (simp, intro bslice_covered, simp)
  show "?n \<le> ?s" if "i = first"
  proof (rule ccontr)
    assume n: "\<not> ?thesis"
    then have "unat i * ?B \<le> ?s" using assms(2) that by (auto simp: placed_def)
    with over n show False by simp
  qed
qed

text \<open>A block that has a part of the range.\<close>

lemma cut_part:
  assumes "valid_block_size bs" and "placed bs r data first stop" and "first \<le> i"
    and "slice_within bs i r = (a, b)" and "a < length (block_of bs data (unat i))" and "unat i < 2 ^ 32 - 1"
  shows "so_far bs r data i @ bslice a (min b (length (block_of bs data (unat i)))) (block_of bs data (unat i))
      = so_far bs r data (i + 1)"
    and "length (block_of bs data (unat i)) < block_usize bs \<Longrightarrow> so_far bs r data (i + 1) = whole r data"
proof -
  let ?B = "block_usize bs" and ?s = "unat (range_start r)" and ?t = "unat (range_end r)" and ?n = "length data"
  let ?d = "block_of bs data (unat i)"
  have i1: "unat (i + 1) = unat i + 1" using assms(6) by (simp add: unat_next)
  have len: "length ?d = min ((unat i + 1) * ?B) ?n - min (unat i * ?B) ?n" by (rule length_block_of)
  have a: "a = clamp ?s (unat i * ?B) ((unat i + 1) * ?B) - unat i * ?B"
    using assms(4) by (simp add: slice_within_bounds [OF assms(1)])
  have n: "unat i * ?B < ?n" using assms(5) len by (auto simp: min_def split: if_splits)
  have "?s < ?n"
  proof (rule ccontr)
    assume "\<not> ?thesis"
    then show False using assms(5) a len n by (auto simp: clamp_def min_def split: if_splits)
  qed
  then have s: "range_start r < range_end r" "unat first * ?B \<le> ?s" "?s < (unat first + 1) * ?B"
    using assms(2) by (auto simp: placed_def)
  have "bslice a (min b (length ?d)) ?d = bslice a b ?d" by (rule bslice_min_length)
  also have "\<dots> = bslice (max ?s (unat i * ?B)) (min ?t ((unat i + 1) * ?B)) data"
    by (rule slice_within_block_of [OF assms(1) _ assms(4)]) (use s(1) in \<open>simp add: word_less_nat_alt\<close>)
  finally have cut: "bslice a (min b (length ?d)) ?d = bslice (max ?s (unat i * ?B)) (min ?t ((unat i + 1) * ?B)) data" .
  show "so_far bs r data i @ bslice a (min b (length ?d)) ?d = so_far bs r data (i + 1)"
  proof -
    consider (inside) "?s \<le> unat i * ?B" "unat i * ?B \<le> ?t" | (before) "unat i * ?B < ?s" | (past) "?t < unat i * ?B"
      by linarith
    then show ?thesis
    proof cases
      case inside
      then show ?thesis using bslice_append [of ?s "unat i * ?B" "min ?t ((unat i + 1) * ?B)" data]
        by (simp add: cut so_far_def i1 max_absorb2 min_absorb2)
    next
      case before
      then show ?thesis by (simp add: cut so_far_def i1)
    next
      case past
      then show ?thesis by (simp add: cut so_far_def i1 min_absorb1)
    qed
  qed
  show "so_far bs r data (i + 1) = whole r data" if "length ?d < ?B"
  proof -
    have "?n \<le> (unat i + 1) * ?B" using that len n by (auto simp: min_def split: if_splits)
    then show ?thesis unfolding so_far_def whole_def i1 by (intro bslice_covered) simp
  qed
qed

section \<open>Readers\<close>

text \<open>
  A sound reader: its window holds handles that serve the blocks it emits next, its blocks cover
  its range, its range is what the request asks for, and \<open>acc\<close>, what it has emitted, is the part of
  the range before the next block, all of it when it is done.
\<close>

abbreviation rd_content :: "versions \<Rightarrow> reader \<Rightarrow> bytes" where
  "rd_content ver rd \<equiv> ctx_content ver (rd_ctx rd)"

abbreviation rd_bs :: "reader \<Rightarrow> block_size" where
  "rd_bs rd \<equiv> ctx_bs (rd_ctx rd)"

definition window_ok :: "env \<Rightarrow> versions \<Rightarrow> namespaces \<Rightarrow> reader \<Rightarrow> world \<Rightarrow> bool" where
  "window_ok e ver nsf rd w \<longleftrightarrow>
     unat (rd_next rd) = unat (rd_emit rd) + length (rd_window rd)
     \<and> list_all2 (serves e ver nsf w) (rd_window rd)
         (map (ctx_block (rd_ctx rd)) (range_list (Range (rd_emit rd) (rd_next rd))))"

definition range_ok :: "versions \<Rightarrow> reader \<Rightarrow> bool" where
  "range_ok ver rd \<longleftrightarrow>
     placed (rd_bs rd) (rd_range rd) (rd_content ver rd) (rd_first rd) (rd_end rd)
     \<and> rd_first rd \<le> rd_emit rd
     \<and> whole (rd_range rd) (rd_content ver rd) = answer (rd_request rd) (rd_content ver rd)"

definition emitted :: "versions \<Rightarrow> reader \<Rightarrow> bytes" where
  "emitted ver rd = so_far (rd_bs rd) (rd_range rd) (rd_content ver rd) (rd_emit rd)"

definition reader_ok :: "env \<Rightarrow> versions \<Rightarrow> namespaces \<Rightarrow> bytes \<Rightarrow> reader \<Rightarrow> world \<Rightarrow> bool" where
  "reader_ok e ver nsf acc rd w \<longleftrightarrow>
     ctx_sound e ver nsf (rd_ctx rd) \<and> known e ver (rd_ctx rd) (rd_known rd)
     \<and> window_ok e ver nsf rd w \<and> range_ok ver rd \<and> acc = emitted ver rd
     \<and> (rd_done rd \<longrightarrow> emitted ver rd = answer (rd_request rd) (rd_content ver rd))"

lemma window_ok_advances:
  "advances e ver nsf w w' \<Longrightarrow> window_ok e ver nsf rd w \<Longrightarrow> window_ok e ver nsf rd w'"
  unfolding window_ok_def by (auto elim: list_all2_mono dest: advances_serves)

lemma reader_ok_advances:
  "advances e ver nsf w w' \<Longrightarrow> reader_ok e ver nsf acc rd w \<Longrightarrow> reader_ok e ver nsf acc rd w'"
  by (simp add: reader_ok_def window_ok_advances)

lemma ctx_immutable:
  assumes "ctx_sound e ver nsf ctx" and "ctx_tag ctx = IMMUTABLE_TAG"
  shows "is_immutable (consistency_of (ctx_namespace ctx))"
    and "meta_of_version (e_tag e) ver (ctx_namespace ctx) (ctx_name ctx) m \<Longrightarrow> carries e ver ctx m"
  using assms by (simp_all add: ctx_sound_def ctx_ok_def carries_def block_tag_def)

text \<open>Metadata of a block the reader was served, or of the cache, is that of the version.\<close>

lemma learn_ok:
  assumes "env_ok e ver nsf" and "node_ok e ver nsf w" and "reader_ok e ver nsf acc rd w"
    and "\<And>m. meta = Some m \<Longrightarrow> rd_known rd = None \<Longrightarrow> carries e ver (rd_ctx rd) m"
    and "learn e meta rd w = (rd', w')"
  shows "advances e ver nsf w w'" and "reader_ok e ver nsf acc rd' w'" and "meta \<noteq> None \<Longrightarrow> rd_known rd' \<noteq> None"
proof -
  obtain found w1 where f: "(case meta of Some m \<Rightarrow> (Some m, w) | None \<Rightarrow> any_meta e (ctx_key (rd_ctx rd)) w) = (found, w1)"
    by fastforce
  have w: "world_ok e ver nsf w" using assms(2) by (simp add: node_ok_def)
  have a1: "advances e ver nsf w w1"
  proof (cases meta)
    case None
    then show ?thesis using any_meta_settles(1) [OF assms(1) w] f settles_none_advances [OF assms(2)] by simp
  qed (use f advances_refl [OF assms(2)] in simp)
  have carried: "carries e ver (rd_ctx rd) m" if "rd_known rd = None" "found = Some m" for m
  proof (cases meta)
    case None
    then have "meta_ok e ver nsf (ctx_key (rd_ctx rd)) m"
      using any_meta_settles(2) [OF assms(1) w, of "ctx_key (rd_ctx rd)"] f that by simp
    moreover have "ctx_tag (rd_ctx rd) = IMMUTABLE_TAG" "ctx_named nsf (rd_ctx rd)" "ctx_sound e ver nsf (rd_ctx rd)"
      using assms(3) that(1) by (simp_all add: reader_ok_def known_def ctx_sound_def)
    ultimately show ?thesis using ctx_immutable(2) by (simp add: ctx_named_def meta_ok_def object_key_new_def)
  qed (use f that assms(4) in auto)
  have "advances e ver nsf w w' \<and> reader_ok e ver nsf acc rd' w' \<and> (meta \<noteq> None \<longrightarrow> rd_known rd' \<noteq> None)"
  proof (cases "rd_known rd = None")
    case False
    then show ?thesis using assms(3,5) advances_refl [OF assms(2)] by (auto simp: learn_def)
  next
    case unknown: True
    show ?thesis
    proof (cases found)
      case None
      then show ?thesis using unknown f assms(5) a1 reader_ok_advances [OF a1 assms(3)]
        by (cases meta) (auto simp: learn_def)
    next
      case (Some m)
      let ?rd = "rd\<lparr>rd_range := Range (range_start (rd_range rd)) (min (range_end (rd_range rd)) (meta_size m)),
          rd_end := min (rd_end rd) (block_count (rd_bs rd) (meta_size m)),
          rd_known := Some m, rd_shared := (if rd_restarted rd then rd_shared rd else Some m)\<rparr>"
      have eq: "rd' = ?rd" "w' = w1" using assms(5) unknown Some f by (simp_all add: learn_def)
      note c = carried [OF unknown Some]
      have v: "valid_block_size (rd_bs rd)"
        using ctx_sound_valid [OF assms(1)] assms(3) by (simp add: reader_ok_def ctx_sound_def)
      have pl: "placed (rd_bs rd) (rd_range rd) (rd_content ver rd) (rd_first rd) (rd_end rd)"
        using assms(3) by (simp add: reader_ok_def range_ok_def)
      note p = placed_learn [OF v carries_size(2) [OF c] carries_size(1) [OF c] pl]
      have "reader_ok e ver nsf acc ?rd w1"
        using reader_ok_advances [OF a1 assms(3)] c p
        by (simp add: reader_ok_def known_def window_ok_def range_ok_def emitted_def)
      then show ?thesis using a1 eq by simp
    qed
  qed
  then show "advances e ver nsf w w'" and "reader_ok e ver nsf acc rd' w'" and "meta \<noteq> None \<Longrightarrow> rd_known rd' \<noteq> None" by auto
qed

section \<open>Filling the window\<close>

lemma range_list_append:
  assumes "unat (a :: u32) \<le> unat b" and "unat b \<le> unat c"
  shows "range_list (Range a c) = range_list (Range a b) @ range_list (Range b c)"
  using assms upt_add_eq_append [of "unat a" "unat b" "unat c - unat b"] by (simp add: range_list_def flip: map_append)

lemma fill_loop_ok:
  assumes "env_ok e ver nsf" and "node_ok e ver nsf w" and "reader_ok e ver nsf acc rd w"
    and "fill_loop e limit rd w = (rd', w')"
  shows "advances e ver nsf w w' \<and> reader_ok e ver nsf acc rd' w'
    \<and> (rd_window rd' = [] \<and> 0 < limit \<longrightarrow> rd_end rd' \<le> rd_next rd') \<and> rd_done rd' = rd_done rd"
  using assms
proof (induction e limit rd w arbitrary: rd' w' rule: fill_loop.induct)
  case (1 e limit rd w)
  let ?n = "rd_next rd + fill_take rd"
  obtain hs w1 where sch: "schedule e (rd_ctx rd) (Range (rd_next rd) ?n) Foreground w = (hs, w1)" by fastforce
  let ?rd = "rd\<lparr>rd_next := ?n, rd_window := rd_window rd @ hs\<rparr>"
  have sound: "ctx_sound e ver nsf (rd_ctx rd)" using "1.prems"(3) by (simp add: reader_ok_def)
  note sa = schedule_advances [OF "1.prems"(1,2) sound sch]
  have nxt: "reader_ok e ver nsf acc ?rd w1" "hs \<noteq> []" if "rd_next rd < rd_end rd"
  proof -
    note t = fill_take_bounds [OF that]
    have len: "length hs = unat (fill_take rd)" using list_all2_lengthD [OF sa(2)] t by simp
    then show "hs \<noteq> []" using t(1) by auto
    have win: "window_ok e ver nsf rd w1"
      using window_ok_advances [OF sa(1)] "1.prems"(3) by (simp add: reader_ok_def)
    have "window_ok e ver nsf ?rd w1"
      using win sa(2) len t(2) range_list_append [of "rd_emit rd" "rd_next rd" ?n]
      by (auto simp: window_ok_def intro!: list_all2_appendI)
    then show "reader_ok e ver nsf acc ?rd w1"
      using reader_ok_advances [OF sa(1) "1.prems"(3)] by (simp add: reader_ok_def range_ok_def emitted_def)
  qed
  note step = fill_loop.simps [of e limit rd w]
  consider (stop) "\<not> (length (rd_window rd) < limit \<and> rd_next rd < rd_end rd)"
    | (full) "length (rd_window rd) < limit" "rd_next rd < rd_end rd" "rd_window rd \<noteq> []"
        "length (rd_window rd) + unat (fill_take rd) > limit"
    | (unsized) "length (rd_window rd) < limit" "rd_next rd < rd_end rd" "rd_size rd = None"
        "\<not> (rd_window rd \<noteq> [] \<and> length (rd_window rd) + unat (fill_take rd) > limit)"
    | (more) "length (rd_window rd) < limit" "rd_next rd < rd_end rd" "rd_size rd \<noteq> None"
        "\<not> (rd_window rd \<noteq> [] \<and> length (rd_window rd) + unat (fill_take rd) > limit)"
    by blast
  then show ?case
  proof cases
    case stop
    then show ?thesis using "1.prems"(3,4) advances_refl [OF "1.prems"(2)] by (auto simp: step)
  next
    case full
    then show ?thesis using "1.prems"(3,4) advances_refl [OF "1.prems"(2)] by (auto simp: step)
  next
    case unsized
    have "rd_size ?rd = None" using unsized(3) by (simp add: rd_size_def)
    then have "rd' = ?rd" "w' = w1" using unsized "1.prems"(4) by (auto simp: step sch Let_def)
    then show ?thesis using nxt [OF unsized(2)] sa(1) by simp
  next
    case more
    have sz: "rd_size ?rd \<noteq> None" using more(3) by (simp add: rd_size_def)
    have go: "fill_loop e limit ?rd w1 = (rd', w')" using more sz "1.prems"(4) by (auto simp: step sch Let_def)
    from "1.IH" [OF _ more(4) sch [symmetric] refl sz "1.prems"(1) advances_node_ok [OF sa(1)] nxt(1) [OF more(2)] go] more(1,2)
    show ?thesis using advances_trans [OF sa(1)] by auto
  qed
qed

lemma reader_fill_ok:
  assumes "env_ok e ver nsf" and "node_ok e ver nsf w" and "reader_ok e ver nsf acc rd w"
    and "reader_fill e rd w = (rd', w')"
  shows "advances e ver nsf w w'" and "reader_ok e ver nsf acc rd' w'"
    and "rd_window rd' = [] \<Longrightarrow> rd_end rd' \<le> rd_next rd'" and "rd_done rd' = rd_done rd"
proof -
  obtain rd1 w1 where l: "learn e None rd w = (rd1, w1)" by fastforce
  note lo = learn_ok [OF assms(1-3) _ l, simplified]
  define config where "config = ns_config (ctx_namespace (rd_ctx rd1))"
  define limit where "limit = unat (if rd_size rd1 \<noteq> None then read_window config else fetch_window config)"
  have "valid_config config"
    using lo(2) assms(1) unfolding config_def reader_ok_def ctx_sound_def ctx_named_def env_ok_def by metis
  then have "0 < limit" by (auto simp: limit_def valid_config_def word_le_nat_alt)
  moreover have "fill_loop e limit rd1 w1 = (rd', w')"
    using assms(4) unfolding reader_fill_def l limit_def config_def Let_def prod.case .
  note fo = fill_loop_ok [OF assms(1) advances_node_ok [OF lo(1)] lo(2) this]
  ultimately show "advances e ver nsf w w'" and "reader_ok e ver nsf acc rd' w'"
    and "rd_window rd' = [] \<Longrightarrow> rd_end rd' \<le> rd_next rd'" and "rd_done rd' = rd_done rd"
    using advances_trans [OF lo(1)] learn_frame [OF l] by auto
qed

lemma reader_fill_same:
  assumes "reader_fill e rd w = (rd', w')"
  shows "rd_request rd' = rd_request rd" and "rd_ctx rd' = rd_ctx rd"
proof -
  have loop: "fill_loop e limit rd w = (rd', w') \<Longrightarrow> rd_request rd' = rd_request rd \<and> rd_ctx rd' = rd_ctx rd" for limit rd w
  proof (induction e limit rd w rule: fill_loop.induct)
    case (1 e limit rd w)
    obtain hs w1 where sch: "schedule e (rd_ctx rd) (Range (rd_next rd) (rd_next rd + fill_take rd)) Foreground w = (hs, w1)"
      by fastforce
    show ?case
      using "1.prems" "1.IH" [OF _ _ sch [symmetric] refl]
      by (auto simp: fill_loop.simps [of e limit rd] sch Let_def split: if_splits)
  qed
  obtain rd1 w1 where l: "learn e None rd w = (rd1, w1)" by fastforce
  then obtain limit where "fill_loop e limit rd1 w1 = (rd', w')" using assms by (auto simp: reader_fill_def Let_def)
  from loop [OF this] learn_frame [OF l] show "rd_request rd' = rd_request rd" "rd_ctx rd' = rd_ctx rd" by simp_all
qed

section \<open>Serving a block\<close>

lemma blocks_settles:
  assumes "world_ok e ver nsf w" and "blocks_store.all_held (block_ok nsf ver) bl"
  shows "settles e ver nsf {} w (w\<lparr>w_blocks := bl\<rparr>)"
  using assms by (simp add: settles_def guarantees_def world_ok_def serves_def)

lemma record_read_settles:
  assumes "world_ok e ver nsf w" and "blocks_record_read (e_hybrid e) (w_blocks w) k b = (written, bl)"
  shows "settles e ver nsf {} w (w\<lparr>w_blocks := bl\<rparr>)"
proof (rule blocks_settles [OF assms(1)])
  have "blocks_held bl = blocks_held (w_blocks w)"
    using blocks_record_read_held [of "e_hybrid e" "w_blocks w" k b] assms(2) by simp
  then show "blocks_store.all_held (block_ok nsf ver) bl"
    using assms(1) by (simp add: world_ok_def blocks_store.all_held_def)
qed

text \<open>A reader after it took the handle of block \<open>i\<close> off its window.\<close>

lemma window_ok_take:
  assumes "window_ok e ver nsf rd w" and "rd_window rd = h # hs"
  shows "serves e ver nsf w h (ctx_block (rd_ctx rd) (rd_emit rd))"
    and "unat (rd_emit rd) < 2 ^ 32 - 1"
    and "window_ok e ver nsf (rd\<lparr>rd_window := hs, rd_emit := rd_emit rd + 1\<rparr>) w"
proof -
  have n: "unat (rd_next rd) = unat (rd_emit rd) + Suc (length hs)" using assms by (simp add: window_ok_def)
  then show lt: "unat (rd_emit rd) < 2 ^ 32 - 1" using u32_bound [of "rd_next rd"] by simp
  have "range_list (Range (rd_emit rd) (rd_next rd)) = rd_emit rd # range_list (Range (rd_emit rd + 1) (rd_next rd))"
    using n by (intro range_list_Cons) (simp add: word_less_nat_alt)
  then show "serves e ver nsf w h (ctx_block (rd_ctx rd) (rd_emit rd))"
    and "window_ok e ver nsf (rd\<lparr>rd_window := hs, rd_emit := rd_emit rd + 1\<rparr>) w"
    using assms n unat_next [OF lt] by (simp_all add: window_ok_def)
qed

lemma learn_take:
  "learn e meta (rd\<lparr>rd_window := hs, rd_emit := i\<rparr>) w =
     (case learn e meta rd w of (rd, w) \<Rightarrow> (rd\<lparr>rd_window := hs, rd_emit := i\<rparr>, w))"
  by (simp add: learn_def split: prod.splits option.splits)

text \<open>What a round leads to.\<close>

definition item_ok :: "env \<Rightarrow> versions \<Rightarrow> namespaces \<Rightarrow> bytes \<Rightarrow> reader \<Rightarrow> (nestor_error + bytes) option \<Rightarrow> reader \<Rightarrow> world \<Rightarrow> bool" where
  "item_ok e ver nsf acc rd r rd' w' \<longleftrightarrow>
     (case r of
        None \<Rightarrow> acc = answer (rd_request rd) (rd_content ver rd)
      | Some (Inl err) \<Rightarrow> True
      | Some (Inr chunk) \<Rightarrow>
          reader_ok e ver nsf (acc @ chunk) rd' w' \<and> rd_emit rd < rd_emit rd'
          \<and> rd_ctx rd' = rd_ctx rd \<and> rd_request rd' = rd_request rd \<and> rd_restarted rd' = rd_restarted rd)"

lemma served_meta:
  assumes "ctx_sound e ver nsf ctx" and "ctx_tag ctx = IMMUTABLE_TAG" and "block_ok nsf ver (ctx_block ctx i) b"
  shows "carries e ver ctx (block_meta b)"
proof (rule ctx_immutable(2) [OF assms(1,2)])
  have named: "ctx_namespace ctx = nsf (ctx_ns ctx)" "ctx_key ctx = object_key_new (ctx_ns ctx) (ctx_name ctx)"
    using assms(1) by (simp_all add: ctx_sound_def ctx_named_def)
  show "meta_of_version (e_tag e) ver (ctx_namespace ctx) (ctx_name ctx) (block_meta b)"
    by (rule block_ok_meta [of _ nsf, OF named(1) ctx_immutable(1) [OF assms(1,2)]]) (use assms(2,3) named(2) in simp)
qed

lemma reader_block_ok:
  assumes "env_ok e ver nsf" and "node_ok e ver nsf w" and "reader_ok e ver nsf acc rd w"
    and "\<not> rd_done rd" and "rd_window rd = h # hs" and "block_ok nsf ver (ctx_block (rd_ctx rd) (rd_emit rd)) b"
    and "reader_block e (rd_emit rd) b (rd\<lparr>rd_window := hs, rd_emit := rd_emit rd + 1\<rparr>) w = (r, rd', w')"
  shows "advances e ver nsf w w' \<and> item_ok e ver nsf acc rd r rd' w'"
proof -
  let ?i = "rd_emit rd" and ?ctx = "rd_ctx rd" and ?D = "rd_content ver rd" and ?d = "block_data b"
  obtain rd1 w1 where l: "learn e (Some (block_meta b)) rd w = (rd1, w1)" by fastforce
  have sound: "ctx_sound e ver nsf ?ctx" using assms(3) by (simp add: reader_ok_def)
  have "carries e ver ?ctx (block_meta b)" if "rd_known rd = None"
    using served_meta [OF sound _ assms(6)] assms(3) that by (simp add: reader_ok_def known_def)
  then have lo: "advances e ver nsf w w1" "reader_ok e ver nsf acc rd1 w1"
    using learn_ok [OF assms(1-3) _ l] by simp_all
  note fr = learn_frame [OF l]
  let ?bs = "ctx_bs ?ctx" and ?r = "rd_range rd1"
  have v: "valid_block_size ?bs" using ctx_sound_valid [OF assms(1)] sound by (simp add: ctx_sound_def)
  have d: "?d = block_of ?bs ?D (unat ?i)"
    using assms(6) sound ctx_block_simps(1,2) [of nsf ?ctx] by (simp add: block_ok_def ctx_sound_def)
  have pl: "placed ?bs ?r ?D (rd_first rd1) (rd_end rd1)" "rd_first rd1 \<le> ?i"
      "whole ?r ?D = answer (rd_request rd) ?D" "acc = so_far ?bs ?r ?D ?i"
    using lo(2) fr by (simp_all add: reader_ok_def range_ok_def emitted_def)
  note win = window_ok_take [of e ver nsf rd1 w1 h hs]
  have win1: "window_ok e ver nsf rd1 w1" using lo(2) by (simp add: reader_ok_def)
  obtain a c where cut: "slice_within ?bs ?i ?r = (a, c)" by fastforce
  note step = assms(7) [unfolded reader_block_def learn_take l]
  show ?thesis
  proof (cases "?d = [] \<or> length ?d \<le> a")
    case True
    then have "length (block_of ?bs ?D (unat ?i)) \<le> a" using d by auto
    note none = cut_nothing [OF v pl(1,2) cut this]
    have "w' = w1" "r = None \<or> (\<exists>err. r = Some (Inl err))" using True step fr cut by (auto simp: Let_def split: if_splits)
    then show ?thesis using lo(1) none(1) pl(3,4) by (auto simp: item_ok_def)
  next
    case False
    then have a: "a < length (block_of ?bs ?D (unat ?i))" using d by auto
    have i: "unat ?i < 2 ^ 32 - 1" using win(2) win1 fr assms(5) by simp
    note part = cut_part [OF v pl(1,2) cut a i]
    have i1: "unat (?i + 1) = Suc (unat ?i)" using i by (rule unat_next)
    obtain written bl where rr: "blocks_record_read (e_hybrid e) (w_blocks w1) (ctx_block ?ctx ?i) b = (written, bl)" by fastforce
    let ?w2 = "w1\<lparr>w_blocks := bl\<rparr>"
    let ?w3 = "if written then count (ctx_ns ?ctx) ReusedBlocks 1 ?w2 else ?w2"
    let ?out = "bslice a (min c (length ?d)) ?d"
    let ?rd2 = "rd1\<lparr>rd_window := hs, rd_emit := ?i + 1\<rparr>"
    let ?rd3 = "if length ?d < block_usize ?bs \<or> rd_end rd1 \<le> ?i + 1 then ?rd2\<lparr>rd_done := True\<rparr> else ?rd2"
    have eq: "r = Some (Inr ?out)" "rd' = ?rd3" "w' = count (ctx_ns ?ctx) BytesServed (length ?out) ?w3"
      using False step rr fr cut by (auto simp: not_le Let_def)
    have w1: "world_ok e ver nsf w1" using lo(1) by (simp add: advances_def node_ok_def)
    have "settles e ver nsf {} w1 ?w2" by (rule record_read_settles [OF w1 rr])
    moreover have "quiet ?w2 w'" by (simp add: eq(3) quiet_count)
    ultimately have "settles e ver nsf {} w1 w'" using quiet_settles settles_none settles_world_ok by metis
    then have adv1: "advances e ver nsf w1 w'" by (rule settles_none_advances [OF advances_node_ok [OF lo(1)]])
    have out: "acc @ ?out = so_far ?bs ?r ?D (?i + 1)" using part(1) pl(4) d by simp
    have "so_far ?bs ?r ?D (?i + 1) = answer (rd_request rd) ?D" if "rd_done ?rd3"
      using that part(2) so_far_end [OF pl(1), of "?i + 1"] pl(3) d fr assms(4) by (auto split: if_splits)
    moreover have "window_ok e ver nsf ?rd2 w'"
      using window_ok_advances [OF adv1] win(3) win1 fr assms(5) by simp
    moreover have "rd_first rd1 \<le> ?i + 1" using pl(2) i1 by (simp add: word_le_nat_alt)
    ultimately have "reader_ok e ver nsf (acc @ ?out) rd' w'"
      using lo(2) pl(1,3) out fr unfolding eq(2)
      by (simp add: reader_ok_def range_ok_def emitted_def window_ok_def)
    then show ?thesis using advances_trans [OF lo(1) adv1] i1 fr
      by (auto simp: item_ok_def eq word_less_nat_alt)
  qed
qed

section \<open>Starting and starting again\<close>

lemma first_group_start:
  assumes "first_group bs request win = Some (Range a b)" and "resolve request sz = Inr r"
    and "range_start r < range_end r"
  shows "range_start (blocks_of bs r) = a"
  using assms
  by (cases request) (auto simp: first_group_def blocks_of_def block_index_def Let_def min_def split: if_splits)

text \<open>The reader of a context whose size is known.\<close>

lemma sized_reader_ok:
  assumes "env_ok e ver nsf" and "resolved e ver nsf ns name pol (first_group (bs_of ns) (rd_request rd) win) (Inr (rd_ctx rd, hs)) w"
    and "ctx_meta (rd_ctx rd) = Some m" and "resolve (rd_request rd) (meta_size m) = Inr (rd_range rd)"
    and "blocks_of (ctx_bs (rd_ctx rd)) (rd_range rd) = Range (rd_first rd) (rd_end rd)"
    and "rd_known rd = Some m" and "rd_next rd = rd_first rd + of_nat (length hs)" and "rd_emit rd = rd_first rd"
    and "rd_window rd = hs" and "\<not> rd_done rd"
  shows "reader_ok e ver nsf [] rd w"
proof -
  let ?ctx = "rd_ctx rd" and ?D = "rd_content ver rd" and ?r = "rd_range rd"
  have sound: "ctx_sound e ver nsf ?ctx" and ns: "ctx_namespace ?ctx = ns" using assms(2) by (simp_all add: resolved_def)
  have c: "carries e ver ?ctx m" using sound assms(3) by (simp add: ctx_sound_def known_def)
  note sz = carries_size [OF c]
  have v: "valid_block_size (ctx_bs ?ctx)" using ctx_sound_valid [OF assms(1)] sound by (simp add: ctx_sound_def)
  have ne: "range_start ?r < range_end ?r \<or> ?D = []"
    using resolve_in_bounds [OF assms(4)] sz(1) by (auto simp: le_less)
  have pl: "placed (ctx_bs ?ctx) ?r ?D (rd_first rd) (rd_end rd)"
    using sz by (intro placed_blocks [OF v _ assms(5) ne]) simp
  have "window_ok e ver nsf rd w"
  proof (cases "hs = []")
    case True
    then show ?thesis using assms(7-9) by (simp add: window_ok_def)
  next
    case False
    then obtain a b where ab: "first_group (bs_of ns) (rd_request rd) win = Some (Range a b)"
        "length hs \<le> unat (min b (block_count (bs_of ns) (meta_size m))) - unat a"
        "list_all2 (serves e ver nsf w) hs (map (ctx_block ?ctx) (take (length hs) (range_list (Range a b))))"
      using assms(2,3) by (auto simp: resolved_def)
    have "meta_size m \<noteq> 0"
    proof
      assume "meta_size m = 0"
      then have "unat (block_count (bs_of ns) (meta_size m)) = 0"
        using v ns by (simp add: unat_block_count)
      then show False using ab(2) False by (simp add: unat_min)
    qed
    then have "range_start ?r < range_end ?r" using ne sz(1) by (auto simp: unat_eq_zero)
    from first_group_start [OF ab(1) assms(4) this] have a: "rd_first rd = a" using assms(5) ns by simp
    have len: "unat a + length hs \<le> unat b" using ab(2) False [folded length_greater_0_conv] unfolding unat_min by linarith
    then have n: "unat (rd_next rd) = unat a + length hs"
      unfolding assms(7) a using u32_bound [of b] by (simp add: unat_plus_no_wrap unat_of_nat)
    have "take (length hs) (range_list (Range a b)) = range_list (Range a (rd_next rd))"
      using len n by (simp add: range_list_def take_map take_upt)
    then show ?thesis using ab(3) n assms(8,9) a by (simp add: window_ok_def)
  qed
  moreover have "whole ?r ?D = answer (rd_request rd) ?D"
    using answer_resolve [OF assms(4)] sz(1) by (simp add: whole_def)
  ultimately show ?thesis using sound c assms(6,8,10) pl so_far_first [OF pl]
    by (simp add: reader_ok_def known_def range_ok_def emitted_def)
qed

text \<open>The reader of a context of an immutable namespace whose size is not known.\<close>

lemma unsized_reader_ok:
  assumes "env_ok e ver nsf" and "versions_fit nsf ver" and "ctx_sound e ver nsf ctx" and "ctx_meta ctx = None"
    and "range_start r < range_end r"
  shows "reader_ok e ver nsf [] (reader_new (Bounded r) ctx r []) w"
proof -
  have v: "valid_block_size (ctx_bs ctx)" using ctx_sound_valid [OF assms(1)] assms(3) by (simp add: ctx_sound_def)
  have f: "fits (ctx_bs ctx) (length (ctx_content ver ctx))"
    using assms(2,3) unfolding versions_fit_def ctx_sound_def ctx_named_def by metis
  have pl: "placed (ctx_bs ctx) r (ctx_content ver ctx) (range_start (blocks_of (ctx_bs ctx) r)) (range_end (blocks_of (ctx_bs ctx) r))"
    using assms(5) by (intro placed_blocks [OF v f]) simp_all
  show ?thesis using assms(3,4) pl so_far_first [OF pl] answer_bounded [OF assms(5)]
    by (simp add: reader_ok_def reader_new_def Let_def ctx_sound_def window_ok_def range_ok_def emitted_def whole_def)
qed

lemma reader_restart_ok:
  assumes "env_ok e ver nsf" and "node_ok e ver nsf w" and "ctx_sound e ver nsf (rd_ctx rd)" and "\<not> rd_done rd"
    and "reader_restart e rd w = (res, rd', w')"
  shows "advances e ver nsf w w'"
    and "res = Inr u \<Longrightarrow> reader_ok e ver nsf [] rd' w' \<and> rd_request rd' = rd_request rd
      \<and> ctx_namespace (rd_ctx rd') = ctx_namespace (rd_ctx rd) \<and> ctx_name (rd_ctx rd') = ctx_name (rd_ctx rd)"
proof -
  let ?ctx = "rd_ctx rd"
  let ?ns = "ctx_namespace ?ctx"
  have ns: "?ns = nsf (ns_id ?ns)" using assms(3) by (simp add: ctx_sound_def ctx_named_def)
  obtain rs w1 where rs: "resolve_ctx e ?ns (ctx_name ?ctx) (rd_request rd) (ctx_policy ?ctx) w = (rs, w1)" by fastforce
  have ok: "advances e ver nsf w w1"
      "resolved e ver nsf ?ns (ctx_name ?ctx) (ctx_policy ?ctx)
         (first_group (bs_of ?ns) (rd_request rd) (fetch_window (ns_config ?ns))) rs w1"
    using resolve_ctx_resolved [OF assms(1) ns assms(2) rs] by simp_all
  have "w' = w1" using assms(5) rs
    by (auto simp: reader_restart_def Let_def split: sum.splits prod.splits option.splits)
  with ok(1) show "advances e ver nsf w w'" by simp
  assume "res = Inr u"
  then obtain ctx hs m r where eq: "rs = Inr (ctx, hs)" "ctx_meta ctx = Some m" "resolve (rd_request rd) (meta_size m) = Inr r"
      "rd' = rd\<lparr>rd_restarted := True, rd_window := [], rd_range := r, rd_ctx := ctx, rd_known := Some m,
          rd_first := range_start (blocks_of (ctx_bs ctx) r),
          rd_next := range_start (blocks_of (ctx_bs ctx) r) + of_nat (length hs),
          rd_end := range_end (blocks_of (ctx_bs ctx) r), rd_emit := range_start (blocks_of (ctx_bs ctx) r), rd_window := hs\<rparr>"
    using assms(5) rs
    by (auto simp: reader_restart_def Let_def split: sum.splits prod.splits option.splits)
  have "reader_ok e ver nsf [] rd' w1"
    by (rule sized_reader_ok [OF assms(1), of ?ns "ctx_name ?ctx" "ctx_policy ?ctx" rd' "fetch_window (ns_config ?ns)" hs])
      (use ok(2) eq assms(4) in simp_all)
  then show "reader_ok e ver nsf [] rd' w' \<and> rd_request rd' = rd_request rd
      \<and> ctx_namespace (rd_ctx rd') = ctx_namespace (rd_ctx rd) \<and> ctx_name (rd_ctx rd') = ctx_name (rd_ctx rd)"
    using \<open>w' = w1\<close> eq ok(2) by (simp add: resolved_def)
qed

section \<open>Rounds\<close>

definition same_object :: "reader \<Rightarrow> reader \<Rightarrow> bool" where
  "same_object rd rd' \<longleftrightarrow> rd_request rd' = rd_request rd
     \<and> ctx_namespace (rd_ctx rd') = ctx_namespace (rd_ctx rd) \<and> ctx_name (rd_ctx rd') = ctx_name (rd_ctx rd)"

text \<open>How far a reader is: it starts again once, and then only goes on.\<close>

definition reader_progress :: "reader \<Rightarrow> nat \<times> nat" where
  "reader_progress rd = ((if rd_restarted rd then 0 else 1), 2 ^ 32 - unat (rd_emit rd))"

definition round_sound :: "env \<Rightarrow> versions \<Rightarrow> namespaces \<Rightarrow> bytes \<Rightarrow> reader \<Rightarrow> world \<Rightarrow> round_outcome \<Rightarrow> bool" where
  "round_sound e ver nsf acc rd w st \<longleftrightarrow>
     (case st of
        Waits \<Rightarrow> False
      | Emits r rd' w' \<Rightarrow> advances e ver nsf w w' \<and> item_ok e ver nsf acc rd r rd' w'
      | Loops rd' w' \<Rightarrow> advances e ver nsf w w' \<and> reader_ok e ver nsf acc rd' w' \<and> same_object rd rd'
          \<and> (reader_progress rd', reader_progress rd) \<in> (less_than <*lex*> less_than)\<^sup>=)"

lemma reader_failed_ok:
  assumes "env_ok e ver nsf" and "node_ok e ver nsf w" and "reader_ok e ver nsf acc rd w"
    and "\<not> rd_done rd" and "rd_window rd = h # hs"
  shows "round_sound e ver nsf acc rd w
    (reader_failed e (rd_emit rd) err (rd\<lparr>rd_window := hs, rd_emit := rd_emit rd + 1\<rparr>) w)"
proof -
  let ?i = "rd_emit rd" and ?rd = "rd\<lparr>rd_window := hs, rd_emit := rd_emit rd + 1\<rparr>"
  have sound: "ctx_sound e ver nsf (rd_ctx rd)" and win: "window_ok e ver nsf rd w" and rng: "range_ok ver rd"
    and acc: "acc = emitted ver rd"
    using assms(3) by (simp_all add: reader_ok_def)
  note tk = window_ok_take [OF win assms(5)]
  consider (again) "is_cancelled err" "rd_refetched rd \<noteq> Some ?i"
    | (restart) "\<not> (is_cancelled err \<and> rd_refetched rd \<noteq> Some ?i)" "is_stale err" "\<not> rd_restarted rd" "?i = rd_first rd"
    | (fail) "\<not> (is_cancelled err \<and> rd_refetched rd \<noteq> Some ?i)" "\<not> (is_stale err \<and> \<not> rd_restarted rd \<and> ?i = rd_first rd)"
    by blast
  then show ?thesis
  proof cases
    case again
    obtain gs w1 where sch: "schedule e (rd_ctx rd) (Range ?i (?i + 1)) Foreground w = (gs, w1)" by fastforce
    note sa = schedule_advances [OF assms(1,2) sound sch]
    let ?rd1 = "?rd\<lparr>rd_refetched := Some ?i, rd_emit := ?i, rd_window := gs @ hs\<rparr>"
    have i1: "unat (?i + 1) = Suc (unat ?i)" using tk(2) by (rule unat_next)
    have "range_list (Range ?i (rd_next rd)) = range_list (Range ?i (?i + 1)) @ range_list (Range (?i + 1) (rd_next rd))"
      using win assms(5) i1 by (intro range_list_append) (simp_all add: window_ok_def)
    moreover have "length gs = 1" using list_all2_lengthD [OF sa(2)] i1 by simp
    ultimately have "window_ok e ver nsf ?rd1 w1"
      using window_ok_advances [OF sa(1) tk(3)] window_ok_advances [OF sa(1) win] sa(2) assms(5)
      by (auto simp: window_ok_def intro!: list_all2_appendI)
    then have "reader_ok e ver nsf acc ?rd1 w1"
      using assms(3) by (simp add: reader_ok_def range_ok_def emitted_def)
    then show ?thesis using again sa(1)
      by (simp add: reader_failed_def sch round_sound_def same_object_def reader_progress_def)
  next
    case restart
    obtain res rd1 w1 where rs: "reader_restart e ?rd w = (res, rd1, w1)" by (metis surj_pair)
    note ro = reader_restart_ok [OF assms(1,2) _ _ rs]
    have "acc = []" using so_far_first [of "rd_bs rd" "rd_range rd" "rd_content ver rd" "rd_first rd" "rd_end rd"] acc rng restart(4)
      by (simp add: emitted_def range_ok_def)
    moreover have "rd_restarted rd1" using reader_restart_frame [OF rs] .
    ultimately show ?thesis
      using restart ro sound assms(4) rs
      by (cases res) (auto simp: reader_failed_def round_sound_def item_ok_def same_object_def reader_progress_def)
  next
    case fail
    then show ?thesis using advances_refl [OF assms(2)]
      by (auto simp: reader_failed_def round_sound_def item_ok_def)
  qed
qed

lemma reader_round_ok:
  assumes "env_ok e ver nsf" and "node_ok e ver nsf w" and "reader_ok e ver nsf acc rd w"
  shows "round_sound e ver nsf acc rd w (reader_round e rd w)"
proof (cases "rd_done rd")
  case True
  then show ?thesis using assms(3) advances_refl [OF assms(2)]
    by (auto simp: reader_round_def round_sound_def item_ok_def reader_ok_def)
next
  case False
  obtain rd1 w1 where f: "reader_fill e rd w = (rd1, w1)" by fastforce
  note fo = reader_fill_ok [OF assms f] and fr = reader_fill_frame [OF f]
  have same: "rd_request rd1 = rd_request rd" "rd_ctx rd1 = rd_ctx rd" by (rule reader_fill_same [OF f])+
  have carry: "round_sound e ver nsf acc rd w st" if "round_sound e ver nsf acc rd1 w1 st" for st
    using that advances_trans [OF fo(1)] same fr
    by (auto simp: round_sound_def item_ok_def same_object_def reader_progress_def split: round_outcome.splits option.splits sum.splits)
  show ?thesis
  proof (cases "rd_window rd1")
    case Nil
    then have "rd_end rd1 \<le> rd_emit rd1"
      using fo(2,3) by (simp add: reader_ok_def window_ok_def word_le_nat_alt)
    then have "acc = answer (rd_request rd) (rd_content ver rd)"
      using fo(2) so_far_end [of "rd_bs rd1" "rd_range rd1" "rd_content ver rd1" "rd_first rd1" "rd_end rd1" "rd_emit rd1"] same
      by (simp add: reader_ok_def range_ok_def emitted_def)
    then show ?thesis using False f fo(1) Nil by (simp add: reader_round_def round_sound_def item_ok_def)
  next
    case (Cons h hs)
    let ?i = "rd_emit rd1" and ?rd = "rd1\<lparr>rd_window := hs, rd_emit := rd_emit rd1 + 1\<rparr>"
    note n1 = advances_node_ok [OF fo(1)]
    have "serves e ver nsf w1 h (ctx_block (rd_ctx rd1) ?i)"
      using window_ok_take(1) [OF _ Cons] fo(2) by (simp add: reader_ok_def)
    from await_slot_ends [OF assms(1) n1 this] obtain r w2 where
      aw: "await_slot e h w1 = Some (r, w2)" "advances e ver nsf w1 w2" "result_ok nsf ver (ctx_block (rd_ctx rd1) ?i) r"
      by blast
    note n2 = advances_node_ok [OF aw(2)] and ok2 = reader_ok_advances [OF aw(2) fo(2)]
    have nd: "\<not> rd_done rd1" using False fo(4) by simp
    have st: "reader_round e rd w =
        (case r of Inr b \<Rightarrow> (case reader_block e ?i b ?rd w2 of (r, rd, w) \<Rightarrow> Emits r rd w)
         | Inl err \<Rightarrow> reader_failed e ?i err ?rd w2)"
      using False f Cons aw(1) by (simp add: reader_round_def Let_def split: sum.splits)
    have "round_sound e ver nsf acc rd1 w2 (reader_round e rd w)"
    proof (cases r)
      case (Inl err)
      then show ?thesis using reader_failed_ok [OF assms(1) n2 ok2 nd Cons] st by simp
    next
      case (Inr b)
      obtain r1 rd2 w3 where rb: "reader_block e ?i b ?rd w2 = (r1, rd2, w3)" by (metis surj_pair)
      from reader_block_ok [OF assms(1) n2 ok2 nd Cons _ rb] aw(3) Inr
      show ?thesis using st rb by (simp add: round_sound_def)
    qed
    then have "round_sound e ver nsf acc rd1 w1 (reader_round e rd w)"
      using advances_trans [OF aw(2)] by (auto simp: round_sound_def split: round_outcome.splits)
    then show ?thesis by (rule carry)
  qed
qed

section \<open>Reading to the end\<close>

definition next_ok :: "env \<Rightarrow> versions \<Rightarrow> namespaces \<Rightarrow> bytes \<Rightarrow> reader \<Rightarrow> world \<Rightarrow> (nestor_error + bytes) option \<Rightarrow> reader \<Rightarrow> world \<Rightarrow> bool" where
  "next_ok e ver nsf acc rd w r rd' w' \<longleftrightarrow> advances e ver nsf w w' \<and>
     (case r of
        None \<Rightarrow> \<exists>rd1. same_object rd rd1 \<and> ctx_sound e ver nsf (rd_ctx rd1)
          \<and> acc = answer (rd_request rd) (rd_content ver rd1)
      | Some (Inl err) \<Rightarrow> True
      | Some (Inr chunk) \<Rightarrow> reader_ok e ver nsf (acc @ chunk) rd' w' \<and> same_object rd rd'
          \<and> (reader_progress rd', reader_progress rd) \<in> less_than <*lex*> less_than)"

text \<open>The next item always comes.\<close>

lemma reader_next_ok:
  assumes "env_ok e ver nsf" and "node_ok e ver nsf w" and "reader_ok e ver nsf acc rd w"
  shows "\<exists>r rd' w'. reader_next e rd w = Some (r, rd', w') \<and> next_ok e ver nsf acc rd w r rd' w'"
  using assms
proof (induction e rd w rule: reader_next.induct)
  case (1 e rd w)
  note ro = reader_round_ok [OF "1.prems"]
  show ?case
  proof (cases "reader_round e rd w")
    case Waits
    then show ?thesis using ro by (simp add: round_sound_def)
  next
    case (Emits r rd1 w1)
    then have "next_ok e ver nsf acc rd w r rd1 w1"
      using ro "1.prems"(3) u32_bound [of "rd_emit rd1"]
      by (auto simp: round_sound_def item_ok_def next_ok_def same_object_def reader_progress_def word_less_nat_alt reader_ok_def
          split: option.splits sum.splits)
    then show ?thesis using Emits by (simp add: reader_next.simps [of e])
  next
    case (Loops rd1 w1)
    then have l: "advances e ver nsf w w1" "reader_ok e ver nsf acc rd1 w1" "same_object rd rd1"
        "(reader_progress rd1, reader_progress rd) \<in> (less_than <*lex*> less_than)\<^sup>="
      using ro by (simp_all add: round_sound_def)
    from "1.IH" [OF Loops "1.prems"(1) advances_node_ok [OF l(1)] l(2)] obtain r rd2 w2 where
      n: "reader_next e rd1 w1 = Some (r, rd2, w2)" "next_ok e ver nsf acc rd1 w1 r rd2 w2" by blast
    have "(reader_progress rd2, reader_progress rd) \<in> less_than <*lex*> less_than"
      if "(reader_progress rd2, reader_progress rd1) \<in> less_than <*lex*> less_than"
      using that l(4) transD [OF trans_lex_prod [OF trans_less_than trans_less_than], of "reader_progress rd2" "reader_progress rd1" "reader_progress rd"]
      by auto
    then have "next_ok e ver nsf acc rd w r rd2 w2"
      using n(2) l advances_trans [OF l(1)]
      by (auto simp: next_ok_def same_object_def split: option.splits sum.splits)
    then show ?thesis using Loops n(1) by (simp add: reader_next.simps [of e rd])
  qed
qed

text \<open>What a read to the end gives: an error, or the answer for one version of the object.\<close>

definition collected :: "versions \<Rightarrow> reader \<Rightarrow> nestor_error + bytes \<Rightarrow> bool" where
  "collected ver rd res \<longleftrightarrow>
     (\<forall>bytes. res = Inr bytes \<longrightarrow>
        (\<exists>tag. (is_immutable (consistency_of (ctx_namespace (rd_ctx rd))) \<longrightarrow> tag = IMMUTABLE_TAG)
          \<and> bytes = answer (rd_request rd) (ver (ctx_ns (rd_ctx rd)) (ctx_name (rd_ctx rd)) tag)))"

lemma collect_loop_ok:
  assumes "env_ok e ver nsf" and "node_ok e ver nsf w" and "reader_ok e ver nsf acc rd w"
    and "rs_peeked st = None" and "rs_reader st = rd"
  shows "\<exists>res w'. collect_loop e acc st w = Some (res, w') \<and> advances e ver nsf w w' \<and> collected ver rd res"
proof -
  have "wf (inv_image (less_than <*lex*> less_than) reader_progress)" by (simp add: wf_lex_prod)
  then show ?thesis using assms(2-)
  proof (induction rd arbitrary: acc st w rule: wf_induct_rule)
    case (less rd)
    obtain r rd1 w1 where n: "reader_next e rd w = Some (r, rd1, w1)" "next_ok e ver nsf acc rd w r rd1 w1"
      using reader_next_ok [OF assms(1) less.prems(1,2)] by blast
    have p: "stream_poll e st w = Some (r, st\<lparr>rs_reader := rd1\<rparr>, w1)"
      using n(1) less.prems(3,4) by (simp add: stream_poll_def)
    have a1: "advances e ver nsf w w1" using n(2) by (simp add: next_ok_def)
    note step = collect_loop.simps [of e acc st w]
    consider (stop) "r = None" | (err) err where "r = Some (Inl err)" | (chunk) chunk where "r = Some (Inr chunk)"
      by (cases r; cases "the r") auto
    then show ?case
    proof cases
      case stop
      then have "collected ver rd (Inr acc)"
        using n(2) by (auto simp: next_ok_def collected_def same_object_def ctx_sound_def ctx_ok_def)
      then show ?thesis using stop p a1 by (simp add: step)
    next
      case err
      then show ?thesis using p a1 by (simp add: step collected_def)
    next
      case chunk
      then have c: "reader_ok e ver nsf (acc @ chunk) rd1 w1" "same_object rd rd1"
          "(reader_progress rd1, reader_progress rd) \<in> less_than <*lex*> less_than"
        using n(2) by (simp_all add: next_ok_def)
      from less.IH [of rd1 w1 "acc @ chunk" "st\<lparr>rs_reader := rd1\<rparr>"] c advances_node_ok [OF a1] less.prems(3)
      obtain res w2 where "collect_loop e (acc @ chunk) (st\<lparr>rs_reader := rd1\<rparr>) w1 = Some (res, w2)"
          "advances e ver nsf w1 w2" "collected ver rd1 res"
        by auto
      then show ?thesis using chunk p c(2) advances_trans [OF a1]
        by (auto simp: step collected_def same_object_def)
    qed
  qed
qed

section \<open>Reads of a node\<close>

lemma spawn_prefetch_advances:
  assumes "node_ok e ver nsf w" and "ctx_sound e ver nsf ctx"
  shows "advances e ver nsf w (spawn (Prefetch ctx indexes) w)"
proof -
  let ?w = "spawn (Prefetch ctx indexes) w"
  have q: "queue_ok e ver nsf (w_tasks w) ?w"
    by (rule queue_ok_frame [of e ver nsf _ w]) (use assms(1) in \<open>simp_all add: node_ok_def spawn_def\<close>)
  have "queue_ok e ver nsf (w_tasks w @ [Prefetch ctx indexes]) ?w"
    using q assms(2) by (simp add: queue_ok_def ball_Un)
  then show ?thesis using assms(1) by (simp add: advances_def node_ok_def spawn_def)
qed

lemma observe_readahead_advances:
  assumes "node_ok e ver nsf w" and "ctx_sound e ver nsf ctx"
  shows "advances e ver nsf w (observe_readahead e ns ctx r w)"
proof -
  have spawned: "advances e ver nsf v (spawn_readahead ns ctx r v)" if v: "node_ok e ver nsf v" for v
  proof -
    have q: "advances e ver nsf v (count (ns_id ns) ReadaheadBlocks k v)" for k by (rule quiet_advances [OF v]) simp
    show ?thesis using advances_refl [OF v] advances_trans [OF q spawn_prefetch_advances [OF advances_node_ok [OF q] assms(2)]]
      by (auto simp: spawn_readahead_def Let_def)
  qed
  obtain sq t where ob: "readahead_observe (e_readahead e) (w_readahead w) (ctx_key ctx) r = (sq, t)" by fastforce
  note a = readahead_table_advances [OF assms(1), of t]
  show ?thesis using ob a advances_refl [OF assms(1)] advances_trans [OF a spawned [OF advances_node_ok [OF a]]]
    by (auto simp: observe_readahead_def)
qed

text \<open>A stream that was opened has a sound reader at its start.\<close>

lemma get_opts_ok:
  assumes "env_ok e ver nsf" and "versions_fit nsf ver" and "registered nsf w" and "node_ok e ver nsf w"
  shows "\<exists>res w'. get_opts e i object options w = Some (res, w') \<and> advances e ver nsf w w' \<and>
    (\<forall>st. res = Inr st \<longrightarrow> rs_peeked st = None \<and> reader_ok e ver nsf [] (rs_reader st) w'
      \<and> rd_request (rs_reader st) = ro_range options \<and> ctx_namespace (rd_ctx (rs_reader st)) = nsf i
      \<and> ctx_name (rd_ctx (rs_reader st)) = object)"
proof (cases "engine_state w i")
  case (Inl err)
  then show ?thesis using advances_refl [OF assms(4)] by (simp add: get_opts_def)
next
  case (Inr ns)
  note ns = engine_state_registered [OF assms(1,3) Inr]
  define pol where "pol = policy_with (fetch (ns_config ns)) (ro_fetch options)"
  obtain rs w1 where rs: "resolve_ctx e ns object (ro_range options) pol w = (rs, w1)" by fastforce
  have ok: "advances e ver nsf w w1"
      "resolved e ver nsf ns object pol (first_group (bs_of ns) (ro_range options) (fetch_window (ns_config ns))) rs w1"
    using resolve_ctx_resolved [OF assms(1) ns(2) assms(4) rs] by simp_all
  show ?thesis
  proof (cases rs)
    case err: (Inl err)
    then show ?thesis using Inr rs ok(1) by (simp add: get_opts_def pol_def)
  next
    case got: (Inr ch)
    obtain ctx hs where ch: "ch = (ctx, hs)" by fastforce
    have ctx: "ctx_sound e ver nsf ctx" "ctx_namespace ctx = nsf i" "ctx_name ctx = object"
      using ok(2) got ch ns(1) by (simp_all add: resolved_def)
    let ?go = "\<lambda>r. (Inr (into_stream (reader_new (ro_range options) ctx r hs)), observe_readahead e ns ctx r w1)"
    have opened: "advances e ver nsf w (observe_readahead e ns ctx r w1)" for r
      using advances_trans [OF ok(1) observe_readahead_advances [OF advances_node_ok [OF ok(1)] ctx(1)]] .
    have sound: "reader_ok e ver nsf [] rd (observe_readahead e ns ctx r w1)" if "reader_ok e ver nsf [] rd w1" for rd r
      by (rule reader_ok_advances [OF observe_readahead_advances [OF advances_node_ok [OF ok(1)] ctx(1)] that])
    have fields: "rs_peeked (into_stream rd) = None" "rs_reader (into_stream rd) = rd"
        "rd_request (reader_new req ctx r hs) = req" "rd_ctx (reader_new req ctx r hs) = ctx" for rd req r
      by (simp_all add: into_stream_def reader_new_def Let_def)
    show ?thesis
    proof (cases "ctx_meta ctx")
      case (Some m)
      have "reader_ok e ver nsf [] (reader_new (ro_range options) ctx r hs) w1" if "resolve (ro_range options) (meta_size m) = Inr r" for r
        by (rule sized_reader_ok [OF assms(1), of ns object pol _ "fetch_window (ns_config ns)" hs])
          (use ok(2) got ch Some that in \<open>simp_all add: reader_new_def Let_def\<close>)
      then show ?thesis using Inr rs got ch Some ok(1) opened sound fields ctx
        by (cases "resolve (ro_range options) (meta_size m)") (auto simp: get_opts_def pol_def [symmetric] ctx_size_def Let_def)
    next
      case None
      note un = resolve_ctx_unsized [OF rs [unfolded got ch] None]
      then obtain r where r: "ro_range options = Bounded r" by (cases "ro_range options") auto
      have "reader_ok e ver nsf [] (reader_new (Bounded r) ctx r hs) w1" if "range_start r < range_end r"
        using unsized_reader_ok [OF assms(1,2) ctx(1) None that] un(3) by simp
      then show ?thesis using Inr rs got ch None r ok(1) opened sound fields ctx
        by (auto simp: get_opts_def pol_def [symmetric] ctx_size_def Let_def not_le)
    qed
  qed
qed

text \<open>Reading a stream to its end.\<close>

lemma get_collect_ok:
  assumes "env_ok e ver nsf" and "versions_fit nsf ver" and "registered nsf w" and "node_ok e ver nsf w"
  shows "\<exists>res w1. get_opts e i object options w = Some (res, w1) \<and> advances e ver nsf w w1
    \<and> (\<forall>st. res = Inr st \<longrightarrow>
        (\<exists>out w2. stream_collect e st w1 = Some (out, w2) \<and> advances e ver nsf w w2
          \<and> (\<forall>bytes. out = Inr bytes \<longrightarrow>
              (\<exists>tag. (is_immutable (consistency_of (nsf i)) \<longrightarrow> tag = IMMUTABLE_TAG)
                \<and> bytes = answer (ro_range options) (ver i object tag)))))"
proof -
  obtain res w1 where g: "get_opts e i object options w = Some (res, w1)" "advances e ver nsf w w1"
      "\<And>st. res = Inr st \<Longrightarrow> rs_peeked st = None \<and> reader_ok e ver nsf [] (rs_reader st) w1
        \<and> rd_request (rs_reader st) = ro_range options \<and> ctx_namespace (rd_ctx (rs_reader st)) = nsf i
        \<and> ctx_name (rd_ctx (rs_reader st)) = object"
    using get_opts_ok [OF assms, of i object options] by auto
  have id: "ns_id (nsf i) = i" using assms(1) by (simp add: env_ok_def)
  have "\<exists>out w2. stream_collect e st w1 = Some (out, w2) \<and> advances e ver nsf w w2
      \<and> (\<forall>bytes. out = Inr bytes \<longrightarrow>
          (\<exists>tag. (is_immutable (consistency_of (nsf i)) \<longrightarrow> tag = IMMUTABLE_TAG)
            \<and> bytes = answer (ro_range options) (ver i object tag)))" if "res = Inr st" for st
  proof -
    note st = g(3) [OF that]
    obtain out w2 where c: "collect_loop e [] st w1 = Some (out, w2)" "advances e ver nsf w1 w2" "collected ver (rs_reader st) out"
      using collect_loop_ok [OF assms(1) advances_node_ok [OF g(2)], of "[]" "rs_reader st" st] st by auto
    show ?thesis using c(1,3) st id advances_trans [OF g(2) c(2)]
      by (auto simp: stream_collect_def collected_def)
  qed
  then show ?thesis using g(1,2) by auto
qed

lemma node_read_ok:
  assumes "env_ok e ver nsf" and "versions_fit nsf ver" and "registered nsf w" and "node_ok e ver nsf w"
  shows "\<exists>res w'. node_read e i object r w = Some (res, w') \<and> advances e ver nsf w w'
    \<and> (\<forall>bytes. res = Inr bytes \<longrightarrow>
         (\<exists>tag. (is_immutable (consistency_of (nsf i)) \<longrightarrow> tag = IMMUTABLE_TAG)
           \<and> bytes = answer (Bounded r) (ver i object tag)))"
proof -
  obtain res w1 where g: "node_get e i object (Bounded r) w = Some (res, w1)" "advances e ver nsf w w1"
      "\<And>st. res = Inr st \<Longrightarrow> \<exists>out w2. stream_collect e st w1 = Some (out, w2) \<and> advances e ver nsf w w2
        \<and> (\<forall>bytes. out = Inr bytes \<longrightarrow>
            (\<exists>tag. (is_immutable (consistency_of (nsf i)) \<longrightarrow> tag = IMMUTABLE_TAG)
              \<and> bytes = answer (Bounded r) (ver i object tag)))"
    using get_collect_ok [OF assms, of i object "\<lparr>ro_range = Bounded r, ro_fetch = overrides_default\<rparr>"]
    by (auto simp: node_get_def)
  show ?thesis
  proof (cases res)
    case (Inl err)
    then show ?thesis using g(1,2) by (simp add: node_read_def)
  next
    case (Inr st)
    from g(3) [OF this] show ?thesis using g(1) Inr by (auto simp: node_read_def)
  qed
qed

end
