(* ===== verification/Memory_Origin.thy ===== *)
theory Memory_Origin
  imports Reader_Correct
begin

text \<open>
  The in-memory origin, \<^verbatim>\<open>nestor/src/memory.rs\<close>: objects with generated entity tags, injected
  latency, stalls and failures. It is the instance that shows that what the engine relies on can
  hold: an engine over it reads back what was put. A request and its answer are one step, made at an
  instant \<open>t\<close>; the instant of a chunk behind a stall counts from the response.
\<close>

section \<open>State\<close>

record stored_object =
  so_body :: bytes
  so_etag :: bytes
  so_modified :: systime

record memory_origin =
  mo_objects :: "string \<Rightarrow> stored_object option"
  mo_gets :: nat
  mo_heads :: nat
  mo_bytes :: nat
  mo_chunk :: nat
  mo_whole :: bool
  mo_latency :: nanos
  mo_slow :: "(nat \<times> nanos) option"
  mo_stall :: "(nat \<times> nanos) option"
  mo_failures :: nat
  mo_fail_every :: nat
  mo_versions :: u64

definition memory_new :: memory_origin where
  "memory_new =
     \<lparr>mo_objects = (\<lambda>_. None), mo_gets = 0, mo_heads = 0, mo_bytes = 0, mo_chunk = 64 * 1024, mo_whole = False,
      mo_latency = 0, mo_slow = None, mo_stall = None, mo_failures = 0, mo_fail_every = 0, mo_versions = 1\<rparr>"

definition with_chunk :: "nat \<Rightarrow> memory_origin \<Rightarrow> memory_origin" where
  "with_chunk n m = m\<lparr>mo_chunk := max n 1\<rparr>"

definition with_whole_objects :: "memory_origin \<Rightarrow> memory_origin" where
  "with_whole_objects m = m\<lparr>mo_whole := True\<rparr>"

text \<open>\<^verbatim>\<open>put\<close> at the system time \<open>t\<close>.\<close>

definition memory_put :: "systime \<Rightarrow> string \<Rightarrow> bytes \<Rightarrow> memory_origin \<Rightarrow> bytes \<times> memory_origin" where
  "memory_put t object data m =
     (let etag = as_bytes (CHR 0x22 # ''v'' @ show_nat (unat (mo_versions m)) @ [CHR 0x22])
      in (etag, m\<lparr>mo_versions := mo_versions m + 1,
                  mo_objects := (mo_objects m)(object \<mapsto> \<lparr>so_body = data, so_etag = etag, so_modified = t\<rparr>)\<rparr>))"

definition memory_remove :: "string \<Rightarrow> memory_origin \<Rightarrow> memory_origin" where
  "memory_remove object m = m\<lparr>mo_objects := (mo_objects m)(object := None)\<rparr>"

definition set_latency :: "nanos \<Rightarrow> memory_origin \<Rightarrow> memory_origin" where
  "set_latency d m = m\<lparr>mo_latency := d\<rparr>"

definition slow_next :: "nat \<Rightarrow> nanos \<Rightarrow> memory_origin \<Rightarrow> memory_origin" where
  "slow_next n d m = m\<lparr>mo_slow := Some (n, d)\<rparr>"

definition stall_next :: "nat \<Rightarrow> nanos \<Rightarrow> memory_origin \<Rightarrow> memory_origin" where
  "stall_next n d m = m\<lparr>mo_stall := Some (n, d)\<rparr>"

definition fail_next :: "nat \<Rightarrow> memory_origin \<Rightarrow> memory_origin" where
  "fail_next n m = m\<lparr>mo_failures := n\<rparr>"

definition fail_every :: "nat \<Rightarrow> memory_origin \<Rightarrow> memory_origin" where
  "fail_every n m = m\<lparr>mo_fail_every := n\<rparr>"

section \<open>Injection\<close>

definition take_injected :: "(nat \<times> nanos) option \<Rightarrow> nanos \<times> (nat \<times> nanos) option" where
  "take_injected slot =
     (case slot of
        Some (remaining, delay) \<Rightarrow> if remaining > 0 then (delay, Some (remaining - 1, delay)) else (0, slot)
      | None \<Rightarrow> (0, None))"

definition take_failure :: "memory_origin \<Rightarrow> bool \<times> memory_origin" where
  "take_failure m =
     (if mo_failures m > 0 then (True, m\<lparr>mo_failures := mo_failures m - 1\<rparr>)
      else (mo_fail_every m > 0 \<and> mo_fail_every m dvd mo_gets m + mo_heads m, m))"

definition memory_delay :: "memory_origin \<Rightarrow> nanos \<times> memory_origin" where
  "memory_delay m =
     (case take_injected (mo_slow m) of (d, slot) \<Rightarrow> (mo_latency m + d, m\<lparr>mo_slow := slot\<rparr>))"

text \<open>\<^verbatim>\<open>simulate_network\<close>: whether the request fails, and how long it takes.\<close>

definition simulate_network :: "memory_origin \<Rightarrow> (origin_error + unit) \<times> nanos \<times> memory_origin" where
  "simulate_network m =
     (case take_failure m of
        (failing, m) \<Rightarrow>
          (case memory_delay m of
             (delay, m) \<Rightarrow> (if failing then Inl (Io ''injected failure'') else Inr (), delay, m)))"

section \<open>Requests\<close>

definition memory_lookup :: "memory_origin \<Rightarrow> string \<Rightarrow> origin_error + stored_object" where
  "memory_lookup m object = (case mo_objects m object of Some s \<Rightarrow> Inr s | None \<Rightarrow> Inl NotFound)"

definition stored_meta :: "stored_object \<Rightarrow> object_meta" where
  "stored_meta s =
     \<lparr>meta_size = of_nat (length (so_body s)), meta_etag = Some (so_etag s), meta_last_modified = Some (so_modified s)\<rparr>"

definition memory_resolve :: "u64 urange option \<Rightarrow> u64 \<Rightarrow> origin_error + u64 urange" where
  "memory_resolve rng sz =
     (case rng of
        None \<Rightarrow> Inr (Range 0 sz)
      | Some r \<Rightarrow>
          if range_start r \<ge> sz \<or> range_start r \<ge> range_end r then Inl (Io ''range not satisfiable'')
          else Inr (Range (range_start r) (min (range_end r) sz)))"

text \<open>The body in chunks; from the second on they come after the stall.\<close>

definition memory_chunks :: "nat \<Rightarrow> nanos \<Rightarrow> nanos \<Rightarrow> bytes \<Rightarrow> chunk list" where
  "memory_chunks n t stall body =
     map (\<lambda>i. (if i = 0 then t else t + stall, Inr (bslice (i * n) (min (i * n + n) (length body)) body)))
       [0..<(length body + n - 1) div n]"

definition memory_answer ::
  "memory_origin \<Rightarrow> nanos \<Rightarrow> string \<Rightarrow> get_options \<Rightarrow> (origin_error + get_response) \<times> memory_origin" where
  "memory_answer m t object options =
     (case memory_lookup m object of
        Inl err \<Rightarrow> (Inl err, m)
      | Inr stored \<Rightarrow>
          if (case opt_if_match options of Some x \<Rightarrow> x \<noteq> so_etag stored | None \<Rightarrow> False)
          then (Inl PreconditionFailed, m)
          else if (case opt_if_none_match options of Some x \<Rightarrow> x = so_etag stored | None \<Rightarrow> False)
          then (Inl NotModified, m)
          else
            let meta = stored_meta stored
            in case memory_resolve (opt_range options) (meta_size meta) of
                 Inl err \<Rightarrow> (Inl err, m)
               | Inr r \<Rightarrow>
                   let r = (if mo_whole m then Range 0 (meta_size meta) else r);
                       body = bslice (unat (range_start r)) (unat (range_end r)) (so_body stored);
                       m = m\<lparr>mo_bytes := mo_bytes m + length body\<rparr>
                   in case take_injected (mo_stall m) of
                        (stall, slot) \<Rightarrow>
                          (Inr \<lparr>resp_meta = meta, resp_range = r, resp_body = memory_chunks (mo_chunk m) t stall body\<rparr>,
                           m\<lparr>mo_stall := slot\<rparr>))"

definition memory_get ::
  "memory_origin \<Rightarrow> nanos \<Rightarrow> string \<Rightarrow> get_options \<Rightarrow> (nanos \<times> (origin_error + get_response)) \<times> memory_origin" where
  "memory_get m t object options =
     (case simulate_network (m\<lparr>mo_gets := mo_gets m + 1\<rparr>) of
        (Inl err, delay, m) \<Rightarrow> ((t + delay, Inl err), m)
      | (Inr _, delay, m) \<Rightarrow>
          (case memory_answer m (t + delay) object options of (r, m) \<Rightarrow> ((t + delay, r), m)))"

definition memory_head ::
  "memory_origin \<Rightarrow> nanos \<Rightarrow> string \<Rightarrow> (nanos \<times> (origin_error + object_meta)) \<times> memory_origin" where
  "memory_head m t object =
     (case simulate_network (m\<lparr>mo_heads := mo_heads m + 1\<rparr>) of
        (Inl err, delay, m) \<Rightarrow> ((t + delay, Inl err), m)
      | (Inr _, delay, m) \<Rightarrow>
          ((t + delay, case memory_lookup m object of Inl err \<Rightarrow> Inl err | Inr s \<Rightarrow> Inr (stored_meta s)), m))"

section \<open>The body of a response\<close>

lemma body_bytes_parts: "body_bytes (map (\<lambda>i. (f i, Inr (g i))) is) = concat (map g is)"
  by (induction "is") simp_all

lemma memory_chunks_bytes:
  assumes "0 < n"
  shows "body_bytes (memory_chunks n t stall body) = body"
proof -
  let ?k = "(length body + n - 1) div n"
  have "body_bytes (memory_chunks n t stall body) =
      concat (map (\<lambda>i. bslice (max 0 (i * n)) (min (length body) ((i + 1) * n)) body) [0..<?k])"
    by (simp add: memory_chunks_def body_bytes_parts add.commute min.commute)
  also have "\<dots> = bslice (max 0 (0 * n)) (min (length body) (?k * n)) body"
    by (rule concat_tiles) simp_all
  also have "\<dots> = body"
    using ceil_gt_iff [OF assms, of ?k "length body"] by simp
  finally show ?thesis .
qed

section \<open>Faithfulness\<close>

text \<open>Objects the cache can hold: few enough blocks, and a short entity tag.\<close>

definition stored_ok :: "namespace_state \<Rightarrow> stored_object \<Rightarrow> bool" where
  "stored_ok ns s \<longleftrightarrow> fits (bs_of ns) (length (so_body s)) \<and> length (so_etag s) < 2 ^ 16"

text \<open>An origin whose states are \<open>hist\<close>: at every one the tag of an object tells its content.\<close>

definition tells :: "tag_hash \<Rightarrow> versions \<Rightarrow> namespace_state \<Rightarrow> (nat \<Rightarrow> memory_origin) \<Rightarrow> bool" where
  "tells h ver ns hist \<longleftrightarrow>
     (\<forall>n name s. mo_objects (hist n) name = Some s \<longrightarrow>
        stored_ok ns s \<and> ver (ns_id ns) name (block_tag h (consistency_of ns) (stored_meta s)) = so_body s)
     \<and> (\<forall>n. 0 < mo_chunk (hist n))"

lemma simulate_network_frame:
  "simulate_network m = (r, d, m') \<Longrightarrow> mo_objects m' = mo_objects m \<and> mo_chunk m' = mo_chunk m"
  by (auto simp: simulate_network_def take_failure_def memory_delay_def split: prod.splits if_splits)

lemma fits_unat:
  assumes "valid_block_size bs" and "fits bs n"
  shows "unat (of_nat n :: u64) = n"
proof -
  have "n \<le> (2 ^ 32 - 1) * 2 ^ 24"
    using assms(2) mult_le_mono2 [OF block_usize_le [OF assms(1)], of "2 ^ 32 - 1"] by (simp add: fits_def)
  then show ?thesis by (simp add: unat_of_nat)
qed

lemma stored_meta_version:
  assumes "tells h ver ns hist" and "valid_block_size (bs_of ns)" and "mo_objects (hist n) name = Some s"
  shows "meta_of_version h ver ns name (stored_meta s)" and "unat (meta_size (stored_meta s)) = length (so_body s)"
proof -
  have ok: "stored_ok ns s" "ver (ns_id ns) name (block_tag h (consistency_of ns) (stored_meta s)) = so_body s"
    using assms(1,3) by (auto simp: tells_def)
  then show sz: "unat (meta_size (stored_meta s)) = length (so_body s)"
    using fits_unat [OF assms(2)] by (simp add: stored_meta_def stored_ok_def)
  then show "meta_of_version h ver ns name (stored_meta s)"
    using ok by (simp add: meta_of_version_def stored_ok_def) (simp add: stored_meta_def)
qed

lemma memory_answer_version:
  assumes "tells h ver ns hist" and "valid_block_size (bs_of ns)"
    and "mo_objects m = mo_objects (hist n)" and "0 < mo_chunk m"
    and "memory_answer m t name opts = (Inr resp, m')"
  shows "response_of_version h ver ns name resp"
proof -
  obtain s where s: "mo_objects (hist n) name = Some s" using assms(3,5)
    by (auto simp: memory_answer_def memory_lookup_def split: option.splits)
  note v = stored_meta_version [OF assms(1,2) s]
  have body: "ver (ns_id ns) name (block_tag h (consistency_of ns) (stored_meta s)) = so_body s"
    using assms(1) s by (auto simp: tells_def)
  obtain r stall where "resp = \<lparr>resp_meta = stored_meta s, resp_range = r,
      resp_body = memory_chunks (mo_chunk m) t stall (bslice (unat (range_start r)) (unat (range_end r)) (so_body s))\<rparr>"
    using assms(3,5) s
    by (auto simp: memory_answer_def memory_lookup_def Let_def split: option.splits sum.splits prod.splits if_splits)
  then show ?thesis using v(1) body by (simp add: response_of_version_def memory_chunks_bytes [OF assms(4)])
qed

lemma memory_get_version:
  assumes "tells h ver ns hist" and "valid_block_size (bs_of ns)"
    and "fst (memory_get (hist n) t name opts) = (ready, Inr resp)"
  shows "response_of_version h ver ns name resp"
proof -
  obtain r d m where sim: "simulate_network ((hist n)\<lparr>mo_gets := mo_gets (hist n) + 1\<rparr>) = (r, d, m)"
    by (metis surj_pair)
  note fr = simulate_network_frame [OF sim]
  obtain m' where a: "memory_answer m (t + d) name opts = (Inr resp, m')"
    using assms(3) sim by (auto simp: memory_get_def split: sum.splits prod.splits)
  show ?thesis
    by (rule memory_answer_version [OF assms(1,2) _ _ a, of n]) (use fr assms(1) in \<open>simp_all add: tells_def\<close>)
qed

lemma memory_head_version:
  assumes "tells h ver ns hist" and "valid_block_size (bs_of ns)"
    and "fst (memory_head (hist n) t name) = (ready, Inr meta)"
  shows "meta_of_version h ver ns name meta"
proof -
  obtain r d m where sim: "simulate_network ((hist n)\<lparr>mo_heads := mo_heads (hist n) + 1\<rparr>) = (r, d, m)"
    by (metis surj_pair)
  obtain s where "mo_objects (hist n) name = Some s" "meta = stored_meta s"
    using assms(3) sim simulate_network_frame [OF sim]
    by (auto simp: memory_head_def memory_lookup_def split: sum.splits prod.splits option.splits)
  then show ?thesis using stored_meta_version(1) [OF assms(1,2)] by simp
qed

section \<open>An environment\<close>

text \<open>A block cache that keeps everything, in memory.\<close>

definition keeping :: hybrid where
  "keeping =
     \<lparr>hy_get = \<lambda>log k. map_option (\<lambda>v. (v, Memory)) (latest log k), hy_contains = \<lambda>log k. latest log k \<noteq> None,
      hy_memory_get = latest, hy_same_buffer = \<lambda>log k v. latest log k = Some v, hy_hash = bk_tag, hy_reads = latest\<rparr>"

definition memory_env :: "tag_hash \<Rightarrow> (nat \<Rightarrow> memory_origin) \<Rightarrow> env" where
  "memory_env h hist =
     \<lparr>e_get = \<lambda>n t i name opts. fst (memory_get (hist n) t name opts),
      e_head = \<lambda>n t i name. fst (memory_head (hist n) t name),
      e_hybrid = keeping, e_meta = latest, e_readahead = latest, e_tag = h, e_hash = bk_tag,
      e_round = id, e_unique = \<lambda>_. True, e_clock = int\<rparr>"

lemma memory_env_ok:
  assumes "\<And>i. tells h ver (nsf i) hist" and "\<And>i. ns_id (nsf i) = i" and "\<And>i. valid_config (ns_config (nsf i))"
  shows "env_ok (memory_env h hist) ver nsf"
proof -
  have v: "valid_block_size (bs_of (nsf i))" for i using assms(3) by (simp add: valid_config_def)
  have "faithful (memory_env h hist) ver (nsf i)" for i
    using memory_get_version [OF assms(1) [of i] v] memory_head_version [OF assms(1) [of i] v]
    by (auto simp: faithful_def memory_env_def)
  moreover have "honest_hybrid keeping" by (auto simp: honest_hybrid_def keeping_def block_reads_as_def)
  ultimately show ?thesis using assms(2,3) by (simp add: env_ok_def memory_env_def honest_latest)
qed

section \<open>A node over the origin\<close>

text \<open>One namespace with the default configuration and one object of four bytes.\<close>

definition demo_origin :: memory_origin where
  "demo_origin = snd (memory_put 0 ''a'' [1, 2, 3, 4] memory_new)"

definition demo_hash :: tag_hash where
  "demo_hash = \<lparr>ah_bytes = \<lambda>_. 7, ah_u64 = id\<rparr>"

definition demo_env :: env where
  "demo_env = memory_env demo_hash (\<lambda>_. demo_origin)"

definition demo_namespace :: "u32 \<Rightarrow> namespace_state" where
  "demo_namespace i = namespace_state_new i (namespace_new ''docs'')"

definition demo_versions :: versions where
  "demo_versions i name tag = (if name = ''a'' then [1, 2, 3, 4] else [])"

definition demo_node :: world where
  "demo_node = builder_build (builder_namespace (namespace_new ''docs'') (builder_new (cache_config_memory 1 1048576))) 0"

lemma demo_namespace_simps [simp]:
  "ns_id (demo_namespace i) = i" "ns_config (demo_namespace i) = namespace_config_default"
  by (simp_all add: demo_namespace_def namespace_state_new_def namespace_new_def)

lemma demo_fits: "fits bs (Suc (Suc (Suc (Suc 0))))"
proof -
  have "(2 ^ 32 - 1) * 1 \<le> (2 ^ 32 - 1) * block_usize bs" by (rule mult_le_mono2) (simp add: Suc_le_eq)
  then show ?thesis by (simp add: fits_def)
qed

lemma demo_fits_4: "fits bs 4"
  using demo_fits [of bs] by (simp add: fits_def)

lemma demo_tells: "tells demo_hash demo_versions (demo_namespace i) (\<lambda>_. demo_origin)"
  by (auto simp: tells_def demo_origin_def memory_put_def memory_new_def demo_versions_def stored_ok_def
      demo_fits Let_def as_bytes_def show_nat.simps split: if_splits)

lemma demo_sound:
  "env_ok demo_env demo_versions demo_namespace" "versions_fit demo_namespace demo_versions"
  "node_ok e ver demo_namespace demo_node" "registered demo_namespace demo_node"
proof -
  show "env_ok demo_env demo_versions demo_namespace"
    unfolding demo_env_def by (rule memory_env_ok [OF demo_tells]) (simp_all add: valid_config_default)
  show "versions_fit demo_namespace demo_versions"
    by (simp add: versions_fit_def demo_versions_def demo_fits) (simp add: fits_def)
  show "node_ok e ver demo_namespace demo_node" "registered demo_namespace demo_node"
    unfolding demo_node_def
    by (rule builder_build_ok; simp add: builder_namespace_def builder_new_def demo_namespace_def)+
qed

lemma demo_state: "engine_state demo_node 0 = Inr (demo_namespace 0)"
  by (simp add: demo_node_def builder_build_def builder_namespace_def builder_new_def node_register_def world_new_def
      engine_state_def engine_namespace_def demo_namespace_def Let_def)

text \<open>The metadata of the object, and the context of a read of it.\<close>

definition demo_meta :: object_meta where
  "demo_meta = stored_meta (the (mo_objects demo_origin ''a''))"

definition demo_ctx :: read_ctx where
  "demo_ctx = read_ctx_new demo_hash (demo_namespace 0) (object_key_new 0 ''a'') ''a'' (Some demo_meta) fetch_policy_default"

lemma demo_ctx_sound: "ctx_sound demo_env demo_versions demo_namespace demo_ctx"
proof -
  have "mo_objects demo_origin ''a'' \<noteq> None" by (simp add: demo_origin_def memory_put_def Let_def)
  then obtain s where s: "mo_objects demo_origin ''a'' = Some s" by auto
  have "valid_block_size (bs_of (demo_namespace 0))"
    using valid_config_default by (simp add: valid_config_def)
  from stored_meta_version(1) [OF demo_tells this, of "''a''" s] s
  have "meta_of_version (e_tag demo_env) demo_versions (demo_namespace 0) ''a'' demo_meta"
    by (simp add: demo_meta_def demo_env_def memory_env_def)
  from read_ctx_new_sound [OF demo_sound(1) _ this] show ?thesis
    by (simp add: demo_ctx_def demo_env_def memory_env_def)
qed

end
