(* ===== verification/Http.thy ===== *)
theory Http
  imports Text "HOL-Library.Char_ord" "HOL-Library.List_Lexorder"
begin

text \<open>
  What the S3 crates use of HTTP: header maps, the texts of header values, and percent coding
  (\<^verbatim>\<open>uri_encode\<close> and \<^verbatim>\<open>percent_decode\<close> of \<^verbatim>\<open>nestor-s3/src/sigv4.rs\<close>). A header map is the list of
  its entries, names in lower case; a name may have several values.
\<close>

section \<open>Header maps\<close>

type_synonym header_map = "(string \<times> bytes) list"

definition hm_get_all :: "string \<Rightarrow> header_map \<Rightarrow> bytes list" where
  "hm_get_all name h = map snd (filter (\<lambda>(n, v). n = name) h)"

definition hm_get :: "string \<Rightarrow> header_map \<Rightarrow> bytes option" where
  "hm_get name h = (case hm_get_all name h of [] \<Rightarrow> None | v # _ \<Rightarrow> Some v)"

definition hm_remove :: "string \<Rightarrow> header_map \<Rightarrow> header_map" where
  "hm_remove name h = filter (\<lambda>(n, v). n \<noteq> name) h"

definition hm_insert :: "string \<Rightarrow> bytes \<Rightarrow> header_map \<Rightarrow> header_map" where
  "hm_insert name v h = hm_remove name h @ [(name, v)]"

definition hm_append :: "string \<Rightarrow> bytes \<Rightarrow> header_map \<Rightarrow> header_map" where
  "hm_append name v h = h @ [(name, v)]"

definition hm_keys :: "header_map \<Rightarrow> string list" where
  "hm_keys h = remdups (map fst h)"

text \<open>\<^verbatim>\<open>HeaderValue::to_str\<close>: visible ASCII and tabs only; \<^verbatim>\<open>HeaderValue::from_bytes\<close>: no control characters.\<close>

definition to_str :: "bytes \<Rightarrow> string option" where
  "to_str v = (if list_all (\<lambda>b. b = 9 \<or> 32 \<le> b \<and> b < 127) v then Some (of_bytes v) else None)"

definition header_value :: "bytes \<Rightarrow> bytes option" where
  "header_value v = (if list_all (\<lambda>b. b = 9 \<or> 32 \<le> b \<and> b \<noteq> 127) v then Some v else None)"

definition hm_text :: "string \<Rightarrow> header_map \<Rightarrow> string option" where
  "hm_text name h = Option.bind (hm_get name h) to_str"

lemma hm_get_insert [simp]: "hm_get name (hm_insert name' v h) = (if name = name' then Some v else hm_get name h)"
proof -
  have "hm_get_all name (hm_insert name' v h) = (if name = name' then [v] else hm_get_all name h)"
    by (induction h) (auto simp: hm_get_all_def hm_insert_def hm_remove_def)
  then show ?thesis by (simp add: hm_get_def)
qed

lemma hm_get_all_insert [simp]:
  "hm_get_all name (hm_insert name' v h) = (if name = name' then [v] else hm_get_all name h)"
  by (induction h) (auto simp: hm_get_all_def hm_insert_def hm_remove_def)

lemma hm_get_append [simp]:
  "hm_get name (hm_append name' v h) = (case hm_get name h of Some x \<Rightarrow> Some x | None \<Rightarrow> if name = name' then Some v else None)"
  by (auto simp: hm_get_def hm_get_all_def hm_append_def split: list.splits)

section \<open>Lossy decoding of UTF-8\<close>

text \<open>
  The first character of a text: its length, and whether it is well formed; of an ill-formed one
  the length of the longest start that some character has, at least one byte.
\<close>

definition utf8_second :: "u8 \<Rightarrow> u8 \<Rightarrow> bool" where
  "utf8_second a b \<longleftrightarrow> utf8_cont b \<and> (a = 0xE0 \<longrightarrow> 0xA0 \<le> b) \<and> (a = 0xED \<longrightarrow> b \<le> 0x9F)
     \<and> (a = 0xF0 \<longrightarrow> 0x90 \<le> b) \<and> (a = 0xF4 \<longrightarrow> b \<le> 0x8F)"

definition starts_with_cont :: "bytes \<Rightarrow> bool" where
  "starts_with_cont s = (case s of [] \<Rightarrow> False | b # _ \<Rightarrow> utf8_cont b)"

fun utf8_head :: "bytes \<Rightarrow> nat \<times> bool" where
  "utf8_head [] = (0, True)"
| "utf8_head (a # s) =
     (if a \<le> 0x7F then (1, True)
      else case s of
             [] \<Rightarrow> (1, False)
           | b # s \<Rightarrow>
               if \<not> (0xC2 \<le> a \<and> a \<le> 0xF4 \<and> utf8_second a b) then (1, False)
               else if a \<le> 0xDF then (2, True)
               else if \<not> starts_with_cont s then (2, False)
               else if a \<le> 0xEF then (3, True)
               else if \<not> starts_with_cont (tl s) then (3, False)
               else (4, True))"

lemma utf8_head_pos: "s \<noteq> [] \<Longrightarrow> 0 < fst (utf8_head s)"
  by (cases s) (auto split: list.splits)

function utf8_lossy :: "bytes \<Rightarrow> bytes" where
  "utf8_lossy s =
     (if s = [] then []
      else (if snd (utf8_head s) then take (fst (utf8_head s)) s else [0xEF, 0xBF, 0xBD])
        @ utf8_lossy (drop (fst (utf8_head s)) s))"
  by pat_completeness auto
termination
  by (relation "measure length") (use utf8_head_pos in \<open>auto simp: neq_Nil_conv\<close>)

declare utf8_lossy.simps [simp del]

section \<open>Percent coding\<close>

definition hex_value :: "u8 \<Rightarrow> nat option" where
  "hex_value b = digit_value 16 (char_of (unat b))"

fun pct_decode :: "bytes \<Rightarrow> bytes" where
  "pct_decode [] = []"
| "pct_decode (c # s) =
     (if c = 0x25
      then (case s of
              a # b # t \<Rightarrow>
                (case (hex_value a, hex_value b) of
                   (Some x, Some y) \<Rightarrow> of_nat (16 * x + y) # pct_decode t
                 | _ \<Rightarrow> c # pct_decode s)
            | _ \<Rightarrow> c # pct_decode s)
      else c # pct_decode s)"

definition percent_decode :: "string \<Rightarrow> string" where
  "percent_decode s = of_bytes (utf8_lossy (pct_decode (as_bytes s)))"

definition is_alphanumeric :: "u8 \<Rightarrow> bool" where
  "is_alphanumeric b \<longleftrightarrow> (48 \<le> b \<and> b \<le> 57) \<or> (65 \<le> b \<and> b \<le> 90) \<or> (97 \<le> b \<and> b \<le> 122)"

text \<open>The bytes of the set \<^verbatim>\<open>STRICT\<close>, and of \<^verbatim>\<open>PATH\<close>, that stay as they are.\<close>

definition unreserved :: "bool \<Rightarrow> u8 \<Rightarrow> bool" where
  "unreserved encode_slash b \<longleftrightarrow>
     is_alphanumeric b \<or> b = 0x2D \<or> b = 0x5F \<or> b = 0x2E \<or> b = 0x7E \<or> (b = 0x2F \<and> \<not> encode_slash)"

definition hex_upper :: "nat \<Rightarrow> u8" where
  "hex_upper d = of_nat (if d < 10 then 48 + d else 55 + d)"

definition pct_encode :: "bool \<Rightarrow> bytes \<Rightarrow> bytes" where
  "pct_encode encode_slash s =
     concat (map (\<lambda>b. if unreserved encode_slash b then [b]
                      else [0x25, hex_upper (unat b div 16), hex_upper (unat b mod 16)]) s)"

definition uri_encode :: "string \<Rightarrow> bool \<Rightarrow> string" where
  "uri_encode s encode_slash = of_bytes (pct_encode encode_slash (as_bytes s))"

section \<open>Facts\<close>

lemma u8_bound: "unat (x :: u8) < 256"
  using unat_lt2p [of x] by simp

lemma as_bytes_of_bytes [simp]: "as_bytes (of_bytes b) = b"
proof -
  have "(of_char (char_of (unat x) :: char) :: u8) = x" for x :: u8
  proof -
    have "unat (of_char (char_of (unat x) :: char) :: u8) = unat x"
      using u8_bound [of x] by simp
    then show ?thesis by (simp add: word_unat_eq_iff)
  qed
  then show ?thesis by (simp add: as_bytes_def of_bytes_def comp_def)
qed

text \<open>Lossy decoding changes nothing of a well-formed text.\<close>

lemma utf8_lossy_step:
  assumes "s \<noteq> []" and "utf8_head s = (n, True)" and "utf8_lossy (drop n s) = drop n s"
  shows "utf8_lossy s = s"
  using assms by (simp add: utf8_lossy.simps [of s])

lemma utf8_lossy_valid: "utf8_valid s \<Longrightarrow> utf8_lossy s = s"
proof (induction s rule: utf8_valid.induct)
  case 1
  then show ?case by (simp add: utf8_lossy.simps)
next
  case (2 a s)
  consider (one) "a \<le> 0x7F" | (two) b s1 where "\<not> a \<le> 0x7F" "0xC2 \<le> a" "a \<le> 0xDF" "s = b # s1"
    | (three) b c s2 where "\<not> a \<le> 0x7F" "\<not> (0xC2 \<le> a \<and> a \<le> 0xDF)" "0xE0 \<le> a" "a \<le> 0xEF" "s = b # c # s2"
    | (four) b c d s3 where "\<not> a \<le> 0x7F" "\<not> (0xC2 \<le> a \<and> a \<le> 0xDF)" "\<not> (0xE0 \<le> a \<and> a \<le> 0xEF)" "0xF0 \<le> a" "a \<le> 0xF4"
        "s = b # c # d # s3"
    using "2.prems" by (auto split: if_splits list.splits)
  then show ?case
  proof cases
    case one
    then show ?thesis using "2.IH"(1) [OF one] "2.prems" by - (rule utf8_lossy_step [where n = 1]; simp)
  next
    case two
    have "utf8_second a b" using two "2.prems" by (auto simp: utf8_second_def word_le_nat_alt)
    then show ?thesis using two "2.IH"(2) [OF two(1) _ two(4)] "2.prems"
      by - (rule utf8_lossy_step [where n = 2]; auto simp: word_le_nat_alt)
  next
    case three
    have "utf8_second a b" using three "2.prems" by (auto simp: utf8_second_def word_le_nat_alt)
    then show ?thesis using three "2.IH"(3) [OF three(1,2) _ three(5) refl] "2.prems"
      by - (rule utf8_lossy_step [where n = 3]; auto simp: starts_with_cont_def word_le_nat_alt)
  next
    case four
    have "utf8_second a b" using four "2.prems" by (auto simp: utf8_second_def word_le_nat_alt)
    then show ?thesis using four "2.IH"(4) [OF four(1-3) _ four(6) refl refl] "2.prems"
      by - (rule utf8_lossy_step [where n = 4]; auto simp: starts_with_cont_def word_le_nat_alt)
  qed
qed

text \<open>Lossy decoding gives a well-formed text.\<close>

lemma utf8_valid_append: "utf8_valid a \<Longrightarrow> utf8_valid t \<Longrightarrow> utf8_valid (a @ t)"
proof (induction a rule: utf8_valid.induct)
  case (2 a s)
  consider (one) "a \<le> 0x7F" | (two) b s1 where "\<not> a \<le> 0x7F" "0xC2 \<le> a \<and> a \<le> 0xDF" "s = b # s1"
    | (three) b c s2 where "\<not> a \<le> 0x7F" "\<not> (0xC2 \<le> a \<and> a \<le> 0xDF)" "0xE0 \<le> a \<and> a \<le> 0xEF" "s = b # c # s2"
    | (four) b c d s3 where "\<not> a \<le> 0x7F" "\<not> (0xC2 \<le> a \<and> a \<le> 0xDF)" "\<not> (0xE0 \<le> a \<and> a \<le> 0xEF)"
        "0xF0 \<le> a \<and> a \<le> 0xF4" "s = b # c # d # s3"
    using "2.prems"(1) by (auto split: if_splits list.splits)
  then show ?case
  proof cases
    case one
    then show ?thesis using "2.IH"(1) "2.prems" by simp
  next
    case two
    have "utf8_cont b \<and> utf8_valid s1" using "2.prems"(1) two by (simp only: utf8_valid.simps if_False if_True list.case)
    then show ?thesis using "2.IH"(2) [OF two] "2.prems"(2) two
      by (simp only: utf8_valid.simps if_False if_True list.case append_Cons) simp
  next
    case three
    have v: "utf8_valid s2" using "2.prems"(1) three by (simp only: utf8_valid.simps if_False if_True list.case)
    then show ?thesis using "2.IH"(3) [OF three refl v] "2.prems" three
      by (simp only: utf8_valid.simps if_False if_True list.case append_Cons) simp
  next
    case four
    have v: "utf8_valid s3" using "2.prems"(1) four by (simp only: utf8_valid.simps if_False if_True list.case)
    then show ?thesis using "2.IH"(4) [OF four refl refl v] "2.prems" four
      by (simp only: utf8_valid.simps if_False if_True list.case append_Cons) simp
  qed
qed simp

lemma utf8_head_valid: "utf8_head s = (n, True) \<Longrightarrow> utf8_valid (take n s)"
proof (induction s rule: utf8_head.induct)
  case (2 a s)
  then show ?case
    by (cases s; cases "tl s"; cases "tl (tl s)")
      (auto simp: utf8_second_def starts_with_cont_def word_le_nat_alt split: if_splits)
qed simp

lemma utf8_lossy_is_valid: "utf8_valid (utf8_lossy s)"
proof (induction s rule: utf8_lossy.induct)
  case (1 s)
  have "utf8_valid (if snd (utf8_head s) then take (fst (utf8_head s)) s else [0xEF, 0xBF, 0xBD])"
    using utf8_head_valid [of s "fst (utf8_head s)"] by (auto simp: utf8_cont_def prod_eq_iff)
  then show ?case using 1 by (subst utf8_lossy.simps) (auto intro: utf8_valid_append)
qed

text \<open>Decoding undoes encoding.\<close>

lemma hex_value_upper: "d < 16 \<Longrightarrow> hex_value (hex_upper d) = Some d"
proof -
  have "\<forall>d \<in> set [0..<16]. hex_value (hex_upper d) = Some d"
    by (simp add: upt_rec hex_value_def hex_upper_def digit_value_def Let_def)
  then show "d < 16 \<Longrightarrow> hex_value (hex_upper d) = Some d" by simp
qed

lemma pct_decode_encode: "pct_decode (pct_encode sl s) = s"
proof (induction s)
  case Nil
  then show ?case by (simp add: pct_encode_def)
next
  case (Cons b s)
  have pct: "unreserved sl b \<Longrightarrow> b \<noteq> 0x25" by (auto simp: unreserved_def is_alphanumeric_def word_le_nat_alt)
  have "unat b div 16 < 16" "unat b mod 16 < 16" using u8_bound [of b] by simp_all
  note h = hex_value_upper [OF this(1)] hex_value_upper [OF this(2)]
  have eq: "pct_encode sl (b # s) = (if unreserved sl b then [b]
      else [0x25, hex_upper (unat b div 16), hex_upper (unat b mod 16)]) @ pct_encode sl s"
    by (simp add: pct_encode_def)
  show ?case
  proof (cases "unreserved sl b")
    case True
    then show ?thesis using pct Cons.IH by (simp add: eq)
  next
    case False
    have "16 * (unat b div 16) + unat b mod 16 = unat b" by (rule mult_div_mod_eq)
    then have "(of_nat (16 * (unat b div 16) + unat b mod 16) :: u8) = b" by simp
    then show ?thesis using False h Cons.IH by (simp add: eq del: of_nat_add of_nat_mult)
  qed
qed

lemma percent_decode_encode:
  "utf8_valid (as_bytes s) \<Longrightarrow> percent_decode (uri_encode s sl) = s"
  by (simp add: percent_decode_def uri_encode_def pct_decode_encode utf8_lossy_valid)

lemma percent_decode_normal: "percent_decode (uri_encode (percent_decode s) sl) = percent_decode s"
  by (rule percent_decode_encode) (simp add: percent_decode_def utf8_lossy_is_valid)

text \<open>An encoded text is plain ASCII, of unreserved characters and percent signs.\<close>

lemma pct_encode_alphabet:
  "c \<in> set (pct_encode sl s) \<Longrightarrow> unreserved sl c \<or> c = 0x25"
proof -
  have hex: "unreserved sl (hex_upper d)" if "d < 16" for d
  proof -
    have "\<forall>d \<in> set [0..<16]. unreserved sl (hex_upper d)"
      by (simp add: upt_rec hex_upper_def unreserved_def is_alphanumeric_def word_le_nat_alt)
    then show ?thesis using that by simp
  qed
  have "unat b div 16 < 16" "unat b mod 16 < 16" for b :: u8 using u8_bound [of b] by simp_all
  then show "c \<in> set (pct_encode sl s) \<Longrightarrow> unreserved sl c \<or> c = 0x25"
    using hex by (auto simp: pct_encode_def split: if_splits)
qed

section \<open>Visible texts\<close>

text \<open>Texts of printable ASCII without blanks, such as names, numbers and signatures.\<close>

definition visible :: "char \<Rightarrow> bool" where
  "visible c \<longleftrightarrow> 33 \<le> (of_char c :: nat) \<and> (of_char c :: nat) \<le> 126"

lemma visible_no_space:
  assumes "visible c"
  shows "ws_prefix (c # s) = 0"
  using assms by (auto simp: ws_prefix_def visible_def split: list.splits)

lemma trim_start_visible: "s = [] \<or> visible (hd s) \<Longrightarrow> trim_start s = s"
  by (cases s) (simp_all add: trim_start.simps visible_no_space)

lemma ws_suffix_visible:
  assumes "s \<noteq> []" and "list_all visible s"
  shows "ws_suffix s = 0"
proof -
  have "ws_prefix (drop k s) = 0" if "k < length s" for k
  proof -
    obtain c t where d: "drop k s = c # t" using \<open>k < length s\<close> by (metis Cons_nth_drop_Suc)
    then have "c \<in> set s" by (metis in_set_dropD list.set_intros(1))
    then show ?thesis using d assms(2) visible_no_space by (simp add: list_all_iff)
  qed
  then show ?thesis by (auto simp: ws_suffix_def Let_def)
qed

lemma trim_visible: "list_all visible s \<Longrightarrow> trim s = s"
  unfolding trim_def using ws_suffix_visible [of s]
  by (cases s) (simp_all add: trim_start_visible trim_end.simps list_all_iff)

lemma digit_char_visible: "d < 16 \<Longrightarrow> visible (digit_char d)"
  by (auto simp: visible_def digit_char_def)

lemma digit_chars:
  "digit_char 0 = CHR ''0''" "digit_char (Suc 0) = CHR ''1''" "digit_char 1 = CHR ''1''" "digit_char 2 = CHR ''2''"
  "digit_char 3 = CHR ''3''" "digit_char 4 = CHR ''4''" "digit_char 5 = CHR ''5''" "digit_char 6 = CHR ''6''"
  "digit_char 7 = CHR ''7''" "digit_char 8 = CHR ''8''" "digit_char 9 = CHR ''9''"
  by code_simp+

lemma show_nat_digits: "list_all (\<lambda>c. \<exists>d < 10. c = digit_char d) (show_nat n)"
proof (induction n rule: show_nat.induct)
  case (1 n)
  have "n mod 10 < 10" by simp
  then have "\<exists>d < 10. digit_char (n mod 10) = digit_char d" by blast
  with 1 show ?case by (subst show_nat.simps) auto
qed

lemma show_nat_visible: "list_all visible (show_nat n)"
  using show_nat_digits [of n] by (rule list.pred_mono_strong) (auto intro: digit_char_visible)

lemma digit_char_neq:
  assumes "d < 10" and "of_char c < (48 :: nat) \<or> 57 < (of_char c :: nat)"
  shows "digit_char d \<noteq> c"
proof
  assume "digit_char d = c"
  then have "(of_char c :: nat) = 48 + d" using assms(1) by (auto simp: digit_char_def)
  with assms show False by linarith
qed

lemma show_nat_no_sep: "of_char c < (48 :: nat) \<or> 57 < (of_char c :: nat) \<Longrightarrow> c \<notin> set (show_nat n)"
  using show_nat_digits [of n] digit_char_neq [of _ c] by (fastforce simp: list_all_iff)

lemma to_str_visible:
  assumes "list_all visible s"
  shows "to_str (as_bytes s) = Some s"
proof -
  have "b = 9 \<or> 32 \<le> b \<and> b < 127" if "b \<in> set (as_bytes s)" for b
  proof -
    from that have "b \<in> of_char ` set s" by (simp add: as_bytes_def)
    then obtain c where c: "c \<in> set s" "b = of_char c" by blast
    then have "visible c" using assms by (simp add: list_all_iff)
    then show ?thesis using c(2) by (simp add: visible_def word_le_nat_alt word_less_nat_alt)
  qed
  then show ?thesis by (auto simp: to_str_def list_all_iff)
qed

end
