(* ===== verification/S3_Request.thy ===== *)
theory S3_Request
  imports Http Policy Origin Block_Size
begin

text \<open>
  Requests of the S3 endpoint: errors and their XML (\<^verbatim>\<open>nestor-s3/src/error.rs\<close>), bucket and key of a
  request (\<^verbatim>\<open>nestor-s3/src/addressing.rs\<close>) and the headers of reads (\<^verbatim>\<open>nestor-s3/src/headers.rs\<close>).

  What third-party code prints and parses is a record of functions: dates by \<^verbatim>\<open>chrono\<close>, durations by
  \<^verbatim>\<open>humantime\<close>, and the messages of errors.
\<close>

record texts =
  tx_error :: "nestor_error \<Rightarrow> string"
  tx_origin :: "origin_error \<Rightarrow> string"
  tx_overrides :: "policy_parse_error \<Rightarrow> string"
  tx_duration :: "string \<Rightarrow> nanos option"
  tx_http_date :: "systime \<Rightarrow> string"
  tx_parse_date :: "string \<Rightarrow> systime option"

section \<open>Errors\<close>

record s3_error =
  s3_status :: nat
  s3_code :: string
  s3_message :: string
  s3_resource :: string

definition s3_error_new :: "nat \<Rightarrow> string \<Rightarrow> string \<Rightarrow> s3_error" where
  "s3_error_new status code message =
     \<lparr>s3_status = status, s3_code = code, s3_message = message, s3_resource = []\<rparr>"

definition on_resource :: "string \<Rightarrow> s3_error \<Rightarrow> s3_error" where
  "on_resource r e = e\<lparr>s3_resource := r\<rparr>"

definition no_such_key :: "string \<Rightarrow> s3_error" where
  "no_such_key key = on_resource key (s3_error_new 404 ''NoSuchKey'' ''The specified key does not exist.'')"

definition no_such_bucket :: "string \<Rightarrow> s3_error" where
  "no_such_bucket b = on_resource b (s3_error_new 404 ''NoSuchBucket'' ''The specified bucket does not exist'')"

definition invalid_bucket_name :: "string \<Rightarrow> s3_error" where
  "invalid_bucket_name b = on_resource b (s3_error_new 400 ''InvalidBucketName'' ''The specified bucket is not valid.'')"

definition invalid_range :: "string \<Rightarrow> s3_error" where
  "invalid_range key = on_resource key (s3_error_new 416 ''InvalidRange'' ''The requested range is not satisfiable'')"

definition precondition_failed :: "string \<Rightarrow> s3_error" where
  "precondition_failed key =
     on_resource key
       (s3_error_new 412 ''PreconditionFailed'' ''At least one of the pre-conditions you specified did not hold'')"

definition access_denied :: "string \<Rightarrow> s3_error" where
  "access_denied message = s3_error_new 403 ''AccessDenied'' message"

definition signature_mismatch :: s3_error where
  "signature_mismatch =
     s3_error_new 403 ''SignatureDoesNotMatch''
       ''The request signature we calculated does not match the signature you provided.''"

definition invalid_access_key :: s3_error where
  "invalid_access_key =
     s3_error_new 403 ''InvalidAccessKeyId'' ''The AWS Access Key Id you provided does not exist in our records.''"

definition request_time_too_skewed :: s3_error where
  "request_time_too_skewed =
     s3_error_new 403 ''RequestTimeTooSkewed''
       (''The difference between the request time and the server'' @ [CHR 0x27] @ ''s time is too large.'')"

definition expired :: s3_error where
  "expired = s3_error_new 403 ''AccessDenied'' ''Request has expired''"

definition invalid_request :: "string \<Rightarrow> s3_error" where
  "invalid_request message = s3_error_new 400 ''InvalidRequest'' message"

definition internal :: "string \<Rightarrow> s3_error" where
  "internal message = s3_error_new 500 ''InternalError'' message"

definition bad_gateway :: "string \<Rightarrow> s3_error" where
  "bad_gateway message = s3_error_new 502 ''InternalError'' message"

definition from_nestor :: "texts \<Rightarrow> nestor_error \<Rightarrow> string \<Rightarrow> s3_error" where
  "from_nestor tx e key =
     (if is_not_found e then no_such_key key
      else if is_stale e then precondition_failed key
      else case e of
             ERange _ _ \<Rightarrow> invalid_range key
           | UnknownNamespace \<Rightarrow> no_such_bucket key
           | Closed \<Rightarrow> s3_error_new 503 ''ServiceUnavailable'' ''cache is shutting down''
           | EOrigin (Timeout d) \<Rightarrow>
               on_resource key (s3_error_new 504 ''GatewayTimeout'' (tx_origin tx (Timeout d)))
           | other \<Rightarrow> bad_gateway (tx_error tx other))"

definition escape_char :: "char \<Rightarrow> string" where
  "escape_char c =
     (if c = CHR ''&'' then ''&amp;'' else if c = CHR ''<'' then ''&lt;'' else if c = CHR ''>'' then ''&gt;''
      else if c = CHR 0x22 then ''&quot;'' else if c = CHR 0x27 then ''&apos;'' else [c])"

definition escape_into :: "string \<Rightarrow> string \<Rightarrow> string" where
  "escape_into out text = out @ concat (map escape_char text)"

definition error_body :: "s3_error \<Rightarrow> string" where
  "error_body e =
     (let out = ''<?xml version='' @ [CHR 0x22] @ ''1.0'' @ [CHR 0x22] @ '' encoding='' @ [CHR 0x22] @ ''UTF-8''
                  @ [CHR 0x22] @ ''?>'' @ [CHR 0x0A] @ ''<Error><Code>'' @ s3_code e @ ''</Code><Message>'';
          out = escape_into out (s3_message e) @ ''</Message><Resource>''
      in escape_into out (s3_resource e) @ ''</Resource></Error>'')"

section \<open>Addressing\<close>

datatype addressing = PathStyle | VirtualHosted string

record target =
  tgt_bucket :: "string option"
  tgt_key :: "string option"

definition non_empty :: "string \<Rightarrow> string option" where
  "non_empty s = (if s = [] then None else Some s)"

fun contains_dots :: "string \<Rightarrow> bool" where
  "contains_dots (a # b # s) = ((a = CHR ''.'' \<and> b = CHR ''.'') \<or> contains_dots (b # s))"
| "contains_dots _ = False"

definition is_lower_or_digit :: "char \<Rightarrow> bool" where
  "is_lower_or_digit c = (let n = (of_char c :: nat) in (97 \<le> n \<and> n \<le> 122) \<or> (48 \<le> n \<and> n \<le> 57))"

definition well_formed_bucket :: "string \<Rightarrow> bool" where
  "well_formed_bucket name \<longleftrightarrow>
     3 \<le> length name \<and> length name \<le> 63
     \<and> list_all (\<lambda>c. is_lower_or_digit c \<or> c = CHR ''-'' \<or> c = CHR ''.'') name
     \<and> (name \<noteq> [] \<and> is_alphanumeric (of_char (hd name)))
     \<and> (name \<noteq> [] \<and> is_alphanumeric (of_char (last name)))
     \<and> \<not> contains_dots name"

definition validated_bucket :: "string \<Rightarrow> s3_error + string" where
  "validated_bucket name = (if well_formed_bucket name then Inr name else Inl (invalid_bucket_name name))"

definition resolve_target :: "addressing \<Rightarrow> string \<Rightarrow> string \<Rightarrow> s3_error + target" where
  "resolve_target a host raw_path =
     (let host = hd (split_on CHR '':'' host);
          path = unwrap_or (strip_prefix ''/'' raw_path) raw_path;
          hosted = (case a of
                      PathStyle \<Rightarrow> None
                    | VirtualHosted domain \<Rightarrow>
                        Option.bind (strip_suffix domain host) (\<lambda>b.
                        Option.bind (strip_suffix ''.'' b) (\<lambda>b. if b = [] then None else Some b)))
      in case hosted of
           Some bk \<Rightarrow>
             (case validated_bucket bk of
                Inl err \<Rightarrow> Inl err
              | Inr b \<Rightarrow> Inr \<lparr>tgt_bucket = Some b, tgt_key = map_option percent_decode (non_empty path)\<rparr>)
         | None \<Rightarrow>
             let (bk, key) =
                   (case split_once CHR ''/'' path of
                      Some (bk, key) \<Rightarrow> (bk, non_empty key)
                    | None \<Rightarrow> (path, None));
                 key = map_option percent_decode key
             in case non_empty bk of
                  None \<Rightarrow> Inr \<lparr>tgt_bucket = None, tgt_key = key\<rparr>
                | Some b \<Rightarrow>
                    (case validated_bucket b of
                       Inl err \<Rightarrow> Inl err
                     | Inr b \<Rightarrow> Inr \<lparr>tgt_bucket = Some b, tgt_key = key\<rparr>))"

section \<open>Headers\<close>

definition fetch_overrides_of :: "texts \<Rightarrow> header_map \<Rightarrow> s3_error + fetch_overrides" where
  "fetch_overrides_of tx h =
     (case hm_get ''x-nestor-fetch'' h of
        None \<Rightarrow> Inr overrides_default
      | Some v \<Rightarrow>
          (case to_str v of
             None \<Rightarrow> Inl (invalid_request ''x-nestor-fetch is not valid text'')
           | Some text \<Rightarrow>
               (case parse_overrides (tx_duration tx) text of
                  Inl e \<Rightarrow> Inl (invalid_request (''x-nestor-fetch: '' @ tx_overrides tx e))
                | Inr ov \<Rightarrow> Inr ov)))"

definition parse_range :: "header_map \<Rightarrow> read_range option" where
  "parse_range h =
     Option.bind (hm_text ''range'' h) (\<lambda>v.
     Option.bind (strip_prefix ''bytes='' (trim v)) (\<lambda>spec.
       let spec = trim spec
       in if CHR '','' \<in> set spec then None
          else Option.bind (split_once CHR ''-'' spec) (\<lambda>(start, stop).
            let start = trim start; stop = trim stop
            in if start = [] then map_option Suffix (parse_u64 stop)
               else if stop = [] then map_option From (parse_u64 start)
               else Option.bind (parse_u64 start) (\<lambda>a.
                    Option.bind (parse_u64 stop) (\<lambda>b.
                      if a \<le> b then Some (Bounded (Range a (sat_add b 1))) else None)))))"

definition parse_http_date :: "texts \<Rightarrow> bytes \<Rightarrow> systime option" where
  "parse_http_date tx v = Option.bind (to_str v) (tx_parse_date tx)"

definition preconditions_of :: "texts \<Rightarrow> header_map \<Rightarrow> preconditions" where
  "preconditions_of tx h =
     \<lparr>if_match = hm_text ''if-match'' h, if_none_match = hm_text ''if-none-match'' h,
      if_modified_since = Option.bind (hm_get ''if-modified-since'' h) (parse_http_date tx),
      if_unmodified_since = Option.bind (hm_get ''if-unmodified-since'' h) (parse_http_date tx)\<rparr>"

definition object_headers :: "texts \<Rightarrow> object_meta \<Rightarrow> header_map \<Rightarrow> header_map" where
  "object_headers tx m out =
     (let out = hm_insert ''accept-ranges'' (as_bytes ''bytes'') out;
          out = (case Option.bind (meta_etag m) header_value of Some v \<Rightarrow> hm_insert ''etag'' v out | None \<Rightarrow> out)
      in case meta_last_modified m of
           Some t \<Rightarrow> hm_insert ''last-modified'' (as_bytes (tx_http_date tx t)) out
         | None \<Rightarrow> out)"

definition show_u64 :: "u64 \<Rightarrow> string" where
  "show_u64 n = show_nat (unat n)"

definition content_headers :: "u64 urange \<Rightarrow> u64 \<Rightarrow> bool \<Rightarrow> header_map \<Rightarrow> header_map" where
  "content_headers r sz partial out =
     (let out = hm_insert ''content-length'' (as_bytes (show_u64 (range_end r - range_start r))) out
      in if partial
         then hm_insert ''content-range''
                (as_bytes (''bytes '' @ show_u64 (range_start r) @ ''-'' @ show_u64 (range_end r - 1) @ ''/'' @ show_u64 sz)) out
         else out)"

section \<open>Buckets\<close>

text \<open>
  C28: the bucket of a request is a well-formed name, in path style and virtual hosted, so it has no
  character that could change the host or the path of the request forwarded to the origin.
\<close>

theorem resolved_bucket_valid:
  assumes "resolve_target a host path = Inr t" and "tgt_bucket t = Some b"
  shows "well_formed_bucket b \<and> set b \<inter> set ''/:@?#%'' = {}"
proof -
  have wf: "well_formed_bucket b"
    using assms
    by (auto simp: resolve_target_def validated_bucket_def Let_def split: option.splits if_splits sum.splits prod.splits)
  have "c \<notin> set ''/:@?#%''" if "c \<in> set b" for c
  proof -
    have "is_lower_or_digit c \<or> c = CHR ''-'' \<or> c = CHR ''.''"
      using wf that by (auto simp: well_formed_bucket_def list_all_iff)
    then show ?thesis by (auto simp: is_lower_or_digit_def Let_def)
  qed
  with wf show ?thesis by blast
qed

theorem resolved_bucket_valid_witness:
  "resolve_target (VirtualHosted ''s3.local'') ''photos.s3.local:8080'' ''/2026/x.jpg'' =
     Inr \<lparr>tgt_bucket = Some ''photos'', tgt_key = Some (percent_decode ''2026/x.jpg'')\<rparr>
   \<and> well_formed_bucket ''photos''"
proof -
  have "resolve_target (VirtualHosted ''s3.local'') ''photos.s3.local:8080'' ''/2026/x.jpg'' =
      Inr \<lparr>tgt_bucket = Some ''photos'', tgt_key = Some (percent_decode ''2026/x.jpg'')\<rparr>"
    by (simp add: resolve_target_def strip_suffix_def strip_prefix_def unwrap_or_def non_empty_def
        validated_bucket_def well_formed_bucket_def is_lower_or_digit_def is_alphanumeric_def word_le_nat_alt)
  from this resolved_bucket_valid [OF this] show ?thesis by simp
qed

section \<open>Ranges\<close>

lemma parse_u64_show: "parse_u64 (show_u64 n) = Some n"
  using u64_bound [of n] by (simp add: parse_u64_def show_u64_def parse_uint_show_nat)

lemma show_u64_plain: "list_all visible (show_u64 n)"
  by (simp add: show_u64_def show_nat_visible)

lemma show_u64_not_Nil [simp]: "show_u64 n \<noteq> []"
  by (simp add: show_u64_def)

lemma show_u64_no_sep: "CHR ''-'' \<notin> set (show_u64 n)" "CHR '','' \<notin> set (show_u64 n)"
  by (simp_all add: show_u64_def show_nat_no_sep)

text \<open>The header of a range, and what parsing it gives.\<close>

fun range_header :: "read_range \<Rightarrow> string option" where
  "range_header Full = None"
| "range_header (Bounded r) =
     (if range_start r < range_end r
      then Some (''bytes='' @ show_u64 (range_start r) @ ''-'' @ show_u64 (range_end r - 1)) else None)"
| "range_header (From s) = Some (''bytes='' @ show_u64 s @ ''-'')"
| "range_header (Suffix n) = Some (''bytes=-'' @ show_u64 n)"

lemma parse_range_spec:
  assumes "hm_get ''range'' h = Some (as_bytes (''bytes='' @ a @ ''-'' @ b))"
    and "list_all visible a" and "list_all visible b" and "CHR ''-'' \<notin> set a" and "CHR '','' \<notin> set (a @ b)"
  shows "parse_range h =
    (if a = [] then map_option Suffix (parse_u64 b)
     else if b = [] then map_option From (parse_u64 a)
     else Option.bind (parse_u64 a) (\<lambda>x. Option.bind (parse_u64 b) (\<lambda>y.
       if x \<le> y then Some (Bounded (Range x (sat_add y 1))) else None)))"
proof -
  let ?spec = "a @ CHR ''-'' # b"
  have vis: "list_all visible ''bytes=''" "visible CHR ''-''" by (simp_all add: visible_def)
  have v: "list_all visible (''bytes='' @ ?spec)" "list_all visible ?spec"
    using vis assms(2,3) by (simp_all only: list_all_append list.pred_inject)
  have t: "hm_text ''range'' h = Some (''bytes='' @ ?spec)"
    using assms(1) to_str_visible [OF v(1)] by (simp add: hm_text_def)
  have "split_once CHR ''-'' ?spec = Some (a, b)" using assms(4) by (simp add: split_once_Some)
  moreover have "CHR '','' \<notin> set ?spec" using assms(5) by auto
  ultimately show ?thesis
    using t trim_visible [OF v(1)] trim_visible [OF v(2)] trim_visible [OF assms(2)] trim_visible [OF assms(3)]
      strip_prefix_append [of "''bytes=''" ?spec]
    unfolding parse_range_def by (simp add: Let_def del: append.simps)
qed

text \<open>
  A request that carries the header of a range is read as that range, for bounded, open and
  suffix ranges over all 64-bit positions; the last byte of a bounded range is inclusive.
\<close>

theorem range_header_roundtrip:
  assumes "range_header request = Some text" and "hm_get ''range'' h = Some (as_bytes text)"
  shows "parse_range h = Some request"
proof (cases request)
  case Full
  then show ?thesis using assms by simp
next
  case (Bounded r)
  then have lt: "range_start r < range_end r"
    and tq: "text = ''bytes='' @ show_u64 (range_start r) @ ''-'' @ show_u64 (range_end r - 1)"
    using assms(1) by (auto split: if_splits)
  have sub: "unat (range_end r - 1) = unat (range_end r) - 1"
    using lt by (simp add: unat_sub word_le_nat_alt word_less_nat_alt)
  then have le: "range_start r \<le> range_end r - 1" using lt by (simp add: word_le_nat_alt word_less_nat_alt)
  have "sat_add (range_end r - 1) 1 = range_end r"
    using sub lt u64_bound [of "range_end r"] by (simp add: sat_add_def word_less_nat_alt)
  then show ?thesis
    using parse_range_spec [OF assms(2) [unfolded tq]] show_u64_plain show_u64_no_sep le Bounded
    by (cases r) (simp add: parse_u64_show)
next
  case (From s)
  then have "text = ''bytes='' @ show_u64 s @ ''-'' @ []" using assms(1) by simp
  from parse_range_spec [OF assms(2) [unfolded this]] show ?thesis
    using From show_u64_plain show_u64_no_sep by (simp add: parse_u64_show)
next
  case (Suffix n)
  then have "text = ''bytes='' @ [] @ ''-'' @ show_u64 n" using assms(1) by simp
  from parse_range_spec [OF assms(2) [unfolded this]] show ?thesis
    using Suffix show_u64_plain show_u64_no_sep by (simp add: parse_u64_show)
qed

theorem range_header_roundtrip_witness:
  "parse_range [(''host'', as_bytes ''x''), (''range'', as_bytes ''bytes=500-999'')] = Some (Bounded (Range 500 1000))"
proof -
  have "range_header (Bounded (Range 500 1000)) = Some ''bytes=500-999''"
    by (simp add: show_u64_def show_nat.simps digit_chars)
  from range_header_roundtrip [OF this] show ?thesis by (simp add: hm_get_def hm_get_all_def)
qed

text \<open>
  A suffix range of an empty object resolves to the empty range, whose end is then reduced below
  zero in the header of the response.
\<close>

lemma empty_object_content_range:
  "l \<noteq> 0 \<Longrightarrow> resolve (Suffix l) 0 = Inr (Range 0 0)
   \<and> hm_get ''content-range'' (content_headers (Range 0 0) 0 True out) =
       Some (as_bytes ''bytes 0-18446744073709551615/0'')"
proof -
  have "show_nat 18446744073709551615 = ''18446744073709551615''" "show_nat 0 = ''0''"
    by (simp_all add: show_nat.simps digit_chars)
  moreover have "unat (0 - 1 :: u64) = 18446744073709551615" by (simp add: unsigned_minus_1_eq_mask mask_eq_exp_minus_1)
  ultimately have "show_u64 (0 - 1) = ''18446744073709551615''" "show_u64 0 = ''0''" by (simp_all add: show_u64_def)
  then show "l \<noteq> 0 \<Longrightarrow> ?thesis" by (simp add: content_headers_def sat_sub_def Let_def word_gt_0)
qed

section \<open>Error responses\<close>

text \<open>
  The status of a failed read: each engine error has the status the endpoint documents, but a
  timeout that several readers share is reported as a bad gateway and not as a gateway timeout.
\<close>

theorem error_statuses:
  "s3_status (from_nestor tx ENotFound key) = 404 \<and> s3_status (from_nestor tx UnknownNamespace key) = 404
   \<and> s3_status (from_nestor tx (ERange r n) key) = 416 \<and> s3_status (from_nestor tx Stale key) = 412
   \<and> s3_status (from_nestor tx Closed key) = 503
   \<and> s3_status (from_nestor tx (EOrigin (Timeout d)) key) = 504
   \<and> s3_status (from_nestor tx (Shared (EOrigin (Timeout d))) key) = 502
   \<and> s3_status (from_nestor tx (Shared ENotFound) key) = 404 \<and> s3_status (from_nestor tx (Shared Stale) key) = 412"
  by (simp add: from_nestor_def no_such_key_def no_such_bucket_def invalid_range_def precondition_failed_def
      bad_gateway_def on_resource_def s3_error_new_def)

text \<open>Escaped text has no markup in it.\<close>

lemma escape_no_markup: "c \<in> set (concat (map escape_char text)) \<Longrightarrow> c \<noteq> CHR ''<'' \<and> c \<noteq> CHR ''>''"
  by (auto simp: escape_char_def split: if_splits)

end
