(* ===== verification/S3_Chunked.thy ===== *)
theory S3_Chunked
  imports Http
begin

text \<open>
  Request bodies on the forward path, \<^verbatim>\<open>nestor-s3/src/body.rs\<close>: the decoder of \<^verbatim>\<open>aws-chunked\<close> framing
  and the capture of the plain bytes. The decoder reads its input in pieces of any size; an item of
  the input is a piece or an error.
\<close>

section \<open>Decoder\<close>

definition MAX_HEADER_LINE :: nat where "MAX_HEADER_LINE = 1024"

datatype phase = Header | Data nat | DataCrlf | Trailers | PDone

datatype body_error = InvalidData string | UnexpectedEof | BodyFailed string

record decoder =
  dc_inner :: "(string + bytes) list"
  dc_buf :: bytes
  dc_state :: phase
  dc_eof :: bool

definition decoder_new :: "(string + bytes) list \<Rightarrow> decoder" where
  "decoder_new inner = \<lparr>dc_inner = inner, dc_buf = [], dc_state = Header, dc_eof = False\<rparr>"

definition parse_header :: "bytes \<Rightarrow> body_error + nat" where
  "parse_header line =
     (case from_utf8 (hd (split_on 0x3B line)) of
        None \<Rightarrow> Inl (InvalidData ''chunk size is not utf-8'')
      | Some text \<Rightarrow>
          (case parse_uint 16 (2 ^ 64) (trim text) of
             None \<Rightarrow> Inl (InvalidData ''chunk size is not hex'')
           | Some n \<Rightarrow> Inr n))"

fun find_crlf :: "bytes \<Rightarrow> nat option" where
  "find_crlf (a # b # s) = (if a = 0x0D \<and> b = 0x0A then Some 0 else map_option Suc (find_crlf (b # s)))"
| "find_crlf _ = None"

text \<open>One round of the loop of \<^verbatim>\<open>poll_next\<close>.\<close>

datatype decode_outcome = Again decoder | Yield "body_error + bytes" decoder | Stop decoder

definition pull :: "decoder \<Rightarrow> decode_outcome" where
  "pull d =
     (if dc_eof d then Yield (Inl UnexpectedEof) d
      else case dc_inner d of
             [] \<Rightarrow> Again (d\<lparr>dc_eof := True\<rparr>)
           | Inr chunk # rest \<Rightarrow> Again (d\<lparr>dc_inner := rest, dc_buf := dc_buf d @ chunk\<rparr>)
           | Inl e # rest \<Rightarrow> Yield (Inl (BodyFailed e)) (d\<lparr>dc_inner := rest\<rparr>))"

definition decode_step :: "decoder \<Rightarrow> decode_outcome" where
  "decode_step d =
     (case dc_state d of
        PDone \<Rightarrow> Stop d
      | Header \<Rightarrow>
          (case find_crlf (dc_buf d) of
             Some pos \<Rightarrow>
               let line = take pos (dc_buf d); d = d\<lparr>dc_buf := drop (pos + 2) (dc_buf d)\<rparr>
               in (case parse_header line of
                     Inl e \<Rightarrow> Yield (Inl e) d
                   | Inr n \<Rightarrow> Again (d\<lparr>dc_state := (if n = 0 then Trailers else Data n)\<rparr>))
           | None \<Rightarrow>
               if length (dc_buf d) > MAX_HEADER_LINE then Yield (Inl (InvalidData ''chunk header too long'')) d
               else pull d)
      | Data remaining \<Rightarrow>
          if dc_buf d \<noteq> []
          then let n = min remaining (length (dc_buf d))
               in Yield (Inr (take n (dc_buf d)))
                    (d\<lparr>dc_buf := drop n (dc_buf d),
                       dc_state := (if n = remaining then DataCrlf else Data (remaining - n))\<rparr>)
          else pull d
      | DataCrlf \<Rightarrow>
          if 2 \<le> length (dc_buf d)
          then if take 2 (dc_buf d) \<noteq> [0x0D, 0x0A] then Yield (Inl (InvalidData ''missing chunk terminator'')) d
               else Again (d\<lparr>dc_buf := drop 2 (dc_buf d), dc_state := Header\<rparr>)
          else pull d
      | Trailers \<Rightarrow>
          let d = d\<lparr>dc_buf := []\<rparr>
          in if dc_eof d then Stop (d\<lparr>dc_state := PDone\<rparr>) else pull d)"

text \<open>What a round uses up.\<close>

definition decode_rank :: "decoder \<Rightarrow> nat \<times> nat \<times> nat" where
  "decode_rank d =
     (length (dc_inner d) + (if dc_eof d then 0 else 1), length (dc_buf d), (case dc_state d of Data _ \<Rightarrow> 1 | _ \<Rightarrow> 0))"

definition decode_less :: "(decoder \<times> decoder) set" where
  "decode_less = inv_image (less_than <*lex*> less_than <*lex*> less_than) decode_rank"

lemma wf_decode_less: "wf decode_less"
  unfolding decode_less_def by (intro wf_inv_image wf_lex_prod wf_less_than)

lemma trans_decode_less: "trans decode_less"
  unfolding decode_less_def by (intro trans_inv_image trans_lex_prod trans_less_than)

lemma less_decode_rank:
  "(d', d) \<in> decode_less \<longleftrightarrow> (decode_rank d', decode_rank d) \<in> less_than <*lex*> less_than <*lex*> less_than"
  by (simp add: decode_less_def)

lemma find_crlf_Some:
  "find_crlf s = Some n \<Longrightarrow> n + 2 \<le> length s \<and> take 2 (drop n s) = [0x0D, 0x0A]"
  by (induction s arbitrary: n rule: find_crlf.induct) (auto split: if_splits)

lemma pull_less: "pull d = Again d' \<Longrightarrow> (d', d) \<in> decode_less"
  by (auto simp: pull_def less_decode_rank decode_rank_def split: if_splits list.splits sum.splits)

lemma pull_no_data: "pull d \<noteq> Yield (Inr c) d'"
  by (auto simp: pull_def split: list.splits sum.splits)

lemma decode_step_less:
  assumes "decode_step d = Again d' \<or> decode_step d = Yield (Inr c) d'"
  shows "(d', d) \<in> decode_less"
proof (cases "dc_state d")
  case Header
  show ?thesis
  proof (cases "find_crlf (dc_buf d)")
    case None
    then show ?thesis using assms Header pull_less pull_no_data by (auto simp: decode_step_def split: if_splits)
  next
    case (Some pos)
    then have "pos + 2 \<le> length (dc_buf d)" using find_crlf_Some by blast
    then show ?thesis using assms Header Some
      by (auto simp: decode_step_def less_decode_rank decode_rank_def Let_def split: sum.splits)
  qed
next
  case (Data n)
  show ?thesis
  proof (cases "dc_buf d = []")
    case True
    then show ?thesis using assms Data pull_less pull_no_data by (auto simp: decode_step_def)
  next
    case False
    then show ?thesis using assms Data
      by (auto simp: decode_step_def less_decode_rank decode_rank_def Let_def min_def split: if_splits)
  qed
next
  case DataCrlf
  show ?thesis
  proof (cases "2 \<le> length (dc_buf d)")
    case True
    then show ?thesis using assms DataCrlf
      by (auto simp: decode_step_def less_decode_rank decode_rank_def split: if_splits)
  next
    case False
    then show ?thesis using assms DataCrlf pull_less pull_no_data by (auto simp: decode_step_def)
  qed
next
  case Trailers
  let ?d = "d\<lparr>dc_buf := []\<rparr>"
  have "(x, ?d) \<in> decode_less \<Longrightarrow> (x, d) \<in> decode_less" for x
    using Trailers by (auto simp: less_decode_rank decode_rank_def)
  then show ?thesis using assms Trailers pull_less [of ?d] pull_no_data [of ?d]
    by (auto simp: decode_step_def Let_def split: if_splits)
next
  case PDone
  then show ?thesis using assms by (simp add: decode_step_def)
qed

text \<open>\<^verbatim>\<open>poll_next\<close>, with every input piece there.\<close>

function decoder_next :: "decoder \<Rightarrow> (body_error + bytes) option \<times> decoder" where
  "decoder_next d =
     (case decode_step d of
        Again d \<Rightarrow> decoder_next d
      | Yield r d \<Rightarrow> (Some r, d)
      | Stop d \<Rightarrow> (None, d))"
  by pat_completeness auto
termination by (relation decode_less) (simp_all add: wf_decode_less decode_step_less)

declare decoder_next.simps [simp del]

lemma decoder_next_less: "decoder_next d = (Some (Inr c), d') \<Longrightarrow> (d', d) \<in> decode_less"
proof (induction d rule: decoder_next.induct)
  case (1 d)
  show ?case
  proof (cases "decode_step d")
    case (Again d1)
    then have "(d', d1) \<in> decode_less" using "1.IH" "1.prems" by (simp add: decoder_next.simps [of d])
    moreover have "(d1, d) \<in> decode_less" using Again decode_step_less by blast
    ultimately show ?thesis by (rule transD [OF trans_decode_less])
  next
    case (Yield r d1)
    then show ?thesis using "1.prems" decode_step_less by (auto simp: decoder_next.simps [of d])
  next
    case (Stop d1)
    then show ?thesis using "1.prems" by (simp add: decoder_next.simps [of d])
  qed
qed

text \<open>The body read to its end: the plain bytes, or the first error.\<close>

function decode_all :: "bytes \<Rightarrow> decoder \<Rightarrow> body_error + bytes" where
  "decode_all acc d =
     (case decoder_next d of
        (None, _) \<Rightarrow> Inr acc
      | (Some (Inl e), _) \<Rightarrow> Inl e
      | (Some (Inr c), d) \<Rightarrow> decode_all (acc @ c) d)"
  by pat_completeness auto
termination
  by (relation "inv_image decode_less snd") (auto simp: wf_decode_less dest: decoder_next_less [OF sym])

declare decode_all.simps [simp del]

section \<open>Framed bodies\<close>

lemma decode_all_step:
  "decode_all acc d =
     (case decode_step d of
        Again d' \<Rightarrow> decode_all acc d'
      | Yield (Inl e) d' \<Rightarrow> Inl e
      | Yield (Inr c) d' \<Rightarrow> decode_all (acc @ c) d'
      | Stop d' \<Rightarrow> Inr acc)"
proof (cases "decode_step d")
  case (Again d')
  then show ?thesis by (simp add: decode_all.simps [of acc d] decode_all.simps [of acc d'] decoder_next.simps [of d])
qed (auto simp: decode_all.simps [of acc d] decoder_next.simps [of d] split: sum.splits)

abbreviation CRLF :: bytes where "CRLF \<equiv> [0x0D, 0x0A]"

text \<open>
  The framing: chunks, each after a header line with its size, then a line with size zero and
  trailers. Every header line is shorter than the bound.
\<close>

inductive framed :: "nat \<Rightarrow> bytes \<Rightarrow> bytes \<Rightarrow> bool" for m where
  framed_last: "find_crlf hdr = None \<Longrightarrow> length hdr < m \<Longrightarrow> parse_header hdr = Inr 0
    \<Longrightarrow> framed m (hdr @ CRLF @ trailers) []"
| framed_chunk: "find_crlf hdr = None \<Longrightarrow> length hdr < m \<Longrightarrow> parse_header hdr = Inr (length payload)
    \<Longrightarrow> payload \<noteq> [] \<Longrightarrow> framed m body out
    \<Longrightarrow> framed m (hdr @ CRLF @ payload @ CRLF @ body) (payload @ out)"

text \<open>What is left of a framed body in a phase of the decoder.\<close>

fun framed_rest :: "nat \<Rightarrow> phase \<Rightarrow> bytes \<Rightarrow> bytes \<Rightarrow> bool" where
  "framed_rest m Header body out = framed m body out"
| "framed_rest m (Data n) body out =
     (0 < n \<and> n \<le> length body \<and> take n body = take n out \<and> n \<le> length out
      \<and> take 2 (drop n body) = CRLF \<and> framed m (drop (n + 2) body) (drop n out))"
| "framed_rest m DataCrlf body out = (take 2 body = CRLF \<and> framed m (drop 2 body) out)"
| "framed_rest m Trailers body out = (out = [])"
| "framed_rest m PDone body out = (out = [])"

lemma find_crlf_append: "find_crlf hdr = None \<Longrightarrow> find_crlf (hdr @ CRLF @ s) = Some (length hdr)"
proof (induction hdr rule: find_crlf.induct)
  case (1 a b s)
  then show ?case by (auto split: if_splits)
qed simp_all

lemma find_crlf_prefix: "find_crlf s = Some n \<Longrightarrow> find_crlf (s @ t) = Some n"
  by (induction s arbitrary: n rule: find_crlf.induct) (auto split: if_splits)

lemma find_crlf_take: "find_crlf s = Some n \<Longrightarrow> find_crlf (take n s) = None"
proof (induction s arbitrary: n rule: find_crlf.induct)
  case (1 a b s)
  show ?case
  proof (cases "a = 0x0D \<and> b = 0x0A")
    case False
    then obtain k where k: "find_crlf (b # s) = Some k" "n = Suc k" using 1 by auto
    with "1.IH" False have IH: "find_crlf (take k (b # s)) = None" by blast
    show ?thesis
    proof (cases k)
      case (Suc j)
      then show ?thesis using IH k(2) False by auto
    qed (use k(2) in simp)
  qed (use 1 in simp)
qed simp_all

lemma find_crlf_split: "find_crlf s = Some n \<Longrightarrow> s = take n s @ CRLF @ drop (n + 2) s"
  using find_crlf_Some [of s n] append_take_drop_id [of n s] append_take_drop_id [of 2 "drop n s"] by simp

text \<open>Reading a header line moves on to the phase its size says.\<close>

definition after_header :: "nat \<Rightarrow> phase" where
  "after_header n = (if n = 0 then Trailers else Data n)"

lemma framed_header:
  assumes "find_crlf body = Some pos" and "pos < m"
  shows "framed m body out \<longleftrightarrow>
    (\<exists>n. parse_header (take pos body) = Inr n \<and> framed_rest m (after_header n) (drop (pos + 2) body) out)"
proof
  assume "framed m body out"
  then show "\<exists>n. parse_header (take pos body) = Inr n \<and> framed_rest m (after_header n) (drop (pos + 2) body) out"
  proof cases
    case (framed_last hdr trailers)
    then have "pos = length hdr" using assms(1) find_crlf_append by auto
    then show ?thesis using framed_last by (simp add: after_header_def)
  next
    case (framed_chunk hdr payload rest out')
    then have "pos = length hdr" using assms(1) find_crlf_append by auto
    then show ?thesis using framed_chunk by (simp add: after_header_def)
  qed
next
  let ?hdr = "take pos body" and ?rest = "drop (pos + 2) body"
  assume "\<exists>n. parse_header ?hdr = Inr n \<and> framed_rest m (after_header n) ?rest out"
  then obtain n where n: "parse_header ?hdr = Inr n" "framed_rest m (after_header n) ?rest out" by blast
  have hdr: "find_crlf ?hdr = None" "length ?hdr < m" using assms find_crlf_take by auto
  have body: "body = ?hdr @ CRLF @ ?rest" by (rule find_crlf_split [OF assms(1)])
  show "framed m body out"
  proof (cases "n = 0")
    case True
    then show ?thesis using framed.framed_last [OF hdr, of ?rest] n body by (simp add: after_header_def)
  next
    case False
    let ?more = "drop n ?rest"
    from False n have r: "n \<le> length ?rest" "take n ?rest = take n out" "n \<le> length out"
        "take 2 ?more = CRLF" "framed m (drop 2 ?more) (drop n out)" by (simp_all add: after_header_def ac_simps)
    have len: "length (take n ?rest) = n" "take n ?rest \<noteq> []" using r(1) False by auto
    have "framed m (?hdr @ CRLF @ take n ?rest @ CRLF @ drop 2 ?more) (take n ?rest @ drop n out)"
      by (rule framed.framed_chunk [OF hdr]) (use n(1) r(5) len in simp_all)
    moreover have "take n ?rest @ CRLF @ drop 2 ?more = ?rest"
      using r(4) append_take_drop_id [of 2 ?more] append_take_drop_id [of n ?rest] by simp
    ultimately show ?thesis using body r(2) append_take_drop_id [of n out] by metis
  qed
qed

text \<open>A decoder that still reads pieces, and what it has left to read.\<close>

definition unread :: "decoder \<Rightarrow> bytes list \<Rightarrow> bool" where
  "unread d parts \<longleftrightarrow> dc_inner d = map Inr parts \<and> (dc_eof d \<longrightarrow> parts = [])"

lemma pull_unread:
  assumes "unread d parts" and "\<not> dc_eof d"
  obtains d' parts' where "pull d = Again d'" and "unread d' parts'" and "dc_state d' = dc_state d"
    and "dc_buf d' @ concat parts' = dc_buf d @ concat parts"
proof (cases parts)
  case Nil
  show ?thesis
    by (rule that [of "d\<lparr>dc_eof := True\<rparr>" "[]"]) (use assms Nil in \<open>simp_all add: pull_def unread_def\<close>)
next
  case (Cons c rest)
  show ?thesis
    by (rule that [of "d\<lparr>dc_inner := map Inr rest, dc_buf := dc_buf d @ c\<rparr>" rest])
      (use assms Cons in \<open>simp_all add: pull_def unread_def\<close>)
qed

lemma framed_has_header:
  assumes "framed m body out"
  obtains pos where "find_crlf body = Some pos" and "pos < m"
  using assms
proof cases
  case (framed_last hdr trailers)
  show ?thesis by (rule that [of "length hdr"]) (use framed_last find_crlf_append in auto)
next
  case (framed_chunk hdr payload rest out')
  show ?thesis by (rule that [of "length hdr"]) (use framed_chunk find_crlf_append in auto)
qed

text \<open>A header line in the buffer is the header line of the body, and one that is not there yet is short.\<close>

lemma buffer_without_header:
  assumes "find_crlf (s @ t) = Some pos" and "find_crlf s = None"
  shows "length s \<le> pos + 1"
proof (rule ccontr)
  assume long: "\<not> length s \<le> pos + 1"
  let ?u = "take (pos + 2) s"
  have "s @ t = take pos s @ CRLF @ drop (pos + 2) (s @ t)"
    using find_crlf_split [OF assms(1)] long by simp
  then have "take (pos + 2) (s @ t) = take (pos + 2) (take pos s @ CRLF @ drop (pos + 2) (s @ t))" by (rule arg_cong)
  then have u: "?u = take pos s @ CRLF" using long by (simp add: min_absorb2)
  have "find_crlf (take pos (s @ t)) = None" by (rule find_crlf_take [OF assms(1)])
  then have "find_crlf (take pos s) = None" using long by simp
  then have "find_crlf (take pos s @ CRLF @ drop (pos + 2) s) = Some (length (take pos s))" by (rule find_crlf_append)
  moreover have "take pos s @ CRLF @ drop (pos + 2) s = s"
    using u append_take_drop_id [of "pos + 2" s] by (metis append.assoc)
  ultimately show False using assms(2) by simp
qed

text \<open>What a round does on a framed body: it reads on, hands out the next plain bytes, or ends with none left.\<close>

definition framed_before :: "nat \<Rightarrow> decoder \<Rightarrow> bytes \<Rightarrow> bool" where
  "framed_before m d out \<longleftrightarrow> (\<exists>parts. unread d parts \<and> framed_rest m (dc_state d) (dc_buf d @ concat parts) out)"

definition framed_round :: "nat \<Rightarrow> decode_outcome \<Rightarrow> bytes \<Rightarrow> bool" where
  "framed_round m st out \<longleftrightarrow>
     (case st of
        Again d \<Rightarrow> framed_before m d out
      | Yield r d \<Rightarrow> (\<exists>c rest. r = Inr c \<and> out = c @ rest \<and> framed_before m d rest)
      | Stop d \<Rightarrow> out = [])"

lemma framed_round_simps [simp]:
  "framed_round m (Again d) out = framed_before m d out"
  "framed_round m (Yield (Inr c) d) out = (\<exists>rest. out = c @ rest \<and> framed_before m d rest)"
  "framed_round m (Stop d) out = (out = [])"
  by (simp_all add: framed_round_def)

lemma framed_beforeI:
  "unread d parts \<Longrightarrow> framed_rest m (dc_state d) (dc_buf d @ concat parts) out \<Longrightarrow> framed_before m d out"
  unfolding framed_before_def by blast

lemma pull_round:
  assumes "unread d parts" and "framed_rest m (dc_state d) (dc_buf d @ concat parts) out" and "\<not> dc_eof d"
  shows "framed_round m (pull d) out"
proof -
  from pull_unread [OF assms(1,3)] obtain d' parts' where "pull d = Again d'" "unread d' parts'"
      "dc_state d' = dc_state d" "dc_buf d' @ concat parts' = dc_buf d @ concat parts" .
  then show ?thesis using assms(2) by (simp add: framed_beforeI)
qed

lemma header_round:
  assumes st: "dc_state d = Header" and u: "unread d parts" and f: "framed m (dc_buf d @ concat parts) out"
    and m: "m \<le> MAX_HEADER_LINE"
  shows "framed_round m (decode_step d) out"
proof -
  let ?all = "dc_buf d @ concat parts"
  from framed_has_header [OF f] obtain pos where pos: "find_crlf ?all = Some pos" "pos < m" .
  show ?thesis
  proof (cases "find_crlf (dc_buf d)")
    case None
    have "length (dc_buf d) \<le> MAX_HEADER_LINE" using buffer_without_header [OF pos(1) None] pos(2) m by simp
    then have step: "decode_step d = pull d" using st None by (simp add: decode_step_def)
    have "\<not> dc_eof d" using u None pos by (auto simp: unread_def)
    then show ?thesis using pull_round [OF u] f st step by simp
  next
    case (Some p)
    then have p: "p = pos" "p + 2 \<le> length (dc_buf d)" using find_crlf_prefix [OF Some] pos find_crlf_Some by auto
    from framed_header [OF pos] f obtain n where n: "parse_header (take pos (dc_buf d)) = Inr n"
        "framed_rest m (after_header n) (drop (pos + 2) (dc_buf d) @ concat parts) out"
      using p by auto
    let ?d = "d\<lparr>dc_buf := drop (pos + 2) (dc_buf d), dc_state := after_header n\<rparr>"
    have "decode_step d = Again ?d" using st Some p n(1) by (simp add: decode_step_def after_header_def)
    moreover have "framed_before m ?d out"
      by (rule framed_beforeI [of _ parts]) (use u n(2) in \<open>simp_all add: unread_def\<close>)
    ultimately show ?thesis by simp
  qed
qed

lemma data_round:
  assumes st: "dc_state d = Data n" and u: "unread d parts"
    and f: "framed_rest m (Data n) (dc_buf d @ concat parts) out"
  shows "framed_round m (decode_step d) out"
proof (cases "dc_buf d = []")
  case True
  then have "decode_step d = pull d" "\<not> dc_eof d" using st u f by (auto simp: decode_step_def unread_def)
  then show ?thesis using pull_round [OF u] f st by simp
next
  case False
  let ?buf = "dc_buf d" and ?k = "min n (length (dc_buf d))"
  let ?d = "d\<lparr>dc_buf := drop ?k ?buf, dc_state := (if ?k = n then DataCrlf else Data (n - ?k))\<rparr>"
  have step: "decode_step d = Yield (Inr (take ?k ?buf)) ?d" using st False by (simp add: decode_step_def Let_def)
  have all: "take n (?buf @ concat parts) = take n out" using f by simp
  from arg_cong [OF this, of "take ?k"] have c: "take ?k ?buf = take ?k out"
    by (simp add: min_def split: if_splits)
  from arg_cong [OF all, of "drop ?k"]
  have "take (n - ?k) (drop ?k ?buf @ concat parts) = take (n - ?k) (drop ?k out)"
    by (cases "n \<le> length ?buf") (simp_all add: drop_take min_absorb1 min_absorb2)
  then have "framed_before m ?d (drop ?k out)"
    by (intro framed_beforeI [of _ parts], use u in \<open>simp add: unread_def\<close>, cases "n \<le> length ?buf")
      (use f in \<open>auto simp: min_absorb1 min_absorb2 Suc_diff_le\<close>)
  moreover have "out = take ?k ?buf @ drop ?k out" using c by simp
  ultimately show ?thesis unfolding step framed_round_simps by blast
qed

lemma data_crlf_round:
  assumes st: "dc_state d = DataCrlf" and u: "unread d parts"
    and f: "framed_rest m DataCrlf (dc_buf d @ concat parts) out"
  shows "framed_round m (decode_step d) out"
proof (cases "2 \<le> length (dc_buf d)")
  case True
  let ?d = "d\<lparr>dc_buf := drop 2 (dc_buf d), dc_state := Header\<rparr>"
  have "decode_step d = Again ?d" using st True f by (simp add: decode_step_def)
  moreover have "framed_before m ?d out"
    by (rule framed_beforeI [of _ parts]) (use u f True in \<open>simp_all add: unread_def\<close>)
  ultimately show ?thesis by simp
next
  case False
  have "length (take 2 (dc_buf d @ concat parts)) = 2" using f by simp
  then have "decode_step d = pull d" "\<not> dc_eof d" using st u False by (auto simp: decode_step_def unread_def)
  then show ?thesis using pull_round [OF u] f st by simp
qed

lemma trailers_round:
  assumes "dc_state d = Trailers" and "unread d parts"
  shows "framed_round m (decode_step d) []"
  using assms pull_round [of "d\<lparr>dc_buf := []\<rparr>" parts m "[]"]
  by (cases "dc_eof d") (simp_all add: decode_step_def Let_def unread_def)

lemma decode_step_framed:
  assumes "framed_before m d out" and "m \<le> MAX_HEADER_LINE"
  shows "framed_round m (decode_step d) out"
proof -
  from assms(1) obtain parts where u: "unread d parts" and f: "framed_rest m (dc_state d) (dc_buf d @ concat parts) out"
    unfolding framed_before_def by blast
  show ?thesis
  proof (cases "dc_state d")
    case Header
    then show ?thesis using header_round [OF Header u] f assms(2) by simp
  next
    case (Data n)
    show ?thesis using data_round [OF Data u] f unfolding Data by blast
  next
    case DataCrlf
    show ?thesis using data_crlf_round [OF DataCrlf u] f unfolding DataCrlf by blast
  next
    case Trailers
    then show ?thesis using trailers_round [OF Trailers u] f by simp
  next
    case PDone
    then show ?thesis using f by (simp add: decode_step_def)
  qed
qed

lemma decode_all_framed:
  assumes "framed_before m d out" and "m \<le> MAX_HEADER_LINE"
  shows "decode_all acc d = Inr (acc @ out)"
  using assms
proof (induction d arbitrary: acc out rule: wf_induct_rule [OF wf_decode_less])
  case (1 d)
  note r = decode_step_framed [OF 1(2,3)]
  show ?case
  proof (cases "decode_step d")
    case (Again d')
    then have "(d', d) \<in> decode_less" using decode_step_less by blast
    from "1.IH" [OF this _ 1(3)] show ?thesis using Again r by (simp add: decode_all_step [of acc d])
  next
    case (Yield x d')
    then obtain c rest where c: "x = Inr c" "out = c @ rest" "framed_before m d' rest"
      using r by (auto simp: framed_round_def)
    then have "(d', d) \<in> decode_less" using Yield decode_step_less by blast
    from "1.IH" [OF this c(3) 1(3)] show ?thesis using Yield c by (simp add: decode_all_step [of acc d])
  next
    case (Stop d')
    then show ?thesis using r by (simp add: decode_all_step [of acc d])
  qed
qed

text \<open>The other direction: what the decoder accepts is framed, with header lines of some bound.\<close>

lemma framed_mono: "framed m body out \<Longrightarrow> m \<le> k \<Longrightarrow> framed k body out"
proof (induction rule: framed.induct)
  case (framed_last hdr trailers)
  then show ?case by (intro framed.framed_last) simp_all
next
  case (framed_chunk hdr payload body out)
  then show ?case by (intro framed.framed_chunk) simp_all
qed

lemma pull_ok: "pull d \<noteq> Stop d'" "pull d \<noteq> Yield (Inr c) d'"
  by (auto simp: pull_def split: list.splits sum.splits)

lemma pull_again:
  assumes "pull d = Again d'" and "unread d' parts'"
  obtains parts where "unread d parts" and "dc_state d' = dc_state d" and "dc_buf d' @ concat parts' = dc_buf d @ concat parts"
proof (cases "dc_inner d")
  case Nil
  show ?thesis
    by (rule that [of "[]"]) (use assms Nil in \<open>auto simp: pull_def unread_def split: if_splits\<close>)
next
  case (Cons x rest)
  show ?thesis
  proof (cases x)
    case (Inr c)
    show ?thesis
      by (rule that [of "c # parts'"]) (use assms Cons Inr in \<open>auto simp: pull_def unread_def split: if_splits\<close>)
  qed (use assms Cons in \<open>auto simp: pull_def split: if_splits\<close>)
qed

lemma pull_again_framed:
  assumes "pull d = Again d'" and "framed_before m d' out"
  shows "framed_before m d out"
proof -
  from assms(2) obtain parts' where p: "unread d' parts'" "framed_rest m (dc_state d') (dc_buf d' @ concat parts') out"
    by (auto simp: framed_before_def)
  from pull_again [OF assms(1) p(1)] obtain parts where "unread d parts" "dc_state d' = dc_state d"
      "dc_buf d' @ concat parts' = dc_buf d @ concat parts" .
  then show ?thesis using p(2) framed_beforeI [of d parts] by simp
qed

lemma framed_before_mono: "framed_before m d out \<Longrightarrow> m \<le> k \<Longrightarrow> framed_before k d out"
  unfolding framed_before_def
  by (cases "dc_state d") (auto intro: framed_mono)

definition decoder_ok :: "decoder \<Rightarrow> bool" where
  "decoder_ok d \<longleftrightarrow> (dc_eof d \<longrightarrow> dc_inner d = []) \<and> (dc_state d = PDone \<longrightarrow> dc_eof d) \<and> dc_state d \<noteq> Data 0"

lemma decoder_ok_new: "decoder_ok (decoder_new inner)"
  by (simp add: decoder_ok_def decoder_new_def)

lemma pull_decoder_ok: "decoder_ok d \<Longrightarrow> pull d = Again d' \<Longrightarrow> decoder_ok d'"
  by (auto simp: decoder_ok_def pull_def split: if_splits list.splits sum.splits)

lemma decode_step_ok:
  assumes "decoder_ok d" and "decode_step d = Again d' \<or> decode_step d = Yield (Inr c) d'"
  shows "decoder_ok d'"
proof (cases "dc_state d")
  case Trailers
  have "decoder_ok (d\<lparr>dc_buf := []\<rparr>)" using assms(1) by (simp add: decoder_ok_def)
  then show ?thesis using assms(2) Trailers pull_decoder_ok pull_ok
    by (auto simp: decode_step_def Let_def split: if_splits)
qed (use assms pull_decoder_ok [OF assms(1)] pull_ok in
      \<open>auto simp: decode_step_def decoder_ok_def Let_def min_def split: if_splits option.splits sum.splits\<close>)

text \<open>A body that is framed after a round was framed before it.\<close>

lemma header_round_sound:
  assumes st: "dc_state d = Header" and step: "decode_step d = Again d'" and f: "framed_before m d' out"
  shows "\<exists>k. framed_before k d out"
proof (cases "find_crlf (dc_buf d)")
  case None
  then have "pull d = Again d'" using st step by (auto simp: decode_step_def split: if_splits)
  then show ?thesis using pull_again_framed f by blast
next
  case (Some pos)
  then obtain n where n: "parse_header (take pos (dc_buf d)) = Inr n"
      "d' = d\<lparr>dc_buf := drop (pos + 2) (dc_buf d), dc_state := after_header n\<rparr>"
    using st step by (auto simp: decode_step_def after_header_def Let_def split: sum.splits)
  from framed_before_mono [OF f, of "max m (Suc pos)"] n(2) obtain parts where p: "unread d parts"
      "framed_rest (max m (Suc pos)) (after_header n) (drop (pos + 2) (dc_buf d) @ concat parts) out"
    by (auto simp: framed_before_def unread_def)
  have "pos + 2 \<le> length (dc_buf d)" using find_crlf_Some [OF Some] by blast
  then have "framed (max m (Suc pos)) (dc_buf d @ concat parts) out"
    using framed_header [OF find_crlf_prefix [OF Some, of "concat parts"], of "max m (Suc pos)" out] n(1) p(2) by auto
  then show ?thesis using framed_beforeI [OF p(1)] st by fastforce
qed

lemma data_round_sound:
  assumes st: "dc_state d = Data n" and n: "0 < n" and b: "dc_buf d \<noteq> []"
    and step: "decode_step d = Yield (Inr c) d'" and f: "framed_before m d' out"
  shows "framed_before m d (c @ out)"
proof -
  let ?k = "min n (length (dc_buf d))"
  have c: "c = take ?k (dc_buf d)"
    and d': "d' = d\<lparr>dc_buf := drop ?k (dc_buf d), dc_state := (if ?k = n then DataCrlf else Data (n - ?k))\<rparr>"
    using st b step by (simp_all add: decode_step_def Let_def)
  from f obtain parts where p: "unread d parts" "framed_rest m (dc_state d') (dc_buf d' @ concat parts) out"
    by (auto simp: framed_before_def unread_def d')
  have "framed_rest m (Data n) (dc_buf d @ concat parts) (c @ out)"
    using p(2) n b by (cases "n \<le> length (dc_buf d)") (auto simp: c d' min_absorb1 min_absorb2 Suc_diff_le)
  then show ?thesis using framed_beforeI [OF p(1)] st by simp
qed

lemma data_crlf_round_sound:
  assumes st: "dc_state d = DataCrlf" and step: "decode_step d = Again d'" and f: "framed_before m d' out"
  shows "framed_before m d out"
proof (cases "2 \<le> length (dc_buf d)")
  case True
  then have d': "d' = d\<lparr>dc_buf := drop 2 (dc_buf d), dc_state := Header\<rparr>" and crlf: "take 2 (dc_buf d) = CRLF"
    using st step by (auto simp: decode_step_def split: if_splits)
  from f obtain parts where p: "unread d parts" "framed m (drop 2 (dc_buf d) @ concat parts) out"
    by (auto simp: framed_before_def unread_def d')
  then show ?thesis using framed_beforeI [OF p(1)] st crlf True by simp
next
  case False
  then show ?thesis using st step f pull_again_framed by (auto simp: decode_step_def)
qed

lemma trailers_round_sound:
  assumes st: "dc_state d = Trailers" and step: "decode_step d = Again d'" and f: "framed_before m d' out"
  shows "framed_before m d out"
proof -
  have "pull (d\<lparr>dc_buf := []\<rparr>) = Again d'" using st step by (auto simp: decode_step_def Let_def split: if_splits)
  from pull_again_framed [OF this f] show ?thesis using st by (auto simp: framed_before_def unread_def)
qed

lemma decode_step_sound:
  assumes ok: "decoder_ok d" and f: "framed_before m d' out"
  shows "decode_step d = Again d' \<Longrightarrow> \<exists>k. framed_before k d out"
    and "decode_step d = Yield (Inr c) d' \<Longrightarrow> \<exists>k. framed_before k d (c @ out)"
proof -
  assume step: "decode_step d = Again d'"
  show "\<exists>k. framed_before k d out"
  proof (cases "dc_state d")
    case (Data n)
    then have "pull d = Again d'" using step by (auto simp: decode_step_def Let_def split: if_splits)
    then show ?thesis using pull_again_framed f by blast
  qed (use step header_round_sound data_crlf_round_sound trailers_round_sound f in \<open>blast | simp add: decode_step_def\<close>)+
next
  assume step: "decode_step d = Yield (Inr c) d'"
  obtain n where n: "dc_state d = Data n" "dc_buf d \<noteq> []"
    using step pull_ok
    by (cases "dc_state d") (auto simp: decode_step_def Let_def split: if_splits option.splits sum.splits)
  then have "0 < n" using ok by (cases n) (auto simp: decoder_ok_def)
  from data_round_sound [OF n(1) this n(2) step f] show "\<exists>k. framed_before k d (c @ out)" by blast
qed

lemma decode_all_sound:
  assumes "decoder_ok d" and "decode_all acc d = Inr out"
  shows "\<exists>m rest. out = acc @ rest \<and> framed_before m d rest"
  using assms
proof (induction d arbitrary: acc rule: wf_induct_rule [OF wf_decode_less])
  case (1 d)
  show ?case
  proof (cases "decode_step d")
    case (Again d')
    then have less: "(d', d) \<in> decode_less" and ok: "decoder_ok d'" using decode_step_less decode_step_ok 1(2) by blast+
    have "decode_all acc d' = Inr out" using 1(3) Again by (simp add: decode_all_step [of acc d])
    from "1.IH" [OF less ok this] show ?thesis using decode_step_sound(1) [OF 1(2) _ Again] by blast
  next
    case (Yield x d')
    then obtain c where c: "x = Inr c" using 1(3) by (cases x) (auto simp: decode_all_step [of acc d])
    with Yield have y: "decode_step d = Yield (Inr c) d'" by simp
    then have less: "(d', d) \<in> decode_less" and ok: "decoder_ok d'" using decode_step_less decode_step_ok 1(2) by blast+
    have "decode_all (acc @ c) d' = Inr out" using 1(3) y by (simp add: decode_all_step [of acc d])
    from "1.IH" [OF less ok this] show ?thesis using decode_step_sound(2) [OF 1(2) _ y] by fastforce
  next
    case (Stop d')
    then have "out = acc" using 1(3) by (simp add: decode_all_step [of acc d])
    moreover have "dc_eof d \<and> (dc_state d = PDone \<or> dc_state d = Trailers)"
      using Stop 1(2) pull_ok
      by (auto simp: decode_step_def decoder_ok_def Let_def split: phase.splits if_splits option.splits sum.splits)
    then have "framed_before 0 d []"
      using 1(2) by (intro framed_beforeI [of _ "[]"]) (auto simp: unread_def decoder_ok_def)
    ultimately show ?thesis by blast
  qed
qed

section \<open>Capture\<close>

record captured =
  cap_chunks :: "bytes list"
  cap_len :: nat
  cap_overflow :: bool

definition capture_new :: captured where
  "capture_new = \<lparr>cap_chunks = [], cap_len = 0, cap_overflow = False\<rparr>"

definition capture_push :: "nat \<Rightarrow> bytes \<Rightarrow> captured \<Rightarrow> captured" where
  "capture_push limit chunk c =
     (if cap_overflow c then c
      else if cap_len c + length chunk > limit then c\<lparr>cap_overflow := True, cap_chunks := []\<rparr>
      else c\<lparr>cap_len := cap_len c + length chunk, cap_chunks := cap_chunks c @ [chunk]\<rparr>)"

definition capture_take :: "captured \<Rightarrow> bytes option" where
  "capture_take c = (if cap_overflow c then None else Some (concat (cap_chunks c)))"

section \<open>Bodies to forward\<close>

text \<open>
  The items a reader gets from a body, up to the first error, and what they leave in the capture:
  each plain piece is pushed as it passes.
\<close>

function decode_items :: "decoder \<Rightarrow> (body_error + bytes) list" where
  "decode_items d =
     (case decoder_next d of
        (None, _) \<Rightarrow> []
      | (Some (Inl e), _) \<Rightarrow> [Inl e]
      | (Some (Inr c), d) \<Rightarrow> Inr c # decode_items d)"
  by pat_completeness auto
termination by (relation decode_less) (auto simp: wf_decode_less dest: decoder_next_less [OF sym])

declare decode_items.simps [simp del]

fun plain_items :: "(string + bytes) list \<Rightarrow> (body_error + bytes) list" where
  "plain_items [] = []"
| "plain_items (Inl e # _) = [Inl (BodyFailed e)]"
| "plain_items (Inr c # rest) = Inr c # plain_items rest"

fun capture_items :: "nat \<Rightarrow> (body_error + bytes) list \<Rightarrow> captured \<Rightarrow> captured" where
  "capture_items limit [] c = c"
| "capture_items limit (Inr chunk # rest) c = capture_items limit rest (capture_push limit chunk c)"
| "capture_items limit (Inl e # rest) c = capture_items limit rest c"

definition request_body ::
  "(string + bytes) list \<Rightarrow> bool \<Rightarrow> nat option \<Rightarrow> (body_error + bytes) list \<times> captured option" where
  "request_body body streaming limit =
     (let items = (if streaming then decode_items (decoder_new body) else plain_items body)
      in (items, map_option (\<lambda>limit. capture_items limit items capture_new) limit))"

fun joined :: "(body_error + bytes) list \<Rightarrow> body_error + bytes" where
  "joined [] = Inr []"
| "joined (Inl e # _) = Inl e"
| "joined (Inr c # rest) = map_sum id ((@) c) (joined rest)"

lemma decode_all_items: "decode_all acc d = map_sum id ((@) acc) (joined (decode_items d))"
proof (induction acc d rule: decode_all.induct)
  case (1 acc d)
  show ?case
  proof (cases "decoder_next d")
    case (Pair r d')
    show ?thesis
    proof (cases r)
      case None
      then show ?thesis using Pair by (simp add: decode_all.simps [of acc d] decode_items.simps [of d])
    next
      case (Some x)
      show ?thesis
      proof (cases x)
        case (Inl e)
        then show ?thesis using Pair Some by (simp add: decode_all.simps [of acc d] decode_items.simps [of d])
      next
        case (Inr c)
        note IH = "1.IH" [OF Pair [symmetric] Some Inr]
        show ?thesis
          using Pair Some Inr IH
          by (cases "joined (decode_items d')") (simp_all add: decode_all.simps [of acc d] decode_items.simps [of d])
      qed
    qed
  qed
qed

lemma capture_overflow: "cap_overflow c \<Longrightarrow> capture_items limit items c = c"
  by (induction limit items c rule: capture_items.induct) (simp_all add: capture_push_def)

lemma capture_items_take:
  assumes "joined items = Inr out" and "\<not> cap_overflow c" and "cap_len c = length (concat (cap_chunks c))"
    and "cap_len c \<le> limit"
  shows "capture_take (capture_items limit items c) =
    (if cap_len c + length out \<le> limit then Some (concat (cap_chunks c) @ out) else None)"
  using assms
proof (induction items arbitrary: c out)
  case Nil
  then show ?case by (simp add: capture_take_def)
next
  case (Cons x items)
  from Cons.prems(1) obtain chunk out' where x: "x = Inr chunk" "joined items = Inr out'" "out = chunk @ out'"
    by (cases x; cases "joined items") auto
  show ?case
  proof (cases "cap_len c + length chunk \<le> limit")
    case True
    then show ?thesis using Cons.IH [OF x(2), of "capture_push limit chunk c"] Cons.prems x
      by (auto simp: capture_push_def)
  qed (use Cons.prems x in \<open>auto simp: capture_push_def capture_overflow capture_take_def\<close>)
qed

lemma framed_new: "framed_before m (decoder_new (map Inr parts)) out \<longleftrightarrow> framed m (concat parts) out"
  by (auto simp: framed_before_def unread_def decoder_new_def dest: map_injective)

lemma framed_new_inner:
  "framed_before m (decoder_new inner) out \<Longrightarrow> \<exists>parts. inner = map Inr parts \<and> framed m (concat parts) out"
  by (auto simp: framed_before_def unread_def decoder_new_def)

text \<open>
  C26: an upload in \<^verbatim>\<open>aws-chunked\<close> framing, cut into pieces in any way on the network, reaches the
  origin as its plain bytes, and the capture for the cache holds exactly these bytes when they fit
  the limit and nothing otherwise.
\<close>

theorem chunked_body_plain:
  assumes "framed MAX_HEADER_LINE (concat parts) out"
  shows "\<exists>items c. request_body (map Inr parts) True (Some limit) = (items, Some c) \<and> joined items = Inr out
    \<and> capture_take c = (if length out \<le> limit then Some out else None)"
proof -
  let ?items = "decode_items (decoder_new (map Inr parts))"
  have "decode_all [] (decoder_new (map Inr parts)) = Inr ([] @ out)"
    by (rule decode_all_framed [of MAX_HEADER_LINE]) (simp_all add: framed_new assms)
  then have j: "joined ?items = Inr out" by (cases "joined ?items") (simp_all add: decode_all_items)
  have "capture_take (capture_items limit ?items capture_new) = (if length out \<le> limit then Some out else None)"
    using capture_items_take [OF j, of capture_new limit] by (simp add: capture_new_def)
  with j show ?thesis by (simp add: request_body_def Let_def)
qed

text \<open>The body of two chunks of the example in the tests, its last line and a trailer.\<close>

definition demo_body :: bytes where
  "demo_body = as_bytes ''5;chunk-signature=ab'' @ CRLF @ as_bytes ''hello'' @ CRLF
     @ as_bytes ''1'' @ CRLF @ as_bytes ''!'' @ CRLF @ as_bytes ''0'' @ CRLF @ as_bytes ''x-amz-trailer:v''"

lemma demo_headers:
  "parse_header (as_bytes ''5;chunk-signature=ab'') = Inr 5" "parse_header (as_bytes ''1'') = Inr 1"
  "parse_header (as_bytes ''0'') = Inr 0"
  by (simp_all add: parse_header_def as_bytes_def of_bytes_def from_utf8_def trim_visible visible_def parse_uint_def
      digit_value_def word_le_nat_alt)

lemma demo_body_framed: "framed MAX_HEADER_LINE demo_body (as_bytes ''hello!'')"
proof -
  let ?z = "as_bytes ''0'' @ CRLF @ as_bytes ''x-amz-trailer:v''"
  let ?y = "as_bytes ''1'' @ CRLF @ as_bytes ''!'' @ CRLF @ ?z"
  have "framed MAX_HEADER_LINE ?z []"
    by (rule framed_last) (use demo_headers in \<open>simp_all add: as_bytes_def MAX_HEADER_LINE_def\<close>)
  then have "framed MAX_HEADER_LINE ?y (as_bytes ''!'' @ [])"
    by (rule framed_chunk [rotated -1]) (use demo_headers in \<open>simp_all add: as_bytes_def MAX_HEADER_LINE_def\<close>)
  then have "framed MAX_HEADER_LINE (as_bytes ''5;chunk-signature=ab'' @ CRLF @ as_bytes ''hello'' @ CRLF @ ?y)
      (as_bytes ''hello'' @ (as_bytes ''!'' @ []))"
    by (rule framed_chunk [rotated -1]) (use demo_headers in \<open>simp_all add: as_bytes_def MAX_HEADER_LINE_def\<close>)
  then show ?thesis by (simp add: demo_body_def as_bytes_def)
qed

theorem chunked_body_plain_witness:
  "\<exists>items c. request_body (map Inr [take 7 demo_body, [], drop 7 demo_body]) True (Some 6) = (items, Some c)
    \<and> joined items = Inr (as_bytes ''hello!'') \<and> capture_take c = Some (as_bytes ''hello!'')"
  using chunked_body_plain [of "[take 7 demo_body, [], drop 7 demo_body]" "as_bytes ''hello!''" 6] demo_body_framed
  by (simp add: as_bytes_def)

text \<open>
  C27: the decoder hands on a body as complete only when it is one: all its pieces arrived without an
  error and together are whole chunks, each as long as its header says, up to the line of size
  zero. A body that ends early or whose chunks do not add up ends in an error.
\<close>

theorem chunked_body_whole:
  assumes "decode_all [] (decoder_new inner) = Inr out"
  shows "\<exists>m parts. inner = map Inr parts \<and> framed m (concat parts) out"
proof -
  from decode_all_sound [OF decoder_ok_new assms] obtain m where "framed_before m (decoder_new inner) out" by auto
  then show ?thesis using framed_new_inner by blast
qed

theorem chunked_body_whole_witness:
  "\<exists>m parts. [Inr demo_body :: string + bytes] = map Inr parts \<and> framed m (concat parts) (as_bytes ''hello!'')"
proof (rule chunked_body_whole)
  have "decode_all [] (decoder_new (map Inr [demo_body])) = Inr ([] @ as_bytes ''hello!'')"
    by (rule decode_all_framed [of MAX_HEADER_LINE]) (use framed_new [of MAX_HEADER_LINE "[demo_body]" "as_bytes ''hello!''"] demo_body_framed in simp_all)
  then show "decode_all [] (decoder_new [Inr demo_body]) = Inr (as_bytes ''hello!'')" by simp
qed

end
