(* ===== verification/S3_Signing.thy ===== *)
theory S3_Signing
  imports S3_Request "HOL-Library.Char_ord" "HOL-Library.List_Lexorder" "HOL-Library.Product_Lexorder"
begin

text \<open>
  Signatures of requests: canonical form, derivation of keys and the \<^verbatim>\<open>Authorization\<close> header
  (\<^verbatim>\<open>nestor-s3/src/sigv4.rs\<close>), and the verification of incoming requests (\<^verbatim>\<open>nestor-s3/src/auth.rs\<close>).

  SHA-256, HMAC and the dates of \<^verbatim>\<open>chrono\<close> are parameters. A date is its distance from the epoch in
  nanoseconds.
\<close>

record crypto =
  cr_sha256 :: "bytes \<Rightarrow> bytes"
  cr_hmac :: "bytes \<Rightarrow> bytes \<Rightarrow> bytes"
  cr_amz_date :: "int \<Rightarrow> string"
  cr_parse_amz_date :: "string \<Rightarrow> int option"

record uri =
  uri_authority :: "string option"
  uri_path :: string
  uri_query :: "string option"

section \<open>Canonical requests\<close>

definition ALGORITHM :: string where "ALGORITHM = ''AWS4-HMAC-SHA256''"

definition SERVICE :: string where "SERVICE = ''s3''"

definition UNSIGNED_PAYLOAD :: string where "UNSIGNED_PAYLOAD = ''UNSIGNED-PAYLOAD''"

definition TERMINATOR :: string where "TERMINATOR = ''aws4_request''"

record credentials =
  access_key :: string
  secret_key :: string
  session_token :: "string option"

definition ascii_lower :: "char \<Rightarrow> char" where
  "ascii_lower c = (let n = (of_char c :: nat) in if 65 \<le> n \<and> n \<le> 90 then char_of (n + 32) else c)"

definition to_ascii_lowercase :: "string \<Rightarrow> string" where
  "to_ascii_lowercase s = map ascii_lower s"

definition eq_ignore_ascii_case :: "string \<Rightarrow> string \<Rightarrow> bool" where
  "eq_ignore_ascii_case a b \<longleftrightarrow> to_ascii_lowercase a = to_ascii_lowercase b"

definition canonical_uri :: "string \<Rightarrow> string" where
  "canonical_uri raw_path = (let path = (if raw_path = [] then ''/'' else raw_path) in uri_encode (percent_decode path) False)"

definition canonical_pair :: "string \<Rightarrow> string \<times> string" where
  "canonical_pair pair =
     (let (k, v) = unwrap_or (split_once CHR ''='' pair) (pair, [])
      in (uri_encode (percent_decode k) True, uri_encode (percent_decode v) True))"

definition canonical_query :: "string \<Rightarrow> string option \<Rightarrow> string" where
  "canonical_query raw_query skip =
     (let pairs = filter (\<lambda>(k, _). case skip of None \<Rightarrow> True | Some s \<Rightarrow> \<not> eq_ignore_ascii_case k s)
                    (map canonical_pair (filter (\<lambda>p. p \<noteq> []) (split_on CHR ''&'' raw_query)))
      in join ''&'' (map (\<lambda>(k, v). k @ ''='' @ v) (sort pairs)))"

fun normalize_chars :: "bool \<Rightarrow> string \<Rightarrow> string" where
  "normalize_chars last_space [] = []"
| "normalize_chars last_space (ch # s) =
     (if ch = CHR '' '' \<or> ch = CHR 0x09
      then (if last_space then [] else '' '') @ normalize_chars True s
      else ch # normalize_chars False s)"

definition normalize_value :: "string \<Rightarrow> string" where
  "normalize_value v = normalize_chars False (trim v)"

definition canonical_header :: "header_map \<Rightarrow> string \<Rightarrow> string \<Rightarrow> string" where
  "canonical_header h host name =
     (if name = ''host'' then normalize_value host
      else join '','' (sort (map (\<lambda>v. normalize_value (of_bytes (utf8_lossy v))) (hm_get_all name h))))"

definition canonical_headers :: "header_map \<Rightarrow> string list \<Rightarrow> string \<Rightarrow> string" where
  "canonical_headers h names host =
     concat (map (\<lambda>name. name @ '':'' @ canonical_header h host name @ [CHR 0x0A]) names)"

record canonical =
  cn_method :: string
  cn_raw_path :: string
  cn_raw_query :: string
  cn_headers :: header_map
  cn_host :: string
  cn_signed_headers :: "string list"
  cn_payload_hash :: string
  cn_skip_query :: "string option"

definition canonical_request :: "canonical \<Rightarrow> string" where
  "canonical_request c =
     cn_method c @ [CHR 0x0A] @ canonical_uri (cn_raw_path c) @ [CHR 0x0A]
     @ canonical_query (cn_raw_query c) (cn_skip_query c) @ [CHR 0x0A]
     @ canonical_headers (cn_headers c) (cn_signed_headers c) (cn_host c) @ [CHR 0x0A]
     @ join '';'' (cn_signed_headers c) @ [CHR 0x0A]
     @ cn_payload_hash c"

section \<open>Signatures\<close>

definition hex_encode :: "bytes \<Rightarrow> string" where
  "hex_encode s = concat (map (\<lambda>b. [digit_char (unat b div 16), digit_char (unat b mod 16)]) s)"

definition sha256_hex :: "crypto \<Rightarrow> bytes \<Rightarrow> string" where
  "sha256_hex cr s = hex_encode (cr_sha256 cr s)"

definition scope :: "string \<Rightarrow> string \<Rightarrow> string" where
  "scope date region = date @ ''/'' @ region @ ''/'' @ SERVICE @ ''/'' @ TERMINATOR"

definition string_to_sign :: "crypto \<Rightarrow> string \<Rightarrow> string \<Rightarrow> string \<Rightarrow> string" where
  "string_to_sign cr amz_date sc canon =
     ALGORITHM @ [CHR 0x0A] @ amz_date @ [CHR 0x0A] @ sc @ [CHR 0x0A] @ sha256_hex cr (as_bytes canon)"

definition signing_key :: "crypto \<Rightarrow> string \<Rightarrow> string \<Rightarrow> string \<Rightarrow> bytes" where
  "signing_key cr secret date region =
     (let k_date = cr_hmac cr (as_bytes (''AWS4'' @ secret)) (as_bytes date);
          k_region = cr_hmac cr k_date (as_bytes region);
          k_service = cr_hmac cr k_region (as_bytes SERVICE)
      in cr_hmac cr k_service (as_bytes TERMINATOR))"

definition signature :: "crypto \<Rightarrow> bytes \<Rightarrow> string \<Rightarrow> string" where
  "signature cr key sts = hex_encode (cr_hmac cr key (as_bytes sts))"

definition SIGNING_KEYS_KEPT :: nat where "SIGNING_KEYS_KEPT = 8"

record signing_key_entry =
  sk_secret :: string
  sk_day :: string
  sk_region :: string
  sk_key :: bytes

type_synonym signing_keys = "signing_key_entry list"

definition keys_get :: "crypto \<Rightarrow> string \<Rightarrow> string \<Rightarrow> string \<Rightarrow> signing_keys \<Rightarrow> bytes \<times> signing_keys" where
  "keys_get cr secret day region entries =
     (case find (\<lambda>e. sk_day e = day \<and> sk_region e = region \<and> sk_secret e = secret) entries of
        Some entry \<Rightarrow> (sk_key entry, entries)
      | None \<Rightarrow>
          let key = signing_key cr secret day region;
              entries = (if length entries = SIGNING_KEYS_KEPT then tl entries else entries)
          in (key, entries @ [\<lparr>sk_secret = secret, sk_day = day, sk_region = region, sk_key = key\<rparr>]))"

section \<open>Authorization header\<close>

record authorization =
  au_access_key :: string
  au_date :: string
  au_region :: string
  au_signed_headers :: "string list"
  au_signature :: string

definition assemble :: "string \<Rightarrow> string \<Rightarrow> string \<Rightarrow> authorization option" where
  "assemble credential signed_headers sig =
     (case split_on CHR ''/'' credential of
        [ak, date, region, service, terminator] \<Rightarrow>
          if service \<noteq> SERVICE \<or> terminator \<noteq> TERMINATOR then None
          else Some \<lparr>au_access_key = ak, au_date = date, au_region = region,
                  au_signed_headers = map to_ascii_lowercase (split_on CHR '';'' signed_headers),
                  au_signature = sig\<rparr>
      | _ \<Rightarrow> None)"

fun authorization_fields ::
  "string list \<Rightarrow> string option \<times> string option \<times> string option
     \<Rightarrow> (string option \<times> string option \<times> string option) option" where
  "authorization_fields [] st = Some st"
| "authorization_fields (part # parts) (credential, signed_headers, sig) =
     (case split_once CHR ''='' (trim part) of
        None \<Rightarrow> None
      | Some (k, v) \<Rightarrow>
          if k = ''Credential'' then authorization_fields parts (Some v, signed_headers, sig)
          else if k = ''SignedHeaders'' then authorization_fields parts (credential, Some v, sig)
          else if k = ''Signature'' then authorization_fields parts (credential, signed_headers, Some v)
          else None)"

definition parse_authorization :: "string \<Rightarrow> authorization option" where
  "parse_authorization v =
     (case strip_prefix ALGORITHM v of
        None \<Rightarrow> None
      | Some rest \<Rightarrow>
          (case authorization_fields (split_on CHR '','' (trim_start rest)) (None, None, None) of
             Some (Some credential, Some signed_headers, Some sig) \<Rightarrow> assemble credential signed_headers sig
           | _ \<Rightarrow> None))"

definition from_query :: "string \<Rightarrow> string \<Rightarrow> string \<Rightarrow> authorization option" where
  "from_query credential signed_headers sig = assemble credential signed_headers sig"

definition authorization_value :: "authorization \<Rightarrow> string" where
  "authorization_value a =
     ALGORITHM @ '' Credential='' @ au_access_key a @ ''/'' @ scope (au_date a) (au_region a)
     @ '', SignedHeaders='' @ join '';'' (au_signed_headers a)
     @ '', Signature='' @ au_signature a"

text \<open>\<^verbatim>\<open>SigningKeys::sign\<close>; no result where it panics.\<close>

definition is_signed :: "string \<Rightarrow> bool" where
  "is_signed n \<longleftrightarrow> strip_prefix ''x-amz-'' n \<noteq> None \<or> n = ''host'' \<or> n = ''content-type'' \<or> n = ''content-md5'' \<or> n = ''range''"

definition sign ::
  "crypto \<Rightarrow> string \<Rightarrow> uri \<Rightarrow> header_map \<Rightarrow> credentials \<Rightarrow> string \<Rightarrow> int \<Rightarrow> signing_keys
     \<Rightarrow> (header_map \<times> signing_keys) option" where
  "sign cr meth u h creds region now keys =
     (let host = unwrap_or (hm_text ''host'' h) [];
          date = cr_amz_date cr now;
          day = take 8 date
      in if length date < 8 then None
         else case header_value (as_bytes date) of
           None \<Rightarrow> None
         | Some date_value \<Rightarrow>
             let h = hm_insert ''x-amz-date'' date_value h;
                 h = hm_insert ''x-amz-content-sha256'' (as_bytes UNSIGNED_PAYLOAD) h;
                 h = (case Option.bind (session_token creds) (\<lambda>t. header_value (as_bytes t)) of
                        Some v \<Rightarrow> hm_insert ''x-amz-security-token'' v h
                      | None \<Rightarrow> h);
                 names = remdups_adj (sort (filter is_signed (hm_keys h)));
                 canon = canonical_request
                   \<lparr>cn_method = meth, cn_raw_path = uri_path u, cn_raw_query = unwrap_or (uri_query u) [],
                    cn_headers = h, cn_host = host, cn_signed_headers = names,
                    cn_payload_hash = UNSIGNED_PAYLOAD, cn_skip_query = None\<rparr>;
                 sts = string_to_sign cr date (scope day region) canon;
                 (key, keys) = keys_get cr (secret_key creds) day region keys;
                 auth = \<lparr>au_access_key = access_key creds, au_date = day, au_region = region,
                         au_signed_headers = names, au_signature = signature cr key sts\<rparr>
             in map_option (\<lambda>v. (hm_insert ''authorization'' v h, keys)) (header_value (as_bytes (authorization_value auth))))"

section \<open>Verification\<close>

definition MAX_SKEW_SECS :: int where "MAX_SKEW_SECS = 15 * 60"

definition MAX_PRESIGN_SECS :: int where "MAX_PRESIGN_SECS = 7 * 24 * 3600"

datatype auth = Anonymous | Static string string

definition host_of :: "header_map \<Rightarrow> uri \<Rightarrow> string" where
  "host_of h u =
     (case hm_text ''host'' h of
        Some host \<Rightarrow> host
      | None \<Rightarrow> unwrap_or (uri_authority u) [])"

definition query_param :: "string \<Rightarrow> string \<Rightarrow> string option" where
  "query_param raw_query name =
     map_option (\<lambda>(_, v). percent_decode v)
       (find (\<lambda>(k, _). percent_decode k = name)
          (map (\<lambda>pair. unwrap_or (split_once CHR ''='' pair) (pair, [])) (split_on CHR ''&'' raw_query)))"

unbundle bit_operations_syntax

definition constant_time_eq :: "string \<Rightarrow> string \<Rightarrow> bool" where
  "constant_time_eq a b =
     (if length a \<noteq> length b then False
      else foldl (\<lambda>acc (x, y). acc OR (x XOR y)) (0 :: u8) (zip (as_bytes a) (as_bytes b)) = 0)"

text \<open>\<^verbatim>\<open>i64::from_str\<close>.\<close>

definition parse_i64 :: "string \<Rightarrow> int option" where
  "parse_i64 s =
     (if s \<noteq> [] \<and> hd s = CHR ''-''
      then if tl s = [] then None
           else case digits_value 10 0 (tl s) of
                  Some n \<Rightarrow> if n \<le> 2 ^ 63 then Some (- int n) else None
                | None \<Rightarrow> None
      else map_option int (parse_uint 10 (2 ^ 63) s))"

text \<open>\<^verbatim>\<open>?\<close> and \<^verbatim>\<open>ok_or_else\<close>.\<close>

definition and_then :: "'e + 'a \<Rightarrow> ('a \<Rightarrow> 'e + 'b) \<Rightarrow> 'e + 'b" where
  "and_then r f = (case r of Inl e \<Rightarrow> Inl e | Inr x \<Rightarrow> f x)"

definition required :: "string \<Rightarrow> 'a option \<Rightarrow> s3_error + 'a" where
  "required message x = (case x of Some y \<Rightarrow> Inr y | None \<Rightarrow> Inl (invalid_request message))"

record presented =
  pr_auth :: authorization
  pr_amz_date :: string
  pr_payload_hash :: string
  pr_skip_query :: "string option"

definition presented_header :: "bytes \<Rightarrow> header_map \<Rightarrow> s3_error + presented" where
  "presented_header header h =
     and_then (required ''malformed Authorization header'' (to_str header)) (\<lambda>header.
     and_then (required ''unsupported Authorization header'' (parse_authorization header)) (\<lambda>auth.
     and_then (required ''missing x-amz-date''
         (Option.bind (case hm_get ''x-amz-date'' h of Some v \<Rightarrow> Some v | None \<Rightarrow> hm_get ''date'' h) to_str)) (\<lambda>amz_date.
     and_then (required ''missing x-amz-content-sha256'' (hm_text ''x-amz-content-sha256'' h)) (\<lambda>payload_hash.
       Inr \<lparr>pr_auth = auth, pr_amz_date = amz_date, pr_payload_hash = payload_hash, pr_skip_query = None\<rparr>))))"

definition presented_query :: "crypto \<Rightarrow> string \<Rightarrow> int \<Rightarrow> s3_error + presented" where
  "presented_query cr raw_query now =
     and_then (required ''missing X-Amz-Credential'' (query_param raw_query ''X-Amz-Credential'')) (\<lambda>credential.
     and_then (required ''missing X-Amz-SignedHeaders'' (query_param raw_query ''X-Amz-SignedHeaders'')) (\<lambda>names.
     and_then (required ''missing X-Amz-Signature'' (query_param raw_query ''X-Amz-Signature'')) (\<lambda>sig.
     and_then (required ''missing X-Amz-Date'' (query_param raw_query ''X-Amz-Date'')) (\<lambda>amz_date.
     and_then (required ''missing X-Amz-Expires''
         (Option.bind (query_param raw_query ''X-Amz-Expires'') parse_i64)) (\<lambda>expires.
       if \<not> (1 \<le> expires \<and> expires \<le> MAX_PRESIGN_SECS) then Inl (invalid_request ''invalid X-Amz-Expires'')
       else
     and_then (required ''invalid X-Amz-Date'' (cr_parse_amz_date cr amz_date)) (\<lambda>issued.
       if issued + expires * 10 ^ 9 < now then Inl expired
       else
     and_then (required ''invalid X-Amz-Credential'' (from_query credential names sig)) (\<lambda>auth.
       Inr \<lparr>pr_auth = auth, pr_amz_date = amz_date, pr_payload_hash = UNSIGNED_PAYLOAD,
            pr_skip_query = Some ''X-Amz-Signature''\<rparr>)))))))"

definition presented_of :: "crypto \<Rightarrow> uri \<Rightarrow> header_map \<Rightarrow> int \<Rightarrow> s3_error + presented" where
  "presented_of cr u h now =
     (let raw_query = unwrap_or (uri_query u) []
      in case hm_get ''authorization'' h of
           Some header \<Rightarrow> presented_header header h
         | None \<Rightarrow>
             if query_param raw_query ''X-Amz-Algorithm'' \<noteq> None then presented_query cr raw_query now
             else Inl (access_denied ''anonymous access is not allowed''))"

definition presented_canonical :: "string \<Rightarrow> uri \<Rightarrow> header_map \<Rightarrow> presented \<Rightarrow> canonical" where
  "presented_canonical meth u h p =
     \<lparr>cn_method = meth, cn_raw_path = uri_path u, cn_raw_query = unwrap_or (uri_query u) [], cn_headers = h,
      cn_host = host_of h u, cn_signed_headers = au_signed_headers (pr_auth p),
      cn_payload_hash = pr_payload_hash p, cn_skip_query = pr_skip_query p\<rparr>"

text \<open>\<^verbatim>\<open>num_seconds\<close> rounds towards zero.\<close>

definition verify ::
  "crypto \<Rightarrow> auth \<Rightarrow> string \<Rightarrow> uri \<Rightarrow> header_map \<Rightarrow> int \<Rightarrow> signing_keys \<Rightarrow> (s3_error + unit) \<times> signing_keys" where
  "verify cr a meth u h now keys =
     (case a of
        Anonymous \<Rightarrow> (Inr (), keys)
      | Static ak sk \<Rightarrow>
          (case presented_of cr u h now of
             Inl e \<Rightarrow> (Inl e, keys)
           | Inr p \<Rightarrow>
               let auth = pr_auth p; amz_date = pr_amz_date p;
                   skew = (if pr_skip_query p = None
                           then and_then (required ''invalid x-amz-date'' (cr_parse_amz_date cr amz_date)) (\<lambda>issued.
                             if \<bar>now - issued\<bar> div 10 ^ 9 > MAX_SKEW_SECS then Inl request_time_too_skewed else Inr ())
                           else Inr ())
               in if \<not> constant_time_eq (au_access_key auth) ak then (Inl invalid_access_key, keys)
                  else case skew of
                    Inl e \<Rightarrow> (Inl e, keys)
                  | Inr _ \<Rightarrow>
                      if strip_prefix (au_date auth) amz_date = None then (Inl signature_mismatch, keys)
                      else
                        let canon = canonical_request (presented_canonical meth u h p);
                            sts = string_to_sign cr amz_date (scope (au_date auth) (au_region auth)) canon;
                            (key, keys) = keys_get cr sk (au_date auth) (au_region auth) keys;
                            expected = signature cr key sts
                        in (if constant_time_eq expected (au_signature auth) then Inr () else Inl signature_mismatch, keys)))"

section \<open>Keys\<close>

definition keys_ok :: "crypto \<Rightarrow> signing_keys \<Rightarrow> bool" where
  "keys_ok cr keys \<longleftrightarrow>
     length keys \<le> SIGNING_KEYS_KEPT
     \<and> list_all (\<lambda>e. sk_key e = signing_key cr (sk_secret e) (sk_day e) (sk_region e)) keys"

lemma keys_ok_Nil [simp]: "keys_ok cr []"
  by (simp add: keys_ok_def)

text \<open>The cache answers as the derivation does, and stays bounded.\<close>

lemma keys_get_ok:
  assumes "keys_ok cr keys"
  shows "fst (keys_get cr secret day region keys) = signing_key cr secret day region"
    and "keys_ok cr (snd (keys_get cr secret day region keys))"
proof -
  let ?P = "\<lambda>e. sk_day e = day \<and> sk_region e = region \<and> sk_secret e = secret"
  have "fst (keys_get cr secret day region keys) = signing_key cr secret day region
      \<and> keys_ok cr (snd (keys_get cr secret day region keys))"
  proof (cases "find ?P keys")
    case None
    have "list_all Q keys \<Longrightarrow> list_all Q (tl keys)" for Q by (cases keys) auto
    then show ?thesis using assms None by (auto simp: keys_get_def keys_ok_def SIGNING_KEYS_KEPT_def Let_def)
  next
    case (Some e)
    then have "e \<in> set keys" "?P e" by (auto simp: find_Some_iff)
    then show ?thesis using assms Some by (auto simp: keys_get_def keys_ok_def list_all_iff)
  qed
  then show "fst (keys_get cr secret day region keys) = signing_key cr secret day region"
    and "keys_ok cr (snd (keys_get cr secret day region keys))" by simp_all
qed

section \<open>Comparison in constant time\<close>

lemma xor_eq_zero: "x XOR y = 0 \<longleftrightarrow> x = (y :: u8)"
  by (auto simp: bit_eq_iff bit_xor_iff)

lemma fold_or_zero:
  "foldl (\<lambda>acc (x, y). acc OR (x XOR y)) (a :: u8) ps = 0 \<longleftrightarrow> a = 0 \<and> (\<forall>(x, y) \<in> set ps. x = y)"
  by (induction ps arbitrary: a) (auto simp: or_eq_0_iff xor_eq_zero split: prod.splits)

lemma constant_time_eq_iff: "constant_time_eq a b \<longleftrightarrow> a = b"
proof (cases "length a = length b")
  case True
  have "(\<forall>(x, y) \<in> set (zip (as_bytes a) (as_bytes b)). x = y) \<longleftrightarrow> as_bytes a = as_bytes b"
    using True by (auto simp: list_eq_iff_zip_eq as_bytes_def)
  also have "\<dots> \<longleftrightarrow> a = b" by (metis of_bytes_as_bytes)
  finally show ?thesis using True by (simp add: constant_time_eq_def fold_or_zero)
qed (auto simp: constant_time_eq_def)

end
