(* ===== verification/S3_Verify.thy ===== *)
theory S3_Verify
  imports S3_Signing
begin

text \<open>
  What verification accepts, said of the headers and the query of a request, and that it accepts what signing produces: the \<^verbatim>\<open>Authorization\<close> header
  parses back, and signer and verifier build the same canonical request.
\<close>

section \<open>Texts in headers\<close>

definition printable :: "char \<Rightarrow> bool" where
  "printable c \<longleftrightarrow> visible c \<or> c = CHR '' ''"

lemma visible_printable: "list_all visible s \<Longrightarrow> list_all printable s"
  by (simp add: list_all_iff printable_def)

lemma to_str_printable:
  assumes "list_all printable s"
  shows "to_str (as_bytes s) = Some s"
proof -
  have "b = 9 \<or> 32 \<le> b \<and> b < 127" if "b \<in> set (as_bytes s)" for b
  proof -
    from that have "b \<in> of_char ` set s" by (simp add: as_bytes_def)
    then obtain c where c: "c \<in> set s" "b = of_char c" by blast
    then have "printable c" using assms by (simp add: list_all_iff)
    then show ?thesis using c(2) by (auto simp: printable_def visible_def word_le_nat_alt word_less_nat_alt)
  qed
  then show ?thesis by (auto simp: to_str_def list_all_iff)
qed

lemma header_value_Some: "header_value v = Some w \<Longrightarrow> w = v"
  by (simp add: header_value_def split: if_splits)

lemma trim_start_space: "s = [] \<or> visible (hd s) \<Longrightarrow> trim_start (CHR '' '' # s) = s"
proof -
  assume s: "s = [] \<or> visible (hd s)"
  have "ws_prefix (CHR '' '' # s) = 1" by (simp add: ws_prefix_def)
  then have "trim_start (CHR '' '' # s) = trim_start s" by (subst trim_start.simps) simp
  also have "\<dots> = s" using s by (rule trim_start_visible)
  finally show ?thesis .
qed

lemma trim_space_visible: "list_all visible s \<Longrightarrow> trim (CHR '' '' # s) = s"
  using trim_start_space [of s] trim_visible [of s] trim_start_visible [of s] by (cases s) (simp_all add: trim_def)

section \<open>The Authorization header\<close>

text \<open>A text that can stand between the separators of the header, and a name that is lower case.\<close>

definition field_text :: "string \<Rightarrow> bool" where
  "field_text s \<longleftrightarrow> list_all (\<lambda>c. visible c \<and> c \<noteq> CHR '','' \<and> c \<noteq> CHR ''/'') s"

definition header_name :: "string \<Rightarrow> bool" where
  "header_name s \<longleftrightarrow> list_all (\<lambda>c. visible c \<and> c \<noteq> CHR '','' \<and> c \<noteq> CHR '';'' \<and> ascii_lower c = c) s"

definition authorization_ok :: "authorization \<Rightarrow> bool" where
  "authorization_ok a \<longleftrightarrow> field_text (au_access_key a) \<and> field_text (au_date a) \<and> field_text (au_region a)
     \<and> au_signed_headers a \<noteq> [] \<and> list_all header_name (au_signed_headers a) \<and> field_text (au_signature a)"

lemma join_all:
  "list_all P sep \<Longrightarrow> list_all (list_all P) xs \<Longrightarrow> list_all P (join sep xs)"
  by (induction sep xs rule: join.induct) simp_all

lemma field_text_visible: "field_text s \<Longrightarrow> list_all visible s"
  by (simp add: field_text_def list_all_iff)

lemma field_text_plain: "field_text s \<Longrightarrow> CHR '','' \<notin> set s" "field_text s \<Longrightarrow> CHR ''/'' \<notin> set s"
  by (auto simp: field_text_def list_all_iff)

lemma names_plain:
  assumes "list_all header_name ns"
  shows "list_all visible (join '';'' ns)" and "CHR '','' \<notin> set (join '';'' ns)"
    and "\<forall>n \<in> set ns. CHR '';'' \<notin> set n" and "map to_ascii_lowercase ns = ns"
proof -
  show "list_all visible (join '';'' ns)"
    by (rule join_all) (use assms in \<open>auto simp: visible_def header_name_def list_all_iff\<close>)
  have "list_all (\<lambda>c. c \<noteq> CHR '','') (join '';'' ns)"
    by (rule join_all) (use assms in \<open>auto simp: header_name_def list_all_iff\<close>)
  then show "CHR '','' \<notin> set (join '';'' ns)" by (auto simp: list_all_iff)
  show "\<forall>n \<in> set ns. CHR '';'' \<notin> set n" using assms by (auto simp: header_name_def list_all_iff)
  have "to_ascii_lowercase n = n" if "n \<in> set ns" for n
    using assms that by (auto simp: header_name_def to_ascii_lowercase_def list_all_iff intro: map_idI)
  then show "map to_ascii_lowercase ns = ns" by (rule map_idI)
qed

lemma assemble_scope:
  assumes "field_text ak" and "field_text date" and "field_text region" and "ns \<noteq> []" and "list_all header_name ns"
  shows "assemble (ak @ ''/'' @ scope date region) (join '';'' ns) sig =
    Some \<lparr>au_access_key = ak, au_date = date, au_region = region, au_signed_headers = ns, au_signature = sig\<rparr>"
proof -
  have "split_on CHR ''/'' (ak @ ''/'' @ scope date region) = [ak, date, region, SERVICE, TERMINATOR]"
    using field_text_plain(2) assms(1-3)
    by (simp add: scope_def split_on_append_sep SERVICE_def TERMINATOR_def)
  moreover have "split_on CHR '';'' (join '';'' ns) = ns"
    using split_on_join [OF assms(4) names_plain(3) [OF assms(5)]] by simp
  ultimately show ?thesis using names_plain(4) [OF assms(5)] by (simp add: assemble_def)
qed

lemma authorization_fields_value:
  assumes "list_all visible c" and "list_all visible n" and "list_all visible s"
  shows "authorization_fields [''Credential='' @ c, '' SignedHeaders='' @ n, '' Signature='' @ s] (None, None, None) =
    Some (Some c, Some n, Some s)"
proof -
  have v: "list_all visible (''Credential='' @ c)" "list_all visible (''SignedHeaders='' @ n)"
      "list_all visible (''Signature='' @ s)"
    using assms by (simp_all add: visible_def)
  have t: "trim (''Credential='' @ c) = ''Credential='' @ c" "trim ('' SignedHeaders='' @ n) = ''SignedHeaders='' @ n"
      "trim ('' Signature='' @ s) = ''Signature='' @ s"
    using trim_visible [OF v(1)] trim_space_visible [OF v(2)] trim_space_visible [OF v(3)] by simp_all
  show ?thesis by (simp only: authorization_fields.simps t) simp
qed

lemma authorization_parses:
  assumes ok: "authorization_ok a"
  shows "parse_authorization (authorization_value a) = Some a"
proof -
  let ?c = "au_access_key a @ ''/'' @ scope (au_date a) (au_region a)"
  let ?n = "join '';'' (au_signed_headers a)" and ?s = "au_signature a"
  have f: "field_text (au_access_key a)" "field_text (au_date a)" "field_text (au_region a)" "field_text ?s"
      "au_signed_headers a \<noteq> []" "list_all header_name (au_signed_headers a)"
    using ok by (simp_all add: authorization_ok_def)
  have vc: "list_all visible ?c"
    using f(1-3) field_text_visible by (simp add: scope_def SERVICE_def TERMINATOR_def visible_def)
  have commas: "CHR '','' \<notin> set (''Credential='' @ ?c)" "CHR '','' \<notin> set ('' SignedHeaders='' @ ?n)"
      "CHR '','' \<notin> set ('' Signature='' @ ?s)"
    using f field_text_plain(1) names_plain(2) by (simp_all add: scope_def SERVICE_def TERMINATOR_def)
  let ?rest = "(''Credential='' @ ?c) @ CHR '','' # ('' SignedHeaders='' @ ?n) @ CHR '','' # ('' Signature='' @ ?s)"
  have "authorization_value a = ALGORITHM @ CHR '' '' # ?rest" by (simp add: authorization_value_def)
  then have prefix: "strip_prefix ALGORITHM (authorization_value a) = Some (CHR '' '' # ?rest)" by (simp only: strip_prefix_append)
  have start: "trim_start (CHR '' '' # ?rest) = ?rest" by (rule trim_start_space) (simp add: visible_def)
  have split: "split_on CHR '','' ?rest = [''Credential='' @ ?c, '' SignedHeaders='' @ ?n, '' Signature='' @ ?s]"
    by (simp only: split_on_append_sep [OF commas(1)] split_on_append_sep [OF commas(2)] split_on_plain [OF commas(3)])
  note fields = authorization_fields_value [OF vc names_plain(1) [OF f(6)] field_text_visible [OF f(4)]]
  show ?thesis unfolding parse_authorization_def prefix
    by (simp only: option.case start split fields prod.case assemble_scope [OF f(1-3,5,6)]) simp
qed

section \<open>Signing, then verifying\<close>

lemma digit_char_field: "d < 16 \<Longrightarrow> visible (digit_char d) \<and> digit_char d \<noteq> CHR '','' \<and> digit_char d \<noteq> CHR ''/''"
proof -
  assume d: "d < 16"
  have "(of_char (digit_char d) :: nat) = (if d < 10 then 48 + d else 87 + d)" using d by (simp add: digit_char_def)
  moreover have "(of_char CHR '','' :: nat) = 44" "(of_char CHR ''/'' :: nat) = 47" by simp_all
  ultimately have "(of_char (digit_char d) :: nat) \<noteq> of_char CHR '',''" "(of_char (digit_char d) :: nat) \<noteq> of_char CHR ''/''"
    by (simp_all split: if_splits)
  then show ?thesis using digit_char_visible [OF d] by metis
qed

lemma hex_encode_field: "field_text (hex_encode s)"
proof -
  have "unat b div 16 < 16" "unat b mod 16 < 16" for b :: u8 using u8_bound [of b] by simp_all
  then show ?thesis using digit_char_field by (induction s) (simp_all add: hex_encode_def field_text_def)
qed

lemma set_hm_keys: "set (hm_keys h) = fst ` set h"
  by (simp add: hm_keys_def)

lemma set_hm_insert: "fst ` set (hm_insert n v h) = insert n (fst ` set h)"
  by (auto simp: hm_insert_def hm_remove_def)

lemma is_signed_not_authorization: "\<not> is_signed ''authorization''"
  by (simp add: is_signed_def strip_prefix_def)

lemma canonical_headers_frame:
  assumes "''authorization'' \<notin> set ns"
  shows "canonical_headers (hm_insert ''authorization'' v h) ns host = canonical_headers h ns host"
proof -
  have "canonical_header (hm_insert ''authorization'' v h) host n = canonical_header h host n" if "n \<in> set ns" for n
    using assms that by (auto simp: canonical_header_def)
  then show ?thesis by (simp add: canonical_headers_def cong: map_cong)
qed

text \<open>What a signer needs of its inputs: names and credentials that can stand in the header.\<close>

definition signable :: "crypto \<Rightarrow> header_map \<Rightarrow> credentials \<Rightarrow> string \<Rightarrow> int \<Rightarrow> bool" where
  "signable cr h creds region t \<longleftrightarrow>
     list_all (\<lambda>(n, v). header_name n) h \<and> hm_text ''host'' h \<noteq> None
     \<and> field_text (access_key creds) \<and> field_text region \<and> field_text (cr_amz_date cr t)
     \<and> 8 \<le> length (cr_amz_date cr t)"

text \<open>The headers to sign, before the signature is there, and what is signed.\<close>

definition unsigned_headers :: "crypto \<Rightarrow> header_map \<Rightarrow> credentials \<Rightarrow> int \<Rightarrow> header_map" where
  "unsigned_headers cr h creds t =
     (let h = hm_insert ''x-amz-content-sha256'' (as_bytes UNSIGNED_PAYLOAD)
                (hm_insert ''x-amz-date'' (as_bytes (cr_amz_date cr t)) h)
      in case Option.bind (session_token creds) (\<lambda>t. header_value (as_bytes t)) of
           Some v \<Rightarrow> hm_insert ''x-amz-security-token'' v h
         | None \<Rightarrow> h)"

definition signed_names :: "header_map \<Rightarrow> string list" where
  "signed_names h = remdups_adj (sort (filter is_signed (hm_keys h)))"

definition signed_canonical :: "string \<Rightarrow> uri \<Rightarrow> header_map \<Rightarrow> string \<Rightarrow> canonical" where
  "signed_canonical meth u h host =
     \<lparr>cn_method = meth, cn_raw_path = uri_path u, cn_raw_query = unwrap_or (uri_query u) [],
      cn_headers = h, cn_host = host, cn_signed_headers = signed_names h,
      cn_payload_hash = UNSIGNED_PAYLOAD, cn_skip_query = None\<rparr>"

definition signed_authorization ::
  "crypto \<Rightarrow> string \<Rightarrow> uri \<Rightarrow> header_map \<Rightarrow> string \<Rightarrow> credentials \<Rightarrow> string \<Rightarrow> int \<Rightarrow> authorization" where
  "signed_authorization cr meth u h host creds region t =
     (let date = cr_amz_date cr t; day = take 8 date
      in \<lparr>au_access_key = access_key creds, au_date = day, au_region = region, au_signed_headers = signed_names h,
          au_signature = signature cr (signing_key cr (secret_key creds) day region)
            (string_to_sign cr date (scope day region) (canonical_request (signed_canonical meth u h host)))\<rparr>)"

lemma header_value_printable:
  assumes "list_all printable s"
  shows "header_value (as_bytes s) = Some (as_bytes s)"
proof -
  have "list_all (\<lambda>b. b = 9 \<or> 32 \<le> b \<and> b < 127) (as_bytes s)"
    using to_str_printable [OF assms] by (simp add: to_str_def split: if_splits)
  then show ?thesis by (auto simp: header_value_def list_all_iff)
qed

lemma sign_eq:
  assumes ok: "signable cr h creds region t" and k: "keys_ok cr keys"
  shows "map_option fst (sign cr meth u h creds region t keys) =
    map_option (\<lambda>v. hm_insert ''authorization'' v (unsigned_headers cr h creds t))
      (header_value (as_bytes (authorization_value
        (signed_authorization cr meth u (unsigned_headers cr h creds t) (the (hm_text ''host'' h)) creds region t))))"
proof -
  have date: "header_value (as_bytes (cr_amz_date cr t)) = Some (as_bytes (cr_amz_date cr t))"
    using ok header_value_printable visible_printable field_text_visible by (simp add: signable_def)
  have host: "unwrap_or (hm_text ''host'' h) [] = the (hm_text ''host'' h)"
    using ok by (auto simp: signable_def unwrap_or_def)
  obtain k' where key: "keys_get cr (secret_key creds) (take 8 (cr_amz_date cr t)) region keys =
      (signing_key cr (secret_key creds) (take 8 (cr_amz_date cr t)) region, k')"
    using keys_get_ok(1) [OF k] by (metis prod.collapse)
  have len: "\<not> length (cr_amz_date cr t) < 8" using ok by (simp add: signable_def)
  show ?thesis
    unfolding sign_def Let_def date host option.case key prod.case unsigned_headers_def
      signed_authorization_def signed_canonical_def signed_names_def
    using len by (simp add: option.map_comp comp_def)
qed

lemma authorization_value_printable:
  assumes "authorization_ok a"
  shows "list_all printable (authorization_value a)"
proof -
  have "list_all printable (au_access_key a)" "list_all printable (au_date a)" "list_all printable (au_region a)"
      "list_all printable (au_signature a)" "list_all printable (join '';'' (au_signed_headers a))"
    using assms field_text_visible names_plain(1) visible_printable by (auto simp: authorization_ok_def)
  then show ?thesis
    by (simp add: authorization_value_def scope_def ALGORITHM_def SERVICE_def TERMINATOR_def printable_def visible_def)
qed

lemma set_unsigned_headers:
  "fst ` set (unsigned_headers cr h creds t) \<subseteq>
     {''x-amz-content-sha256'', ''x-amz-date'', ''x-amz-security-token''} \<union> fst ` set h"
  "''x-amz-date'' \<in> fst ` set (unsigned_headers cr h creds t)"
  by (auto simp: unsigned_headers_def Let_def set_hm_insert split: option.splits)

lemma amz_names: "list_all header_name [''x-amz-content-sha256'', ''x-amz-date'', ''x-amz-security-token'']"
  by (simp add: header_name_def visible_def ascii_lower_def)

lemma signed_names_ok:
  assumes "signable cr h creds region t"
  shows "list_all header_name (signed_names (unsigned_headers cr h creds t))"
    and "signed_names (unsigned_headers cr h creds t) \<noteq> []"
    and "''authorization'' \<notin> set (signed_names (unsigned_headers cr h creds t))"
proof -
  let ?h = "unsigned_headers cr h creds t"
  have set: "set (signed_names ?h) = {n \<in> fst ` set ?h. is_signed n}"
    by (simp add: signed_names_def set_hm_keys Collect_conj_eq Int_commute)
  have "list_all header_name (map fst h)" using assms by (auto simp: signable_def list_all_iff)
  then have "header_name n" if "n \<in> fst ` set ?h" for n
    using subsetD [OF set_unsigned_headers(1) that] amz_names by (auto simp: list_all_iff)
  then show "list_all header_name (signed_names ?h)" by (auto simp: list_all_iff set)
  have "''x-amz-date'' \<in> set (signed_names ?h)"
    using set_unsigned_headers(2) [of cr h creds t] by (auto simp: set is_signed_def strip_prefix_def)
  then show "signed_names ?h \<noteq> []" by auto
  show "''authorization'' \<notin> set (signed_names ?h)" using is_signed_not_authorization by (simp add: set)
qed

lemma field_text_take: "field_text s \<Longrightarrow> field_text (take n s)"
  by (auto simp: field_text_def list_all_iff dest: in_set_takeD)

lemma signed_authorization_ok:
  assumes "signable cr h creds region t"
  shows "authorization_ok (signed_authorization cr meth u (unsigned_headers cr h creds t) host creds region t)"
  using assms signed_names_ok(1,2) [OF assms] hex_encode_field field_text_take
  by (simp add: authorization_ok_def signed_authorization_def signable_def signature_def Let_def)

lemma sign_Some:
  assumes "signable cr h creds region t" and "keys_ok cr keys"
  shows "map_option fst (sign cr meth u h creds region t keys) =
    Some (hm_insert ''authorization'' (as_bytes (authorization_value
        (signed_authorization cr meth u (unsigned_headers cr h creds t) (the (hm_text ''host'' h)) creds region t)))
      (unsigned_headers cr h creds t))"
  using sign_eq [OF assms, of meth u]
    header_value_printable [OF authorization_value_printable [OF signed_authorization_ok [OF assms(1)]]]
  by simp

section \<open>What is accepted\<close>

definition timely :: "crypto \<Rightarrow> presented \<Rightarrow> int \<Rightarrow> bool" where
  "timely cr p now \<longleftrightarrow>
     (pr_skip_query p = None \<longrightarrow>
        (case cr_parse_amz_date cr (pr_amz_date p) of
           Some issued \<Rightarrow> \<bar>now - issued\<bar> div 10 ^ 9 \<le> MAX_SKEW_SECS
         | None \<Rightarrow> False))"

definition authentic :: "crypto \<Rightarrow> string \<Rightarrow> string \<Rightarrow> string \<Rightarrow> uri \<Rightarrow> header_map \<Rightarrow> presented \<Rightarrow> bool" where
  "authentic cr ak sk meth u h p \<longleftrightarrow>
     (let auth = pr_auth p
      in au_access_key auth = ak \<and> strip_prefix (au_date auth) (pr_amz_date p) \<noteq> None
       \<and> au_signature auth =
           signature cr (signing_key cr sk (au_date auth) (au_region auth))
             (string_to_sign cr (pr_amz_date p) (scope (au_date auth) (au_region auth))
               (canonical_request (presented_canonical meth u h p))))"

lemma verify_keys_ok: "keys_ok cr keys \<Longrightarrow> keys_ok cr (snd (verify cr a meth u h now keys))"
  using keys_get_ok(2) [of cr keys]
  by (auto simp: verify_def Let_def split: auth.splits sum.splits prod.splits if_splits)
    (metis snd_conv)+

lemma verify_iff:
  assumes "keys_ok cr keys"
  shows "fst (verify cr (Static ak sk) meth u h now keys) = Inr () \<longleftrightarrow>
    (\<exists>p. presented_of cr u h now = Inr p \<and> timely cr p now \<and> authentic cr ak sk meth u h p)"
proof (cases "presented_of cr u h now")
  case (Inr p)
  obtain k' where key: "keys_get cr sk (au_date (pr_auth p)) (au_region (pr_auth p)) keys =
      (signing_key cr sk (au_date (pr_auth p)) (au_region (pr_auth p)), k')"
    using keys_get_ok(1) [OF assms] by (metis prod.collapse)
  show ?thesis
    unfolding verify_def Let_def auth.case Inr sum.case key prod.case constant_time_eq_iff
    by (auto simp: timely_def authentic_def and_then_def required_def Let_def
        split: if_splits option.splits sum.splits)
qed (simp add: verify_def)

lemma presented_signed:
  assumes ok: "signable cr h creds region t" and a: "authorization_ok a"
  shows "presented_of cr u (hm_insert ''authorization'' (as_bytes (authorization_value a)) (unsigned_headers cr h creds t)) now =
    Inr \<lparr>pr_auth = a, pr_amz_date = cr_amz_date cr t, pr_payload_hash = UNSIGNED_PAYLOAD, pr_skip_query = None\<rparr>"
proof -
  let ?h = "hm_insert ''authorization'' (as_bytes (authorization_value a)) (unsigned_headers cr h creds t)"
  have "to_str (as_bytes (authorization_value a)) = Some (authorization_value a)"
    by (rule to_str_printable [OF authorization_value_printable [OF a]])
  moreover have "to_str (as_bytes (cr_amz_date cr t)) = Some (cr_amz_date cr t)"
    using ok to_str_visible field_text_visible by (simp add: signable_def)
  moreover have "to_str (as_bytes UNSIGNED_PAYLOAD) = Some UNSIGNED_PAYLOAD"
    by (rule to_str_visible) (simp add: UNSIGNED_PAYLOAD_def visible_def)
  moreover have "hm_get ''x-amz-date'' ?h = Some (as_bytes (cr_amz_date cr t))"
      "hm_get ''x-amz-content-sha256'' ?h = Some (as_bytes UNSIGNED_PAYLOAD)"
    by (simp_all add: unsigned_headers_def Let_def split: option.splits)
  ultimately show ?thesis using authorization_parses [OF a]
    by (simp add: presented_of_def presented_header_def and_then_def required_def hm_text_def)
qed

lemma signed_authentic:
  fixes meth :: string and u :: uri
  assumes ok: "signable cr h creds region t"
  defines "hs \<equiv> unsigned_headers cr h creds t"
  defines "a \<equiv> signed_authorization cr meth u hs (the (hm_text ''host'' h)) creds region t"
  shows "authentic cr (access_key creds) (secret_key creds) meth u
    (hm_insert ''authorization'' (as_bytes (authorization_value a)) hs)
    \<lparr>pr_auth = a, pr_amz_date = cr_amz_date cr t, pr_payload_hash = UNSIGNED_PAYLOAD, pr_skip_query = None\<rparr>"
proof -
  let ?h = "hm_insert ''authorization'' (as_bytes (authorization_value a)) hs"
  let ?p = "\<lparr>pr_auth = a, pr_amz_date = cr_amz_date cr t, pr_payload_hash = UNSIGNED_PAYLOAD, pr_skip_query = None\<rparr>"
  have "hm_text ''host'' ?h = hm_text ''host'' h"
    by (simp add: hs_def hm_text_def unsigned_headers_def Let_def split: option.splits)
  then have "host_of ?h u = the (hm_text ''host'' h)" using ok by (auto simp: host_of_def signable_def)
  then have "canonical_request (presented_canonical meth u ?h ?p) =
      canonical_request (signed_canonical meth u hs (the (hm_text ''host'' h)))"
    using canonical_headers_frame signed_names_ok(3) [OF ok]
    by (simp add: canonical_request_def presented_canonical_def signed_canonical_def a_def hs_def
        signed_authorization_def Let_def)
  moreover have "strip_prefix (take 8 (cr_amz_date cr t)) (cr_amz_date cr t) \<noteq> None"
    using strip_prefix_append [of "take 8 (cr_amz_date cr t)" "drop 8 (cr_amz_date cr t)"] by simp
  ultimately show ?thesis by (simp add: authentic_def a_def signed_authorization_def Let_def)
qed

lemma sign_verify:
  assumes "signable cr h creds region t" and "keys_ok cr keys" and "keys_ok cr others"
    and "cr_parse_amz_date cr (cr_amz_date cr t) = Some issued" and "\<bar>now - issued\<bar> div 10 ^ 9 \<le> MAX_SKEW_SECS"
  shows "\<exists>h' keys'. sign cr meth u h creds region t keys = Some (h', keys')
    \<and> fst (verify cr (Static (access_key creds) (secret_key creds)) meth u h' now others) = Inr ()"
proof -
  let ?hs = "unsigned_headers cr h creds t"
  let ?a = "signed_authorization cr meth u ?hs (the (hm_text ''host'' h)) creds region t"
  let ?h = "hm_insert ''authorization'' (as_bytes (authorization_value ?a)) ?hs"
  let ?p = "\<lparr>pr_auth = ?a, pr_amz_date = cr_amz_date cr t, pr_payload_hash = UNSIGNED_PAYLOAD, pr_skip_query = None\<rparr>"
  have "timely cr ?p now" using assms(4,5) by (simp add: timely_def)
  then have "fst (verify cr (Static (access_key creds) (secret_key creds)) meth u ?h now others) = Inr ()"
    using verify_iff [OF assms(3)] presented_signed [OF assms(1) signed_authorization_ok [OF assms(1)]]
      signed_authentic [OF assms(1)] by blast
  moreover obtain keys' where "sign cr meth u h creds region t keys = Some (?h, keys')"
    using sign_Some [OF assms(1,2), of meth u] by auto
  ultimately show ?thesis by blast
qed

text \<open>
  C31: a request signed with the credentials of the endpoint is accepted there: signing does not
  panic, and the verifier, at a time within fifteen minutes of the signature and whatever keys it
  has cached, finds the same signature. It holds for every hash function and every date format that
  reads back what it prints.
\<close>

theorem signed_request_accepted:
  assumes "signable cr h creds region t" and "keys_ok cr keys" and "keys_ok cr others"
    and "cr_parse_amz_date cr (cr_amz_date cr t) = Some issued" and "\<bar>now - issued\<bar> div 10 ^ 9 \<le> MAX_SKEW_SECS"
  shows "\<exists>h' keys'. sign cr meth u h creds region t keys = Some (h', keys')
    \<and> fst (verify cr (Static (access_key creds) (secret_key creds)) meth u h' now others) = Inr ()"
  by (rule sign_verify [OF assms])

text \<open>A small instance of the parameters.\<close>

definition demo_crypto :: crypto where
  "demo_crypto = \<lparr>cr_sha256 = (\<lambda>s. [sum_list s]), cr_hmac = (\<lambda>k s. [sum_list k XOR sum_list s]),
     cr_amz_date = (\<lambda>t. ''20130524T000000Z''), cr_parse_amz_date = (\<lambda>s. Some 0)\<rparr>"

definition demo_credentials :: credentials where
  "demo_credentials = \<lparr>access_key = ''AKID'', secret_key = ''secret/key'', session_token = None\<rparr>"

definition demo_uri :: uri where
  "demo_uri = \<lparr>uri_authority = None, uri_path = ''/photos/a%20b'', uri_query = None\<rparr>"

definition demo_headers :: header_map where
  "demo_headers = [(''host'', as_bytes ''s3.local''), (''range'', as_bytes ''bytes=0-9'')]"

lemma demo_signable: "signable demo_crypto demo_headers demo_credentials ''us-east-1'' 0"
proof -
  have "to_str (as_bytes ''s3.local'') = Some ''s3.local''" by (rule to_str_visible) (simp add: visible_def)
  then show ?thesis
    by (simp add: signable_def demo_headers_def demo_credentials_def demo_crypto_def header_name_def field_text_def
        visible_def ascii_lower_def hm_text_def hm_get_def hm_get_all_def)
qed

theorem signed_request_accepted_witness:
  "\<exists>h' keys'. sign demo_crypto ''GET'' demo_uri demo_headers demo_credentials ''us-east-1'' 0 [] = Some (h', keys')
    \<and> fst (verify demo_crypto (Static ''AKID'' ''secret/key'') ''GET'' demo_uri h' 60000000000 []) = Inr ()"
  using signed_request_accepted [OF demo_signable keys_ok_Nil keys_ok_Nil, of 0 60000000000 "''GET''" demo_uri]
  by (simp add: demo_crypto_def demo_credentials_def MAX_SKEW_SECS_def)

section \<open>Presigned requests\<close>

lemma and_then_Inr: "and_then r f = Inr y \<longleftrightarrow> (\<exists>x. r = Inr x \<and> f x = Inr y)"
  by (auto simp: and_then_def split: sum.splits)

lemma required_Inr: "required m x = Inr y \<longleftrightarrow> x = Some y"
  by (auto simp: required_def split: option.splits)

lemma percent_decode_plain:
  assumes "list_all visible s" and "CHR ''%'' \<notin> set s"
  shows "percent_decode s = s"
proof -
  have "pct_decode t = t" if "0x25 \<notin> set t" for t :: bytes using that by (induction t) auto
  moreover have "0x25 \<notin> set (as_bytes s)"
  proof
    assume "0x25 \<in> set (as_bytes s)"
    then have "(char_of \<circ> unat) (0x25 :: u8) \<in> set (of_bytes (as_bytes s))"
      unfolding of_bytes_def set_map by (rule imageI)
    then show False using assms(2) by (simp add: char_of_def bit_0)
  qed
  moreover have "utf8_valid (as_bytes s)"
    using assms(1) by (induction s) (simp_all add: as_bytes_def visible_def word_le_nat_alt)
  ultimately show ?thesis by (simp add: percent_decode_def utf8_lossy_valid)
qed

definition demo_presigned :: string where
  "demo_presigned =
     ''X-Amz-Algorithm=AWS4-HMAC-SHA256&X-Amz-Credential=AKID/20130524/us-east-1/s3/aws4_request''
     @ ''&X-Amz-Date=20130524T000000Z&X-Amz-Expires=60&X-Amz-SignedHeaders=host&X-Amz-Signature=00''"

definition flat_crypto :: crypto where
  "flat_crypto = demo_crypto\<lparr>cr_hmac := \<lambda>k s. [0]\<rparr>"

definition demo_presigned_uri :: uri where
  "demo_presigned_uri = \<lparr>uri_authority = None, uri_path = ''/photos/x'', uri_query = Some demo_presigned\<rparr>"

lemma demo_presigned_params:
  "query_param demo_presigned ''X-Amz-Algorithm'' = Some ''AWS4-HMAC-SHA256''"
  "query_param demo_presigned ''X-Amz-Credential'' = Some ''AKID/20130524/us-east-1/s3/aws4_request''"
  "query_param demo_presigned ''X-Amz-Date'' = Some ''20130524T000000Z''"
  "query_param demo_presigned ''X-Amz-Expires'' = Some ''60''"
  "query_param demo_presigned ''X-Amz-SignedHeaders'' = Some ''host''"
  "query_param demo_presigned ''X-Amz-Signature'' = Some ''00''"
  by (simp_all add: query_param_def demo_presigned_def unwrap_or_def percent_decode_plain visible_def)

lemma demo_presigned_accepted:
  "fst (verify flat_crypto (Static ''AKID'' ''secret/key'') ''GET'' demo_presigned_uri demo_headers 60000000000 []) = Inr ()"
proof -
  have auth: "hm_get ''authorization'' demo_headers = None" by (simp add: demo_headers_def hm_get_def hm_get_all_def)
  have exp: "parse_i64 ''60'' = Some 60" by (simp add: parse_i64_def parse_uint_def digit_value_def)
  have "presented_of flat_crypto demo_presigned_uri demo_headers 60000000000 =
      Inr \<lparr>pr_auth = \<lparr>au_access_key = ''AKID'', au_date = ''20130524'', au_region = ''us-east-1'',
              au_signed_headers = [''host''], au_signature = ''00''\<rparr>,
        pr_amz_date = ''20130524T000000Z'', pr_payload_hash = UNSIGNED_PAYLOAD, pr_skip_query = Some ''X-Amz-Signature''\<rparr>"
    by (simp add: presented_of_def auth demo_presigned_uri_def unwrap_or_def presented_query_def demo_presigned_params
        exp and_then_def required_def MAX_PRESIGN_SECS_def flat_crypto_def demo_crypto_def from_query_def assemble_def
        SERVICE_def TERMINATOR_def to_ascii_lowercase_def ascii_lower_def)
  moreover have "hex_encode [0] = ''00''" by (simp add: hex_encode_def digit_chars)
  ultimately show ?thesis
    using verify_iff [of flat_crypto "[]" "''AKID''" "''secret/key''" "''GET''" demo_presigned_uri demo_headers 60000000000]
    by (simp add: timely_def authentic_def signature_def flat_crypto_def strip_prefix_def)
qed

section \<open>What is accepted\<close>

text \<open>
  The two forms of a signed request, said of its headers and its query: an authorization that carries
  the access key, a day its date starts with, and the signature of this very request under the key
  derived from the secret.
\<close>

definition signs_request :: "crypto \<Rightarrow> string \<Rightarrow> string \<Rightarrow> canonical \<Rightarrow> string \<Rightarrow> authorization \<Rightarrow> bool" where
  "signs_request cr ak sk canon date auth \<longleftrightarrow>
     au_access_key auth = ak \<and> (\<exists>time. date = au_date auth @ time)
     \<and> au_signature auth =
         signature cr (signing_key cr sk (au_date auth) (au_region auth))
           (string_to_sign cr date (scope (au_date auth) (au_region auth)) (canonical_request canon))"

definition header_signed :: "crypto \<Rightarrow> string \<Rightarrow> string \<Rightarrow> string \<Rightarrow> uri \<Rightarrow> header_map \<Rightarrow> int \<Rightarrow> bool" where
  "header_signed cr ak sk meth u h now \<longleftrightarrow>
     (\<exists>header text auth stamp date hash issued.
        hm_get ''authorization'' h = Some header \<and> to_str header = Some text \<and> parse_authorization text = Some auth
        \<and> (hm_get ''x-amz-date'' h = Some stamp \<or> hm_get ''x-amz-date'' h = None \<and> hm_get ''date'' h = Some stamp)
        \<and> to_str stamp = Some date \<and> hm_text ''x-amz-content-sha256'' h = Some hash
        \<and> cr_parse_amz_date cr date = Some issued \<and> \<bar>now - issued\<bar> div 10 ^ 9 \<le> 15 * 60
        \<and> signs_request cr ak sk
            \<lparr>cn_method = meth, cn_raw_path = uri_path u, cn_raw_query = unwrap_or (uri_query u) [], cn_headers = h,
             cn_host = host_of h u, cn_signed_headers = au_signed_headers auth, cn_payload_hash = hash,
             cn_skip_query = None\<rparr> date auth)"

definition presigned :: "crypto \<Rightarrow> string \<Rightarrow> string \<Rightarrow> string \<Rightarrow> uri \<Rightarrow> header_map \<Rightarrow> int \<Rightarrow> bool" where
  "presigned cr ak sk meth u h now \<longleftrightarrow>
     (let param = query_param (unwrap_or (uri_query u) [])
      in hm_get ''authorization'' h = None \<and> param ''X-Amz-Algorithm'' \<noteq> None
       \<and> (\<exists>credential names sig auth date expires n issued.
            param ''X-Amz-Credential'' = Some credential \<and> param ''X-Amz-SignedHeaders'' = Some names
            \<and> param ''X-Amz-Signature'' = Some sig \<and> from_query credential names sig = Some auth
            \<and> param ''X-Amz-Date'' = Some date \<and> cr_parse_amz_date cr date = Some issued
            \<and> param ''X-Amz-Expires'' = Some expires \<and> parse_i64 expires = Some n
            \<and> 1 \<le> n \<and> n \<le> 7 * 24 * 3600 \<and> now \<le> issued + n * 10 ^ 9
            \<and> signs_request cr ak sk
                \<lparr>cn_method = meth, cn_raw_path = uri_path u, cn_raw_query = unwrap_or (uri_query u) [], cn_headers = h,
                 cn_host = host_of h u, cn_signed_headers = au_signed_headers auth, cn_payload_hash = ''UNSIGNED-PAYLOAD'',
                 cn_skip_query = Some ''X-Amz-Signature''\<rparr> date auth))"

lemma authentic_signs:
  "authentic cr ak sk meth u h p \<longleftrightarrow> signs_request cr ak sk (presented_canonical meth u h p) (pr_amz_date p) (pr_auth p)"
proof -
  have "strip_prefix a s \<noteq> None \<longleftrightarrow> (\<exists>t. s = a @ t)" for a s :: string
    unfolding strip_prefix_def by (metis append_eq_conv_conj append_take_drop_id option.distinct(1))
  then show ?thesis by (simp add: authentic_def signs_request_def Let_def)
qed

lemma header_signed_iff:
  assumes "hm_get ''authorization'' h = Some header"
  shows "(\<exists>p. presented_of cr u h now = Inr p \<and> timely cr p now \<and> authentic cr ak sk meth u h p)
    \<longleftrightarrow> header_signed cr ak sk meth u h now"
  using assms
  by (auto simp: presented_of_def presented_header_def and_then_Inr required_Inr header_signed_def timely_def
      authentic_signs presented_canonical_def MAX_SKEW_SECS_def Let_def bind_eq_Some_conv split: option.splits)

lemma presented_query_Inr:
  "presented_query cr q now = Inr p \<longleftrightarrow>
     (\<exists>credential names sig auth date expires n issued.
        query_param q ''X-Amz-Credential'' = Some credential \<and> query_param q ''X-Amz-SignedHeaders'' = Some names
        \<and> query_param q ''X-Amz-Signature'' = Some sig \<and> from_query credential names sig = Some auth
        \<and> query_param q ''X-Amz-Date'' = Some date \<and> cr_parse_amz_date cr date = Some issued
        \<and> query_param q ''X-Amz-Expires'' = Some expires \<and> parse_i64 expires = Some n
        \<and> 1 \<le> n \<and> n \<le> 7 * 24 * 3600 \<and> now \<le> issued + n * 10 ^ 9
        \<and> p = \<lparr>pr_auth = auth, pr_amz_date = date, pr_payload_hash = UNSIGNED_PAYLOAD,
               pr_skip_query = Some ''X-Amz-Signature''\<rparr>)"
proof -
  have bad: "(if b then Inl (x :: s3_error) else y) = Inr p \<longleftrightarrow> \<not> b \<and> y = Inr p" for b x and y :: "s3_error + presented" by simp
  show ?thesis
    unfolding presented_query_def and_then_Inr required_Inr bad MAX_PRESIGN_SECS_def bind_eq_Some_conv not_not not_less by auto
qed

lemma presigned_iff:
  assumes "hm_get ''authorization'' h = None"
  shows "(\<exists>p. presented_of cr u h now = Inr p \<and> timely cr p now \<and> authentic cr ak sk meth u h p)
    \<longleftrightarrow> presigned cr ak sk meth u h now"
proof -
  let ?q = "unwrap_or (uri_query u) []"
  have "presented_of cr u h now = Inr p \<longleftrightarrow> query_param ?q ''X-Amz-Algorithm'' \<noteq> None \<and> presented_query cr ?q now = Inr p" for p
    using assms by (simp add: presented_of_def Let_def)
  then show ?thesis
    using assms unfolding presigned_def Let_def presented_query_Inr
    by (auto simp: timely_def authentic_signs presented_canonical_def UNSIGNED_PAYLOAD_def)
qed

text \<open>
  C30: an endpoint with credentials accepts a request exactly when it is signed with them: with an
  authorization header and a date within fifteen minutes of now, or, without that header, by a query
  whose lifetime is between a second and a week and has not run out. The cache of derived keys makes
  no difference to the decision and keeps at most eight keys, each the one derivation gives.
\<close>

theorem verify_accepts:
  assumes "keys_ok cr keys"
  shows "(fst (verify cr (Static ak sk) meth u h now keys) = Inr () \<longleftrightarrow>
      header_signed cr ak sk meth u h now \<or> presigned cr ak sk meth u h now)
    \<and> keys_ok cr (snd (verify cr (Static ak sk) meth u h now keys))"
proof (cases "hm_get ''authorization'' h")
  case None
  then have "\<not> header_signed cr ak sk meth u h now" by (simp add: header_signed_def)
  then show ?thesis by (simp add: verify_iff [OF assms] verify_keys_ok [OF assms] presigned_iff [OF None])
next
  case (Some header)
  then have "\<not> presigned cr ak sk meth u h now" by (simp add: presigned_def)
  then show ?thesis by (simp add: verify_iff [OF assms] verify_keys_ok [OF assms] header_signed_iff [OF Some])
qed

text \<open>The presigned request of the example is good for its minute and refused a nanosecond later.\<close>

theorem verify_accepts_witness:
  "presigned flat_crypto ''AKID'' ''secret/key'' ''GET'' demo_presigned_uri demo_headers 60000000000
   \<and> fst (verify flat_crypto (Static ''AKID'' ''secret/key'') ''GET'' demo_presigned_uri demo_headers 60000000001 []) \<noteq> Inr ()"
proof -
  have exp: "parse_i64 ''60'' = Some 60" by (simp add: parse_i64_def parse_uint_def digit_value_def)
  have auth: "hm_get ''authorization'' demo_headers = None" by (simp add: demo_headers_def hm_get_def hm_get_all_def)
  have q: "unwrap_or (uri_query demo_presigned_uri) [] = demo_presigned" by (simp add: demo_presigned_uri_def unwrap_or_def)
  note accepts = verify_accepts [of flat_crypto "[]" "''AKID''" "''secret/key''" "''GET''" demo_presigned_uri demo_headers]
  have h: "\<not> header_signed flat_crypto ''AKID'' ''secret/key'' ''GET'' demo_presigned_uri demo_headers now" for now
    by (simp add: header_signed_def auth)
  have "\<not> presigned flat_crypto ''AKID'' ''secret/key'' ''GET'' demo_presigned_uri demo_headers 60000000001"
    by (simp add: presigned_def q demo_presigned_params exp Let_def flat_crypto_def demo_crypto_def)
  then show ?thesis using accepts [of 60000000000] accepts [of 60000000001] demo_presigned_accepted h by simp
qed

end
