(* ===== verification/S3_Canonical.thy ===== *)
theory S3_Canonical
  imports S3_Verify
begin

text \<open>
  What a signature covers: two requests with the same canonical request agree in everything that
  the canonical request names, so a signature of one cannot be used for another.
\<close>

abbreviation newline :: char where "newline \<equiv> CHR 0x0A"

section \<open>Lines\<close>

lemma set_trim_start: "set (trim_start s) \<subseteq> set s"
proof (induction s rule: trim_start.induct)
  case (1 s)
  then show ?case using set_drop_subset [of "ws_prefix s" s] by (subst trim_start.simps) auto
qed

lemma set_trim_end: "set (trim_end s) \<subseteq> set s"
proof (induction s rule: trim_end.induct)
  case (1 s)
  then show ?case using set_take_subset [of "length s - ws_suffix s" s] by (subst trim_end.simps) auto
qed

lemma set_trim: "set (trim s) \<subseteq> set s"
  using set_trim_start [of s] set_trim_end [of "trim_start s"] by (auto simp: trim_def)

lemma set_normalize_chars: "set (normalize_chars b s) \<subseteq> insert CHR '' '' (set s)"
  by (induction b s rule: normalize_chars.induct) auto

lemma set_normalize_value: "set (normalize_value s) \<subseteq> insert CHR '' '' (set s)"
  using set_normalize_chars [of False "trim s"] set_trim [of s] by (auto simp: normalize_value_def)

lemma set_utf8_lossy: "set (utf8_lossy s) \<subseteq> {0xEF, 0xBF, 0xBD} \<union> set s"
proof (induction s rule: utf8_lossy.induct)
  case (1 s)
  then show ?case using set_drop_subset [of "fst (utf8_head s)" s] set_take_subset [of "fst (utf8_head s)" s]
    by (subst utf8_lossy.simps) auto
qed

lemma in_of_bytes: "c \<in> set (of_bytes s) \<Longrightarrow> of_char c \<in> set s"
proof -
  assume "c \<in> set (of_bytes s)"
  then have "(of_char c :: u8) \<in> set (as_bytes (of_bytes s))" unfolding as_bytes_def by simp
  then show "of_char c \<in> set s" by simp
qed

lemma set_join: "set (join sep xs) \<subseteq> set sep \<union> \<Union> (set ` set xs)"
  by (induction sep xs rule: join.induct) auto

lemma uri_encode_line: "newline \<notin> set (uri_encode s sl)"
proof
  assume "newline \<in> set (uri_encode s sl)"
  then have "(of_char newline :: u8) \<in> set (pct_encode sl (as_bytes s))" unfolding uri_encode_def by (rule in_of_bytes)
  from pct_encode_alphabet [OF this] show False by (simp add: unreserved_def is_alphanumeric_def word_le_nat_alt)
qed

lemma canonical_uri_line: "newline \<notin> set (canonical_uri p)"
  by (simp add: canonical_uri_def Let_def uri_encode_line)

lemma canonical_query_line: "newline \<notin> set (canonical_query q skip)"
proof -
  have "newline \<notin> set k \<and> newline \<notin> set v" if "(k, v) = canonical_pair p" for k v p
    using that uri_encode_line by (auto simp: canonical_pair_def Let_def split: prod.splits)
  then show ?thesis
    using set_join [of "''&''"] by (fastforce simp: canonical_query_def Let_def)
qed

text \<open>Values of headers have no line breaks.\<close>

definition one_line :: "header_map \<Rightarrow> bool" where
  "one_line h \<longleftrightarrow> list_all (\<lambda>(n, v). 0x0A \<notin> set v) h"

lemma canonical_header_line:
  assumes "one_line h" and "newline \<notin> set host"
  shows "newline \<notin> set (canonical_header h host n)"
proof (cases "n = ''host''")
  case True
  then show ?thesis using set_normalize_value [of host] assms(2) by (auto simp: canonical_header_def)
next
  case False
  have "newline \<notin> set (normalize_value (of_bytes (utf8_lossy v)))" if "v \<in> set (hm_get_all n h)" for v
  proof
    assume "newline \<in> set (normalize_value (of_bytes (utf8_lossy v)))"
    then have "newline \<in> set (of_bytes (utf8_lossy v))" using set_normalize_value by fastforce
    from in_of_bytes [OF this] have "0x0A \<in> set v" using set_utf8_lossy [of v] by auto
    moreover have "0x0A \<notin> set v" using that assms(1) by (auto simp: hm_get_all_def one_line_def list_all_iff)
    ultimately show False by blast
  qed
  then show ?thesis using False set_join [of "'',''"] by (fastforce simp: canonical_header_def)
qed

section \<open>Canonical requests\<close>

text \<open>The texts of a request as they come from the HTTP parser: no line breaks, and header names split at semicolons.\<close>

definition request_texts :: "canonical \<Rightarrow> bool" where
  "request_texts c \<longleftrightarrow> newline \<notin> set (cn_method c) \<and> newline \<notin> set (cn_payload_hash c) \<and> newline \<notin> set (cn_host c)
     \<and> one_line (cn_headers c) \<and> cn_signed_headers c \<noteq> []
     \<and> list_all (\<lambda>n. newline \<notin> set n \<and> CHR '';'' \<notin> set n) (cn_signed_headers c)"

definition header_lines :: "canonical \<Rightarrow> string list" where
  "header_lines c = map (\<lambda>n. n @ '':'' @ canonical_header (cn_headers c) (cn_host c) n) (cn_signed_headers c)"

definition canonical_lines :: "canonical \<Rightarrow> string list" where
  "canonical_lines c =
     [cn_method c, canonical_uri (cn_raw_path c), canonical_query (cn_raw_query c) (cn_skip_query c)]
     @ header_lines c @ [[], join '';'' (cn_signed_headers c), cn_payload_hash c]"

lemma join_lines: "ys \<noteq> [] \<Longrightarrow> join [newline] (xs @ ys) = concat (map (\<lambda>x. x @ [newline]) xs) @ join [newline] ys"
  by (induction xs) (simp_all add: join_Cons)

lemma canonical_request_lines: "canonical_request c = join [newline] (canonical_lines c)"
  by (simp add: canonical_request_def canonical_lines_def header_lines_def canonical_headers_def join_Cons join_lines
      comp_def)

lemma canonical_lines_plain:
  assumes "request_texts c"
  shows "\<forall>l \<in> set (canonical_lines c). newline \<notin> set l"
proof -
  have "newline \<notin> set (join '';'' (cn_signed_headers c))"
    using assms set_join [of "'';''" "cn_signed_headers c"] by (fastforce simp: request_texts_def list_all_iff)
  moreover have "newline \<notin> set l" if "l \<in> set (header_lines c)" for l
    using that assms canonical_header_line by (auto simp: header_lines_def request_texts_def list_all_iff)
  ultimately show ?thesis using assms canonical_uri_line canonical_query_line
    by (auto simp: canonical_lines_def request_texts_def)
qed

lemma canonical_lines_eq:
  assumes "request_texts c" and "request_texts d" and "canonical_request c = canonical_request d"
  shows "canonical_lines c = canonical_lines d"
proof -
  have ne: "canonical_lines x \<noteq> []" for x by (simp add: canonical_lines_def)
  have "canonical_lines x = split_on newline (canonical_request x)" if "request_texts x" for x
    using split_on_join [OF ne canonical_lines_plain [OF that]] by (simp add: canonical_request_lines)
  then show ?thesis using assms by metis
qed

lemma canonical_uri_decodes: "percent_decode (canonical_uri p) = percent_decode (if p = [] then ''/'' else p)"
  by (simp add: canonical_uri_def Let_def percent_decode_normal)

text \<open>
  C32: the canonical request fixes the request. Two requests with the same canonical request have the
  same method, the same path after percent decoding, the same canonical query, the same signed
  headers with the same values up to white space, and the same payload hash; a signature of the one
  is no signature of anything else.
\<close>

theorem canonical_request_binds:
  assumes "request_texts c" and "request_texts d" and "canonical_request c = canonical_request d"
  shows "cn_method c = cn_method d
    \<and> percent_decode (if cn_raw_path c = [] then ''/'' else cn_raw_path c)
        = percent_decode (if cn_raw_path d = [] then ''/'' else cn_raw_path d)
    \<and> canonical_query (cn_raw_query c) (cn_skip_query c) = canonical_query (cn_raw_query d) (cn_skip_query d)
    \<and> cn_signed_headers c = cn_signed_headers d
    \<and> map (canonical_header (cn_headers c) (cn_host c)) (cn_signed_headers c)
        = map (canonical_header (cn_headers d) (cn_host d)) (cn_signed_headers d)
    \<and> cn_payload_hash c = cn_payload_hash d"
proof -
  from canonical_lines_eq [OF assms]
  have m: "cn_method c = cn_method d" and u: "canonical_uri (cn_raw_path c) = canonical_uri (cn_raw_path d)"
    and q: "canonical_query (cn_raw_query c) (cn_skip_query c) = canonical_query (cn_raw_query d) (cn_skip_query d)"
    and l: "header_lines c = header_lines d" and j: "join '';'' (cn_signed_headers c) = join '';'' (cn_signed_headers d)"
    and p: "cn_payload_hash c = cn_payload_hash d"
    by (simp_all add: canonical_lines_def append_eq_append_conv)
  have "split_on CHR '';'' (join '';'' (cn_signed_headers x)) = cn_signed_headers x" if "request_texts x" for x
    by (rule split_on_join) (use that in \<open>auto simp: request_texts_def list_all_iff\<close>)
  then have n: "cn_signed_headers c = cn_signed_headers d" using assms(1,2) j by metis
  have "map (canonical_header (cn_headers c) (cn_host c)) (cn_signed_headers c)
      = map (canonical_header (cn_headers d) (cn_host d)) (cn_signed_headers d)"
    using l unfolding header_lines_def n by simp
  with m q n p arg_cong [OF u, of percent_decode] show ?thesis by (simp only: canonical_uri_decodes)
qed

definition demo_canonical :: "string \<Rightarrow> canonical" where
  "demo_canonical path =
     \<lparr>cn_method = ''GET'', cn_raw_path = path, cn_raw_query = [], cn_headers = [], cn_host = ''s3.local'',
      cn_signed_headers = [''host''], cn_payload_hash = UNSIGNED_PAYLOAD, cn_skip_query = None\<rparr>"

lemma demo_canonical_texts: "request_texts (demo_canonical p)"
  by (simp add: request_texts_def demo_canonical_def one_line_def UNSIGNED_PAYLOAD_def)

theorem canonical_request_binds_witness:
  "canonical_request (demo_canonical ''/a%62'') = canonical_request (demo_canonical ''/ab'')
   \<and> percent_decode ''/a%62'' = percent_decode ''/ab''"
proof -
  have "percent_decode ''/a%62'' = percent_decode ''/ab''" by code_simp
  then have "canonical_request (demo_canonical ''/a%62'') = canonical_request (demo_canonical ''/ab'')"
    by (simp add: canonical_request_def demo_canonical_def canonical_uri_def)
  with canonical_request_binds [OF demo_canonical_texts demo_canonical_texts this] show ?thesis
    by (simp add: demo_canonical_def)
qed

end
