(* ===== verification/S3_Forward.thy ===== *)
theory S3_Forward
  imports S3_Canonical S3_Chunked
begin

text \<open>
  Forwarding of requests to the origin: headers, address and signature of the upstream request and
  what passes of the response (\<^verbatim>\<open>nestor-s3/src/forward.rs\<close>), and the origin's address
  (\<^verbatim>\<open>nestor-s3/src/origin.rs\<close>).

  The parser of URIs, the credential provider and the HTTP client are parameters, as is the time.
\<close>

section \<open>Origin\<close>

record origin_config =
  oc_scheme :: "string option"
  oc_authority :: "string option"
  oc_region :: string
  oc_credentials :: bool
  oc_virtual_hosted :: bool

definition origin_anonymous :: "string option \<Rightarrow> string option \<Rightarrow> string \<Rightarrow> origin_config" where
  "origin_anonymous sch authority region =
     \<lparr>oc_scheme = sch, oc_authority = authority, oc_region = region, oc_credentials = False, oc_virtual_hosted = False\<rparr>"

definition with_static_credentials :: "origin_config \<Rightarrow> origin_config" where
  "with_static_credentials oc = oc\<lparr>oc_credentials := True\<rparr>"

definition with_virtual_hosted :: "bool \<Rightarrow> origin_config \<Rightarrow> origin_config" where
  "with_virtual_hosted v oc = oc\<lparr>oc_virtual_hosted := v\<rparr>"

definition origin_scheme :: "origin_config \<Rightarrow> string" where
  "origin_scheme oc = unwrap_or (oc_scheme oc) ''https''"

definition bucket_host :: "origin_config \<Rightarrow> string \<Rightarrow> s3_error + string" where
  "bucket_host oc bk =
     (case oc_authority oc of
        None \<Rightarrow> Inl (internal ''origin endpoint has no authority'')
      | Some authority \<Rightarrow> Inr (if oc_virtual_hosted oc then bk @ ''.'' @ authority else authority))"

section \<open>Headers\<close>

definition PRESIGN_PARAMS :: "string list" where
  "PRESIGN_PARAMS =
     [''X-Amz-Algorithm'', ''X-Amz-Credential'', ''X-Amz-Date'', ''X-Amz-Expires'', ''X-Amz-SignedHeaders'',
      ''X-Amz-Signature'', ''X-Amz-Security-Token'']"

definition is_hop_by_hop :: "string \<Rightarrow> bool" where
  "is_hop_by_hop name \<longleftrightarrow>
     name = ''connection'' \<or> name = ''te'' \<or> name = ''trailer'' \<or> name = ''transfer-encoding'' \<or> name = ''upgrade''
     \<or> name = ''keep-alive'' \<or> strip_prefix ''proxy-'' name \<noteq> None"

definition dropped :: "string \<Rightarrow> bool" where
  "dropped name \<longleftrightarrow>
     is_hop_by_hop name \<or> name = ''host'' \<or> name = ''authorization'' \<or> name = ''content-length''
     \<or> name = ''x-amz-date'' \<or> name = ''x-amz-content-sha256'' \<or> name = ''x-amz-security-token''
     \<or> name = ''x-amz-decoded-content-length'' \<or> name = ''x-amz-trailer'' \<or> name = ''expect''"

definition kept_encodings :: "bytes \<Rightarrow> string list" where
  "kept_encodings v =
     filter (\<lambda>c. c \<noteq> [] \<and> \<not> eq_ignore_ascii_case c ''aws-chunked'')
       (map trim (split_on CHR '','' (unwrap_or (to_str v) [])))"

definition upstream_entry :: "bool \<Rightarrow> string \<times> bytes \<Rightarrow> header_map \<Rightarrow> header_map" where
  "upstream_entry streaming entry out =
     (let (name, v) = entry
      in if dropped name then out
         else if name = ''content-encoding'' \<and> streaming
         then let kept = kept_encodings v
              in if kept \<noteq> []
                 then (case header_value (as_bytes (join '','' kept)) of
                         Some v \<Rightarrow> hm_append ''content-encoding'' v out
                       | None \<Rightarrow> out)
                 else out
         else hm_append name v out)"

definition header_u64 :: "string \<Rightarrow> header_map \<Rightarrow> u64 option" where
  "header_u64 name h = Option.bind (hm_text name h) parse_u64"

definition upstream_headers :: "header_map \<Rightarrow> bool \<Rightarrow> s3_error + header_map" where
  "upstream_headers incoming streaming =
     (let out = fold (upstream_entry streaming) incoming []
      in and_then
           (if streaming
            then map_sum id Some
                   (required ''missing x-amz-decoded-content-length''
                      (header_u64 ''x-amz-decoded-content-length'' incoming))
            else Inr (header_u64 ''content-length'' incoming))
           (\<lambda>content_length. Inr
              (case content_length of
                 Some len \<Rightarrow> hm_insert ''content-length'' (as_bytes (show_u64 len)) out
               | None \<Rightarrow> out)))"

section \<open>Address\<close>

definition upstream_path :: "origin_config \<Rightarrow> target \<Rightarrow> string" where
  "upstream_path oc t =
     (let path = (case tgt_bucket t of
                    Some bk \<Rightarrow> if oc_virtual_hosted oc then ''/'' else ''/'' @ bk
                  | None \<Rightarrow> ''/'')
      in case tgt_key t of
           Some key \<Rightarrow> (if last path \<noteq> CHR ''/'' then path @ ''/'' else path) @ uri_encode key False
         | None \<Rightarrow>
             if tgt_bucket t \<noteq> None \<and> \<not> oc_virtual_hosted oc \<and> last path \<noteq> CHR ''/'' then path @ ''/'' else path)"

definition upstream_query :: "string \<Rightarrow> string" where
  "upstream_query raw_query =
     join ''&''
       (filter (\<lambda>p. let name = (case split_once CHR ''='' p of Some (k, _) \<Rightarrow> k | None \<Rightarrow> p)
                    in \<not> list_ex (\<lambda>x. eq_ignore_ascii_case x name) PRESIGN_PARAMS)
         (filter (\<lambda>p. p \<noteq> []) (split_on CHR ''&'' raw_query)))"

definition upstream_uri :: "(string \<Rightarrow> uri option) \<Rightarrow> origin_config \<Rightarrow> target \<Rightarrow> string \<Rightarrow> s3_error + uri \<times> string" where
  "upstream_uri parse oc t raw_query =
     and_then
       (case tgt_bucket t of
          Some bk \<Rightarrow> bucket_host oc bk
        | None \<Rightarrow>
            (case oc_authority oc of
               Some authority \<Rightarrow> Inr authority
             | None \<Rightarrow> Inl (internal ''origin endpoint has no authority'')))
       (\<lambda>host.
          let query = upstream_query raw_query;
              u = origin_scheme oc @ ''://'' @ host @ upstream_path oc t;
              u = (if query \<noteq> [] then u @ ''?'' @ query else u)
          in case parse u of
               Some u \<Rightarrow> Inr (u, host)
             | None \<Rightarrow> Inl (internal ''failed to build upstream uri''))"

section \<open>Forwarding\<close>

record signed_request =
  up_method :: string
  up_uri :: uri
  up_headers :: header_map
  up_body :: "(body_error + bytes) list"

record http_response =
  rp_status :: nat
  rp_headers :: header_map
  rp_body :: "(string + bytes) list"

text \<open>The outside of one forwarded request.\<close>

record upstream =
  us_parse :: "string \<Rightarrow> uri option"
  us_credential :: "string + credentials"
  us_client :: "signed_request \<Rightarrow> string + http_response"
  us_now :: int

definition signed_headers ::
  "crypto \<Rightarrow> upstream \<Rightarrow> origin_config \<Rightarrow> string \<Rightarrow> uri \<Rightarrow> header_map \<Rightarrow> signing_keys \<Rightarrow> (s3_error + header_map) run \<times> signing_keys" where
  "signed_headers cr us oc meth u h keys =
     (if \<not> oc_credentials oc then (Returns (Inr h), keys)
      else case us_credential us of
             Inl e \<Rightarrow> (Returns (Inl (bad_gateway (''failed to obtain origin credentials: '' @ e))), keys)
           | Inr creds \<Rightarrow>
               (case sign cr meth u h creds (oc_region oc) (us_now us) keys of
                  None \<Rightarrow> (Panics, keys)
                | Some (h, keys) \<Rightarrow> (Returns (Inr h), keys)))"

definition is_streaming :: "header_map \<Rightarrow> bool" where
  "is_streaming h \<longleftrightarrow>
     (case hm_text ''x-amz-content-sha256'' h of Some v \<Rightarrow> strip_prefix ''STREAMING-'' v \<noteq> None | None \<Rightarrow> False)"

definition upstream_answer :: "http_response \<Rightarrow> http_response" where
  "upstream_answer r =
     r\<lparr>rp_headers := fold hm_remove (filter is_hop_by_hop (hm_keys (rp_headers r))) (rp_headers r)\<rparr>"

record incoming_request =
  rq_method :: string
  rq_uri :: uri
  rq_headers :: header_map
  rq_body :: "(string + bytes) list"

text \<open>The request as it goes out.\<close>

definition upstream_request ::
  "crypto \<Rightarrow> upstream \<Rightarrow> origin_config \<Rightarrow> incoming_request \<Rightarrow> target \<Rightarrow> nat option \<Rightarrow> signing_keys
     \<Rightarrow> (s3_error + signed_request \<times> captured option) run \<times> signing_keys" where
  "upstream_request cr us oc req t capture keys =
     (case and_then (upstream_uri (us_parse us) oc t (unwrap_or (uri_query (rq_uri req)) []))
             (\<lambda>(u, host). and_then (upstream_headers (rq_headers req) (is_streaming (rq_headers req)))
               (\<lambda>h. case header_value (as_bytes host) of
                      None \<Rightarrow> Inl (internal ''invalid host'')
                    | Some v \<Rightarrow> Inr (u, hm_insert ''host'' v h))) of
        Inl e \<Rightarrow> (Returns (Inl e), keys)
      | Inr (u, h) \<Rightarrow>
          let (body, captured) = request_body (rq_body req) (is_streaming (rq_headers req)) capture
          in (case signed_headers cr us oc (rq_method req) u h keys of
                (Panics, keys) \<Rightarrow> (Panics, keys)
              | (Hangs, keys) \<Rightarrow> (Hangs, keys)
              | (Returns (Inl e), keys) \<Rightarrow> (Returns (Inl e), keys)
              | (Returns (Inr h), keys) \<Rightarrow>
                  (Returns (Inr (\<lparr>up_method = rq_method req, up_uri = u, up_headers = h, up_body = body\<rparr>, captured)), keys)))"

definition forward_request ::
  "crypto \<Rightarrow> upstream \<Rightarrow> origin_config \<Rightarrow> incoming_request \<Rightarrow> target \<Rightarrow> nat option \<Rightarrow> signing_keys
     \<Rightarrow> (s3_error + http_response \<times> captured option) run \<times> signing_keys" where
  "forward_request cr us oc req t capture keys =
     (case upstream_request cr us oc req t capture keys of
        (Panics, keys) \<Rightarrow> (Panics, keys)
      | (Hangs, keys) \<Rightarrow> (Hangs, keys)
      | (Returns (Inl e), keys) \<Rightarrow> (Returns (Inl e), keys)
      | (Returns (Inr (upreq, captured)), keys) \<Rightarrow>
          (case us_client us upreq of
             Inl e \<Rightarrow> (Returns (Inl (bad_gateway (''origin request failed: '' @ e))), keys)
           | Inr r \<Rightarrow> (Returns (Inr (upstream_answer r, captured)), keys)))"

section \<open>Headers that go out\<close>

lemma hm_get_Nil [simp]: "hm_get n [] = None"
  by (simp add: hm_get_def hm_get_all_def)

lemma upstream_entry_dropped:
  assumes "dropped n" and "hm_get n out = None"
  shows "hm_get n (upstream_entry streaming entry out) = None"
proof -
  have "n \<noteq> ''content-encoding''" using assms(1) by (auto simp: dropped_def is_hop_by_hop_def strip_prefix_def)
  then show ?thesis using assms
    by (auto simp: upstream_entry_def Let_def split: prod.splits option.splits)
qed

lemma upstream_entries_dropped:
  assumes "dropped n" and "hm_get n out = None"
  shows "hm_get n (fold (upstream_entry streaming) h out) = None"
  using assms(2)
proof (induction h arbitrary: out)
  case (Cons x h)
  then show ?case using upstream_entry_dropped [OF assms(1)] by (simp del: hm_get_append)
qed simp

lemma upstream_headers_dropped:
  assumes "upstream_headers h streaming = Inr h'" and "dropped n" and "n \<noteq> ''content-length''"
  shows "hm_get n h' = None"
  using assms upstream_entries_dropped [OF assms(2), of "[]" streaming h]
  by (auto simp: upstream_headers_def and_then_def Let_def split: sum.splits option.splits)

text \<open>What signing does to the headers.\<close>

lemma sign_headers:
  assumes "sign cr meth u h creds region t keys = Some (h', keys')"
  shows "\<exists>a. hm_get ''authorization'' h' = Some (as_bytes (authorization_value a)) \<and> au_access_key a = access_key creds"
    and "n \<notin> {''authorization'', ''x-amz-date'', ''x-amz-content-sha256'', ''x-amz-security-token''} \<Longrightarrow> hm_get n h' = hm_get n h"
    and "hm_get ''x-amz-security-token'' h = None \<Longrightarrow>
      hm_get ''x-amz-security-token'' h' = Option.bind (session_token creds) (\<lambda>t. header_value (as_bytes t))"
  using assms
  by (auto simp: sign_def Let_def dest!: header_value_Some split: if_splits option.splits prod.splits)

lemma signed_headers_cases:
  assumes "signed_headers cr us oc meth u h keys = (Returns (Inr h'), keys')"
  obtains (plain) "\<not> oc_credentials oc" "h' = h"
    | (signed) creds where "oc_credentials oc" "us_credential us = Inr creds"
        "sign cr meth u h creds (oc_region oc) (us_now us) keys = Some (h', keys')"
  using assms by (auto simp: signed_headers_def split: if_splits sum.splits option.splits prod.splits)

lemma upstream_request_cases:
  assumes "upstream_request cr us oc req t capture keys = (Returns (Inr (out, c)), keys')"
  obtains u host h where "upstream_uri (us_parse us) oc t (unwrap_or (uri_query (rq_uri req)) []) = Inr (u, host)"
    and "upstream_headers (rq_headers req) (is_streaming (rq_headers req)) = Inr h"
    and "signed_headers cr us oc (rq_method req) u (hm_insert ''host'' (as_bytes host) h) keys = (Returns (Inr (up_headers out)), keys')"
    and "up_method out = rq_method req" and "up_uri out = u"
    and "request_body (rq_body req) (is_streaming (rq_headers req)) capture = (up_body out, c)"
  using assms
  by (auto simp: upstream_request_def and_then_def Let_def dest!: header_value_Some
      split: sum.splits option.splits prod.splits run.splits)

text \<open>The parameters of a presigned request, by their names in lower case.\<close>

definition presign_name :: "string \<Rightarrow> bool" where
  "presign_name n \<longleftrightarrow>
     map ascii_lower n \<in> {''x-amz-algorithm'', ''x-amz-credential'', ''x-amz-date'', ''x-amz-expires'', ''x-amz-signedheaders'',
       ''x-amz-signature'', ''x-amz-security-token''}"

lemma split_once_name: "(case split_once CHR ''='' p of Some (k, _) \<Rightarrow> k | None \<Rightarrow> p) = takeWhile (\<lambda>c. c \<noteq> CHR ''='') p"
  by (induction p) (auto split: option.splits prod.splits)

lemma upstream_query_kept:
  "upstream_query q = join ''&'' (filter (\<lambda>p. p \<noteq> [] \<and> \<not> presign_name (takeWhile (\<lambda>c. c \<noteq> CHR ''='') p)) (split_on CHR ''&'' q))"
proof -
  have "set (map to_ascii_lowercase PRESIGN_PARAMS) = {''x-amz-algorithm'', ''x-amz-credential'', ''x-amz-date'', ''x-amz-expires'',
      ''x-amz-signedheaders'', ''x-amz-signature'', ''x-amz-security-token''}"
    by (simp add: PRESIGN_PARAMS_def to_ascii_lowercase_def ascii_lower_def char_of_def bit_0)
  then have "list_ex (\<lambda>x. eq_ignore_ascii_case x n) PRESIGN_PARAMS \<longleftrightarrow> presign_name n" for n
    unfolding presign_name_def by (metis (no_types, lifting) eq_ignore_ascii_case_def imageE image_eqI list.set_map list_ex_iff to_ascii_lowercase_def)
  then show ?thesis unfolding upstream_query_def Let_def split_once_name filter_filter by (simp add: conj_commute)
qed

lemma upstream_uri_text:
  assumes "upstream_uri parse oc t q = Inr (u, host)"
  shows "parse (origin_scheme oc @ ''://'' @ host @ upstream_path oc t
    @ (if upstream_query q = [] then [] else ''?'' @ upstream_query q)) = Some u"
  using assms by (auto simp: upstream_uri_def and_then_def Let_def split: sum.splits option.splits if_splits)

lemma upstream_headers_clean:
  assumes "upstream_request cr us oc req t capture keys = (Returns (Inr (out, c)), keys')"
  shows "(\<forall>n. is_hop_by_hop n \<or> n = ''expect'' \<or> n = ''x-amz-trailer'' \<or> n = ''x-amz-decoded-content-length'' \<longrightarrow>
        hm_get n (up_headers out) = None)
    \<and> (\<not> oc_credentials oc \<longrightarrow>
        (\<forall>n \<in> {''authorization'', ''x-amz-date'', ''x-amz-content-sha256'', ''x-amz-security-token''}.
           hm_get n (up_headers out) = None))
    \<and> (oc_credentials oc \<longrightarrow>
        (\<exists>creds a. us_credential us = Inr creds \<and> au_access_key a = access_key creds
          \<and> hm_get ''authorization'' (up_headers out) = Some (as_bytes (authorization_value a))
          \<and> hm_get ''x-amz-security-token'' (up_headers out) = Option.bind (session_token creds) (\<lambda>t. header_value (as_bytes t))))"
proof -
  from upstream_request_cases [OF assms] obtain u host h where
      h: "upstream_headers (rq_headers req) (is_streaming (rq_headers req)) = Inr h"
    and s: "signed_headers cr us oc (rq_method req) u (hm_insert ''host'' (as_bytes host) h) keys = (Returns (Inr (up_headers out)), keys')"
    by metis
  let ?h = "hm_insert ''host'' (as_bytes host) h"
  have gone: "hm_get n ?h = None" if "dropped n" "n \<noteq> ''content-length''" "n \<noteq> ''host''" for n
    using upstream_headers_dropped [OF h that(1,2)] that(3) by simp
  have hop: "dropped n \<and> n \<notin> {''content-length'', ''host'', ''authorization'', ''x-amz-date'', ''x-amz-content-sha256'', ''x-amz-security-token''}"
    if "is_hop_by_hop n \<or> n = ''expect'' \<or> n = ''x-amz-trailer'' \<or> n = ''x-amz-decoded-content-length''" for n
    using that by (auto simp: dropped_def is_hop_by_hop_def strip_prefix_def)
  have auth: "dropped n" if "n \<in> {''authorization'', ''x-amz-date'', ''x-amz-content-sha256'', ''x-amz-security-token''}" for n
    using that by (auto simp: dropped_def)
  from s show ?thesis
  proof (cases rule: signed_headers_cases)
    case plain
    then show ?thesis using gone hop auth by auto
  next
    case (signed creds)
    have token: "hm_get ''x-amz-security-token'' ?h = None" by (rule gone) (simp_all add: dropped_def)
    show ?thesis
      using signed gone hop sign_headers(1) [OF signed(3)] sign_headers(2) [OF signed(3)]
        sign_headers(3) [OF signed(3) token] by auto
  qed
qed

text \<open>
  C34: the credentials of the client stay at the endpoint. No hop-by-hop header and no header of the
  client's signature reaches the origin: an anonymous origin gets none at all, and for one with
  credentials the authorization names the origin's key and the session token is the origin's. The
  query of the address that goes out is the client's, part by part and in order, without the empty
  parts and without every parameter that is written as one of a presigned request.
\<close>

theorem client_credentials_stay:
  assumes "upstream_request cr us oc req t capture keys = (Returns (Inr (out, c)), keys')"
  shows "(\<forall>n. is_hop_by_hop n \<or> n = ''expect'' \<or> n = ''x-amz-trailer'' \<or> n = ''x-amz-decoded-content-length'' \<longrightarrow>
        hm_get n (up_headers out) = None)
    \<and> (\<not> oc_credentials oc \<longrightarrow>
        (\<forall>n \<in> {''authorization'', ''x-amz-date'', ''x-amz-content-sha256'', ''x-amz-security-token''}.
           hm_get n (up_headers out) = None))
    \<and> (oc_credentials oc \<longrightarrow>
        (\<exists>creds a. us_credential us = Inr creds \<and> au_access_key a = access_key creds
          \<and> hm_get ''authorization'' (up_headers out) = Some (as_bytes (authorization_value a))
          \<and> hm_get ''x-amz-security-token'' (up_headers out) = Option.bind (session_token creds) (\<lambda>t. header_value (as_bytes t))))
    \<and> (\<exists>host parts. parts = filter (\<lambda>p. p \<noteq> [] \<and> \<not> presign_name (takeWhile (\<lambda>c. c \<noteq> CHR ''='') p))
            (split_on CHR ''&'' (unwrap_or (uri_query (rq_uri req)) []))
          \<and> us_parse us (origin_scheme oc @ ''://'' @ host @ upstream_path oc t
              @ (if join ''&'' parts = [] then [] else ''?'' @ join ''&'' parts)) = Some (up_uri out))"
proof -
  from upstream_request_cases [OF assms] obtain u host where
      u: "upstream_uri (us_parse us) oc t (unwrap_or (uri_query (rq_uri req)) []) = Inr (u, host)" "up_uri out = u" by metis
  note addr = upstream_uri_text [OF u(1), folded u(2), unfolded upstream_query_kept]
  have add: "A \<and> B \<and> C \<Longrightarrow> D \<Longrightarrow> A \<and> B \<and> C \<and> D" for A B C D by blast
  show ?thesis by (rule add [OF upstream_headers_clean [OF assms]]) (intro exI conjI, rule refl, rule addr)
qed

definition demo_request :: incoming_request where
  "demo_request =
     \<lparr>rq_method = ''DELETE'', rq_uri = demo_uri,
      rq_headers = [(''authorization'', as_bytes ''secret''), (''te'', as_bytes ''trailers''), (''range'', as_bytes ''x'')],
      rq_body = []\<rparr>"

definition demo_upstream :: upstream where
  "demo_upstream =
     \<lparr>us_parse = (\<lambda>s. Some demo_uri), us_credential = Inl ''none'',
      us_client = (\<lambda>r. Inr \<lparr>rp_status = 204, rp_headers = [(''connection'', [])], rp_body = []\<rparr>), us_now = 0\<rparr>"

definition demo_origin_config :: origin_config where
  "demo_origin_config = origin_anonymous (Some ''http'') (Some ''minio'') ''us-east-1''"

definition demo_target :: target where
  "demo_target = \<lparr>tgt_bucket = Some ''photos'', tgt_key = Some ''x''\<rparr>"

lemma demo_forwarded:
  "upstream_request demo_crypto demo_upstream demo_origin_config demo_request demo_target None [] =
     (Returns (Inr (\<lparr>up_method = ''DELETE'', up_uri = demo_uri,
        up_headers = [(''range'', as_bytes ''x''), (''host'', as_bytes ''minio'')], up_body = []\<rparr>, None)), [])"
proof -
  have "header_value (as_bytes ''minio'') = Some (as_bytes ''minio'')"
    by (rule header_value_printable) (simp add: printable_def visible_def)
  then show ?thesis
    by (simp add: upstream_request_def upstream_uri_def demo_upstream_def demo_origin_config_def origin_anonymous_def
        demo_request_def demo_target_def bucket_host_def and_then_def upstream_headers_def upstream_entry_def
        dropped_def is_hop_by_hop_def hm_append_def is_streaming_def hm_text_def hm_get_def hm_get_all_def header_u64_def
        hm_insert_def hm_remove_def request_body_def signed_headers_def strip_prefix_def)
qed

theorem client_credentials_stay_witness:
  "\<exists>out. upstream_request demo_crypto demo_upstream demo_origin_config demo_request demo_target None [] = (Returns (Inr (out, None)), [])
    \<and> hm_get ''authorization'' (rq_headers demo_request) = Some (as_bytes ''secret'')
    \<and> hm_get ''authorization'' (up_headers out) = None \<and> hm_get ''te'' (up_headers out) = None"
proof -
  have "hm_get ''authorization'' (rq_headers demo_request) = Some (as_bytes ''secret'')"
    by (simp add: demo_request_def hm_get_def hm_get_all_def)
  moreover have "\<not> oc_credentials demo_origin_config" by (simp add: demo_origin_config_def origin_anonymous_def)
  moreover have "is_hop_by_hop ''te''" by (simp add: is_hop_by_hop_def)
  ultimately show ?thesis using client_credentials_stay [OF demo_forwarded] demo_forwarded by blast
qed

section \<open>The object a request is forwarded to\<close>

lemma pct_decode_not_Nil: "s \<noteq> [] \<Longrightarrow> pct_decode s \<noteq> []"
  by (cases s) (simp_all split: list.splits option.splits)

lemma utf8_lossy_not_Nil: "s \<noteq> [] \<Longrightarrow> utf8_lossy s \<noteq> []"
  using utf8_head_pos [of s] by (subst utf8_lossy.simps) auto

lemma percent_decode_not_Nil: "s \<noteq> [] \<Longrightarrow> percent_decode s \<noteq> []"
  using utf8_lossy_not_Nil pct_decode_not_Nil by (simp add: percent_decode_def as_bytes_def of_bytes_def)

lemma uri_encode_not_Nil: "s \<noteq> [] \<Longrightarrow> uri_encode s sl \<noteq> []"
  by (cases s) (simp_all add: uri_encode_def pct_encode_def as_bytes_def of_bytes_def)

lemma uri_encode_key: "k = percent_decode x \<Longrightarrow> percent_decode (uri_encode k sl) = k"
  by (simp add: percent_decode_normal)

text \<open>The key of a target is decoded from a text that is not empty.\<close>

lemma resolve_target_key:
  "resolve_target a host path = Inr t \<Longrightarrow> tgt_key t = Some k \<Longrightarrow> \<exists>x. x \<noteq> [] \<and> k = percent_decode x"
  by (auto simp: resolve_target_def Let_def non_empty_def split: option.splits if_splits sum.splits prod.splits)

lemma resolve_target_bucket:
  "resolve_target a host path = Inr t \<Longrightarrow> tgt_bucket t = Some b \<Longrightarrow> well_formed_bucket b"
  by (auto simp: resolve_target_def validated_bucket_def Let_def split: option.splits if_splits sum.splits prod.splits)

lemma bucket_chars:
  assumes "well_formed_bucket b"
  shows "b \<noteq> []" and "CHR ''/'' \<notin> set b" and "CHR ''?'' \<notin> set b" and "CHR ''#'' \<notin> set b"
  using assms by (auto simp: well_formed_bucket_def list_all_iff is_lower_or_digit_def Let_def)

lemma path_style_resolves:
  assumes b: "well_formed_bucket b"
  shows "resolve_target PathStyle host (''/'' @ b @ ''/'' @ s) =
    Inr \<lparr>tgt_bucket = Some b, tgt_key = map_option percent_decode (non_empty s)\<rparr>"
proof -
  have "split_once CHR ''/'' (b @ CHR ''/'' # s) = Some (b, s)" using bucket_chars(2) [OF b] by (simp add: split_once_Some)
  then show ?thesis using bucket_chars(1) [OF b] b
    by (simp add: resolve_target_def strip_prefix_def unwrap_or_def validated_bucket_def non_empty_def)
qed

lemma uri_encode_path_chars: "c \<in> set (uri_encode k False) \<Longrightarrow> c \<noteq> CHR ''?'' \<and> c \<noteq> CHR ''#''"
proof -
  assume "c \<in> set (uri_encode k False)"
  then have "(of_char c :: u8) \<in> set (pct_encode False (as_bytes k))" unfolding uri_encode_def by (rule in_of_bytes)
  from pct_encode_alphabet [OF this] show ?thesis by (auto simp: unreserved_def is_alphanumeric_def word_le_nat_alt)
qed

text \<open>
  C33: a forwarded request goes to the object the endpoint resolved. The address that goes out is the
  authority of the origin, port included, after the name of the bucket and a dot when the origin is
  virtual hosted; otherwise the path starts with the bucket. The rest of the path is a text that
  decodes to the key, whatever characters the key has and however the client had encoded them, and
  nothing in it can end the path. The host header is that of the address.
\<close>

theorem forwarded_to_same_object:
  assumes "resolve_target a host path = Inr t" and "tgt_bucket t = Some b" and "oc_authority oc = Some authority"
    and "upstream_request cr us oc req t capture keys = (Returns (Inr (out, c)), keys')"
  shows "\<exists>encoded query. us_parse us (unwrap_or (oc_scheme oc) ''https'' @ ''://''
          @ (if oc_virtual_hosted oc then b @ ''.'' @ authority @ ''/'' else authority @ ''/'' @ b @ ''/'') @ encoded @ query)
        = Some (up_uri out)
    \<and> (query = [] \<or> hd query = CHR ''?'')
    \<and> (case tgt_key t of Some key \<Rightarrow> encoded \<noteq> [] \<and> percent_decode encoded = key | None \<Rightarrow> encoded = [])
    \<and> CHR ''?'' \<notin> set (b @ encoded) \<and> CHR ''#'' \<notin> set (b @ encoded) \<and> CHR ''/'' \<notin> set b
    \<and> hm_get ''host'' (up_headers out) = Some (as_bytes (if oc_virtual_hosted oc then b @ ''.'' @ authority else authority))"
proof -
  note b = resolve_target_bucket [OF assms(1,2)]
  let ?s = "case tgt_key t of Some k \<Rightarrow> uri_encode k False | None \<Rightarrow> []"
  let ?host = "if oc_virtual_hosted oc then b @ ''.'' @ authority else authority"
  from upstream_request_cases [OF assms(4)] obtain u up h where
      u: "upstream_uri (us_parse us) oc t (unwrap_or (uri_query (rq_uri req)) []) = Inr (u, up)" "up_uri out = u"
    and h: "upstream_headers (rq_headers req) (is_streaming (rq_headers req)) = Inr h"
    and s: "signed_headers cr us oc (rq_method req) u (hm_insert ''host'' (as_bytes up) h) keys = (Returns (Inr (up_headers out)), keys')"
    by metis
  have up: "up = ?host" using u(1) assms(2,3)
    by (auto simp: upstream_uri_def bucket_host_def and_then_def Let_def split: option.splits if_splits)
  have path: "upstream_path oc t = (if oc_virtual_hosted oc then ''/'' @ ?s else ''/'' @ b @ ''/'' @ ?s)"
  proof -
    have "last b \<noteq> CHR ''/''" using bucket_chars(1,2) [OF b] by (metis last_in_set)
    then have "last (''/'' @ b) \<noteq> CHR ''/''" using bucket_chars(1) [OF b] by simp
    then show ?thesis using assms(2) by (simp add: upstream_path_def split: option.splits)
  qed
  have key: "case tgt_key t of Some key \<Rightarrow> ?s \<noteq> [] \<and> percent_decode ?s = key | None \<Rightarrow> ?s = []"
  proof (cases "tgt_key t")
    case (Some k)
    then obtain x where "x \<noteq> []" "k = percent_decode x" using resolve_target_key [OF assms(1)] by blast
    then show ?thesis using Some percent_decode_not_Nil uri_encode_not_Nil uri_encode_key by simp
  qed simp
  have chars: "CHR ''?'' \<notin> set ?s" "CHR ''#'' \<notin> set ?s" using uri_encode_path_chars by (auto split: option.splits)
  have sent: "hm_get ''host'' (up_headers out) = Some (as_bytes up)"
    using s sign_headers(2) [where n = "''host''"] by (cases rule: signed_headers_cases) auto
  let ?q = "upstream_query (unwrap_or (uri_query (rq_uri req)) [])"
  show ?thesis
    by (rule exI [of _ ?s], rule exI [of _ "if ?q = [] then [] else ''?'' @ ?q"])
      (use upstream_uri_text [OF u(1)] u(2) up path key chars sent bucket_chars [OF b] in \<open>auto simp: origin_scheme_def\<close>)
qed

theorem forwarded_to_same_object_witness:
  "\<exists>t out encoded query. resolve_target PathStyle ''cache'' ''/photos/a%20b'' = Inr t
    \<and> upstream_request demo_crypto demo_upstream (demo_origin_config\<lparr>oc_authority := Some ''minio:9000''\<rparr>) demo_request t None []
        = (Returns (Inr (out, None)), [])
    \<and> us_parse demo_upstream (''http://minio:9000/photos/'' @ encoded @ query) = Some (up_uri out)
    \<and> percent_decode encoded = percent_decode ''a%20b'' \<and> hm_get ''host'' (up_headers out) = Some (as_bytes ''minio:9000'')"
proof -
  let ?oc = "demo_origin_config\<lparr>oc_authority := Some ''minio:9000''\<rparr>"
  have b: "well_formed_bucket ''photos''"
    by (simp add: well_formed_bucket_def is_lower_or_digit_def is_alphanumeric_def word_le_nat_alt)
  let ?t = "\<lparr>tgt_bucket = Some ''photos'', tgt_key = Some (percent_decode ''a%20b'')\<rparr>"
  have r: "resolve_target PathStyle ''cache'' ''/photos/a%20b'' = Inr ?t"
    using path_style_resolves [OF b, of "''cache''" "''a%20b''"] by (simp add: non_empty_def)
  have "header_value (as_bytes ''minio:9000'') = Some (as_bytes ''minio:9000'')"
    by (rule header_value_printable) (simp add: printable_def visible_def)
  then have "\<exists>out. upstream_request demo_crypto demo_upstream ?oc demo_request ?t None [] = (Returns (Inr (out, None)), [])"
    by (simp add: upstream_request_def upstream_uri_def demo_upstream_def demo_origin_config_def origin_anonymous_def
        demo_request_def bucket_host_def and_then_def upstream_headers_def upstream_entry_def Let_def
        dropped_def is_hop_by_hop_def hm_append_def is_streaming_def hm_text_def hm_get_def hm_get_all_def header_u64_def
        hm_insert_def hm_remove_def request_body_def signed_headers_def strip_prefix_def)
  then obtain out where o: "upstream_request demo_crypto demo_upstream ?oc demo_request ?t None [] = (Returns (Inr (out, None)), [])"
    by blast
  have oc: "oc_authority ?oc = Some ''minio:9000''" "oc_scheme ?oc = Some ''http''" "\<not> oc_virtual_hosted ?oc"
    by (simp_all add: demo_origin_config_def origin_anonymous_def)
  from forwarded_to_same_object [OF r _ oc(1) o, of "''photos''"] r o oc(2,3) show ?thesis
    by (auto simp: unwrap_or_def)
qed

section \<open>A hole\<close>

text \<open>
  The names of parameters are decoded when a presigned request is verified but not when it is
  forwarded: a signature whose name is written with an escape is verified and then sent on.
\<close>

lemma encoded_presign_parameter_forwarded:
  assumes "CHR ''&'' \<notin> set v"
  shows "query_param (''%58-Amz-Signature='' @ v) ''X-Amz-Signature'' = Some (percent_decode v)
    \<and> upstream_query (''%58-Amz-Signature='' @ v) = ''%58-Amz-Signature='' @ v"
proof -
  have plain: "split_on CHR ''&'' (''%58-Amz-Signature='' @ v) = [''%58-Amz-Signature='' @ v]"
    by (rule split_on_plain) (use assms in simp)
  have "percent_decode ''%58-Amz-Signature'' = ''X-Amz-Signature''"
    by (simp add: percent_decode_def as_bytes_def of_bytes_def hex_value_def digit_value_def utf8_lossy_valid
        char_of_def bit_0)
  then show ?thesis using plain
    by (simp add: query_param_def upstream_query_kept presign_name_def ascii_lower_def unwrap_or_def)
qed

end
