(* ===== verification/S3_Routes.thy ===== *)
theory S3_Routes
  imports S3_Forward Memory_Origin
begin

text \<open>
  The S3 service (\<^verbatim>\<open>nestor-s3/src/service.rs\<close>) and the routing of its requests
  (\<^verbatim>\<open>nestor-s3/src/routes.rs\<close>): a request is verified, its bucket and key resolved, and then served
  from the cache or forwarded to the origin, after which the cache is brought up to date.

  The service keeps the keys it has derived and the namespaces of the buckets it has seen; the node
  is the \<^typ>\<open>world\<close>. The parser of XML is a parameter that gives the events of a document up to its
  end or the first error.
\<close>

section \<open>Service\<close>

record service =
  sv_auth :: auth
  sv_addressing :: addressing
  sv_buckets :: namespace_config
  sv_populate_max :: "nat option"
  sv_origin :: origin_config
  sv_origins :: "string \<Rightarrow> s3_error + unit"
  sv_signing_keys :: signing_keys
  sv_forward_keys :: signing_keys
  sv_namespaces :: "string \<Rightarrow> u32 option"
  sv_written :: "(string \<times> string \<times> u64) list"

definition service_new ::
  "auth \<Rightarrow> addressing \<Rightarrow> namespace_config \<Rightarrow> nat option \<Rightarrow> origin_config \<Rightarrow> (string \<Rightarrow> s3_error + unit) \<Rightarrow> service" where
  "service_new a ad buckets populate oc origins =
     \<lparr>sv_auth = a, sv_addressing = ad, sv_buckets = buckets, sv_populate_max = populate, sv_origin = oc,
      sv_origins = origins, sv_signing_keys = [], sv_forward_keys = [], sv_namespaces = Map.empty, sv_written = []\<rparr>"

definition service_namespace :: "string \<Rightarrow> service \<Rightarrow> world \<Rightarrow> (s3_error + u32) \<times> service \<times> world" where
  "service_namespace bk sv w =
     (case sv_namespaces sv bk of
        Some i \<Rightarrow> (Inr i, sv, w)
      | None \<Rightarrow>
          (case sv_origins sv bk of
             Inl e \<Rightarrow> (Inl e, sv, w)
           | Inr _ \<Rightarrow>
               (case node_register ((namespace_new bk)\<lparr>namespace_config := sv_buckets sv\<rparr>) w of
                  (i, w) \<Rightarrow> (Inr i, sv\<lparr>sv_namespaces := (sv_namespaces sv)(bk \<mapsto> i)\<rparr>, w))))"

section \<open>Responses\<close>

datatype response_body = Empty | Xml string | Stream read_stream | Upstream "(string + bytes) list"

record response =
  rs_status :: nat
  rs_headers :: header_map
  rs_body :: response_body

definition error_response :: "s3_error \<Rightarrow> response" where
  "error_response e =
     \<lparr>rs_status = s3_status e,
      rs_headers = [(''content-type'', as_bytes ''application/xml''), (''content-length'', as_bytes (show_nat (length (error_body e))))],
      rs_body = Xml (error_body e)\<rparr>"

definition unsatisfiable :: "string \<Rightarrow> u64 \<Rightarrow> response" where
  "unsatisfiable key sz =
     (let r = error_response (invalid_range key)
      in case header_value (as_bytes (''bytes */'' @ show_u64 sz)) of
           Some v \<Rightarrow> r\<lparr>rs_headers := hm_insert ''content-range'' v (rs_headers r)\<rparr>
         | None \<Rightarrow> r)"

definition read_failure :: "texts \<Rightarrow> nestor_error \<Rightarrow> string \<Rightarrow> s3_error + response" where
  "read_failure tx e key =
     (case e of
        ERange _ sz \<Rightarrow> Inr (unsatisfiable key sz)
      | other \<Rightarrow> Inl (from_nestor tx other key))"

section \<open>Reads\<close>

text \<open>The metadata of the object, and the stream of a read.\<close>

definition serve_open ::
  "env \<Rightarrow> texts \<Rightarrow> string \<Rightarrow> header_map \<Rightarrow> u32 \<Rightarrow> string \<Rightarrow> read_range \<Rightarrow> world
     \<Rightarrow> ((s3_error + response) + object_meta \<times> read_stream option) run \<times> world" where
  "serve_open e tx meth h i key request w =
     (if meth = ''HEAD''
      then (case node_head e i key w of
              (Inl err, w) \<Rightarrow> (Returns (Inl (Inl (from_nestor tx err key))), w)
            | (Inr m, w) \<Rightarrow> (Returns (Inr (m, None)), w))
      else
        case fetch_overrides_of tx h of
          Inl err \<Rightarrow> (Returns (Inl (Inl err)), w)
        | Inr overrides \<Rightarrow>
            (case get_opts e i key \<lparr>ro_range = request, ro_fetch = overrides\<rparr> w of
               None \<Rightarrow> (Panics, w)
             | Some (Inl err, w) \<Rightarrow> (Returns (Inl (read_failure tx err key)), w)
             | Some (Inr st, w) \<Rightarrow>
                 (case stream_ready e st w of
                    None \<Rightarrow> (Hangs, w)
                  | Some (Inl err, st, w) \<Rightarrow> (Returns (Inl (read_failure tx err key)), w)
                  | Some (Inr m, st, w) \<Rightarrow> (Returns (Inr (m, Some st)), w))))"

text \<open>The response for an object that is there.\<close>

definition serve_object ::
  "texts \<Rightarrow> header_map \<Rightarrow> string \<Rightarrow> read_range option \<Rightarrow> object_meta \<Rightarrow> read_stream option \<Rightarrow> s3_error + response" where
  "serve_object tx h key range_opt m stream =
     (let partial = (range_opt \<noteq> None);
          request = unwrap_or range_opt Full;
          headers = hm_insert ''content-type'' (as_bytes ''application/octet-stream'') (object_headers tx m [])
      in case evaluate (preconditions_of tx h) m of
           PNotModified \<Rightarrow> Inr \<lparr>rs_status = 304, rs_headers = headers, rs_body = Empty\<rparr>
         | PFailed \<Rightarrow> Inl (precondition_failed key)
         | Satisfied \<Rightarrow>
             (case resolve request (meta_size m) of
                Inl _ \<Rightarrow> Inr (unsatisfiable key (meta_size m))
              | Inr rng \<Rightarrow>
                  Inr \<lparr>rs_status = (if partial then 206 else 200),
                       rs_headers = content_headers rng (meta_size m) partial headers,
                       rs_body = (case stream of Some st \<Rightarrow> Stream st | None \<Rightarrow> Empty)\<rparr>))"

definition serve ::
  "env \<Rightarrow> texts \<Rightarrow> string \<Rightarrow> header_map \<Rightarrow> target \<Rightarrow> service \<Rightarrow> world
     \<Rightarrow> (s3_error + response) run \<times> service \<times> world" where
  "serve e tx meth h t sv w =
     (case (tgt_bucket t, tgt_key t) of
        (Some bk, Some key) \<Rightarrow>
          (case service_namespace bk sv w of
             (Inl err, sv, w) \<Rightarrow> (Returns (Inl err), sv, w)
           | (Inr i, sv, w) \<Rightarrow>
               let range_opt = parse_range h
               in case serve_open e tx meth h i key (unwrap_or range_opt Full) w of
                    (Panics, w) \<Rightarrow> (Panics, sv, w)
                  | (Hangs, w) \<Rightarrow> (Hangs, sv, w)
                  | (Returns (Inl res), w) \<Rightarrow> (Returns res, sv, w)
                  | (Returns (Inr (m, stream)), w) \<Rightarrow> (Returns (serve_object tx h key range_opt m stream), sv, w))
      | _ \<Rightarrow> (Panics, sv, w))"

section \<open>Writes\<close>

datatype mutation = NoMutation | PutObject | DeleteObject | CompleteMultipart | DeleteObjects

definition DELETE_OBJECTS_MAX_BODY :: nat where "DELETE_OBJECTS_MAX_BODY = 4 * 1024 * 1024"

definition classify :: "string \<Rightarrow> target \<Rightarrow> string \<Rightarrow> bool \<Rightarrow> mutation" where
  "classify meth t raw_query copy =
     (let keyed = (tgt_key t \<noteq> None)
      in if meth = ''PUT'' \<and> keyed
         then if query_param raw_query ''partNumber'' \<noteq> None then NoMutation
              else if copy \<or> raw_query = [] then PutObject
              else NoMutation
         else if meth = ''DELETE'' \<and> keyed \<and> raw_query = [] then DeleteObject
         else if meth = ''POST'' \<and> keyed \<and> query_param raw_query ''uploadId'' \<noteq> None then CompleteMultipart
         else if meth = ''POST'' \<and> \<not> keyed \<and> query_param raw_query ''delete'' \<noteq> None then DeleteObjects
         else NoMutation)"

definition payload_size :: "header_map \<Rightarrow> u64 option" where
  "payload_size h =
     Option.bind (case hm_get ''x-amz-decoded-content-length'' h of Some v \<Rightarrow> Some v | None \<Rightarrow> hm_get ''content-length'' h)
       (\<lambda>v. Option.bind (to_str v) parse_u64)"

definition populate :: "env \<Rightarrow> u32 \<Rightarrow> string \<Rightarrow> header_map \<Rightarrow> bytes \<Rightarrow> world \<Rightarrow> world" where
  "populate e i key response_headers data w = snd (node_insert e i key (hm_get ''etag'' response_headers) data w)"

text \<open>
  Events of an XML document: the local names of tags, texts, and references with what they resolve
  to as a character or as a predefined entity.
\<close>

datatype xml_event = XStart string | XEnd string | XText string | XRef "string option" "string option" | XOther

fun delete_keys_loop :: "xml_event list \<Rightarrow> string option \<Rightarrow> string list \<Rightarrow> string list" where
  "delete_keys_loop [] cur keys = keys"
| "delete_keys_loop (ev # evs) cur keys =
     (case ev of
        XStart n \<Rightarrow> delete_keys_loop evs (if n = ''Key'' then Some [] else cur) keys
      | XEnd n \<Rightarrow>
          if n = ''Key''
          then (case cur of
                  Some key \<Rightarrow> delete_keys_loop evs None (keys @ [key])
                | None \<Rightarrow> delete_keys_loop evs None keys)
          else delete_keys_loop evs cur keys
      | XText s \<Rightarrow> delete_keys_loop evs (map_option (\<lambda>key. key @ s) cur) keys
      | XRef char predefined \<Rightarrow>
          delete_keys_loop evs
            (map_option (\<lambda>key. case char of Some c \<Rightarrow> key @ c
                              | None \<Rightarrow> (case predefined of Some s \<Rightarrow> key @ s | None \<Rightarrow> key)) cur) keys
      | XOther \<Rightarrow> delete_keys_loop evs cur keys)"

definition delete_keys :: "(bytes \<Rightarrow> xml_event list) \<Rightarrow> bytes \<Rightarrow> string list" where
  "delete_keys xml body = delete_keys_loop (xml body) None []"

definition invalidate_key :: "env \<Rightarrow> u32 \<Rightarrow> string \<Rightarrow> world \<Rightarrow> world" where
  "invalidate_key e i key w = snd (node_invalidate e i key w)"

text \<open>What a successful write does to the cache and to the observer of writes. The client of the origin has read the
  whole body when it answers, so the capture is complete.\<close>

definition after_write ::
  "env \<Rightarrow> (bytes \<Rightarrow> xml_event list) \<Rightarrow> mutation \<Rightarrow> string \<Rightarrow> target \<Rightarrow> u32 \<Rightarrow> header_map \<Rightarrow> captured option \<Rightarrow> u64 option
     \<Rightarrow> service \<Rightarrow> world \<Rightarrow> (service \<times> world) run" where
  "after_write e xml mu bk t i response_headers cap sz sv w =
     (case mu of
        NoMutation \<Rightarrow> Returns (sv, w)
      | PutObject \<Rightarrow>
          (case tgt_key t of
             None \<Rightarrow> Panics
           | Some key \<Rightarrow>
               let w = invalidate_key e i key w;
                   w = (case Option.bind cap capture_take of Some data \<Rightarrow> populate e i key response_headers data w | None \<Rightarrow> w);
                   sv = (case sz of Some n \<Rightarrow> sv\<lparr>sv_written := sv_written sv @ [(bk, key, n)]\<rparr> | None \<Rightarrow> sv)
               in Returns (sv, w))
      | DeleteObjects \<Rightarrow>
          (case Option.bind cap capture_take of
             Some body \<Rightarrow> Returns (sv, fold (invalidate_key e i) (delete_keys xml body) w)
           | None \<Rightarrow> Returns (sv, w))
      | _ \<Rightarrow>
          (case tgt_key t of
             None \<Rightarrow> Panics
           | Some key \<Rightarrow> Returns (sv, invalidate_key e i key w)))"

definition capture_limit :: "mutation \<Rightarrow> bool \<Rightarrow> service \<Rightarrow> nat option" where
  "capture_limit mu copy sv =
     (case mu of
        PutObject \<Rightarrow> if copy then None else sv_populate_max sv
      | DeleteObjects \<Rightarrow> Some DELETE_OBJECTS_MAX_BODY
      | _ \<Rightarrow> None)"

definition upstream_response :: "http_response \<Rightarrow> response" where
  "upstream_response r = \<lparr>rs_status = rp_status r, rs_headers = rp_headers r, rs_body = Upstream (rp_body r)\<rparr>"

definition is_copy :: "incoming_request \<Rightarrow> bool" where
  "is_copy req \<longleftrightarrow> hm_get ''x-amz-copy-source'' (rq_headers req) \<noteq> None"

definition forward_route ::
  "env \<Rightarrow> crypto \<Rightarrow> upstream \<Rightarrow> (bytes \<Rightarrow> xml_event list) \<Rightarrow> incoming_request \<Rightarrow> target \<Rightarrow> string \<Rightarrow> service \<Rightarrow> world
     \<Rightarrow> (s3_error + response) run \<times> service \<times> world" where
  "forward_route e cr us xml req t raw_query sv w =
     (let copy = is_copy req;
          mu = classify (rq_method req) t raw_query copy;
          sz = payload_size (rq_headers req)
      in case forward_request cr us (sv_origin sv) req t (capture_limit mu copy sv) (sv_forward_keys sv) of
           (Panics, keys) \<Rightarrow> (Panics, sv\<lparr>sv_forward_keys := keys\<rparr>, w)
         | (Hangs, keys) \<Rightarrow> (Hangs, sv\<lparr>sv_forward_keys := keys\<rparr>, w)
         | (Returns (Inl err), keys) \<Rightarrow> (Returns (Inl err), sv\<lparr>sv_forward_keys := keys\<rparr>, w)
         | (Returns (Inr (r, cap)), keys) \<Rightarrow>
             let sv = sv\<lparr>sv_forward_keys := keys\<rparr>
             in if \<not> (200 \<le> rp_status r \<and> rp_status r < 300) then (Returns (Inr (upstream_response r)), sv, w)
                else case tgt_bucket t of
                  None \<Rightarrow> (Returns (Inr (upstream_response r)), sv, w)
                | Some bk \<Rightarrow>
                    (case service_namespace bk sv w of
                       (Inl err, sv, w) \<Rightarrow> (Returns (Inl err), sv, w)
                     | (Inr i, sv, w) \<Rightarrow>
                         (case after_write e xml mu bk t i (rp_headers r) cap sz sv w of
                            Panics \<Rightarrow> (Panics, sv, w)
                          | Hangs \<Rightarrow> (Hangs, sv, w)
                          | Returns (sv, w) \<Rightarrow> (Returns (Inr (upstream_response r)), sv, w))))"

section \<open>Dispatch\<close>

definition cacheable :: "string \<Rightarrow> target \<Rightarrow> string \<Rightarrow> bool" where
  "cacheable meth t raw_query \<longleftrightarrow> (meth = ''GET'' \<or> meth = ''HEAD'') \<and> tgt_key t \<noteq> None \<and> raw_query = []"

definition dispatch ::
  "env \<Rightarrow> texts \<Rightarrow> crypto \<Rightarrow> upstream \<Rightarrow> (bytes \<Rightarrow> xml_event list) \<Rightarrow> incoming_request \<Rightarrow> service \<Rightarrow> world
     \<Rightarrow> (s3_error + response) run \<times> service \<times> world" where
  "dispatch e tx cr us xml req sv w =
     (case verify cr (sv_auth sv) (rq_method req) (rq_uri req) (rq_headers req) (us_now us) (sv_signing_keys sv) of
        (Inl err, keys) \<Rightarrow> (Returns (Inl err), sv\<lparr>sv_signing_keys := keys\<rparr>, w)
      | (Inr _, keys) \<Rightarrow>
          let sv = sv\<lparr>sv_signing_keys := keys\<rparr>
          in (case resolve_target (sv_addressing sv) (host_of (rq_headers req) (rq_uri req)) (uri_path (rq_uri req)) of
                Inl err \<Rightarrow> (Returns (Inl err), sv, w)
              | Inr t \<Rightarrow>
                  let raw_query = unwrap_or (uri_query (rq_uri req)) []
                  in if cacheable (rq_method req) t raw_query then serve e tx (rq_method req) (rq_headers req) t sv w
                     else forward_route e cr us xml req t raw_query sv w))"

definition handle ::
  "env \<Rightarrow> texts \<Rightarrow> crypto \<Rightarrow> upstream \<Rightarrow> (bytes \<Rightarrow> xml_event list) \<Rightarrow> incoming_request \<Rightarrow> service \<Rightarrow> world
     \<Rightarrow> response run \<times> service \<times> world" where
  "handle e tx cr us xml req sv w =
     (case dispatch e tx cr us xml req sv w of
        (Returns (Inr r), sv, w) \<Rightarrow> (Returns r, sv, w)
      | (Returns (Inl err), sv, w) \<Rightarrow> (Returns (error_response err), sv, w)
      | (Panics, sv, w) \<Rightarrow> (Panics, sv, w)
      | (Hangs, sv, w) \<Rightarrow> (Hangs, sv, w))"

end
