(* ===== verification/S3_Served.thy ===== *)
theory S3_Served
  imports S3_Routes
begin

text \<open>
  What the S3 service answers: a read returns the bytes of one version of the object, a write that
  is recognised and succeeded leaves no metadata from before it, and where the endpoint goes wrong.
\<close>

section \<open>Streams that were looked at\<close>

lemma reader_round_done: "rd_done rd \<Longrightarrow> reader_round e rd w = Emits None rd w"
  by (simp add: reader_round_def)

lemma reader_block_item: "reader_block e i b rd w = (r, rd', w') \<Longrightarrow> r = None \<Longrightarrow> rd_done rd'"
  by (auto simp: reader_block_def Let_def split: if_splits prod.splits option.splits)

lemma reader_failed_item: "reader_failed e i err rd w = Emits None rd' w' \<Longrightarrow> False"
  by (auto simp: reader_failed_def split: if_splits prod.splits sum.splits)

lemma reader_next_done: "reader_next e rd w = Some (None, rd', w') \<Longrightarrow> rd_done rd'"
proof (induction e rd w rule: reader_next.induct)
  case (1 e rd w)
  show ?case
  proof (cases "reader_round e rd w")
    case (Emits r rd1 w1)
    then have r: "reader_round e rd w = Emits None rd' w'" using "1.prems" by (simp add: reader_next.simps [of e rd])
    then show ?thesis
      by (auto simp: reader_round_def Let_def reader_block_item dest!: reader_failed_item
          split: if_splits prod.splits list.splits option.splits sum.splits)
  qed (use 1 in \<open>auto simp: reader_next.simps [of e rd]\<close>)
qed

lemma collect_done:
  assumes "rs_peeked st = None" and "rd_done (rs_reader st)"
  shows "collect_loop e acc st w = Some (Inr acc, w)"
  using assms by (simp add: collect_loop.simps stream_poll_def reader_next.simps reader_round_done)

lemma collect_peeked:
  "rs_peeked st = None \<Longrightarrow> collect_loop e acc (st\<lparr>rs_peeked := Some chunk\<rparr>) w = collect_loop e (acc @ chunk) st w"
  by (subst collect_loop.simps, cases st) (simp add: stream_poll_def)

text \<open>A stream that became ready still gives what it would have given.\<close>

definition collects :: "env \<Rightarrow> versions \<Rightarrow> namespaces \<Rightarrow> reader \<Rightarrow> read_stream \<Rightarrow> world \<Rightarrow> bool" where
  "collects e ver nsf rd st w \<longleftrightarrow>
     (\<exists>out w'. stream_collect e st w = Some (out, w') \<and> advances e ver nsf w w' \<and> collected ver rd out)"

lemma stream_polled_ok:
  assumes env: "env_ok e ver nsf" and w1: "node_ok e ver nsf w1" and st: "rs_peeked st = None" "rs_reader st = rd"
    and n: "reader_next e rd w = Some (r, rd1, w1)" "next_ok e ver nsf [] rd w r rd1 w1"
  shows "r = None \<Longrightarrow> collects e ver nsf rd (st\<lparr>rs_reader := rd1\<rparr>) w1"
    and "r = Some (Inr chunk) \<Longrightarrow> collects e ver nsf rd (st\<lparr>rs_reader := rd1, rs_peeked := Some chunk\<rparr>) w1"
proof -
  let ?st = "st\<lparr>rs_reader := rd1\<rparr>"
  show "collects e ver nsf rd ?st w1" if "r = None"
  proof -
    have "stream_collect e ?st w1 = Some (Inr [], w1)"
      unfolding stream_collect_def by (rule collect_done) (use st n(1) that reader_next_done in auto)
    moreover have "collected ver rd (Inr [])"
      using n(2) that by (auto simp: next_ok_def collected_def same_object_def ctx_sound_def ctx_ok_def)
    ultimately show ?thesis using advances_refl [OF w1] by (auto simp: collects_def)
  qed
  show "collects e ver nsf rd (st\<lparr>rs_reader := rd1, rs_peeked := Some chunk\<rparr>) w1" if "r = Some (Inr chunk)"
  proof -
    have c: "reader_ok e ver nsf chunk rd1 w1" "same_object rd rd1" using n(2) that by (simp_all add: next_ok_def)
    from collect_loop_ok [OF env w1 c(1), of ?st] st obtain out w2 where
      l: "collect_loop e chunk ?st w1 = Some (out, w2)" "advances e ver nsf w1 w2" "collected ver rd1 out" by auto
    have "collect_loop e [] (?st\<lparr>rs_peeked := Some chunk\<rparr>) w1 = Some (out, w2)"
      using l(1) st by (subst collect_peeked) simp_all
    then show ?thesis using l(2,3) c(2)
      by (auto simp: collects_def stream_collect_def collected_def same_object_def)
  qed
qed

lemma stream_ready_ok:
  assumes env: "env_ok e ver nsf" and w: "node_ok e ver nsf w" and rd: "reader_ok e ver nsf [] (rs_reader st) w"
    and st: "rs_peeked st = None"
  shows "\<exists>r st' w'. stream_ready e st w = Some (r, st', w') \<and> advances e ver nsf w w'
    \<and> (\<forall>m. r = Inr m \<longrightarrow> collects e ver nsf (rs_reader st) st' w')"
proof (cases "stream_meta st")
  case (Some m)
  from collect_loop_ok [OF env w rd st refl] have "collects e ver nsf (rs_reader st) st w"
    by (auto simp: collects_def stream_collect_def)
  then show ?thesis using Some advances_refl [OF w] by (simp add: stream_ready_def)
next
  case None
  obtain r rd1 w1 where n: "reader_next e (rs_reader st) w = Some (r, rd1, w1)" "next_ok e ver nsf [] (rs_reader st) w r rd1 w1"
    using reader_next_ok [OF env w rd] by blast
  have a: "advances e ver nsf w w1" using n(2) by (simp add: next_ok_def)
  note polled = stream_polled_ok [OF env advances_node_ok [OF a] st refl n]
  have p: "stream_poll e st w = Some (r, st\<lparr>rs_reader := rd1\<rparr>, w1)" using n(1) st by (simp add: stream_poll_def)
  consider "r = None" | err where "r = Some (Inl err)" | chunk where "r = Some (Inr chunk)"
    by (cases r; cases "the r") auto
  then show ?thesis
  proof cases
    case 1
    then show ?thesis using None st p a polled(1) by (simp add: stream_ready_def split: option.split)
  next
    case 2
    then show ?thesis using None st p a by (simp add: stream_ready_def)
  next
    case 3
    then show ?thesis using None st p a polled(2) by (simp add: stream_ready_def split: option.split)
  qed
qed

section \<open>Namespaces of buckets\<close>

definition bucket_namespace :: "service \<Rightarrow> string \<Rightarrow> namespace" where
  "bucket_namespace sv bk = (namespace_new bk)\<lparr>namespace_config := sv_buckets sv\<rparr>"

text \<open>There is room for another namespace, and the versions are given for it too.\<close>

definition bucket_fits :: "namespaces \<Rightarrow> service \<Rightarrow> string \<Rightarrow> world \<Rightarrow> bool" where
  "bucket_fits nsf sv bk w \<longleftrightarrow>
     length (w_states w) < 2 ^ 32
     \<and> (w_by_name w bk = None \<longrightarrow>
          nsf (of_nat (length (w_states w))) = namespace_state_new (of_nat (length (w_states w))) (bucket_namespace sv bk))"

lemma service_namespace_ok:
  assumes "node_ok e ver nsf w" and "registered nsf w" and "bucket_fits nsf sv bk w"
    and "service_namespace bk sv w = (res, sv', w')"
  shows "node_ok e ver nsf w'" and "registered nsf w'" and "res = Inr i \<Longrightarrow> sv_namespaces sv' bk = Some i"
    and "sv_origin sv' = sv_origin sv" and "w_meta w' = w_meta w" and "w_blocks w' \<noteq> w_blocks w \<Longrightarrow> sv_namespaces sv bk = None"
proof -
  have n: "namespace_name (bucket_namespace sv bk) = bk" by (simp add: bucket_namespace_def namespace_new_def)
  have reg: "node_ok e ver nsf v \<and> registered nsf v" if "node_register (bucket_namespace sv bk) w = (j, v)" for j v
    using node_register_ok [OF assms(1,2) _ _ that] assms(3) n by (simp add: bucket_fits_def)
  have meta: "w_meta v = w_meta w" if "node_register m w = (j, v)" for m j v
    using that by (auto simp: node_register_def Let_def split: option.splits)
  note defs = service_namespace_def bucket_namespace_def [symmetric]
  show "node_ok e ver nsf w'" "registered nsf w'" "w_meta w' = w_meta w"
    using assms(1,2,4) reg meta by (auto simp: defs split: option.splits sum.splits prod.splits)
  show "res = Inr i \<Longrightarrow> sv_namespaces sv' bk = Some i" "sv_origin sv' = sv_origin sv"
      "w_blocks w' \<noteq> w_blocks w \<Longrightarrow> sv_namespaces sv bk = None"
    using assms(4) by (auto simp: defs split: option.splits sum.splits prod.splits)
qed

section \<open>Reads\<close>

text \<open>A stream that is opened and made ready gives the bytes asked for.\<close>

definition ready_for :: "env \<Rightarrow> versions \<Rightarrow> namespaces \<Rightarrow> u32 \<Rightarrow> string \<Rightarrow> read_range \<Rightarrow> read_stream \<Rightarrow> world \<Rightarrow> bool" where
  "ready_for e ver nsf i key request st w \<longleftrightarrow>
     (\<exists>rd. collects e ver nsf rd st w \<and> rd_request rd = request \<and> ctx_namespace (rd_ctx rd) = nsf i \<and> ctx_name (rd_ctx rd) = key)"

lemma ready_for_collect:
  assumes "env_ok e ver nsf" and "ready_for e ver nsf i key request st w"
  shows "\<exists>out w'. stream_collect e st w = Some (out, w') \<and> node_ok e ver nsf w'
    \<and> (\<forall>bytes. out = Inr bytes \<longrightarrow>
        (\<exists>tag. (is_immutable (consistency_of (nsf i)) \<longrightarrow> tag = IMMUTABLE_TAG) \<and> bytes = answer request (ver i key tag)))"
proof -
  have "ns_id (nsf i) = i" using assms(1) by (simp add: env_ok_def)
  then show ?thesis using assms(2) advances_node_ok by (auto simp: ready_for_def collects_def collected_def)
qed

lemma opened_stream_ok:
  assumes "env_ok e ver nsf" and "versions_fit nsf ver" and "registered nsf w" and "node_ok e ver nsf w"
  shows "\<exists>res w1. get_opts e i key opts w = Some (res, w1) \<and> advances e ver nsf w w1
    \<and> (\<forall>st. res = Inr st \<longrightarrow>
        (\<exists>r st' w2. stream_ready e st w1 = Some (r, st', w2) \<and> advances e ver nsf w w2
          \<and> (\<forall>m. r = Inr m \<longrightarrow> ready_for e ver nsf i key (ro_range opts) st' w2)))"
proof -
  obtain res w1 where g: "get_opts e i key opts w = Some (res, w1)" "advances e ver nsf w w1"
      "\<And>st. res = Inr st \<Longrightarrow> rs_peeked st = None \<and> reader_ok e ver nsf [] (rs_reader st) w1
        \<and> rd_request (rs_reader st) = ro_range opts \<and> ctx_namespace (rd_ctx (rs_reader st)) = nsf i
        \<and> ctx_name (rd_ctx (rs_reader st)) = key"
    using get_opts_ok [OF assms, of i key opts] by auto
  have "\<exists>r st' w2. stream_ready e st w1 = Some (r, st', w2) \<and> advances e ver nsf w w2
      \<and> (\<forall>m. r = Inr m \<longrightarrow> ready_for e ver nsf i key (ro_range opts) st' w2)" if "res = Inr st" for st
  proof -
    note rd = g(3) [OF that]
    from rd stream_ready_ok [OF assms(1) advances_node_ok [OF g(2)], of st] obtain r st' w2 where
        "stream_ready e st w1 = Some (r, st', w2)" "advances e ver nsf w1 w2"
        "\<And>m. r = Inr m \<Longrightarrow> collects e ver nsf (rs_reader st) st' w2" by blast
    moreover from this rd have "\<And>m. r = Inr m \<Longrightarrow> ready_for e ver nsf i key (ro_range opts) st' w2"
      unfolding ready_for_def by blast
    ultimately show ?thesis using advances_trans [OF g(2)] by blast
  qed
  then show ?thesis using g by blast
qed

lemma serve_open_ok:
  assumes "env_ok e ver nsf" and "versions_fit nsf ver" and "registered nsf w" and "node_ok e ver nsf w"
  shows "\<exists>res w'. serve_open e tx meth h i key request w = (Returns res, w') \<and> advances e ver nsf w w'
    \<and> (\<forall>m st. res = Inr (m, Some st) \<longrightarrow> ready_for e ver nsf i key request st w')"
proof (cases "meth = ''HEAD''")
  case True
  obtain res w' where h: "node_head e i key w = (res, w')" by fastforce
  have "advances e ver nsf w w'" using node_head_ok [OF assms(1,3,4) h] by blast
  then show ?thesis using True h by (cases res) (auto simp: serve_open_def)
next
  case False
  show ?thesis
  proof (cases "fetch_overrides_of tx h")
    case (Inl err)
    then show ?thesis using False advances_refl [OF assms(4)] by (simp add: serve_open_def)
  next
    case (Inr ov)
    let ?o = "\<lparr>ro_range = request, ro_fetch = ov\<rparr>"
    obtain res w1 where g: "get_opts e i key ?o w = Some (res, w1)" "advances e ver nsf w w1"
        "\<And>st. res = Inr st \<Longrightarrow> \<exists>r st' w2. stream_ready e st w1 = Some (r, st', w2) \<and> advances e ver nsf w w2
          \<and> (\<forall>m. r = Inr m \<longrightarrow> ready_for e ver nsf i key request st' w2)"
      using opened_stream_ok [OF assms, of i key ?o] by auto
    show ?thesis
    proof (cases res)
      case err: (Inl err)
      then show ?thesis using False Inr g by (simp add: serve_open_def)
    next
      case st: (Inr st)
      from g(3) [OF st] obtain r st' w2 where
        "stream_ready e st w1 = Some (r, st', w2)" "advances e ver nsf w w2"
        "\<And>m. r = Inr m \<Longrightarrow> ready_for e ver nsf i key request st' w2" by blast
      then show ?thesis using False Inr g st by (cases r) (auto simp: serve_open_def)
    qed
  qed
qed

text \<open>
  C1: a read through the endpoint always gets an answer. A body it carries is that of status 200, or
  206 when the request has a range, and read to its end it is an error or exactly the bytes the
  request asks for of one version of the object in the bucket's namespace; the node stays sound.
\<close>

theorem served_read_correct:
  assumes "env_ok e ver nsf" and "versions_fit nsf ver" and "registered nsf w" and "node_ok e ver nsf w"
    and "tgt_bucket t = Some bk" and "tgt_key t = Some key" and "bucket_fits nsf sv bk w"
  shows "\<exists>res sv' w'. serve e tx meth h t sv w = (Returns res, sv', w') \<and> node_ok e ver nsf w' \<and> registered nsf w'
    \<and> (\<forall>r st. res = Inr r \<and> rs_body r = Stream st \<longrightarrow>
        rs_status r = (if parse_range h = None then 200 else 206)
        \<and> (\<exists>i out w2. sv_namespaces sv' bk = Some i \<and> stream_collect e st w' = Some (out, w2)
          \<and> node_ok e ver nsf w2
          \<and> (\<forall>bytes. out = Inr bytes \<longrightarrow>
              (\<exists>tag. (is_immutable (consistency_of (nsf i)) \<longrightarrow> tag = IMMUTABLE_TAG)
                \<and> bytes = answer (unwrap_or (parse_range h) Full) (ver i key tag)))))"
proof -
  obtain res1 sv1 w1 where n: "service_namespace bk sv w = (res1, sv1, w1)" by (metis prod_cases3)
  note ns = service_namespace_ok [OF assms(4,3,7) n]
  show ?thesis
  proof (cases res1)
    case (Inl err)
    then show ?thesis using assms(5,6) n ns by (simp add: serve_def)
  next
    case (Inr i)
    let ?req = "unwrap_or (parse_range h) Full"
    obtain res2 w2 where o: "serve_open e tx meth h i key ?req w1 = (Returns res2, w2)" "advances e ver nsf w1 w2"
        "\<And>m st. res2 = Inr (m, Some st) \<Longrightarrow> ready_for e ver nsf i key ?req st w2"
      using serve_open_ok [OF assms(1,2) ns(2,1), of tx meth h i key ?req] by blast
    define res where "res = (case res2 of Inl a \<Rightarrow> a | Inr (m, stream) \<Rightarrow> serve_object tx h key (parse_range h) m stream)"
    have s: "serve e tx meth h t sv w = (Returns res, sv1, w2)"
      using assms(5,6) n Inr o(1) by (cases res2) (auto simp: serve_def res_def split: prod.splits)
    have "rs_status r = (if parse_range h = None then 200 else 206)
        \<and> (\<exists>out w3. stream_collect e st w2 = Some (out, w3) \<and> node_ok e ver nsf w3
          \<and> (\<forall>bytes. out = Inr bytes \<longrightarrow>
              (\<exists>tag. (is_immutable (consistency_of (nsf i)) \<longrightarrow> tag = IMMUTABLE_TAG) \<and> bytes = answer ?req (ver i key tag))))"
      if r: "res = Inr r" "rs_body r = Stream st" for r st
    proof -
      have "res2 \<noteq> Inl a" for a
        using r o(1) by (auto simp: res_def serve_open_def read_failure_def unsatisfiable_def error_response_def Let_def
            split: if_splits prod.splits sum.splits option.splits nestor_error.splits)
      then obtain m stream where "res2 = Inr (m, stream)" by (cases res2) auto
      then have m: "res2 = Inr (m, Some st)" and status: "rs_status r = (if parse_range h = None then 200 else 206)"
        using r by (auto simp: res_def serve_object_def Let_def unsatisfiable_def error_response_def
            split: precondition.splits sum.splits option.splits)
      show ?thesis using status ready_for_collect [OF assms(1) o(3) [OF m]] by blast
    qed
    then show ?thesis using s o(2) ns(3) [OF Inr] advances_node_ok registered_advances [OF o(2) ns(2)] by blast
  qed
qed

definition demo_texts :: texts where
  "demo_texts =
     \<lparr>tx_error = (\<lambda>_. []), tx_origin = (\<lambda>_. []), tx_overrides = (\<lambda>_. []), tx_duration = (\<lambda>_. None),
      tx_http_date = (\<lambda>_. []), tx_parse_date = (\<lambda>_. None)\<rparr>"

definition demo_service :: service where
  "demo_service = service_new Anonymous PathStyle namespace_config_default (Some 1048576) demo_origin_config (\<lambda>_. Inr ())"

lemma demo_node_namespaces: "w_by_name demo_node = [''docs'' \<mapsto> 0]" "length (w_states demo_node) = 1" "\<not> w_closed demo_node"
  by (simp_all add: demo_node_def builder_build_def builder_namespace_def builder_new_def node_register_def world_new_def
      namespace_new_def Let_def)

lemma demo_bucket_fits: "bucket_fits demo_namespace demo_service ''docs'' demo_node"
  by (simp add: bucket_fits_def demo_node_namespaces)

theorem served_read_correct_witness:
  "\<exists>res sv' w'. serve demo_env demo_texts ''GET'' [] \<lparr>tgt_bucket = Some ''docs'', tgt_key = Some ''a''\<rparr> demo_service demo_node
      = (Returns res, sv', w') \<and> node_ok demo_env demo_versions demo_namespace w'
    \<and> (case res of
         Inl _ \<Rightarrow> True
       | Inr r \<Rightarrow>
           (case rs_body r of
              Stream st \<Rightarrow> rs_status r = 200
                \<and> (\<exists>out w2. stream_collect demo_env st w' = Some (out, w2) \<and> (case out of Inl _ \<Rightarrow> True | Inr bytes \<Rightarrow> bytes = [1, 2, 3, 4]))
            | _ \<Rightarrow> True))"
proof -
  let ?t = "\<lparr>tgt_bucket = Some ''docs'', tgt_key = Some ''a''\<rparr>"
  have rng: "parse_range [] = None" by (simp add: parse_range_def hm_text_def)
  have ans: "answer Full (demo_versions i ''a'' tag) = [1, 2, 3, 4]" for i tag
    by (simp add: answer_def demo_versions_def bslice_def)
  obtain res sv' w' where s: "serve demo_env demo_texts ''GET'' [] ?t demo_service demo_node = (Returns res, sv', w')"
      "node_ok demo_env demo_versions demo_namespace w'"
      "\<And>r st. res = Inr r \<Longrightarrow> rs_body r = Stream st \<Longrightarrow> rs_status r = 200
        \<and> (\<exists>out w2. stream_collect demo_env st w' = Some (out, w2) \<and> (\<forall>bytes. out = Inr bytes \<longrightarrow> bytes = [1, 2, 3, 4]))"
    using served_read_correct [OF demo_sound(1,2,4,3), of ?t "''docs''" "''a''" demo_service demo_texts "''GET''" "[]"]
      demo_bucket_fits by (simp add: rng ans unwrap_or_def) blast
  show ?thesis
  proof (cases res)
    case (Inr r)
    show ?thesis
    proof (cases "rs_body r")
      case (Stream st)
      from s(3) [OF Inr Stream] obtain out w2 where "rs_status r = 200" "stream_collect demo_env st w' = Some (out, w2)"
          "\<And>bytes. out = Inr bytes \<Longrightarrow> bytes = [1, 2, 3, 4]" by blast
      then show ?thesis using s(1,2) Inr Stream by (cases out) auto
    qed (use s(1,2) Inr in auto)
  qed (use s(1,2) in auto)
qed

section \<open>Writes\<close>

lemma invalidate_key_meta:
  assumes "engine_state w i = Inr ns"
  shows "latest (w_meta (invalidate_key e i key w)) = (latest (w_meta w))(object_key_new i key := None)"
    and "engine_state (invalidate_key e i key w) j = engine_state w j" and "now (invalidate_key e i key w) = now w"
proof -
  have fold: "w_meta (fold (remove_block e k) js v) = w_meta v \<and> w_closed (fold (remove_block e k) js v) = w_closed v
      \<and> w_states (fold (remove_block e k) js v) = w_states v \<and> now (fold (remove_block e k) js v) = now v" for k js v
    by (induction js arbitrary: v) (simp_all add: remove_block_def)
  have get: "\<exists>c. get_meta e k ttl v = (x, v\<lparr>w_meta := c\<rparr>) \<and> latest c = latest (w_meta v)" if "fst (get_meta e k ttl v) = x" for k ttl v x
    using that meta_lookup_latest(2) [of "e_meta e" "now v" "w_meta v" k ttl]
    by (cases "meta_get (e_meta e) (now v) (w_meta v) k ttl") (auto simp: get_meta_def)
  let ?w = "w\<lparr>w_readahead := readahead_forget (w_readahead w) (object_key_new i key)\<rparr>"
  from get [OF refl, of "object_key_new i key" None ?w] obtain c where
    c: "get_meta e (object_key_new i key) None ?w = (fst (get_meta e (object_key_new i key) None ?w), ?w\<lparr>w_meta := c\<rparr>)"
      "latest c = latest (w_meta w)" by auto
  obtain x where x: "get_meta e (object_key_new i key) None ?w = (x, ?w\<lparr>w_meta := c\<rparr>)" using c(1) by metis
  have *: "latest (w_meta (invalidate_key e i key w)) = (latest (w_meta w))(object_key_new i key := None)
      \<and> w_closed (invalidate_key e i key w) = w_closed w \<and> w_states (invalidate_key e i key w) = w_states w
      \<and> now (invalidate_key e i key w) = now w"
    using assms c(2) fold by (auto simp: invalidate_key_def node_invalidate_def remove_meta_def Let_def x split: option.splits)
  then show "latest (w_meta (invalidate_key e i key w)) = (latest (w_meta w))(object_key_new i key := None)"
      "now (invalidate_key e i key w) = now w" by simp_all
  show "engine_state (invalidate_key e i key w) j = engine_state w j" using * by (simp add: engine_state_def engine_namespace_def)
qed

text \<open>
  What a writer relies on: an invalidation forgets the object and brings nothing back. So does any
  sequence of them, for each of its objects.
\<close>

locale write_through =
  fixes live :: "'w \<Rightarrow> bool"
    and invalidate :: "string \<Rightarrow> 'w \<Rightarrow> 'w"
    and known :: "'w \<Rightarrow> string \<Rightarrow> 'm option"
  assumes invalidate_live: "live w \<Longrightarrow> live (invalidate k w)"
    and invalidate_forgets_key: "live w \<Longrightarrow> known (invalidate k w) k = None"
    and invalidate_keeps_forgotten: "live w \<Longrightarrow> known w j = None \<Longrightarrow> known (invalidate k w) j = None"
begin

lemma all_live: "live w \<Longrightarrow> live (fold invalidate ks w)"
  by (induction ks arbitrary: w) (simp_all add: invalidate_live)

lemma all_keep_forgotten: "live w \<Longrightarrow> known w j = None \<Longrightarrow> known (fold invalidate ks w) j = None"
  by (induction ks arbitrary: w) (simp_all add: invalidate_live invalidate_keeps_forgotten)

lemma all_forget: "live w \<Longrightarrow> k \<in> set ks \<Longrightarrow> known (fold invalidate ks w) k = None"
proof (induction ks arbitrary: w)
  case (Cons j ks)
  then show ?case
    by (cases "k \<in> set ks") (auto simp: invalidate_live invalidate_forgets_key intro: all_keep_forgotten)
qed simp

end

interpretation engine_writes: write_through
  "\<lambda>w. \<exists>ns. engine_state w i = Inr ns" "invalidate_key e i" "\<lambda>w key. latest (w_meta w) (object_key_new i key)" for e i
  by unfold_locales (auto simp: invalidate_key_meta)

lemma node_insert_meta:
  assumes "engine_state w i = Inr ns"
  shows "latest (w_meta (snd (node_insert e i key etag data w))) =
    (latest (w_meta w))(object_key_new i key \<mapsto> \<lparr>entry_meta = object_meta_new (of_nat (length data)) etag, entry_at = now w\<rparr>)"
proof -
  have "w_meta (fold (insert_block k tag bs m d) js v) = w_meta v \<and> now (fold (insert_block k tag bs m d) js v) = now v"
    for k tag bs m d js v
    by (induction js arbitrary: v) (simp_all add: insert_block_def cache_insert_def Let_def)
  then show ?thesis using assms by (simp add: node_insert_def put_meta_def Let_def)
qed

lemma populate_meta:
  assumes "engine_state w i = Inr ns"
  shows "latest (w_meta (populate e i key h data w)) =
    (latest (w_meta w))(object_key_new i key \<mapsto>
      \<lparr>entry_meta = object_meta_new (of_nat (length data)) (hm_get ''etag'' h), entry_at = now w\<rparr>)"
  using node_insert_meta [OF assms] by (simp add: populate_def)

text \<open>The keys the cache is told of after a write.\<close>

definition written_keys :: "(bytes \<Rightarrow> xml_event list) \<Rightarrow> mutation \<Rightarrow> target \<Rightarrow> captured option \<Rightarrow> string list" where
  "written_keys xml mu t cap =
     (case mu of
        NoMutation \<Rightarrow> []
      | DeleteObjects \<Rightarrow> (case Option.bind cap capture_take of Some body \<Rightarrow> delete_keys xml body | None \<Rightarrow> [])
      | _ \<Rightarrow> (case tgt_key t of Some key \<Rightarrow> [key] | None \<Rightarrow> []))"

lemma after_write_meta:
  assumes "after_write e xml mu bk t i h cap sz sv w = Returns (sv', w')" and "engine_state w i = Inr ns"
    and "key \<in> set (written_keys xml mu t cap)" and "latest (w_meta w') (object_key_new i key) = Some en"
  shows "\<exists>data. mu = PutObject \<and> Option.bind cap capture_take = Some data
    \<and> entry_meta en = object_meta_new (of_nat (length data)) (hm_get ''etag'' h)"
proof (cases mu)
  case PutObject
  have k: "tgt_key t = Some key" using assms(3) PutObject by (auto simp: written_keys_def split: option.splits)
  show ?thesis
  proof (cases "Option.bind cap capture_take")
    case None
    then have "w' = invalidate_key e i key w" using assms(1) PutObject k by (auto simp: after_write_def Let_def)
    then show ?thesis using assms(4) invalidate_key_meta(1) [OF assms(2)] by simp
  next
    case (Some data)
    then have "w' = populate e i key h data (invalidate_key e i key w)"
      using assms(1) PutObject k by (auto simp: after_write_def Let_def)
    moreover have "engine_state (invalidate_key e i key w) i = Inr ns" using invalidate_key_meta(2) [OF assms(2)] assms(2) by simp
    ultimately show ?thesis using assms(4) populate_meta PutObject Some by auto
  qed
next
  case DeleteObjects
  then obtain body where "Option.bind cap capture_take = Some body" "key \<in> set (delete_keys xml body)"
    using assms(3) by (cases "Option.bind cap capture_take") (auto simp: written_keys_def)
  then show ?thesis using assms(1,4) DeleteObjects engine_writes.all_forget [of w i, OF exI, OF assms(2)] by (auto simp: after_write_def)
qed (use assms invalidate_key_meta(1) [OF assms(2)] in
      \<open>auto simp: written_keys_def after_write_def split: option.splits\<close>)

text \<open>What a forwarded request does when it succeeds.\<close>

definition captured_body :: "incoming_request \<Rightarrow> mutation \<Rightarrow> service \<Rightarrow> captured option" where
  "captured_body req mu sv =
     snd (request_body (rq_body req) (is_streaming (rq_headers req)) (capture_limit mu (is_copy req) sv))"

lemma forward_request_captured:
  assumes "forward_request cr us oc req t cap keys = (Returns (Inr (r, c)), keys')"
  shows "c = snd (request_body (rq_body req) (is_streaming (rq_headers req)) cap)"
  using assms
  by (auto simp: forward_request_def upstream_request_def Let_def split: prod.splits sum.splits run.splits)

lemma forward_route_success:
  assumes "forward_route e cr us xml req t q sv w = (Returns (Inr r), sv', w')"
    and "200 \<le> rs_status r" and "rs_status r < 300" and "tgt_bucket t = Some bk"
  obtains rp keys i sv1 w1 where "r = upstream_response rp"
    and "service_namespace bk (sv\<lparr>sv_forward_keys := keys\<rparr>) w = (Inr i, sv1, w1)"
    and "after_write e xml (classify (rq_method req) t q (is_copy req)) bk t i (rp_headers rp)
        (captured_body req (classify (rq_method req) t q (is_copy req)) sv) (payload_size (rq_headers req)) sv1 w1 = Returns (sv', w')"
proof -
  let ?mu = "classify (rq_method req) t q (is_copy req)"
  obtain res keys where f: "forward_request cr us (sv_origin sv) req t (capture_limit ?mu (is_copy req) sv) (sv_forward_keys sv) = (res, keys)"
    by fastforce
  obtain rp c where res: "res = Returns (Inr (rp, c))"
    using assms(1) f by (auto simp: forward_route_def Let_def split: run.splits sum.splits prod.splits)
  have c: "c = captured_body req ?mu sv" using forward_request_captured [OF f [unfolded res]] by (simp add: captured_body_def)
  obtain res1 sv1 w1 where n: "service_namespace bk (sv\<lparr>sv_forward_keys := keys\<rparr>) w = (res1, sv1, w1)" by (metis prod_cases3)
  note a = assms(1) [unfolded forward_route_def Let_def f res]
  have "200 \<le> rp_status rp \<and> rp_status rp < 300"
    using a assms(2,3) by (auto simp: upstream_response_def split: if_splits)
  then obtain i where i: "res1 = Inr i" using a n assms(4) by (cases res1) auto
  show ?thesis
  proof (rule that [of rp keys i sv1 w1])
    show "service_namespace bk (sv\<lparr>sv_forward_keys := keys\<rparr>) w = (Inr i, sv1, w1)" using n i by simp
    show "r = upstream_response rp" "after_write e xml ?mu bk t i (rp_headers rp) (captured_body req ?mu sv)
        (payload_size (rq_headers req)) sv1 w1 = Returns (sv', w')"
      using a n i assms(4) \<open>200 \<le> rp_status rp \<and> rp_status rp < 300\<close> c by (auto split: run.splits)
  qed
qed

text \<open>The namespaces the service and the node know are there.\<close>

definition service_ok :: "service \<Rightarrow> world \<Rightarrow> bool" where
  "service_ok sv w \<longleftrightarrow> length (w_states w) < 2 ^ 32
     \<and> (\<forall>bk i. sv_namespaces sv bk = Some i \<or> w_by_name w bk = Some i \<longrightarrow> unat i < length (w_states w))"

lemma service_namespace_state:
  assumes "service_ok sv w" and "\<not> w_closed w" and "service_namespace bk sv w = (Inr i, sv', w')"
  shows "\<exists>ns. engine_state w' i = Inr ns" and "sv_namespaces sv' bk = Some i"
proof -
  have len: "unat (of_nat (length (w_states w)) :: u32) = length (w_states w)"
    using assms(1) by (simp add: service_ok_def unat_of_nat)
  have "unat i < length (w_states w') \<and> \<not> w_closed w' \<and> sv_namespaces sv' bk = Some i"
    using assms len
    by (auto simp: service_namespace_def service_ok_def node_register_def Let_def namespace_new_def
        split: option.splits sum.splits prod.splits if_splits)
  then show "\<exists>ns. engine_state w' i = Inr ns" and "sv_namespaces sv' bk = Some i"
    by (auto simp: engine_state_def engine_namespace_def)
qed

lemma after_write_service: "after_write e xml mu bk t i h cap sz sv w = Returns (sv', w') \<Longrightarrow> sv_namespaces sv' = sv_namespaces sv"
  by (auto simp: after_write_def Let_def split: mutation.splits option.splits)

text \<open>
  What a request writes, said without the routes: the names of the parameters of a query, the plain
  bytes a request carries, and the keys a multi-delete document names. A key is what stands between
  a \<^verbatim>\<open>Key\<close> tag and the next end of one: its texts and its references.
\<close>

definition param_names :: "string \<Rightarrow> string list" where
  "param_names q = map (percent_decode \<circ> takeWhile (\<lambda>c. c \<noteq> CHR ''='')) (split_on CHR ''&'' q)"

definition carries_body :: "incoming_request \<Rightarrow> bytes \<Rightarrow> bool" where
  "carries_body req body \<longleftrightarrow>
     (\<exists>parts. rq_body req = map Inr parts
        \<and> (if \<exists>s. hm_text ''x-amz-content-sha256'' (rq_headers req) = Some (''STREAMING-'' @ s)
           then framed MAX_HEADER_LINE (concat parts) body else body = concat parts))"

fun event_text :: "xml_event \<Rightarrow> string" where
  "event_text (XText s) = s"
| "event_text (XRef (Some c) _) = c"
| "event_text (XRef None (Some s)) = s"
| "event_text _ = []"

definition names_key :: "xml_event list \<Rightarrow> string \<Rightarrow> bool" where
  "names_key evs key \<longleftrightarrow>
     (\<exists>pre mid post. evs = pre @ XStart ''Key'' # mid @ XEnd ''Key'' # post
        \<and> XStart ''Key'' \<notin> set mid \<and> XEnd ''Key'' \<notin> set mid \<and> key = concat (map event_text mid))"

text \<open>
  The writes: an upload and a deletion, each without a query, a copy that is not of a part, the end
  of a multipart upload, and a deletion of many objects by a document of at most 4 MiB.
\<close>

inductive wrote :: "(bytes \<Rightarrow> xml_event list) \<Rightarrow> incoming_request \<Rightarrow> target \<Rightarrow> string \<Rightarrow> string \<Rightarrow> bool"
  for xml req t q key where
  upload: "wrote xml req t q key" if "rq_method req = ''PUT''" and "tgt_key t = Some key" and "q = []"
| copy: "wrote xml req t q key"
    if "rq_method req = ''PUT''" and "tgt_key t = Some key" and "hm_get ''x-amz-copy-source'' (rq_headers req) \<noteq> None"
      and "''partNumber'' \<notin> set (param_names q)"
| delete: "wrote xml req t q key" if "rq_method req = ''DELETE''" and "tgt_key t = Some key" and "q = []"
| complete: "wrote xml req t q key"
    if "rq_method req = ''POST''" and "tgt_key t = Some key" and "''uploadId'' \<in> set (param_names q)"
| delete_many: "wrote xml req t q key"
    if "rq_method req = ''POST''" and "tgt_key t = None" and "''delete'' \<in> set (param_names q)"
      and "carries_body req body" and "length body \<le> 4 * 1024 * 1024" and "names_key (xml body) key"

lemma query_param_names: "query_param q n \<noteq> None \<longleftrightarrow> n \<in> set (param_names q)"
proof -
  have "fst (unwrap_or (split_once CHR ''='' p) (p, [])) = takeWhile (\<lambda>c. c \<noteq> CHR ''='') p" for p
    by (induction p) (auto simp: unwrap_or_def split: option.splits)
  then have "param_names q = map (percent_decode \<circ> fst) (map (\<lambda>p. unwrap_or (split_once CHR ''='' p) (p, [])) (split_on CHR ''&'' q))"
    by (simp add: param_names_def)
  then show ?thesis by (auto simp: query_param_def find_None_iff case_prod_beta)
qed

lemma param_names_Nil: "param_names [] = [[]]"
  by (simp add: param_names_def percent_decode_def as_bytes_def of_bytes_def utf8_lossy.simps)

lemma delete_keys_loop_grows: "set keys \<subseteq> set (delete_keys_loop evs cur keys)"
  by (induction evs arbitrary: cur keys) (fastforce split: xml_event.splits option.splits)+

lemma delete_keys_loop_append:
  "\<exists>cur' keys'. delete_keys_loop (pre @ evs) cur keys = delete_keys_loop evs cur' keys'"
  by (induction pre arbitrary: cur keys) (auto split: xml_event.splits option.splits)

lemma delete_keys_loop_text:
  "XStart ''Key'' \<notin> set mid \<Longrightarrow> XEnd ''Key'' \<notin> set mid
    \<Longrightarrow> delete_keys_loop (mid @ evs) (Some key) keys = delete_keys_loop evs (Some (key @ concat (map event_text mid))) keys"
proof (induction mid arbitrary: key)
  case (Cons ev mid)
  then show ?case by (cases ev rule: event_text.cases) auto
qed simp

lemma names_key_deleted:
  assumes "names_key (xml body) key"
  shows "key \<in> set (delete_keys xml body)"
proof -
  from assms obtain pre mid post where e: "xml body = pre @ XStart ''Key'' # mid @ XEnd ''Key'' # post"
    and m: "XStart ''Key'' \<notin> set mid" "XEnd ''Key'' \<notin> set mid" and k: "key = concat (map event_text mid)"
    by (auto simp: names_key_def)
  obtain cur keys where "delete_keys xml body = delete_keys_loop (XStart ''Key'' # mid @ XEnd ''Key'' # post) cur keys"
    using delete_keys_loop_append by (metis delete_keys_def e)
  then have "delete_keys xml body = delete_keys_loop post None (keys @ [key])"
    using delete_keys_loop_text [OF m] k by simp
  then show ?thesis using delete_keys_loop_grows [of "keys @ [key]" post None] by auto
qed

lemma joined_plain: "joined (plain_items (map Inr parts)) = Inr (concat parts)"
  by (induction parts) simp_all

lemma streaming_prefix: "is_streaming h \<longleftrightarrow> (\<exists>s. hm_text ''x-amz-content-sha256'' h = Some (''STREAMING-'' @ s))"
proof -
  have "strip_prefix p v \<noteq> None \<longleftrightarrow> (\<exists>s. v = p @ s)" for p v :: string
    unfolding strip_prefix_def by (metis append_eq_conv_conj append_take_drop_id option.distinct(1))
  then show ?thesis by (auto simp: is_streaming_def split: option.splits)
qed

lemma carries_body_captured:
  assumes "carries_body req body" and "capture_limit mu (is_copy req) sv = Some limit"
  shows "Option.bind (captured_body req mu sv) capture_take = (if length body \<le> limit then Some body else None)"
proof -
  from assms(1) obtain parts where p: "rq_body req = map Inr parts"
    "if is_streaming (rq_headers req) then framed MAX_HEADER_LINE (concat parts) body else body = concat parts"
    using streaming_prefix by (auto simp: carries_body_def)
  let ?items = "if is_streaming (rq_headers req) then decode_items (decoder_new (map Inr parts)) else plain_items (map Inr parts)"
  have "joined ?items = Inr body"
  proof (cases "is_streaming (rq_headers req)")
    case True
    then have "decode_all [] (decoder_new (map Inr parts)) = Inr ([] @ body)"
      using p(2) by (intro decode_all_framed [of MAX_HEADER_LINE]) (simp_all add: framed_new)
    then show ?thesis using True by (cases "joined ?items") (simp_all add: decode_all_items)
  qed (use p(2) in \<open>simp add: joined_plain\<close>)
  from capture_items_take [OF this, of capture_new limit] show ?thesis
    using assms(2) p(1) by (simp add: captured_body_def request_body_def Let_def capture_new_def)
qed

lemma wrote_key:
  assumes "wrote xml req t q key"
  shows "key \<in> set (written_keys xml (classify (rq_method req) t q (is_copy req)) t
    (captured_body req (classify (rq_method req) t q (is_copy req)) sv))"
  using assms
proof cases
  case (delete_many body)
  have c: "classify (rq_method req) t q (is_copy req) = DeleteObjects"
    using delete_many query_param_names by (auto simp: classify_def Let_def)
  have "Option.bind (captured_body req DeleteObjects sv) capture_take = Some body"
    using carries_body_captured [OF delete_many(4), of DeleteObjects sv DELETE_OBJECTS_MAX_BODY] delete_many(5)
    by (simp add: capture_limit_def DELETE_OBJECTS_MAX_BODY_def)
  then show ?thesis using names_key_deleted [of xml body, OF delete_many(6)] c by (simp add: written_keys_def)
qed (use query_param_names [of q "''partNumber''"] query_param_names [of q "''uploadId''"] in
      \<open>auto simp: classify_def is_copy_def Let_def written_keys_def param_names_Nil\<close>)

lemma classify_put: "classify meth t q copy = PutObject \<Longrightarrow> meth = ''PUT''"
  by (auto simp: classify_def Let_def split: if_splits)


text \<open>A deletion of an object of the demo node.\<close>

definition demo_delete :: incoming_request where
  "demo_delete = demo_request\<lparr>rq_uri := demo_uri\<lparr>uri_path := ''/docs/a''\<rparr>\<rparr>"

definition demo_docs :: target where
  "demo_docs = \<lparr>tgt_bucket = Some ''docs'', tgt_key = Some ''a''\<rparr>"

lemma demo_delete_class: "classify (rq_method demo_delete) demo_docs [] (is_copy demo_delete) = DeleteObject"
  by (simp add: classify_def demo_delete_def demo_request_def demo_docs_def)

lemma demo_service_ok: "service_ok demo_service demo_node"
  by (simp add: service_ok_def demo_node_namespaces demo_service_def service_new_def)

lemma demo_forward_request:
  assumes "rq_headers req = rq_headers demo_request" and "rq_body req = []" and "tgt_bucket t = Some bk"
  shows "forward_request demo_crypto demo_upstream demo_origin_config req t None [] =
    (Returns (Inr (\<lparr>rp_status = 204, rp_headers = [], rp_body = []\<rparr>, None)), [])"
proof -
  have "header_value (as_bytes ''minio'') = Some (as_bytes ''minio'')"
    by (rule header_value_printable) (simp add: printable_def visible_def)
  then have "\<exists>out. upstream_request demo_crypto demo_upstream demo_origin_config req t None [] = (Returns (Inr (out, None)), [])"
    using assms
    by (simp add: upstream_request_def upstream_uri_def demo_upstream_def demo_origin_config_def origin_anonymous_def
        demo_request_def bucket_host_def and_then_def upstream_headers_def upstream_entry_def Let_def
        dropped_def is_hop_by_hop_def hm_append_def is_streaming_def hm_text_def hm_get_def hm_get_all_def header_u64_def
        hm_insert_def hm_remove_def request_body_def signed_headers_def strip_prefix_def)
  then show ?thesis
    by (auto simp: forward_request_def demo_upstream_def upstream_answer_def is_hop_by_hop_def hm_keys_def hm_remove_def)
qed

lemma demo_forward_route:
  assumes "rq_headers req = rq_headers demo_request" and "rq_body req = []"
    and "capture_limit (classify (rq_method req) demo_docs q (is_copy req)) (is_copy req) demo_service = None"
  shows "\<exists>sv' w'. forward_route demo_env demo_crypto demo_upstream (\<lambda>_. []) req demo_docs q demo_service demo_node =
    (Returns (Inr \<lparr>rs_status = 204, rs_headers = [], rs_body = Upstream []\<rparr>), sv', w')"
proof -
  have b: "tgt_bucket demo_docs = Some ''docs''" and k: "tgt_key demo_docs = Some ''a''" by (simp_all add: demo_docs_def)
  moreover have "sv_origin demo_service = demo_origin_config" "sv_forward_keys demo_service = []"
      "sv_namespaces demo_service ''docs'' = None" "sv_origins demo_service ''docs'' = Inr ()"
    by (simp_all add: demo_service_def service_new_def)
  ultimately show ?thesis using demo_forward_request [OF assms(1,2) b] assms(3)
    by (simp add: forward_route_def service_namespace_def after_write_def upstream_response_def Let_def
        split: prod.split mutation.split)
qed


section \<open>Where the endpoint goes wrong\<close>

text \<open>
  C35: an upload or a deletion whose request has a query string, such as the \<^verbatim>\<open>x-id\<close> some clients add or
  the parameters of a presigned URL, is forwarded but not recognised as a write: the cache keeps the
  metadata of the object as it was.
\<close>

theorem query_write_keeps_cache:
  assumes "forward_route e cr us xml req t q sv w = (Returns (Inr r), sv', w')"
    and "rq_method req = ''PUT'' \<or> rq_method req = ''DELETE''" and "q \<noteq> []" and "\<not> is_copy req"
  shows "w_meta w' = w_meta w"
proof -
  have mu: "classify (rq_method req) t q (is_copy req) = NoMutation" using assms(2-4) by (auto simp: classify_def Let_def)
  have "w_meta v' = w_meta v" if "service_namespace bk s v = (x, s', v')" for bk s v x s' v'
    using that by (auto simp: service_namespace_def node_register_def Let_def split: option.splits sum.splits prod.splits)
  then show ?thesis using assms(1)
    by (auto simp: forward_route_def mu Let_def after_write_def
        split: prod.splits run.splits sum.splits option.splits if_splits)
qed

definition demo_delete_id :: incoming_request where
  "demo_delete_id = demo_request\<lparr>rq_uri := demo_uri\<lparr>uri_path := ''/docs/a'', uri_query := Some ''x-id=DeleteObject''\<rparr>\<rparr>"

theorem query_write_keeps_cache_witness:
  "\<exists>r sv' w'. forward_route demo_env demo_crypto demo_upstream (\<lambda>_. []) demo_delete_id demo_docs ''x-id=DeleteObject''
      demo_service (put_meta (object_key_new 0 ''a'') demo_meta demo_node) = (Returns (Inr r), sv', w')
    \<and> rs_status r = 204 \<and> w_meta w' = w_meta (put_meta (object_key_new 0 ''a'') demo_meta demo_node)"
proof -
  let ?w = "put_meta (object_key_new 0 ''a'') demo_meta demo_node"
  have "\<exists>sv' w'. forward_route demo_env demo_crypto demo_upstream (\<lambda>_. []) demo_delete_id demo_docs ''x-id=DeleteObject''
      demo_service ?w = (Returns (Inr \<lparr>rs_status = 204, rs_headers = [], rs_body = Upstream []\<rparr>), sv', w')"
  proof -
    have m: "classify (rq_method demo_delete_id) demo_docs ''x-id=DeleteObject'' (is_copy demo_delete_id) = NoMutation"
      by (simp add: classify_def demo_delete_id_def demo_request_def)
    have b: "tgt_bucket demo_docs = Some ''docs''" by (simp add: demo_docs_def)
    moreover have "sv_origin demo_service = demo_origin_config" "sv_forward_keys demo_service = []"
        "sv_namespaces demo_service ''docs'' = None" "sv_origins demo_service ''docs'' = Inr ()"
      by (simp_all add: demo_service_def service_new_def)
    ultimately show ?thesis using demo_forward_request [of demo_delete_id, OF _ _ b] m
      by (simp add: forward_route_def service_namespace_def after_write_def upstream_response_def Let_def capture_limit_def
          demo_delete_id_def demo_request_def split: prod.split)
  qed
  then obtain sv' w' where f: "forward_route demo_env demo_crypto demo_upstream (\<lambda>_. []) demo_delete_id demo_docs
      ''x-id=DeleteObject'' demo_service ?w = (Returns (Inr \<lparr>rs_status = 204, rs_headers = [], rs_body = Upstream []\<rparr>), sv', w')" by blast
  have "\<not> is_copy demo_delete_id" by (simp add: is_copy_def demo_delete_id_def demo_request_def hm_get_def hm_get_all_def)
  from query_write_keeps_cache [OF f _ _ this] have "w_meta w' = w_meta ?w"
    by (simp add: demo_delete_id_def demo_request_def)
  then show ?thesis using f by auto
qed

text \<open>
  C29: a read of the last bytes of an object that is known to be empty is answered as a partial
  response, whose header claims the bytes from 0 to 18446744073709551615 of an object of size 0: the
  suffix resolves to the empty range and the end of that is reduced below zero.
\<close>

theorem empty_object_served_partial:
  assumes "meth = ''GET'' \<or> meth = ''HEAD''" and "tgt_bucket t = Some bk" and "tgt_key t = Some key"
    and "service_namespace bk sv w = (Inr i, sv1, w1)" and "engine_state w1 i = Inr ns" and "ns_id ns = i"
    and "lookup_meta e (object_key_new i key) (ns_meta_ttl ns) w1 = (Fresh m, w2)" and "meta_size m = 0"
    and "hm_get ''range'' h = Some (as_bytes (''bytes=-'' @ show_u64 l))" and "l \<noteq> 0"
    and "evaluate (preconditions_of tx h) m = Satisfied" and "hm_get ''x-nestor-fetch'' h = None"
  shows "\<exists>r w'. serve e tx meth h t sv w = (Returns (Inr r), sv1, w') \<and> rs_status r = 206
    \<and> hm_get ''content-range'' (rs_headers r) = Some (as_bytes ''bytes 0-18446744073709551615/0'')"
proof -
  have rng: "parse_range h = Some (Suffix l)" using range_header_roundtrip [of "Suffix l"] assms(9) by simp
  have "get_meta e (object_key_new i key) (ns_meta_ttl ns) w1 = (Some m, w2)"
    using assms(7) by (auto simp: lookup_meta_def get_meta_def meta_get_def split: prod.splits)
  moreover have "resolve (Suffix l) 0 = Inr (Range 0 0)" using empty_object_content_range [OF assms(10)] by blast
  ultimately have "\<exists>stream w'. serve_open e tx meth h i key (Suffix l) w1 = (Returns (Inr (m, stream)), w')"
    using assms(1,5-8,12)
    by (auto simp: serve_open_def node_head_def fetch_overrides_of_def get_opts_def resolve_ctx_def ctx_size_def
        read_ctx_new_def stream_ready_def stream_meta_def into_stream_def reader_new_def Let_def)
  then obtain stream w' where o: "serve_open e tx meth h i key (Suffix l) w1 = (Returns (Inr (m, stream)), w')" by blast
  have "serve e tx meth h t sv w = (Returns (serve_object tx h key (Some (Suffix l)) m stream), sv1, w')"
    using assms(2-4) rng o by (simp add: serve_def unwrap_or_def)
  then show ?thesis using empty_object_content_range [OF assms(10)] assms(8,11)
    by (simp add: serve_object_def unwrap_or_def)
qed

theorem empty_object_served_partial_witness:
  "\<exists>r sv' w'. serve demo_env demo_texts ''GET'' [(''range'', as_bytes ''bytes=-5'')] demo_docs demo_service
      (put_meta (object_key_new 0 ''a'') (object_meta_new 0 None) demo_node) = (Returns (Inr r), sv', w')
    \<and> hm_get ''content-range'' (rs_headers r) = Some (as_bytes ''bytes 0-18446744073709551615/0'')"
proof -
  let ?m = "object_meta_new 0 None" and ?h = "[(''range'', as_bytes ''bytes=-5'')]"
  let ?w = "put_meta (object_key_new 0 ''a'') ?m demo_node"
  have "\<exists>sv1. service_namespace ''docs'' demo_service ?w = (Inr 0, sv1, ?w)"
    by (simp add: service_namespace_def demo_service_def service_new_def node_register_def namespace_new_def put_meta_def
        demo_node_namespaces)
  then obtain sv1 where n: "service_namespace ''docs'' demo_service ?w = (Inr 0, sv1, ?w)" by blast
  have st: "engine_state ?w 0 = Inr (demo_namespace 0)"
    using demo_state by (simp add: engine_state_def engine_namespace_def put_meta_def split: if_splits)
  have "\<exists>w'. lookup_meta demo_env (object_key_new 0 ''a'') (ns_meta_ttl (demo_namespace 0)) ?w = (Fresh ?m, w')"
    by (auto simp: lookup_meta_def meta_lookup_def lru_get_def demo_env_def memory_env_def put_meta_def split: option.split)
  then obtain w' where lk: "lookup_meta demo_env (object_key_new 0 ''a'') (ns_meta_ttl (demo_namespace 0)) ?w = (Fresh ?m, w')"
    by blast
  have "evaluate (preconditions_of demo_texts ?h) ?m = Satisfied"
    by (simp add: evaluate_def preconditions_of_def hm_text_def hm_get_def hm_get_all_def)
  moreover have "hm_get ''range'' ?h = Some (as_bytes (''bytes=-'' @ show_u64 5))" "hm_get ''x-nestor-fetch'' ?h = None"
    by (simp_all add: hm_get_def hm_get_all_def show_u64_def show_nat.simps digit_chars)
  ultimately show ?thesis
    using empty_object_served_partial [OF _ _ _ n st _ lk, of "''GET''" demo_docs ?h 5 demo_texts]
    by (fastforce simp: demo_docs_def object_meta_new_def)
qed

text \<open>
  C36: a read whose path starts with two slashes resolves, in path style, to a key without a bucket; it
  counts as cacheable, and the handler panics.
\<close>

theorem bucketless_read_panics:
  assumes "sv_auth sv = Anonymous" and "sv_addressing sv = PathStyle" and "rq_method req = ''GET''"
    and "uri_path (rq_uri req) = ''//'' @ k" and "k \<noteq> []" and "uri_query (rq_uri req) = None"
  shows "fst (handle e tx cr us xml req sv w) = Panics"
proof -
  let ?t = "\<lparr>tgt_bucket = None, tgt_key = Some (percent_decode k)\<rparr>"
  have "resolve_target PathStyle host (''//'' @ k) = Inr ?t" for host
    using assms(5) by (simp add: resolve_target_def strip_prefix_def unwrap_or_def non_empty_def)
  then have "dispatch e tx cr us xml req sv w = serve e tx ''GET'' (rq_headers req) ?t (sv\<lparr>sv_signing_keys := sv_signing_keys sv\<rparr>) w"
    using assms by (simp add: dispatch_def verify_def cacheable_def unwrap_or_def Let_def)
  then show ?thesis by (simp add: handle_def serve_def)
qed

theorem bucketless_read_panics_witness:
  "fst (handle demo_env demo_texts demo_crypto demo_upstream (\<lambda>_. [])
     \<lparr>rq_method = ''GET'', rq_uri = \<lparr>uri_authority = None, uri_path = ''//x'', uri_query = None\<rparr>, rq_headers = [], rq_body = []\<rparr>
     demo_service demo_node) = Panics"
  by (rule bucketless_read_panics [where k = "''x''"]) (simp_all add: demo_service_def service_new_def)

end
