(* ===== verification/Cluster.thy ===== *)
theory Cluster
  imports Policy Origin Block_Size "HOL-Library.Product_Lexorder" "HOL-Library.Multiset"
begin

text \<open>
  The cluster client: configuration (\<^verbatim>\<open>nestor-client/src/config.rs\<close>), members (\<^verbatim>\<open>node.rs\<close>), membership
  (\<^verbatim>\<open>membership.rs\<close>), errors (\<^verbatim>\<open>error.rs\<close>), rendezvous routing (\<^verbatim>\<open>router.rs\<close>) and the cluster handle
  (\<^verbatim>\<open>cluster.rs\<close>), with the stability of the routing, the choice of a node and what a refresh of the
  membership keeps.

  Nodes are shared objects, counted by reference: the list of a snapshot holds references into a
  store, and a node that has left the list may still serve a request. The hash functions of
  \<^verbatim>\<open>ahash\<close>, the text of an address, the resolver of names and the construction of clients by
  \<^verbatim>\<open>object_store\<close> are parameters. A socket address is its family, address, port, flow information
  and scope, compared in this order.
\<close>

type_synonym socket_addr = "nat \<times> nat \<times> nat \<times> nat \<times> nat"

record hashing =
  hs_seed :: "socket_addr \<Rightarrow> u64"
  hs_object :: "string \<Rightarrow> string \<Rightarrow> u64"
  hs_score :: "u64 \<Rightarrow> u64 \<Rightarrow> u32 \<Rightarrow> u64"
  hs_show :: "socket_addr \<Rightarrow> string"

section \<open>Configuration\<close>

record cluster_credentials =
  cred_access_key :: string
  cred_secret_key :: string

record cluster_config =
  cc_block_size :: block_size
  cc_read_window :: u32
  cc_load_limit :: nat
  cc_down_for :: nanos
  cc_hedge :: "hedge_config option"
  cc_tls :: bool
  cc_credentials :: "cluster_credentials option"

definition cluster_config_default :: cluster_config where
  "cluster_config_default =
     \<lparr>cc_block_size = default_block_size, cc_read_window = 16, cc_load_limit = 256,
      cc_down_for = from_secs 5, cc_hedge = Some hedge_default, cc_tls = False, cc_credentials = None\<rparr>"

section \<open>Errors\<close>

text \<open>The source of an error is its text.\<close>

datatype cluster_error =
    NoNodes
  | Resolve string string \<comment> \<open>host, source\<close>
  | Transport string
  | Client string string \<comment> \<open>node, source\<close>

fun cluster_error_text :: "cluster_error \<Rightarrow> string" where
  "cluster_error_text NoNodes = ''cluster has no nodes''"
| "cluster_error_text (Resolve host source) = ''resolving '' @ host @ '': '' @ source"
| "cluster_error_text (Transport source) = ''building http client: '' @ source"
| "cluster_error_text (Client node source) = ''building client for node '' @ node @ '': '' @ source"

definition cluster_error_origin :: "cluster_error \<Rightarrow> origin_error" where
  "cluster_error_origin e = Io (cluster_error_text e)"

section \<open>Nodes\<close>

record node =
  nd_addr :: socket_addr
  nd_seed :: u64
  nd_endpoint :: string
  nd_credentials :: "cluster_credentials option"
  nd_load_limit :: nat
  nd_inflight :: nat
  nd_epoch :: nanos
  nd_down_until :: u64
  nd_latency :: latency
  nd_buckets :: "string list"

definition node_new :: "hashing \<Rightarrow> cluster_config \<Rightarrow> socket_addr \<Rightarrow> nanos \<Rightarrow> node" where
  "node_new hs cfg a t =
     \<lparr>nd_addr = a, nd_seed = hs_seed hs a,
      nd_endpoint = (if cc_tls cfg then ''https'' else ''http'') @ ''://'' @ hs_show hs a,
      nd_credentials = cc_credentials cfg, nd_load_limit = max (cc_load_limit cfg) 1, nd_inflight = 0,
      nd_epoch = t, nd_down_until = 0, nd_latency = latency_default t, nd_buckets = []\<rparr>"

definition elapsed_nanos :: "nanos \<Rightarrow> node \<Rightarrow> u64" where
  "elapsed_nanos t nd = of_nat (t - nd_epoch nd)"

definition is_up :: "nanos \<Rightarrow> node \<Rightarrow> bool" where
  "is_up t nd \<longleftrightarrow> nd_down_until nd = 0 \<or> elapsed_nanos t nd \<ge> nd_down_until nd"

definition mark_down :: "nanos \<Rightarrow> nanos \<Rightarrow> node \<Rightarrow> node" where
  "mark_down t len nd =
     (let till = max (sat_add (elapsed_nanos t nd) (of_nat len)) 1
      in nd\<lparr>nd_down_until := max (nd_down_until nd) till\<rparr>)"

text \<open>\<^verbatim>\<open>try_acquire\<close> and \<^verbatim>\<open>acquire\<close> count a request in, dropping its \<^verbatim>\<open>Load\<close> counts it out.\<close>

definition try_acquire :: "node \<Rightarrow> node option" where
  "try_acquire nd =
     (if nd_inflight nd \<ge> nd_load_limit nd then None else Some (nd\<lparr>nd_inflight := nd_inflight nd + 1\<rparr>))"

definition acquire :: "node \<Rightarrow> node" where
  "acquire nd = nd\<lparr>nd_inflight := nd_inflight nd + 1\<rparr>"

definition drop_load :: "node \<Rightarrow> node" where
  "drop_load nd = nd\<lparr>nd_inflight := nd_inflight nd - 1\<rparr>"

text \<open>
  \<^verbatim>\<open>Node::origin\<close>: the client for the bucket, built when it is first used. \<open>build\<close> tells why the
  client for an endpoint and a bucket cannot be built.
\<close>

definition node_origin ::
  "hashing \<Rightarrow> (string \<Rightarrow> string \<Rightarrow> cluster_credentials option \<Rightarrow> string option) \<Rightarrow> string \<Rightarrow> node
     \<Rightarrow> cluster_error option \<times> node" where
  "node_origin hs build bk nd =
     (if bk \<in> set (nd_buckets nd) then (None, nd)
      else case build (nd_endpoint nd) bk (nd_credentials nd) of
             Some source \<Rightarrow> (Some (Client (hs_show hs (nd_addr nd)) source), nd)
           | None \<Rightarrow> (None, nd\<lparr>nd_buckets := bk # nd_buckets nd\<rparr>))"

section \<open>Routing\<close>

type_synonym heap = "nat \<Rightarrow> node"

definition node_score :: "hashing \<Rightarrow> heap \<Rightarrow> u64 \<Rightarrow> u32 \<Rightarrow> nat \<Rightarrow> u64" where
  "node_score hs h obj blk n = hs_score hs (nd_seed (h n)) obj blk"

text \<open>Higher scores first, then smaller addresses.\<close>

definition rank_key :: "hashing \<Rightarrow> heap \<Rightarrow> u64 \<Rightarrow> u32 \<Rightarrow> nat \<Rightarrow> u64 \<times> socket_addr" where
  "rank_key hs h obj blk n = (- 1 - node_score hs h obj blk n, nd_addr (h n))"

definition ranked :: "hashing \<Rightarrow> heap \<Rightarrow> u64 \<Rightarrow> u32 \<Rightarrow> nat list \<Rightarrow> nat list" where
  "ranked hs h obj blk nodes = sort_key (rank_key hs h obj blk) nodes"

definition owner :: "nat list \<Rightarrow> nat option" where
  "owner ns = (case ns of [] \<Rightarrow> None | n # _ \<Rightarrow> Some n)"

fun first_acquired :: "heap \<Rightarrow> nat list \<Rightarrow> (nat \<times> heap) option" where
  "first_acquired h [] = None"
| "first_acquired h (n # ns) =
     (case try_acquire (h n) of
        Some nd \<Rightarrow> Some (n, h(n := nd))
      | None \<Rightarrow> first_acquired h ns)"

definition primary :: "nanos \<Rightarrow> nat list \<Rightarrow> heap \<Rightarrow> (nat \<times> heap) option" where
  "primary t ns h =
     (let up = filter (\<lambda>n. is_up t (h n)) ns
      in case first_acquired h up of
           Some load \<Rightarrow> Some load
         | None \<Rightarrow>
             (case (case up of n # _ \<Rightarrow> Some n | [] \<Rightarrow> owner ns) of
                None \<Rightarrow> None
              | Some n \<Rightarrow> Some (n, h(n := acquire (h n)))))"

definition secondary :: "nanos \<Rightarrow> nat list \<Rightarrow> nat \<Rightarrow> heap \<Rightarrow> (nat \<times> heap) option" where
  "secondary t ns prim h =
     first_acquired h (filter (\<lambda>n. nd_addr (h n) \<noteq> nd_addr (h prim) \<and> is_up t (h n)) ns)"

section \<open>Membership\<close>

datatype membership = Static "socket_addr list" | Dns string u16 nanos

definition membership_dns :: "string \<Rightarrow> u16 \<Rightarrow> membership" where
  "membership_dns host port = Dns host port (from_secs 10)"

definition membership_refresh :: "nanos \<Rightarrow> membership \<Rightarrow> membership" where
  "membership_refresh interval m = (case m of Dns host port _ \<Rightarrow> Dns host port interval | Static a \<Rightarrow> Static a)"

definition refresh_interval :: "membership \<Rightarrow> nanos option" where
  "refresh_interval m = (case m of Static _ \<Rightarrow> None | Dns _ _ r \<Rightarrow> Some r)"

text \<open>\<open>looked_up\<close> is what the resolver answers for a host and a port.\<close>

type_synonym resolver = "string \<Rightarrow> u16 \<Rightarrow> string + socket_addr list"

definition membership_resolve :: "resolver \<Rightarrow> membership \<Rightarrow> cluster_error + socket_addr list" where
  "membership_resolve looked_up m =
     (case m of
        Static addrs \<Rightarrow> Inr addrs
      | Dns host port _ \<Rightarrow>
          (case looked_up host port of
             Inl source \<Rightarrow> Inl (Resolve host source)
           | Inr addrs \<Rightarrow> Inr (remdups_adj (sort addrs))))"

section \<open>The cluster\<close>

text \<open>\<open>cl_now\<close> is the clock and \<open>cl_calls\<close> counts the requests sent to nodes.\<close>

record cluster =
  cl_config :: cluster_config
  cl_membership :: membership
  cl_nodes :: "nat list"
  cl_heap :: heap
  cl_next :: nat
  cl_now :: nanos
  cl_calls :: nat

definition alloc_node :: "hashing \<Rightarrow> socket_addr \<Rightarrow> cluster \<Rightarrow> nat \<times> cluster" where
  "alloc_node hs a c =
     (cl_next c,
      c\<lparr>cl_heap := (cl_heap c)(cl_next c := node_new hs (cl_config c) a (cl_now c)), cl_next := cl_next c + 1\<rparr>)"

fun alloc_nodes :: "hashing \<Rightarrow> socket_addr list \<Rightarrow> cluster \<Rightarrow> nat list \<times> cluster" where
  "alloc_nodes hs [] c = ([], c)"
| "alloc_nodes hs (a # addrs) c =
     (let (n, c) = alloc_node hs a c; (ns, c) = alloc_nodes hs addrs c in (n # ns, c))"

text \<open>\<open>transport\<close> tells why the HTTP client cannot be built.\<close>

definition cluster_new ::
  "hashing \<Rightarrow> resolver \<Rightarrow> string option \<Rightarrow> nanos \<Rightarrow> membership \<Rightarrow> cluster_config \<Rightarrow> cluster_error + cluster" where
  "cluster_new hs looked_up transport t m cfg =
     (case membership_resolve looked_up m of
        Inl e \<Rightarrow> Inl e
      | Inr addrs \<Rightarrow>
          if addrs = [] then Inl NoNodes
          else case transport of
                 Some source \<Rightarrow> Inl (Transport source)
               | None \<Rightarrow>
                   let c = \<lparr>cl_config = cfg, cl_membership = m, cl_nodes = [],
                            cl_heap = (\<lambda>_. node_new hs cfg (hd addrs) t), cl_next = 0, cl_now = t, cl_calls = 0\<rparr>;
                       (ns, c) = alloc_nodes hs addrs c
                   in Inr (c\<lparr>cl_nodes := ns\<rparr>))"

definition node_count :: "cluster \<Rightarrow> nat" where
  "node_count c = length (cl_nodes c)"

definition cluster_rank :: "hashing \<Rightarrow> cluster \<Rightarrow> u64 \<Rightarrow> u32 \<Rightarrow> nat list" where
  "cluster_rank hs c obj blk = ranked hs (cl_heap c) obj blk (cl_nodes c)"

text \<open>The nodes of the next snapshot, those that are known kept, and how many are new.\<close>

fun next_nodes :: "hashing \<Rightarrow> nat list \<Rightarrow> socket_addr list \<Rightarrow> cluster \<Rightarrow> nat list \<times> nat \<times> cluster" where
  "next_nodes hs cur [] c = ([], 0, c)"
| "next_nodes hs cur (a # addrs) c =
     (case find (\<lambda>n. nd_addr (cl_heap c n) = a) cur of
        Some n \<Rightarrow> (let (ns, added, c) = next_nodes hs cur addrs c in (n # ns, added, c))
      | None \<Rightarrow>
          (let (n, c) = alloc_node hs a c; (ns, added, c) = next_nodes hs cur addrs c in (n # ns, added + 1, c)))"

definition cluster_apply :: "hashing \<Rightarrow> socket_addr list \<Rightarrow> cluster \<Rightarrow> cluster" where
  "cluster_apply hs addrs c =
     (let addrs = sort addrs;
          cur = cl_nodes c;
          (nxt, added, c) = next_nodes hs cur addrs c;
          removed = length (filter (\<lambda>n. nd_addr (cl_heap c n) \<notin> set addrs) cur)
      in if added > 0 \<or> removed > 0 then c\<lparr>cl_nodes := nxt\<rparr> else c)"

text \<open>One round of the task that refreshes the membership, which a static list does not have.\<close>

definition refresh_round :: "hashing \<Rightarrow> resolver \<Rightarrow> cluster \<Rightarrow> cluster" where
  "refresh_round hs looked_up c =
     (case refresh_interval (cl_membership c) of
        None \<Rightarrow> c
      | Some interval \<Rightarrow>
          let c = c\<lparr>cl_now := cl_now c + interval\<rparr>
          in case membership_resolve looked_up (cl_membership c) of
               Inr addrs \<Rightarrow> if addrs = [] then c else cluster_apply hs addrs c
             | Inl _ \<Rightarrow> c)"

section \<open>The invariant\<close>

text \<open>The addresses of the snapshot, in its order and in the order of a ranking.\<close>

abbreviation addrs_of :: "heap \<Rightarrow> nat list \<Rightarrow> socket_addr list" where
  "addrs_of h ns \<equiv> map (\<lambda>n. nd_addr (h n)) ns"

definition cluster_addrs :: "cluster \<Rightarrow> socket_addr list" where
  "cluster_addrs c = addrs_of (cl_heap c) (cl_nodes c)"

definition member_ok :: "hashing \<Rightarrow> node \<Rightarrow> bool" where
  "member_ok hs nd \<longleftrightarrow> nd_seed nd = hs_seed hs (nd_addr nd) \<and> 0 < nd_load_limit nd"

definition cluster_ok :: "hashing \<Rightarrow> cluster \<Rightarrow> bool" where
  "cluster_ok hs c \<longleftrightarrow>
     cl_nodes c \<noteq> [] \<and> distinct (cluster_addrs c)
     \<and> list_all (\<lambda>n. n < cl_next c \<and> member_ok hs (cl_heap c n)) (cl_nodes c)"

lemma node_new_ok [simp]: "member_ok hs (node_new hs cfg a t)"
  by (simp add: member_ok_def node_new_def)

lemma node_new_addr [simp]: "nd_addr (node_new hs cfg a t) = a"
  by (simp add: node_new_def)

text \<open>What the operations on a node leave alone.\<close>

lemma node_frame [simp]:
  "nd_addr (mark_down t len nd) = nd_addr nd" "nd_addr (acquire nd) = nd_addr nd" "nd_addr (drop_load nd) = nd_addr nd"
  "member_ok hs (mark_down t len nd) = member_ok hs nd" "member_ok hs (acquire nd) = member_ok hs nd"
  "member_ok hs (drop_load nd) = member_ok hs nd"
  "nd_inflight (mark_down t len nd) = nd_inflight nd"
  by (simp_all add: mark_down_def acquire_def drop_load_def member_ok_def Let_def)

lemma try_acquire_Some:
  "try_acquire nd = Some nd' \<longleftrightarrow> nd_inflight nd < nd_load_limit nd \<and> nd' = acquire nd"
  by (auto simp: try_acquire_def acquire_def)

lemma node_origin_frame:
  assumes "node_origin hs build bk nd = (r, nd')"
  shows "nd_addr nd' = nd_addr nd" and "member_ok hs' nd' = member_ok hs' nd" and "nd_inflight nd' = nd_inflight nd"
  using assms by (auto simp: node_origin_def member_ok_def split: if_splits option.splits)

section \<open>Rendezvous routing\<close>

lemma map_insort_key:
  "list_all (\<lambda>y. k y = f (g y)) (x # xs) \<Longrightarrow> map g (insort_key k x xs) = insort_key f (g x) (map g xs)"
  by (induction xs) auto

lemma map_sort_key: "list_all (\<lambda>y. k y = f (g y)) xs \<Longrightarrow> map g (sort_key k xs) = sort_key f (map g xs)"
  by (induction xs) (simp_all add: map_insort_key [where k = k and f = f] list_all_iff)

lemma sort_key_same_set:
  assumes "distinct xs" and "distinct ys" and "set xs = set ys" and "inj_on f (set xs)"
  shows "sort_key f xs = sort_key f ys"
  using assms by (intro sort_key_inj_key_eq) (simp_all add: set_eq_iff_mset_eq_distinct [symmetric])

definition addr_key :: "hashing \<Rightarrow> u64 \<Rightarrow> u32 \<Rightarrow> socket_addr \<Rightarrow> u64 \<times> socket_addr" where
  "addr_key hs obj blk a = (- 1 - hs_score hs (hs_seed hs a) obj blk, a)"

lemma inj_addr_key: "inj_on (addr_key hs obj blk) A"
  by (simp add: inj_on_def addr_key_def)

lemma rank_addrs:
  assumes "cluster_ok hs c"
  shows "addrs_of (cl_heap c) (cluster_rank hs c obj blk) = sort_key (addr_key hs obj blk) (cluster_addrs c)"
proof -
  have "list_all (\<lambda>n. rank_key hs (cl_heap c) obj blk n = addr_key hs obj blk (nd_addr (cl_heap c n))) (cl_nodes c)"
    using assms by (auto simp: cluster_ok_def list_all_iff member_ok_def rank_key_def addr_key_def node_score_def)
  then show ?thesis
    unfolding cluster_rank_def ranked_def cluster_addrs_def by (rule map_sort_key)
qed

lemma hd_filter_member: "xs \<noteq> [] \<Longrightarrow> P (hd xs) \<Longrightarrow> hd (filter P xs) = hd xs"
  by (cases xs) auto

text \<open>
  C8: every client ranks the nodes it knows in the same order, whatever the order and history of its
  own list, and a client that knows more nodes ranks the common ones alike. So the owner of a block
  changes only when the new owner is a node that has joined.
\<close>

theorem ranking_stable:
  assumes "cluster_ok hs c" and "cluster_ok hs c'" and "set (cluster_addrs c) \<subseteq> set (cluster_addrs c')"
  shows "addrs_of (cl_heap c) (cluster_rank hs c obj blk) =
      filter (\<lambda>a. a \<in> set (cluster_addrs c)) (addrs_of (cl_heap c') (cluster_rank hs c' obj blk))
    \<and> (hd (addrs_of (cl_heap c') (cluster_rank hs c' obj blk)) \<in> set (cluster_addrs c) \<longrightarrow>
        hd (addrs_of (cl_heap c) (cluster_rank hs c obj blk)) = hd (addrs_of (cl_heap c') (cluster_rank hs c' obj blk)))"
proof -
  let ?P = "\<lambda>a. a \<in> set (cluster_addrs c)" and ?k = "addr_key hs obj blk"
  have "sort_key ?k (cluster_addrs c) = sort_key ?k (filter ?P (cluster_addrs c'))"
    using assms by (intro sort_key_same_set inj_addr_key) (auto simp: cluster_ok_def)
  then have eq: "sort_key ?k (cluster_addrs c) = filter ?P (sort_key ?k (cluster_addrs c'))"
    by (simp add: filter_sort)
  have "cluster_addrs c' \<noteq> []" using assms(2) by (simp add: cluster_ok_def cluster_addrs_def)
  then have "sort_key ?k (cluster_addrs c') \<noteq> []" by (metis length_0_conv length_sort)
  then show ?thesis
    using hd_filter_member [of "sort_key ?k (cluster_addrs c')" ?P] eq
    by (simp add: rank_addrs [OF assms(1)] rank_addrs [OF assms(2)])
qed

section \<open>The choice of a node\<close>

lemma first_acquired_find:
  "first_acquired h ns =
     map_option (\<lambda>n. (n, h(n := acquire (h n)))) (find (\<lambda>n. nd_inflight (h n) < nd_load_limit (h n)) ns)"
  by (induction ns) (auto simp: try_acquire_def acquire_def)

lemma find_eq_hd_filter: "find P xs = (case filter P xs of [] \<Rightarrow> None | x # _ \<Rightarrow> Some x)"
  by (induction xs) auto

lemma find_filter: "find P (filter Q xs) = find (\<lambda>x. Q x \<and> P x) xs"
  by (induction xs) auto

text \<open>
  A request to a ranking that has a node is always given one, and is counted in there: the first
  that is up and has room, so that the limit holds; when all that are up are full, the first that is
  up; when none is up, the owner.
\<close>

theorem primary_choice:
  assumes "ns \<noteq> []"
  shows "\<exists>n. primary t ns h = Some (n, h(n := acquire (h n))) \<and> n \<in> set ns \<and>
     (case find (\<lambda>m. is_up t (h m) \<and> nd_inflight (h m) < nd_load_limit (h m)) ns of
        Some m \<Rightarrow> n = m \<and> nd_inflight (acquire (h n)) \<le> nd_load_limit (h n)
      | None \<Rightarrow>
          (case find (\<lambda>m. is_up t (h m)) ns of
             Some m \<Rightarrow> n = m
           | None \<Rightarrow> n = hd ns))"
proof (cases "find (\<lambda>m. is_up t (h m) \<and> nd_inflight (h m) < nd_load_limit (h m)) ns")
  case (Some m)
  then have "is_up t (h m)" "nd_inflight (h m) < nd_load_limit (h m)" "m \<in> set ns"
    by (auto simp: find_Some_iff)
  then show ?thesis
    using Some by (simp add: primary_def first_acquired_find find_filter acquire_def)
next
  case None
  have up: "(case filter (\<lambda>n. is_up t (h n)) ns of n # _ \<Rightarrow> Some n | [] \<Rightarrow> owner ns) =
      Some (case find (\<lambda>m. is_up t (h m)) ns of Some m \<Rightarrow> m | None \<Rightarrow> hd ns)"
    using assms by (cases ns) (auto simp: owner_def find_eq_hd_filter split: list.splits)
  have "(case find (\<lambda>m. is_up t (h m)) ns of Some m \<Rightarrow> m | None \<Rightarrow> hd ns) \<in> set ns"
    using assms by (auto simp: find_Some_iff split: option.splits)
  then show ?thesis
    using None up by (auto simp: primary_def first_acquired_find find_filter split: option.splits)
qed

lemma secondary_choice:
  "secondary t ns p h = Some (n, h') \<Longrightarrow>
     n \<in> set ns \<and> nd_addr (h n) \<noteq> nd_addr (h p) \<and> is_up t (h n) \<and> nd_inflight (h n) < nd_load_limit (h n)
     \<and> h' = h(n := acquire (h n))"
  by (auto simp: secondary_def first_acquired_find find_filter find_Some_iff)

section \<open>Membership changes\<close>

text \<open>What allocating nodes leaves alone: everything but the store above the old bound.\<close>

definition extends :: "cluster \<Rightarrow> cluster \<Rightarrow> bool" where
  "extends c c' \<longleftrightarrow>
     cl_config c' = cl_config c \<and> cl_membership c' = cl_membership c \<and> cl_nodes c' = cl_nodes c
     \<and> cl_now c' = cl_now c \<and> cl_calls c' = cl_calls c \<and> cl_next c \<le> cl_next c'
     \<and> (\<forall>n < cl_next c. cl_heap c' n = cl_heap c n)"

lemma extends_refl [simp]: "extends c c"
  by (simp add: extends_def)

lemma extends_trans [trans]: "extends c d \<Longrightarrow> extends d e \<Longrightarrow> extends c e"
  by (simp add: extends_def)

lemma alloc_node_extends:
  "alloc_node hs a c = (n, c') \<Longrightarrow>
     extends c c' \<and> n < cl_next c' \<and> nd_addr (cl_heap c' n) = a \<and> member_ok hs (cl_heap c' n)"
  by (auto simp: alloc_node_def extends_def)

lemma extends_heap: "extends c c' \<Longrightarrow> n < cl_next c \<Longrightarrow> cl_heap c' n = cl_heap c n \<and> n < cl_next c'"
  by (auto simp: extends_def)

lemma alloc_nodes_spec:
  "alloc_nodes hs addrs c = (ns, c') \<Longrightarrow>
     extends c c' \<and> addrs_of (cl_heap c') ns = addrs \<and> list_all (\<lambda>n. n < cl_next c' \<and> member_ok hs (cl_heap c' n)) ns"
proof (induction addrs arbitrary: c ns)
  case (Cons a addrs)
  obtain n d where n: "alloc_node hs a c = (n, d)" by force
  obtain ms where ms: "alloc_nodes hs addrs d = (ms, c')" "ns = n # ms" using Cons.prems n by (auto split: prod.splits)
  note new = alloc_node_extends [OF n]
  note rest = Cons.IH [OF ms(1)]
  then show ?case
    using new extends_trans [of c d c'] extends_heap [of d c' n] ms(2) by auto
qed simp

lemma distinct_remdups_adj_sorted: "sorted xs \<Longrightarrow> distinct (remdups_adj xs)"
  by (induction xs rule: remdups_adj.induct) auto

lemma sort_Nil_iff: "sort xs = [] \<longleftrightarrow> xs = []"
  by (metis length_0_conv length_sort)

lemma cluster_new_ok:
  assumes "cluster_new hs looked_up transport t m cfg = Inr c"
    and "\<And>addrs. m = Static addrs \<Longrightarrow> distinct addrs"
  shows "cluster_ok hs c"
proof -
  obtain addrs c0 ns c1 where r: "membership_resolve looked_up m = Inr addrs" "addrs \<noteq> []"
      and a: "alloc_nodes hs addrs c0 = (ns, c1)" "c = c1\<lparr>cl_nodes := ns\<rparr>"
    using assms(1) by (auto simp: cluster_new_def Let_def split: sum.splits option.splits if_splits prod.splits)
  have "distinct addrs"
    using r(1) assms(2) by (auto simp: membership_resolve_def distinct_remdups_adj_sorted split: membership.splits sum.splits)
  then show ?thesis using alloc_nodes_spec [OF a(1)] a(2) r(2) by (auto simp: cluster_ok_def cluster_addrs_def)
qed

text \<open>A known address keeps its node, an unknown one gets a new node.\<close>

lemma next_nodes_spec:
  assumes "next_nodes hs cur addrs c = (ns, added, c')" and "list_all (\<lambda>n. n < cl_next c \<and> member_ok hs (cl_heap c n)) cur"
    and "distinct (addrs_of (cl_heap c) cur)"
  shows "extends c c' \<and> addrs_of (cl_heap c') ns = addrs
    \<and> list_all (\<lambda>n. n < cl_next c' \<and> member_ok hs (cl_heap c' n)) ns
    \<and> (added = 0 \<longleftrightarrow> set addrs \<subseteq> set (addrs_of (cl_heap c) cur))
    \<and> (\<forall>n\<in>set cur. nd_addr (cl_heap c n) \<in> set addrs \<longrightarrow> n \<in> set ns)"
  using assms
proof (induction addrs arbitrary: c ns added)
  case (Cons a addrs)
  show ?case
  proof (cases "find (\<lambda>n. nd_addr (cl_heap c n) = a) cur")
    case None
    obtain n d where n: "alloc_node hs a c = (n, d)" by force
    obtain ms k where ms: "next_nodes hs cur addrs d = (ms, k, c')" "ns = n # ms" "added = k + 1"
      using Cons.prems(1) None n by (auto split: prod.splits)
    note new = alloc_node_extends [OF n]
    have old: "\<forall>m\<in>set cur. cl_heap d m = cl_heap c m \<and> m < cl_next d"
      using new Cons.prems(2) extends_heap [of c d] by (auto simp: list_all_iff)
    then have eq: "addrs_of (cl_heap d) cur = addrs_of (cl_heap c) cur" by simp
    have "list_all (\<lambda>n. n < cl_next d \<and> member_ok hs (cl_heap d n)) cur"
      using old Cons.prems(2) by (simp add: list_all_iff)
    note rest = Cons.IH [OF ms(1) this, unfolded eq, OF Cons.prems(3)]
    have fresh: "\<forall>m\<in>set cur. nd_addr (cl_heap c m) \<noteq> a" using None by (auto simp: find_None_iff)
    then have "a \<notin> set (addrs_of (cl_heap c) cur)" by auto
    moreover have "\<forall>m\<in>set cur. nd_addr (cl_heap c m) \<in> set (a # addrs) \<longrightarrow> m \<in> set ns"
      using fresh old rest ms(2) by (metis list.set_intros(2) set_ConsD)
    moreover have "extends c c'" "cl_heap c' n = cl_heap d n" "n < cl_next c'"
      using new rest extends_trans [of c d c'] extends_heap [of d c' n] by auto
    ultimately show ?thesis using new rest ms(2,3) by simp
  next
    case (Some n)
    then have n: "n \<in> set cur" "nd_addr (cl_heap c n) = a" by (auto simp: find_Some_iff)
    obtain ms where ms: "next_nodes hs cur addrs c = (ms, added, c')" "ns = n # ms"
      using Cons.prems(1) Some by (auto split: prod.splits)
    note rest = Cons.IH [OF ms(1) Cons.prems(2,3)]
    have ok: "n < cl_next c" "member_ok hs (cl_heap c n)" using n(1) Cons.prems(2) by (auto simp: list_all_iff)
    then have heap: "cl_heap c' n = cl_heap c n" "n < cl_next c'" using rest extends_heap [of c c' n] by auto
    have only: "m = n" if "m \<in> set cur" "nd_addr (cl_heap c m) = a" for m
      using that n Cons.prems(3) by (auto simp: distinct_map dest: inj_onD)
    have "\<forall>m\<in>set cur. nd_addr (cl_heap c m) \<in> set (a # addrs) \<longrightarrow> m \<in> set ns"
      using only rest ms(2) by (metis list.set_intros set_ConsD)
    moreover have "a \<in> set (addrs_of (cl_heap c) cur)" using n by force
    ultimately show ?thesis using n(2) rest ms(2) ok heap by simp
  qed
qed simp

lemma cluster_apply_spec:
  assumes "cluster_ok hs c" and "addrs \<noteq> []" and "distinct addrs"
  shows "cluster_ok hs (cluster_apply hs addrs c)" and "set (cluster_addrs (cluster_apply hs addrs c)) = set addrs"
    and "n \<in> set (cl_nodes c) \<Longrightarrow> cl_heap (cluster_apply hs addrs c) n = cl_heap c n"
    and "n \<in> set (cl_nodes c) \<Longrightarrow> nd_addr (cl_heap c n) \<in> set addrs \<Longrightarrow> n \<in> set (cl_nodes (cluster_apply hs addrs c))"
proof -
  obtain ns added d where nx: "next_nodes hs (cl_nodes c) (sort addrs) c = (ns, added, d)"
    by (cases "next_nodes hs (cl_nodes c) (sort addrs) c")
  have ok: "list_all (\<lambda>n. n < cl_next c \<and> member_ok hs (cl_heap c n)) (cl_nodes c)" "distinct (cluster_addrs c)" "cl_nodes c \<noteq> []"
    using assms(1) by (auto simp: cluster_ok_def)
  note spec = next_nodes_spec [OF nx ok(1) ok(2) [unfolded cluster_addrs_def]]
  have old: "\<forall>m\<in>set (cl_nodes c). cl_heap d m = cl_heap c m \<and> m < cl_next d"
    using spec ok(1) extends_heap [of c d] by (auto simp: list_all_iff)
  let ?removed = "length (filter (\<lambda>n. nd_addr (cl_heap d n) \<notin> set addrs) (cl_nodes c))"
  have ap: "cluster_apply hs addrs c = (if added > 0 \<or> ?removed > 0 then d\<lparr>cl_nodes := ns\<rparr> else d)"
    by (simp add: cluster_apply_def nx)
  have nodes: "cl_nodes d = cl_nodes c" using spec by (simp add: extends_def)
  have same: "set (addrs_of (cl_heap c) (cl_nodes c)) = set addrs" if "\<not> (added > 0 \<or> ?removed > 0)"
  proof
    show "set addrs \<subseteq> set (addrs_of (cl_heap c) (cl_nodes c))" using that spec by simp
    show "set (addrs_of (cl_heap c) (cl_nodes c)) \<subseteq> set addrs"
      using that old by (simp add: filter_empty_conv image_subset_iff)
  qed
  have "addrs_of (cl_heap d) ns = sort addrs" using spec by simp
  then have "ns \<noteq> []" using assms(2) sort_Nil_iff [of addrs] by auto
  then have "cluster_ok hs (d\<lparr>cl_nodes := ns\<rparr>)"
    using spec assms(3) by (simp add: cluster_ok_def cluster_addrs_def)
  moreover have "cluster_addrs d = cluster_addrs c" using old nodes by (simp add: cluster_addrs_def)
  then have "cluster_ok hs d"
    using ok old nodes by (simp add: cluster_ok_def list_all_iff)
  ultimately show "cluster_ok hs (cluster_apply hs addrs c)" by (simp add: ap)
  show "set (cluster_addrs (cluster_apply hs addrs c)) = set addrs"
  proof (cases "added > 0 \<or> ?removed > 0")
    case True
    then have "cluster_addrs (cluster_apply hs addrs c) = sort addrs" using spec by (simp add: ap cluster_addrs_def)
    then show ?thesis by simp
  next
    case False
    then show ?thesis using same old nodes by (simp add: ap cluster_addrs_def)
  qed
  show "n \<in> set (cl_nodes c) \<Longrightarrow> cl_heap (cluster_apply hs addrs c) n = cl_heap c n" using old by (simp add: ap)
  show "n \<in> set (cl_nodes c) \<Longrightarrow> nd_addr (cl_heap c n) \<in> set addrs \<Longrightarrow> n \<in> set (cl_nodes (cluster_apply hs addrs c))"
    using spec nodes by (simp add: ap)
qed

text \<open>
  C9: a refresh follows the name: the members are the addresses it resolves to, each once, and a node
  that stays is the same node, with its load, its down time and its latencies. A failed lookup, or
  one that finds nothing, leaves the members as they are.
\<close>

theorem refresh_follows_membership:
  assumes "cluster_ok hs c" and "cl_membership c = Dns host port interval"
  shows "cluster_ok hs (refresh_round hs looked_up c)
    \<and> (case looked_up host port of
         Inr (a # addrs) \<Rightarrow>
           set (cluster_addrs (refresh_round hs looked_up c)) = set (a # addrs)
           \<and> (\<forall>n\<in>set (cl_nodes c).
                cl_heap (refresh_round hs looked_up c) n = cl_heap c n
                \<and> (nd_addr (cl_heap c n) \<in> set (a # addrs) \<longrightarrow> n \<in> set (cl_nodes (refresh_round hs looked_up c))))
       | _ \<Rightarrow> cl_nodes (refresh_round hs looked_up c) = cl_nodes c \<and> cl_heap (refresh_round hs looked_up c) = cl_heap c)"
proof -
  let ?d = "c\<lparr>cl_now := cl_now c + interval\<rparr>"
  have ok: "cluster_ok hs ?d" using assms(1) by (simp add: cluster_ok_def cluster_addrs_def)
  have round: "refresh_round hs looked_up c =
      (case looked_up host port of
         Inr (a # addrs) \<Rightarrow> cluster_apply hs (remdups_adj (sort (a # addrs))) ?d
       | _ \<Rightarrow> ?d)"
    using assms(2)
    by (simp add: refresh_round_def refresh_interval_def membership_resolve_def Let_def sort_Nil_iff
        del: sort_key_simps split: sum.splits list.splits)
  show ?thesis
  proof (cases "looked_up host port")
    case (Inr addrs)
    show ?thesis
    proof (cases addrs)
      case (Cons a as)
      let ?r = "remdups_adj (sort (a # as))"
      have r: "?r \<noteq> []" "distinct ?r" "set ?r = set (a # as)"
        by (simp_all add: distinct_remdups_adj_sorted sort_Nil_iff del: sort_key_simps)
      show ?thesis
        using cluster_apply_spec [OF ok r(1,2)] Inr Cons r(3) by (simp add: round del: sort_key_simps)
    qed (use Inr ok round in simp)
  qed (use ok round in simp)
qed

section \<open>Examples\<close>

definition demo_hashing :: hashing where
  "demo_hashing =
     \<lparr>hs_seed = (\<lambda>a. of_nat (fst (snd (snd a)))), hs_object = (\<lambda>bk key. of_nat (length key)),
      hs_score = (\<lambda>s obj blk. s + obj), hs_show = (\<lambda>a. ''node'')\<rparr>"

definition demo_addr :: "nat \<Rightarrow> socket_addr" where
  "demo_addr port = (4, 1, port, 0, 0)"

definition demo_cluster :: "nat list \<Rightarrow> cluster" where
  "demo_cluster ports =
     (case cluster_new demo_hashing (\<lambda>_ _. Inr (map demo_addr ports)) None 0 (membership_dns ''nodes'' 9000) cluster_config_default of
        Inr c \<Rightarrow> c)"

lemma demo_cluster_new:
  "ports \<noteq> [] \<Longrightarrow>
     cluster_new demo_hashing (\<lambda>_ _. Inr (map demo_addr ports)) None 0 (membership_dns ''nodes'' 9000) cluster_config_default
       = Inr (demo_cluster ports)"
  by (simp add: demo_cluster_def cluster_new_def membership_resolve_def membership_dns_def Let_def sort_Nil_iff split: prod.splits)

lemma demo_cluster_ok: "ports \<noteq> [] \<Longrightarrow> cluster_ok demo_hashing (demo_cluster ports)"
  by (rule cluster_new_ok [OF demo_cluster_new]) (simp_all add: membership_dns_def)

lemma demo_cluster_addrs: "ports \<noteq> [] \<Longrightarrow> cluster_addrs (demo_cluster ports) = remdups_adj (sort (map demo_addr ports))"
  using alloc_nodes_spec [of demo_hashing "remdups_adj (sort (map demo_addr ports))"]
  by (fastforce simp: demo_cluster_def cluster_new_def membership_resolve_def membership_dns_def Let_def sort_Nil_iff
      cluster_addrs_def split: prod.splits)

lemma demo_cluster_dns:
  "ports \<noteq> [] \<Longrightarrow> cl_membership (demo_cluster ports) = Dns ''nodes'' 9000 (from_secs 10)"
  "ports \<noteq> [] \<Longrightarrow> cl_config (demo_cluster ports) = cluster_config_default"
  using alloc_nodes_spec [of demo_hashing "remdups_adj (sort (map demo_addr ports))"]
  by ((fastforce simp: demo_cluster_def cluster_new_def membership_resolve_def membership_dns_def Let_def sort_Nil_iff
      extends_def split: prod.splits)+)

theorem ranking_stable_witness:
  "addrs_of (cl_heap (demo_cluster [1, 3])) (cluster_rank demo_hashing (demo_cluster [1, 3]) 7 0) =
     filter (\<lambda>a. a \<in> set (cluster_addrs (demo_cluster [1, 3])))
       (addrs_of (cl_heap (demo_cluster [3, 2, 1])) (cluster_rank demo_hashing (demo_cluster [3, 2, 1]) 7 0))"
  by (rule ranking_stable [THEN conjunct1]) (simp_all add: demo_cluster_ok demo_cluster_addrs)

theorem primary_choice_witness:
  "\<exists>n. primary 0 [0, 1] (cl_heap (demo_cluster [1, 3])) = Some (n, (cl_heap (demo_cluster [1, 3]))(n := acquire (cl_heap (demo_cluster [1, 3]) n)))"
  using primary_choice [of "[0, 1]" 0 "cl_heap (demo_cluster [1, 3])"] by auto

theorem refresh_follows_membership_witness:
  "cluster_ok demo_hashing (refresh_round demo_hashing (\<lambda>_ _. Inr [demo_addr 2, demo_addr 1]) (demo_cluster [1, 3]))
   \<and> set (cluster_addrs (refresh_round demo_hashing (\<lambda>_ _. Inr [demo_addr 2, demo_addr 1]) (demo_cluster [1, 3])))
       = {demo_addr 2, demo_addr 1}"
  using refresh_follows_membership [OF demo_cluster_ok demo_cluster_dns(1), of "[1, 3]" "\<lambda>_ _. Inr [demo_addr 2, demo_addr 1]"]
  by simp

end
