(* ===== verification/Cluster_Read.thy ===== *)
theory Cluster_Read
  imports Cluster Body
begin

text \<open>
  Routed requests, \<^verbatim>\<open>nestor-client/src/read.rs\<close> and \<^verbatim>\<open>origin.rs\<close>: an attempt at a node, the hedge
  against the next ranked node and the failover, ranged reads split into blocks, metadata requests
  and warming. The theorems show that a request gives back every load it took, that it survives one
  failing node, and that a cluster of origins that keep the origin contract keeps it as well: a
  read that is split over nodes is a read of one version.

  A request runs as one task. While it waits the other tasks may change what they share with it,
  which is the parameter \<open>ce_others\<close>. The blocks of a read are requested in their order; how many
  of these requests \<^verbatim>\<open>buffered\<close> keeps in flight at once is not modelled. A body that is still to be
  read is the list of its chunks, so that the state after a read is the one after its body. Where
  \<^verbatim>\<open>select!\<close> finds two branches ready at one instant the model takes the first, and where the delay
  of a hedge cannot be computed it is the longest.
\<close>

record cluster_env =
  ce_hash :: hashing
  ce_build :: "string \<Rightarrow> string \<Rightarrow> cluster_credentials option \<Rightarrow> string option"
  ce_get :: "nat \<Rightarrow> nanos \<Rightarrow> socket_addr \<Rightarrow> string \<Rightarrow> string \<Rightarrow> get_options \<Rightarrow> nanos \<times> (origin_error + get_response)"
  ce_head :: "nat \<Rightarrow> nanos \<Rightarrow> socket_addr \<Rightarrow> string \<Rightarrow> string \<Rightarrow> nanos \<times> (origin_error + object_meta)"
  ce_round :: "real \<Rightarrow> real"
  ce_others :: "cluster \<Rightarrow> cluster"

section \<open>Attempts\<close>

text \<open>A request: the answer of a node to the \<open>n\<close>-th call, made at an instant, and when it is there.\<close>

type_synonym 'a request = "nat \<Rightarrow> nanos \<Rightarrow> socket_addr \<Rightarrow> nanos \<times> (origin_error + 'a)"

definition cluster_wait :: "cluster_env \<Rightarrow> nanos \<Rightarrow> cluster \<Rightarrow> cluster" where
  "cluster_wait E t c = ce_others E (c\<lparr>cl_now := max (cl_now c) t\<rparr>)"

definition on_node :: "(node \<Rightarrow> node) \<Rightarrow> nat \<Rightarrow> cluster \<Rightarrow> cluster" where
  "on_node f n c = c\<lparr>cl_heap := (cl_heap c)(n := f (cl_heap c n))\<rparr>"

text \<open>An attempt under way; it is not \<open>at_sent\<close> when the node had no client for the bucket.\<close>

record 'a attempt =
  at_node :: nat
  at_started :: nanos
  at_sent :: bool
  at_ready :: nanos
  at_result :: "origin_error + 'a"

definition attempt_start :: "cluster_env \<Rightarrow> string \<Rightarrow> 'a request \<Rightarrow> nat \<Rightarrow> cluster \<Rightarrow> 'a attempt \<times> cluster" where
  "attempt_start E bk req n c =
     (case node_origin (ce_hash E) (ce_build E) bk (cl_heap c n) of
        (Some e, nd) \<Rightarrow>
          (\<lparr>at_node = n, at_started = cl_now c, at_sent = False, at_ready = cl_now c,
            at_result = Inl (cluster_error_origin e)\<rparr>, c\<lparr>cl_heap := (cl_heap c)(n := nd)\<rparr>)
      | (None, nd) \<Rightarrow>
          (case req (cl_calls c) (cl_now c) (nd_addr nd) of
             (ready, r) \<Rightarrow>
               (\<lparr>at_node = n, at_started = cl_now c, at_sent = True, at_ready = max ready (cl_now c), at_result = r\<rparr>,
                c\<lparr>cl_heap := (cl_heap c)(n := nd), cl_calls := cl_calls c + 1\<rparr>)))"

text \<open>What the node learns from the result.\<close>

definition note_result :: "cluster \<Rightarrow> 'a attempt \<Rightarrow> node \<Rightarrow> node" where
  "note_result c a nd =
     (if \<not> at_sent a then nd
      else case at_result a of
             Inr _ \<Rightarrow> nd\<lparr>nd_latency := observe_at (cl_now c - at_started a) (cl_now c) (nd_latency nd)\<rparr>
           | Inl (Io _) \<Rightarrow> mark_down (cl_now c) (cc_down_for (cl_config c)) nd
           | Inl _ \<Rightarrow> nd)"

definition attempt_finish :: "cluster_env \<Rightarrow> 'a attempt \<Rightarrow> cluster \<Rightarrow> (origin_error + 'a) \<times> cluster" where
  "attempt_finish E a c =
     (let c = cluster_wait E (at_ready a) c
      in (at_result a, on_node (\<lambda>nd. drop_load (note_result c a nd)) (at_node a) c))"

text \<open>The future of an attempt is dropped, and its load with it.\<close>

definition attempt_cancel :: "'a attempt \<Rightarrow> cluster \<Rightarrow> cluster" where
  "attempt_cancel a c = on_node drop_load (at_node a) c"

definition attempt_whole :: "cluster_env \<Rightarrow> string \<Rightarrow> 'a request \<Rightarrow> nat \<Rightarrow> cluster \<Rightarrow> (origin_error + 'a) \<times> cluster" where
  "attempt_whole E bk req n c = (case attempt_start E bk req n c of (a, c) \<Rightarrow> attempt_finish E a c)"

section \<open>Hedging and failover\<close>

fun is_io :: "origin_error + 'a \<Rightarrow> bool" where
  "is_io (Inl (Io _)) = True"
| "is_io _ = False"

definition node_delay :: "cluster_env \<Rightarrow> hedge_config \<Rightarrow> nat \<Rightarrow> cluster \<Rightarrow> nanos \<times> cluster" where
  "node_delay E cfg n c =
     (case hedge_delay (ce_round E) cfg (cl_now c) (nd_latency (cl_heap c n)) of
        (d, l) \<Rightarrow> (unwrap_or d (hedge_max cfg), on_node (\<lambda>nd. nd\<lparr>nd_latency := l\<rparr>) n c))"

text \<open>The first of two attempts to be there counts, unless it failed to reach its node.\<close>

definition attempt_race :: "cluster_env \<Rightarrow> 'a attempt \<Rightarrow> 'a attempt \<Rightarrow> cluster \<Rightarrow> (origin_error + 'a) \<times> cluster" where
  "attempt_race E x y c =
     (case attempt_finish E x c of
        (r, c) \<Rightarrow> if is_io r then attempt_finish E y c else (r, attempt_cancel y c))"

definition hedged_attempt ::
  "cluster_env \<Rightarrow> string \<Rightarrow> 'a request \<Rightarrow> nat list \<Rightarrow> nat \<Rightarrow> cluster \<Rightarrow> (origin_error + 'a) \<times> cluster" where
  "hedged_attempt E bk req ns p c =
     (case cc_hedge (cl_config c) of
        None \<Rightarrow> attempt_whole E bk req p c
      | Some cfg \<Rightarrow>
          let (delay, c) = node_delay E cfg p c;
              due = cl_now c + delay;
              (x, c) = attempt_start E bk req p c
          in if at_ready x \<le> due then attempt_finish E x c
             else
               let c = cluster_wait E due c
               in case secondary (cl_now c) ns p (cl_heap c) of
                    None \<Rightarrow> attempt_finish E x c
                  | Some (s, h) \<Rightarrow>
                      let (y, c) = attempt_start E bk req s (c\<lparr>cl_heap := h\<rparr>)
                      in if at_ready x \<le> at_ready y then attempt_race E x y c else attempt_race E y x c)"

definition hedged ::
  "cluster_env \<Rightarrow> string \<Rightarrow> 'a request \<Rightarrow> nat list \<Rightarrow> cluster \<Rightarrow> (origin_error + 'a) \<times> cluster" where
  "hedged E bk req ns c =
     (case primary (cl_now c) ns (cl_heap c) of
        None \<Rightarrow> (Inl (cluster_error_origin NoNodes), c)
      | Some (p, h) \<Rightarrow>
          (case hedged_attempt E bk req ns p (c\<lparr>cl_heap := h\<rparr>) of
             (r, c) \<Rightarrow>
               if is_io r
               then (case secondary (cl_now c) ns p (cl_heap c) of
                       Some (f, h) \<Rightarrow> attempt_whole E bk req f (c\<lparr>cl_heap := h\<rparr>)
                     | None \<Rightarrow> (r, c))
               else (r, c)))"

section \<open>Reads\<close>

definition routed_block ::
  "cluster_env \<Rightarrow> string \<Rightarrow> string \<Rightarrow> u64 \<Rightarrow> u32 \<Rightarrow> get_options \<Rightarrow> cluster \<Rightarrow> (origin_error + get_response) \<times> cluster" where
  "routed_block E bk key obj idx opts c =
     hedged E bk (\<lambda>n t a. ce_get E n t a bk key opts) (cluster_rank (ce_hash E) c obj idx) c"

fun rest_blocks ::
  "cluster_env \<Rightarrow> block_size \<Rightarrow> string \<Rightarrow> string \<Rightarrow> u64 \<Rightarrow> u64 \<Rightarrow> bytes option \<Rightarrow> u32 list \<Rightarrow> cluster \<Rightarrow> chunk list \<times> cluster" where
  "rest_blocks E bs bk key obj stop ifm [] c = ([], c)"
| "rest_blocks E bs bk key obj stop ifm (i # idxs) c =
     (let (r, c) = routed_block E bk key obj i
            \<lparr>opt_range = Some (block_range bs i (Some stop)), opt_if_match = ifm,
             opt_if_none_match = None\<rparr> (ce_others E c);
          body = (case r of Inl e \<Rightarrow> [(cl_now c, Inl e)] | Inr resp \<Rightarrow> resp_body resp);
          (bodies, c) = rest_blocks E bs bk key obj stop ifm idxs c
      in (body @ bodies, c))"

definition cluster_get ::
  "cluster_env \<Rightarrow> string \<Rightarrow> string \<Rightarrow> get_options \<Rightarrow> cluster \<Rightarrow> (origin_error + get_response) \<times> cluster" where
  "cluster_get E bk key opts c =
     (let bs = cc_block_size (cl_config c);
          obj = hs_object (ce_hash E) bk key;
          start = (case opt_range opts of None \<Rightarrow> 0 | Some r \<Rightarrow> range_start r);
          limit = (case opt_range opts of None \<Rightarrow> u64_max | Some r \<Rightarrow> range_end r)
      in if start \<ge> limit then (Inl (Io ''empty range''), c)
         else
           let first_index = block_index bs start;
               first_options = opts\<lparr>opt_range := Some (Range start (min limit (block_offset bs (first_index + 1))))\<rparr>
           in case routed_block E bk key obj first_index first_options c of
                (Inl e, c) \<Rightarrow> (Inl e, c)
              | (Inr first, c) \<Rightarrow>
                  let stop = min limit (meta_size (resp_meta first));
                      last_index = max (block_index bs (sat_sub stop 1)) first_index;
                      ifm = (case opt_if_match opts of Some e \<Rightarrow> Some e | None \<Rightarrow> meta_etag (resp_meta first));
                      (rest, c) = rest_blocks E bs bk key obj stop ifm (map of_nat [unat (first_index + 1) ..< unat last_index + 1]) c
                  in (Inr \<lparr>resp_meta = resp_meta first, resp_range = Range start stop, resp_body = resp_body first @ rest\<rparr>, c))"

definition cluster_head :: "cluster_env \<Rightarrow> string \<Rightarrow> string \<Rightarrow> cluster \<Rightarrow> (origin_error + object_meta) \<times> cluster" where
  "cluster_head E bk key c =
     hedged E bk (\<lambda>n t a. ce_head E n t a bk key) (cluster_rank (ce_hash E) c (hs_object (ce_hash E) bk key) 0) c"

text \<open>The first failure of a body, if it has one.\<close>

fun drain :: "chunk list \<Rightarrow> origin_error + unit" where
  "drain [] = Inr ()"
| "drain ((_, Inl e) # _) = Inl e"
| "drain ((_, Inr _) # cs) = drain cs"

fun warm_blocks ::
  "cluster_env \<Rightarrow> block_size \<Rightarrow> string \<Rightarrow> string \<Rightarrow> u64 \<Rightarrow> u64 \<Rightarrow> u32 list \<Rightarrow> cluster \<Rightarrow> (origin_error + unit) \<times> cluster" where
  "warm_blocks E bs bk key obj sz [] c = (Inr (), c)"
| "warm_blocks E bs bk key obj sz (i # idxs) c =
     (case routed_block E bk key obj i
             \<lparr>opt_range = Some (block_range bs i (Some sz)), opt_if_match = None,
              opt_if_none_match = None\<rparr> c of
        (Inl e, c) \<Rightarrow> (Inl e, c)
      | (Inr resp, c) \<Rightarrow>
          (case drain (resp_body resp) of
             Inl e \<Rightarrow> (Inl e, c)
           | Inr _ \<Rightarrow> warm_blocks E bs bk key obj sz idxs (ce_others E c)))"

definition cluster_warm :: "cluster_env \<Rightarrow> string \<Rightarrow> string \<Rightarrow> u64 \<Rightarrow> cluster \<Rightarrow> (origin_error + unit) \<times> cluster" where
  "cluster_warm E bk key sz c =
     (let bs = cc_block_size (cl_config c)
      in warm_blocks E bs bk key (hs_object (ce_hash E) bk key) sz (range_list (Range 0 (block_count bs sz))) c)"

section \<open>Loads\<close>

definition loads :: "cluster \<Rightarrow> nat \<Rightarrow> nat" where
  "loads c n = nd_inflight (cl_heap c n)"

text \<open>Other tasks give back the loads they take while this one waits.\<close>

definition loads_kept :: "cluster_env \<Rightarrow> bool" where
  "loads_kept E \<longleftrightarrow> (\<forall>c. loads (ce_others E c) = loads c)"

definition released :: "nat \<Rightarrow> (nat \<Rightarrow> nat) \<Rightarrow> nat \<Rightarrow> nat" where
  "released n f = f(n := f n - 1)"

lemma loads_kept_others: "loads_kept E \<Longrightarrow> loads (ce_others E c) = loads c"
  by (simp add: loads_kept_def)

lemma loads_update [simp]: "loads (c\<lparr>cl_now := t\<rparr>) = loads c" "loads (c\<lparr>cl_calls := k\<rparr>) = loads c"
  by (simp_all add: loads_def fun_eq_iff)

lemma wait_loads: "loads_kept E \<Longrightarrow> loads (cluster_wait E t c) = loads c"
  by (simp add: cluster_wait_def loads_kept_others)

lemma note_result_inflight [simp]: "nd_inflight (note_result c a nd) = nd_inflight nd"
  by (simp add: note_result_def split: sum.splits origin_error.splits)

lemma finish_loads: "loads_kept E \<Longrightarrow> attempt_finish E a c = (r, c') \<Longrightarrow> loads c' = released (at_node a) (loads c)"
  using wait_loads [of E "at_ready a" c]
  by (auto simp: attempt_finish_def on_node_def drop_load_def released_def Let_def loads_def fun_eq_iff)

lemma cancel_loads: "loads (attempt_cancel a c) = released (at_node a) (loads c)"
  by (simp add: attempt_cancel_def on_node_def drop_load_def released_def loads_def fun_eq_iff)

lemma start_loads: "attempt_start E bk req n c = (a, c') \<Longrightarrow> loads c' = loads c \<and> at_node a = n"
  by (auto simp: attempt_start_def loads_def fun_eq_iff dest: node_origin_frame split: prod.splits option.splits)

lemma whole_loads: "loads_kept E \<Longrightarrow> attempt_whole E bk req n c = (r, c') \<Longrightarrow> loads c' = released n (loads c)"
  by (auto simp: attempt_whole_def dest!: start_loads finish_loads split: prod.splits)

lemma race_loads:
  "loads_kept E \<Longrightarrow> attempt_race E x y c = (r, c') \<Longrightarrow> loads c' = released (at_node y) (released (at_node x) (loads c))"
  by (auto simp: attempt_race_def cancel_loads split: prod.splits if_splits) (metis finish_loads)+

lemma acquired_loads: "loads (c\<lparr>cl_heap := (cl_heap c)(n := acquire (cl_heap c n))\<rparr>) = (loads c)(n := loads c n + 1)"
  by (simp add: acquire_def loads_def fun_eq_iff)

lemma released_acquired: "released n (f(n := f n + 1)) = f"
  by (simp add: released_def fun_eq_iff)

lemma released_both:
  "released n (released m (f(n := f n + 1))) = released m f" "released m (released n (f(n := f n + 1))) = released m f"
  by (simp_all add: released_def fun_eq_iff)

lemma delay_loads: "node_delay E cfg n c = (d, c') \<Longrightarrow> loads c' = loads c"
  by (auto simp: node_delay_def on_node_def loads_def fun_eq_iff split: prod.splits)

lemma hedged_attempt_loads:
  assumes "loads_kept E" and "hedged_attempt E bk req ns p c = (r, c')"
  shows "loads c' = released p (loads c)"
proof (cases "cc_hedge (cl_config c)")
  case None
  then show ?thesis using assms whole_loads by (fastforce simp: hedged_attempt_def)
next
  case (Some cfg)
  obtain delay c1 where c1: "node_delay E cfg p c = (delay, c1)" by force
  obtain x c2 where c2: "attempt_start E bk req p c1 = (x, c2)" by force
  have x: "loads c2 = loads c" "at_node x = p" using delay_loads [OF c1] start_loads [OF c2] by simp_all
  let ?due = "cl_now c1 + delay"
  let ?c3 = "cluster_wait E ?due c2"
  have c3: "loads ?c3 = loads c" using wait_loads [OF assms(1)] x by simp
  show ?thesis
  proof (cases "at_ready x \<le> ?due")
    case True
    then have "attempt_finish E x c2 = (r, c')" using assms(2) Some c1 c2 by (simp add: hedged_attempt_def)
    then show ?thesis using finish_loads [OF assms(1), of x] x by metis
  next
    case late: False
    show ?thesis
    proof (cases "secondary (cl_now ?c3) ns p (cl_heap ?c3)")
      case None
      then have "attempt_finish E x ?c3 = (r, c')" using assms(2) Some c1 c2 late by (simp add: hedged_attempt_def Let_def)
      then show ?thesis using finish_loads [OF assms(1), of x] x c3 by metis
    next
      case sec: (Some sh)
      obtain s h where sh: "sh = (s, h)" by force
      obtain y c4 where c4: "attempt_start E bk req s (?c3\<lparr>cl_heap := h\<rparr>) = (y, c4)" by force
      have h: "h = (cl_heap ?c3)(s := acquire (cl_heap ?c3 s))" using secondary_choice [OF sec [unfolded sh]] by blast
      have y: "loads c4 = (loads c)(s := loads c s + 1)" "at_node y = s"
        using start_loads [OF c4] acquired_loads [of ?c3 s] c3 unfolding h by simp_all
      have "attempt_race E x y c4 = (r, c') \<or> attempt_race E y x c4 = (r, c')"
        using assms(2) Some c1 c2 late sec sh c4 by (auto simp: hedged_attempt_def Let_def split: if_splits)
      then show ?thesis using race_loads [OF assms(1)] x y released_both by metis
    qed
  qed
qed

lemma hedged_loads:
  assumes "loads_kept E" and "hedged E bk req ns c = (r, c')"
  shows "loads c' = loads c"
proof (cases "primary (cl_now c) ns (cl_heap c)")
  case None
  then show ?thesis using assms(2) by (simp add: hedged_def)
next
  case (Some ph)
  obtain p h where ph: "ph = (p, h)" by force
  have "ns \<noteq> []" using Some by (auto simp: primary_def owner_def)
  then have h: "h = (cl_heap c)(p := acquire (cl_heap c p))"
    using primary_choice [of ns "cl_now c" "cl_heap c"] Some ph by auto
  obtain r1 c1 where c1: "hedged_attempt E bk req ns p (c\<lparr>cl_heap := h\<rparr>) = (r1, c1)" by force
  have l1: "loads c1 = loads c"
    using hedged_attempt_loads [OF assms(1) c1] acquired_loads [of c p] released_acquired unfolding h by simp
  show ?thesis
  proof (cases "is_io r1 \<and> secondary (cl_now c1) ns p (cl_heap c1) \<noteq> None")
    case True
    then obtain f g where sec: "secondary (cl_now c1) ns p (cl_heap c1) = Some (f, g)" by auto
    then have g: "g = (cl_heap c1)(f := acquire (cl_heap c1 f))" using secondary_choice by blast
    have "attempt_whole E bk req f (c1\<lparr>cl_heap := g\<rparr>) = (r, c')"
      using assms(2) Some ph c1 True sec by (simp add: hedged_def)
    then show ?thesis
      using whole_loads [OF assms(1)] acquired_loads [of c1 f] released_acquired l1 unfolding g by metis
  next
    case False
    then show ?thesis using assms(2) Some ph c1 l1 by (auto simp: hedged_def split: if_splits option.splits)
  qed
qed

lemma rest_blocks_loads:
  "loads_kept E \<Longrightarrow> rest_blocks E bs bk key obj stop ifm idxs c = (body, c') \<Longrightarrow> loads c' = loads c"
proof (induction idxs arbitrary: c body)
  case (Cons i idxs)
  then show ?case
    by (auto simp: routed_block_def Let_def split: prod.splits) (metis hedged_loads loads_kept_others)
qed simp

text \<open>
  C7: a routed read gives back every load it took, whether it succeeded, failed, hedged or failed over:
  when its body has been read the nodes count as many requests as before.
\<close>

theorem read_returns_loads:
  assumes "loads_kept E" and "cluster_get E bk key opts c = (r, c')"
  shows "loads c' = loads c"
  using assms(2)
  by (auto simp: cluster_get_def routed_block_def Let_def split: if_splits prod.splits sum.splits)
    (metis assms(1) hedged_loads rest_blocks_loads)+

section \<open>Availability\<close>

text \<open>The nodes answer on their own: other tasks leave them alone, and every client can be built.\<close>

definition undisturbed :: "cluster_env \<Rightarrow> bool" where
  "undisturbed E \<longleftrightarrow> (\<forall>c. cl_heap (ce_others E c) = cl_heap c) \<and> (\<forall>e b cr. ce_build E e b cr = None)"

text \<open>Only the node \<open>p\<close> has changed, and not its address.\<close>

definition touches :: "nat \<Rightarrow> cluster \<Rightarrow> cluster \<Rightarrow> bool" where
  "touches p c c' \<longleftrightarrow>
     (\<forall>n. n \<noteq> p \<longrightarrow> cl_heap c' n = cl_heap c n) \<and> nd_addr (cl_heap c' p) = nd_addr (cl_heap c p)"

lemma touches_trans [trans]: "touches p c d \<Longrightarrow> touches p d e \<Longrightarrow> touches p c e"
  by (simp add: touches_def)

lemma wait_touches: "undisturbed E \<Longrightarrow> cl_heap (cluster_wait E t c) = cl_heap c"
  by (simp add: undisturbed_def cluster_wait_def)

lemma note_result_addr [simp]: "nd_addr (note_result c a nd) = nd_addr nd"
  by (simp add: note_result_def split: sum.splits origin_error.splits)

lemma start_touches: "attempt_start E bk req n c = (a, c') \<Longrightarrow> touches n c c'"
  by (auto simp: attempt_start_def touches_def dest: node_origin_frame split: prod.splits option.splits)

lemma finish_touches:
  "undisturbed E \<Longrightarrow> attempt_finish E a c = (r, c') \<Longrightarrow> touches (at_node a) c c' \<and> r = at_result a"
  using wait_touches [of E "at_ready a" c]
  by (auto simp: attempt_finish_def on_node_def touches_def Let_def)

lemma delay_touches: "node_delay E cfg n c = (d, c') \<Longrightarrow> touches n c c'"
  by (auto simp: node_delay_def on_node_def touches_def split: prod.splits)

lemma start_answer:
  assumes "attempt_start E bk req n c = (a, c')" and "undisturbed E"
  shows "\<exists>k t. at_result a = snd (req k t (nd_addr (cl_heap c n)))" and "at_node a = n"
proof -
  obtain nd where nd: "node_origin (ce_hash E) (ce_build E) bk (cl_heap c n) = (None, nd)"
    using assms(2) by (cases "bk \<in> set (nd_buckets (cl_heap c n))") (simp_all add: node_origin_def undisturbed_def)
  then have "nd_addr nd = nd_addr (cl_heap c n)" by (rule node_origin_frame)
  then show "\<exists>k t. at_result a = snd (req k t (nd_addr (cl_heap c n)))"
    using assms(1) nd by (auto simp: attempt_start_def split: prod.splits) (metis snd_conv)
  show "at_node a = n" using start_loads [OF assms(1)] by simp
qed

lemma whole_answer:
  assumes "undisturbed E" and "attempt_whole E bk req n c = (r, c')"
  shows "\<exists>k t. r = snd (req k t (nd_addr (cl_heap c n)))" and "touches n c c'"
proof -
  obtain a d where a: "attempt_start E bk req n c = (a, d)" by force
  then have f: "attempt_finish E a d = (r, c')" using assms(2) by (simp add: attempt_whole_def)
  note st = start_answer [OF a assms(1)] and fin = finish_touches [OF assms(1) f]
  show "\<exists>k t. r = snd (req k t (nd_addr (cl_heap c n)))" using st(1) fin by simp
  show "touches n c c'" using start_touches [OF a] fin st(2) touches_trans by metis
qed

text \<open>A node that can take a request, at an address that is not \<open>b\<close>.\<close>

definition spare :: "socket_addr \<Rightarrow> node \<Rightarrow> bool" where
  "spare b nd \<longleftrightarrow> nd_addr nd \<noteq> b \<and> nd_down_until nd = 0 \<and> nd_inflight nd < nd_load_limit nd"

lemma secondary_exists:
  assumes "m \<in> set ns" and "spare (nd_addr (h p)) (h m)"
  shows "\<exists>s h'. secondary t ns p h = Some (s, h')"
proof -
  have "find (\<lambda>n. (nd_addr (h n) \<noteq> nd_addr (h p) \<and> is_up t (h n)) \<and> nd_inflight (h n) < nd_load_limit (h n)) ns \<noteq> None"
    using assms by (auto simp: find_None_iff spare_def is_up_def)
  then show ?thesis by (auto simp: secondary_def first_acquired_find find_filter)
qed

text \<open>The address \<open>b\<close> cannot be reached; every other one answers.\<close>

definition unreachable :: "socket_addr \<Rightarrow> 'a request \<Rightarrow> bool" where
  "unreachable b req \<longleftrightarrow>
     (\<forall>k t. is_io (snd (req k t b))) \<and> (\<forall>k t a. a \<noteq> b \<longrightarrow> (\<exists>x. snd (req k t a) = Inr x))"

lemma unreachable_answer:
  "unreachable b req \<Longrightarrow> r = snd (req k t a) \<Longrightarrow> if a = b then is_io r else \<exists>x. r = Inr x"
  unfolding unreachable_def by metis

lemma race_answer:
  assumes "undisturbed E" and "attempt_race E x y c = (r, c')"
    and "is_io (at_result x) \<or> (\<exists>v. at_result x = Inr v)"
    and "(\<exists>v. at_result x = Inr v) \<or> (\<exists>v. at_result y = Inr v)"
  shows "\<exists>v. r = Inr v"
proof -
  obtain r1 c1 where f: "attempt_finish E x c = (r1, c1)" by force
  have r1: "r1 = at_result x" using finish_touches [OF assms(1) f] by simp
  show ?thesis
  proof (cases "is_io r1")
    case True
    then have "attempt_finish E y c1 = (r, c')" using assms(2) f by (simp add: attempt_race_def)
    then have "r = at_result y" using finish_touches [OF assms(1)] by blast
    then show ?thesis using assms(4) True r1 by auto
  next
    case False
    then show ?thesis using assms(2,3) f r1 by (auto simp: attempt_race_def)
  qed
qed

text \<open>The hedged attempt has an answer, or it could not reach its node and has touched no other.\<close>

lemma hedged_attempt_answer:
  assumes E: "undisturbed E" and req: "unreachable b req"
    and run: "hedged_attempt E bk req ns p c = (r, c')"
  shows "(\<exists>v. r = Inr v) \<or> is_io r \<and> nd_addr (cl_heap c p) = b \<and> touches p c c'"
proof (cases "cc_hedge (cl_config c)")
  case None
  then have "attempt_whole E bk req p c = (r, c')" using run by (simp add: hedged_attempt_def)
  then show ?thesis using whole_answer [OF E] unreachable_answer [OF req] by metis
next
  case (Some cfg)
  obtain delay c1 where c1: "node_delay E cfg p c = (delay, c1)" by force
  obtain x c2 where c2: "attempt_start E bk req p c1 = (x, c2)" by force
  let ?due = "cl_now c1 + delay"
  let ?c3 = "cluster_wait E ?due c2"
  have t2: "touches p c c2" using delay_touches [OF c1] start_touches [OF c2] by (rule touches_trans)
  have "nd_addr (cl_heap c1 p) = nd_addr (cl_heap c p)" using delay_touches [OF c1] by (simp add: touches_def)
  then have x: "if nd_addr (cl_heap c p) = b then is_io (at_result x) else \<exists>v. at_result x = Inr v"
    using start_answer(1) [OF c2 E] unreachable_answer [OF req] by metis
  have finish: "attempt_finish E x d = (r, c') \<Longrightarrow> cl_heap d = cl_heap c2 \<Longrightarrow> ?thesis" for d
    using x start_answer(2) [OF c2 E] finish_touches [OF E, of x d r c'] t2 by (auto simp: touches_def split: if_splits)
  show ?thesis
  proof (cases "at_ready x \<le> ?due")
    case True
    then show ?thesis using run Some c1 c2 by (intro finish [of c2]) (simp_all add: hedged_attempt_def)
  next
    case late: False
    have c3: "cl_heap ?c3 = cl_heap c2" by (rule wait_touches [OF E])
    show ?thesis
    proof (cases "secondary (cl_now ?c3) ns p (cl_heap ?c3)")
      case None
      then show ?thesis
        using run Some c1 c2 late c3 by (intro finish [of ?c3]) (simp_all add: hedged_attempt_def Let_def)
    next
      case sec: (Some sh)
      obtain s h where sh: "sh = (s, h)" by force
      note ch = secondary_choice [OF sec [unfolded sh]]
      obtain y c4 where c4: "attempt_start E bk req s (?c3\<lparr>cl_heap := h\<rparr>) = (y, c4)" by force
      have "nd_addr (cl_heap (?c3\<lparr>cl_heap := h\<rparr>) s) = nd_addr (cl_heap ?c3 s)" using ch by simp
      then have y: "if nd_addr (cl_heap ?c3 s) = b then is_io (at_result y) else \<exists>v. at_result y = Inr v"
        using start_answer(1) [OF c4 E] unreachable_answer [OF req] by metis
      have "nd_addr (cl_heap ?c3 s) \<noteq> nd_addr (cl_heap c p)" using ch t2 c3 by (simp add: touches_def)
      then have "(\<exists>v. at_result x = Inr v) \<or> (\<exists>v. at_result y = Inr v)" using x y by (auto split: if_splits)
      moreover have "attempt_race E x y c4 = (r, c') \<or> attempt_race E y x c4 = (r, c')"
        using run Some c1 c2 late sec sh c4 by (auto simp: hedged_attempt_def Let_def split: if_splits)
      ultimately have "\<exists>v. r = Inr v"
        using race_answer [OF E, of x y c4 r c'] race_answer [OF E, of y x c4 r c'] x y by (auto split: if_splits)
      then show ?thesis ..
    qed
  qed
qed

lemma hedged_available:
  assumes E: "undisturbed E" and req: "unreachable b req"
    and m: "m \<in> set ns" "spare b (cl_heap c m)"
  shows "\<exists>v c'. hedged E bk req ns c = (Inr v, c')"
proof -
  have "ns \<noteq> []" using m(1) by auto
  then obtain p where p: "primary (cl_now c) ns (cl_heap c) = Some (p, (cl_heap c)(p := acquire (cl_heap c p)))"
    using primary_choice [of ns "cl_now c" "cl_heap c"] by auto
  let ?d = "c\<lparr>cl_heap := (cl_heap c)(p := acquire (cl_heap c p))\<rparr>"
  obtain r c1 where c1: "hedged_attempt E bk req ns p ?d = (r, c1)" by force
  have addr: "nd_addr (cl_heap ?d p) = nd_addr (cl_heap c p)" by simp
  show ?thesis
  proof (cases "\<exists>v. r = Inr v")
    case True
    then show ?thesis using p c1 by (auto simp: hedged_def)
  next
    case False
    then have io: "is_io r" and b: "nd_addr (cl_heap c p) = b" and t: "touches p ?d c1"
      using hedged_attempt_answer [OF E req c1] addr by auto
    then have "m \<noteq> p" using m(2) by (auto simp: spare_def)
    then have "spare (nd_addr (cl_heap c1 p)) (cl_heap c1 m)" using t b m(2) by (simp add: touches_def)
    then obtain f h where f: "secondary (cl_now c1) ns p (cl_heap c1) = Some (f, h)"
      using secondary_exists [OF m(1)] by blast
    note ch = secondary_choice [OF f]
    obtain r2 c2 where c2: "attempt_whole E bk req f (c1\<lparr>cl_heap := h\<rparr>) = (r2, c2)" by force
    have "nd_addr (cl_heap (c1\<lparr>cl_heap := h\<rparr>) f) \<noteq> b" using ch t b by (auto simp: touches_def)
    then have "\<exists>v. r2 = Inr v" using whole_answer(1) [OF E c2] unreachable_answer [OF req] by metis
    then show ?thesis using p c1 io f c2 by (auto simp: hedged_def)
  qed
qed

text \<open>
  C6: one node that cannot be reached does not fail a request: while the others answer and one of
  them has room and is not marked down, the hedge or the failover gets an answer.
\<close>

theorem one_node_down_tolerated:
  assumes "undisturbed E" and "unreachable b (\<lambda>n t a. ce_get E n t a bk key opts)"
    and "m \<in> set (cl_nodes c)" and "spare b (cl_heap c m)"
  shows "\<exists>resp c'. routed_block E bk key obj i opts c = (Inr resp, c')"
  unfolding routed_block_def
  by (rule hedged_available [OF assms(1,2) _ assms(4)]) (simp add: cluster_rank_def ranked_def assms(3))

section \<open>A cluster keeps the contract of an origin\<close>

text \<open>A body that is, or begins like, the given bytes: complete unless it ends with an error.\<close>

definition body_of :: "bytes \<Rightarrow> chunk list \<Rightarrow> bool" where
  "body_of data cs \<longleftrightarrow> prefix (body_bytes cs) data \<and> (drain cs = Inr () \<longrightarrow> body_bytes cs = data)"

lemma drain_append: "drain (xs @ ys) = (case drain xs of Inl e \<Rightarrow> Inl e | Inr _ \<Rightarrow> drain ys)"
  by (induction xs rule: drain.induct) auto

lemma body_bytes_append:
  "body_bytes (xs @ ys) = (case drain xs of Inl _ \<Rightarrow> body_bytes xs | Inr _ \<Rightarrow> body_bytes xs @ body_bytes ys)"
  by (induction xs rule: drain.induct) (auto split: sum.splits)

lemma body_of_append: "body_of d xs \<Longrightarrow> body_of e ys \<Longrightarrow> body_of (d @ e) (xs @ ys)"
  by (auto simp: body_of_def drain_append body_bytes_append prefix_append split: sum.splits)

lemma body_of_Nil [simp]: "body_of data [] \<longleftrightarrow> data = []"
  by (auto simp: body_of_def)

lemma body_of_error [simp]: "body_of data [(t, Inl e)]"
  by (simp add: body_of_def)

lemma bslice_append_min:
  "a \<le> x \<Longrightarrow> x \<le> y \<Longrightarrow> bslice a (min x n) xs @ bslice x (min y n) xs = bslice a (min y n) xs"
  using bslice_append [of a x "min y n" xs] by (cases "x \<le> n") (auto simp: min_def)

definition options_start :: "get_options \<Rightarrow> u64" where
  "options_start opts = (case opt_range opts of None \<Rightarrow> 0 | Some r \<Rightarrow> range_start r)"

definition options_limit :: "get_options \<Rightarrow> u64" where
  "options_limit opts = (case opt_range opts of None \<Rightarrow> u64_max | Some r \<Rightarrow> range_end r)"

text \<open>
  The contract of an S3 origin for one object, whose versions \<open>ver\<close> are told apart by their entity
  tags: a response is of one version and carries its tag and size, it is of the version that was
  asked for, if one was, it has the part of the range that the version has, and its body is that part
  or ends with an error. A range that starts past the end is refused.
\<close>

definition answers_version :: "(bytes \<Rightarrow> bytes) \<Rightarrow> get_options \<Rightarrow> get_response \<Rightarrow> bool" where
  "answers_version ver opts resp \<longleftrightarrow>
     (\<exists>e. meta_etag (resp_meta resp) = Some e
        \<and> unat (meta_size (resp_meta resp)) = length (ver e)
        \<and> (\<forall>x. opt_if_match opts = Some x \<longrightarrow> x = e)
        \<and> options_start opts < meta_size (resp_meta resp)
        \<and> resp_range resp = Range (options_start opts) (min (options_limit opts) (meta_size (resp_meta resp)))
        \<and> body_of (bslice (unat (range_start (resp_range resp))) (unat (range_end (resp_range resp))) (ver e)) (resp_body resp))"

lemma options_of_range [simp]:
  "options_start (opts\<lparr>opt_range := Some (Range a b)\<rparr>) = a" "options_limit (opts\<lparr>opt_range := Some (Range a b)\<rparr>) = b"
  by (simp_all add: options_start_def options_limit_def)

definition nodes_answer :: "cluster_env \<Rightarrow> string \<Rightarrow> string \<Rightarrow> (bytes \<Rightarrow> bytes) \<Rightarrow> bool" where
  "nodes_answer E bk key ver \<longleftrightarrow>
     (\<forall>n t a opts ready resp. ce_get E n t a bk key opts = (ready, Inr resp) \<longrightarrow> answers_version ver opts resp)"

text \<open>An answer is the answer of a node.\<close>

definition node_answer :: "'a request \<Rightarrow> 'a \<Rightarrow> bool" where
  "node_answer req v \<longleftrightarrow> (\<exists>k t d ready. req k t d = (ready, Inr v))"

lemma node_answerI: "req k t d = (ready, Inr v) \<Longrightarrow> node_answer req v"
  unfolding node_answer_def by blast

lemma start_from_node: "attempt_start E bk req n c = (a, c') \<Longrightarrow> Inr v = at_result a \<Longrightarrow> node_answer req v"
  by (auto simp: attempt_start_def intro: node_answerI split: prod.splits option.splits)

lemma finish_result: "attempt_finish E a c = (r, c') \<Longrightarrow> r = at_result a"
  by (simp add: attempt_finish_def Let_def)

lemma whole_from_node: "attempt_whole E bk req n c = (Inr v, c') \<Longrightarrow> node_answer req v"
  by (auto simp: attempt_whole_def dest: finish_result start_from_node split: prod.splits)

lemma race_result: "attempt_race E x y c = (r, c') \<Longrightarrow> r = at_result x \<or> r = at_result y"
  by (auto simp: attempt_race_def dest: finish_result split: prod.splits if_splits)

lemma hedged_attempt_from_node: "hedged_attempt E bk req ns p c = (Inr v, c') \<Longrightarrow> node_answer req v"
  by (auto simp: hedged_attempt_def Let_def dest!: finish_result race_result
      dest: whole_from_node start_from_node split: option.splits prod.splits if_splits)

lemma hedged_from_node: "hedged E bk req ns c = (Inr v, c') \<Longrightarrow> node_answer req v"
  by (auto simp: hedged_def dest: hedged_attempt_from_node whole_from_node split: option.splits prod.splits if_splits)

lemma block_answers:
  assumes "routed_block E bk key obj i opts c = (Inr resp, c')"
    and "nodes_answer E bk key ver"
  shows "answers_version ver opts resp"
  using hedged_from_node [OF assms(1) [unfolded routed_block_def]] assms(2) unfolding node_answer_def nodes_answer_def by blast

lemma rest_blocks_body:
  assumes "valid_block_size bs" and "j \<le> 2 ^ 32 - 1" and "unat stop \<le> length (ver e)"
    and "nodes_answer E bk key ver"
    and "rest_blocks E bs bk key obj stop (Some e) (map of_nat [i..<j]) c = (body, c')" and "i \<le> j"
  shows "body_of (bslice (i * block_usize bs) (min (j * block_usize bs) (unat stop)) (ver e)) body"
  using assms(5,6)
proof (induction "j - i" arbitrary: i c body)
  case 0
  then show ?case by simp
next
  case (Suc n)
  then have ij: "i < j" "[i..<j] = i # [Suc i..<j]" by (simp_all add: upt_conv_Cons)
  let ?opts = "\<lparr>opt_range = Some (block_range bs (of_nat i) (Some stop)), opt_if_match = Some e, opt_if_none_match = None\<rparr>"
  obtain r c1 where r: "routed_block E bk key obj (of_nat i) ?opts (ce_others E c) = (r, c1)" by force
  obtain bodies where rest: "rest_blocks E bs bk key obj stop (Some e) (map of_nat [Suc i..<j]) c1 = (bodies, c')"
      and body: "body = (case r of Inl e \<Rightarrow> [(cl_now c1, Inl e)] | Inr resp \<Rightarrow> resp_body resp) @ bodies"
    using Suc.prems(1) r unfolding ij(2) by (auto simp: Let_def split: prod.splits)
  have "body_of (bslice (Suc i * block_usize bs) (min (j * block_usize bs) (unat stop)) (ver e)) bodies"
    using Suc.hyps rest ij(1) by (intro Suc.hyps(1)) auto
  moreover have "body_of (bslice (i * block_usize bs) (min (Suc i * block_usize bs) (unat stop)) (ver e))
      (case r of Inl e \<Rightarrow> [(cl_now c1, Inl e)] | Inr resp \<Rightarrow> resp_body resp)"
  proof (cases r)
    case (Inr resp)
    have i: "unat (of_nat i :: u32) = i" using assms(2) ij(1) by (simp add: unat_of_nat)
    then have b: "unat (range_start (block_range bs (of_nat i) (Some stop))) = i * block_usize bs"
        "unat (range_end (block_range bs (of_nat i) (Some stop))) = min (Suc i * block_usize bs) (unat stop)"
      using block_range_bounds [OF assms(1), of "of_nat i"] assms(2) ij(1) by simp_all
    have "answers_version ver ?opts resp" using block_answers [OF r [unfolded Inr] assms(4)] .
    then obtain "unat (meta_size (resp_meta resp)) = length (ver e)"
      "body_of (bslice (i * block_usize bs)
         (min (min (Suc i * block_usize bs) (unat stop)) (unat (meta_size (resp_meta resp)))) (ver e)) (resp_body resp)"
      by (auto simp: answers_version_def options_start_def options_limit_def unat_min b)
    then show ?thesis using Inr by (simp only: bslice_min_length sum.case)
  qed simp
  ultimately show ?case
    unfolding body using body_of_append bslice_append_min [of "i * block_usize bs" "Suc i * block_usize bs" "j * block_usize bs"] ij(1)
    by (metis Suc_leI mult_le_mono1 order_refl le_SucI)
qed

text \<open>The run of a read that is answered.\<close>

lemma cluster_get_Inr:
  assumes "cluster_get E bk key opts c = (Inr resp, c')"
  defines "bs \<equiv> cc_block_size (cl_config c)" and "start \<equiv> options_start opts" and "limit \<equiv> options_limit opts"
  obtains first c1 rest where "start < limit"
    and "routed_block E bk key (hs_object (ce_hash E) bk key) (block_index bs start)
       (opts\<lparr>opt_range := Some (Range start (min limit (block_offset bs (block_index bs start + 1))))\<rparr>) c = (Inr first, c1)"
    and "rest_blocks E bs bk key (hs_object (ce_hash E) bk key) (min limit (meta_size (resp_meta first)))
       (case opt_if_match opts of Some e \<Rightarrow> Some e | None \<Rightarrow> meta_etag (resp_meta first))
       (map of_nat [unat (block_index bs start + 1)
          ..< unat (max (block_index bs (sat_sub (min limit (meta_size (resp_meta first))) 1)) (block_index bs start)) + 1]) c1
       = (rest, c')"
    and "resp = \<lparr>resp_meta = resp_meta first, resp_range = Range start (min limit (meta_size (resp_meta first))),
       resp_body = resp_body first @ rest\<rparr>"
  using assms
  by (auto simp: cluster_get_def options_start_def options_limit_def Let_def not_le
      simp del: upt_Suc split: if_splits prod.splits sum.splits)

lemma cluster_get_contract:
  assumes bs: "valid_block_size (cc_block_size (cl_config c))"
    and nodes: "nodes_answer E bk key ver"
    and fits: "\<And>e. fits (cc_block_size (cl_config c)) (length (ver e))"
    and run: "cluster_get E bk key opts c = (Inr resp, c')"
  shows "answers_version ver opts resp"
proof -
  let ?bs = "cc_block_size (cl_config c)" and ?start = "options_start opts" and ?limit = "options_limit opts"
  let ?f = "block_index ?bs ?start" and ?B = "block_usize ?bs"
  obtain first c1 rest where lt: "?start < ?limit"
    and first: "routed_block E bk key (hs_object (ce_hash E) bk key) ?f
       (opts\<lparr>opt_range := Some (Range ?start (min ?limit (block_offset ?bs (?f + 1))))\<rparr>) c = (Inr first, c1)"
    and rest: "rest_blocks E ?bs bk key (hs_object (ce_hash E) bk key) (min ?limit (meta_size (resp_meta first)))
       (case opt_if_match opts of Some e \<Rightarrow> Some e | None \<Rightarrow> meta_etag (resp_meta first))
       (map of_nat [unat (?f + 1)
          ..< unat (max (block_index ?bs (sat_sub (min ?limit (meta_size (resp_meta first))) 1)) ?f) + 1]) c1 = (rest, c')"
    and resp: "resp = \<lparr>resp_meta = resp_meta first, resp_range = Range ?start (min ?limit (meta_size (resp_meta first))),
       resp_body = resp_body first @ rest\<rparr>"
    by (rule cluster_get_Inr [OF run])
  let ?size = "meta_size (resp_meta first)"
  let ?stop = "min ?limit ?size"
  let ?last = "max (block_index ?bs (sat_sub ?stop 1)) ?f"
  obtain e where e: "meta_etag (resp_meta first) = Some e" "unat ?size = length (ver e)" "\<And>x. opt_if_match opts = Some x \<Longrightarrow> x = e"
      and start: "?start < ?size"
      and body: "body_of (bslice (unat ?start) (unat (min (min ?limit (block_offset ?bs (?f + 1))) ?size)) (ver e)) (resp_body first)"
    using block_answers [OF first nodes] by (auto simp: answers_version_def)
  have ifm: "(case opt_if_match opts of Some e \<Rightarrow> Some e | None \<Rightarrow> meta_etag (resp_meta first)) = Some e"
    using e(1,3) by (auto split: option.splits)
  have st: "0 < unat ?stop" "unat ?stop \<le> unat ?size" "?start < ?stop"
    using start lt by (auto simp: unat_min word_less_nat_alt)
  have stop1: "unat (sat_sub ?stop 1) = unat ?stop - 1" using st(1) by (simp add: sat_sub_def unat_sub_le word_le_nat_alt word_less_nat_alt)
  have f: "unat ?f = unat ?start div ?B"
    using start by (intro unat_block_index_fits [OF bs fits [of e]]) (simp add: e(2) [symmetric] word_less_nat_alt)
  have l: "unat (block_index ?bs (sat_sub ?stop 1)) = (unat ?stop - 1) div ?B"
    using st stop1 by (subst unat_block_index_fits [OF bs fits [of e]]) (auto simp: e(2) [symmetric])
  have fin: "unat off < length (ver e) \<Longrightarrow> unat off div ?B < 2 ^ 32 - 1" for off :: u64
    using fits [of e] by (intro less_mult_imp_div_less) (simp add: fits_def)
  have f1: "unat (?f + 1) = Suc (unat ?f)" "unat ?f < 2 ^ 32 - 1"
    using fin [of ?start] start f e(2) by (simp_all add: word_less_nat_alt unat_plus_no_wrap)
  have "unat (sat_sub ?stop 1) < length (ver e)" using stop1 st(1,2) e(2) by linarith
  from fin [OF this] have last: "unat ?last < 2 ^ 32 - 1" "unat ?f \<le> unat ?last"
    using f1 l stop1 by (simp_all add: max_def word_le_nat_alt)
  have "(unat ?stop - 1) div ?B \<le> unat ?last" using l by (simp add: max_def word_le_nat_alt)
  then have "unat ?stop - 1 < (unat ?last + 1) * ?B"
    using div_less_iff_less_mult [of ?B "unat ?stop - 1" "unat ?last + 1"] by simp
  then have cover: "unat ?stop \<le> (unat ?last + 1) * ?B" using st(1) by linarith
  have "body_of (bslice (unat (?f + 1) * ?B) (min ((unat ?last + 1) * ?B) (unat ?stop)) (ver e)) rest"
    using rest [unfolded ifm] st(2) e(2) last f1 by (intro rest_blocks_body [OF bs _ _ nodes]) auto
  moreover have "unat (min (min ?limit (block_offset ?bs (?f + 1))) ?size) = min (unat (?f + 1) * ?B) (unat ?stop)"
    using unat_block_offset [OF bs, of "?f + 1"] by (simp add: unat_min min.left_commute min.assoc)
  then have "body_of (bslice (unat ?start) (min (unat (?f + 1) * ?B) (unat ?stop)) (ver e)) (resp_body first)"
    using body by simp
  moreover have "unat ?start \<le> unat (?f + 1) * ?B"
    using f f1(1) dividend_less_div_times [of ?B "unat ?start"] by simp
  moreover have "unat (?f + 1) * ?B \<le> (unat ?last + 1) * ?B" using last(2) f1(1) by simp
  ultimately have "body_of (bslice (unat ?start) (min ((unat ?last + 1) * ?B) (unat ?stop)) (ver e)) (resp_body first @ rest)"
    using body_of_append bslice_append_min by metis
  then show ?thesis using e start cover by (auto simp: answers_version_def resp min_absorb2)
qed

text \<open>
  C5: a cluster of origins is an origin: where every node keeps the contract of an origin for an object,
  so does the cluster. A read that was split into blocks, each answered by whichever node it was
  routed, hedged or failed over to, while nodes joined, left and went down, is the asked part of one
  version of the object, the one its metadata are of, or ends with an error.
\<close>

theorem cluster_answers_version:
  assumes "valid_block_size (cc_block_size (cl_config c))" and "nodes_answer E bk key ver"
    and "\<And>e. fits (cc_block_size (cl_config c)) (length (ver e))"
    and "cluster_get E bk key opts c = (Inr resp, c')"
  shows "answers_version ver opts resp"
  using assms by (rule cluster_get_contract)

text \<open>
  An engine over a cluster: where the tags of the engine tell the versions apart as the entity tags
  of the nodes do, the origin of the namespace is faithful.
\<close>

definition heads_answer :: "cluster_env \<Rightarrow> string \<Rightarrow> string \<Rightarrow> (bytes \<Rightarrow> bytes) \<Rightarrow> bool" where
  "heads_answer E bk key ver \<longleftrightarrow>
     (\<forall>n t a ready m. ce_head E n t a bk key = (ready, Inr m) \<longrightarrow>
        (\<exists>e. meta_etag m = Some e \<and> unat (meta_size m) = length (ver e)))"

definition tags_agree :: "tag_hash \<Rightarrow> versions \<Rightarrow> namespace_state \<Rightarrow> string \<Rightarrow> (bytes \<Rightarrow> bytes) \<Rightarrow> bool" where
  "tags_agree h ver ns key kver \<longleftrightarrow>
     (\<forall>m e. meta_etag m = Some e \<longrightarrow> unat (meta_size m) = length (kver e) \<longrightarrow>
        ver (ns_id ns) key (block_tag h (consistency_of ns) m) = kver e \<and> length e < 2 ^ 16)"

lemma tags_agree_meta:
  assumes "tags_agree h ver ns key kver" and "\<And>e. fits (bs_of ns) (length (kver e))"
    and "meta_etag m = Some e" and "unat (meta_size m) = length (kver e)"
  shows "meta_of_version h ver ns key m" and "ver (ns_id ns) key (block_tag h (consistency_of ns) m) = kver e"
  using assms by (auto simp: tags_agree_def meta_of_version_def)

lemma cluster_origin_faithful:
  assumes "\<And>k. valid_block_size (cc_block_size (cl_config (hist k)))"
    and nodes: "\<And>key. nodes_answer E bk key (kver key)" and heads: "\<And>key. heads_answer E bk key (kver key)"
    and tags: "\<And>key. tags_agree (e_tag e) ver ns key (kver key)"
    and fit: "\<And>key x. fits (bs_of ns) (length (kver key x))"
      "\<And>k key x. fits (cc_block_size (cl_config (hist k))) (length (kver key x))"
    and get: "\<And>k t key opts. snd (e_get e k t (ns_id ns) key opts) = fst (cluster_get E bk key opts (hist k))"
    and head: "\<And>k t key. snd (e_head e k t (ns_id ns) key) = fst (cluster_head E bk key (hist k))"
  shows "faithful e ver ns"
proof -
  have "response_of_version (e_tag e) ver ns key resp" if g: "e_get e k t (ns_id ns) key opts = (ready, Inr resp)"
    for k t key opts ready resp
  proof -
    obtain c' where "cluster_get E bk key opts (hist k) = (Inr resp, c')"
      using get [of k t key opts] g by (cases "cluster_get E bk key opts (hist k)") simp
    from cluster_get_contract [OF assms(1) nodes fit(2) this]
    have a: "answers_version (kver key) opts resp" .
    then obtain x where "meta_etag (resp_meta resp) = Some x" "unat (meta_size (resp_meta resp)) = length (kver key x)"
        "prefix (body_bytes (resp_body resp))
           (bslice (unat (range_start (resp_range resp))) (unat (range_end (resp_range resp))) (kver key x))"
      by (auto simp: answers_version_def body_of_def)
    then show ?thesis using tags_agree_meta [OF tags fit(1)] by (simp add: response_of_version_def)
  qed
  moreover have "meta_of_version (e_tag e) ver ns key m" if g: "e_head e k t (ns_id ns) key = (ready, Inr m)" for k t key ready m
  proof -
    obtain c' where "cluster_head E bk key (hist k) = (Inr m, c')"
      using head [of k t key] g by (cases "cluster_head E bk key (hist k)") simp
    then have "node_answer (\<lambda>n t a. ce_head E n t a bk key) m" unfolding cluster_head_def by (rule hedged_from_node)
    then obtain x where "meta_etag m = Some x" "unat (meta_size m) = length (kver key x)"
      using heads [of key] unfolding node_answer_def heads_answer_def by blast
    then show ?thesis by (rule tags_agree_meta(1) [OF tags fit(1)])
  qed
  ultimately show ?thesis by (auto simp: faithful_def)
qed

section \<open>Examples\<close>

text \<open>Three nodes, of which the second refuses connections; an object of four bytes.\<close>

definition demo_content :: bytes where
  "demo_content = [1, 2, 3, 4]"

definition demo_object :: object_meta where
  "demo_object = \<lparr>meta_size = 4, meta_etag = Some [118], meta_last_modified = None\<rparr>"

definition demo_answer :: "nanos \<Rightarrow> get_options \<Rightarrow> origin_error + get_response" where
  "demo_answer t opts =
     (let start = options_start opts; stop = min (options_limit opts) 4
      in if opt_if_match opts \<noteq> None \<and> opt_if_match opts \<noteq> Some [118] then Inl PreconditionFailed
         else if start \<ge> 4 then Inl (Io ''range not satisfiable'')
         else Inr \<lparr>resp_meta = demo_object, resp_range = Range start stop,
                   resp_body = [(t, Inr (bslice (unat start) (unat stop) demo_content))]\<rparr>)"

definition demo_cluster_env :: cluster_env where
  "demo_cluster_env =
     \<lparr>ce_hash = demo_hashing, ce_build = (\<lambda>_ _ _. None),
      ce_get = (\<lambda>n t a bk key opts. (t, if a = demo_addr 2 then Inl (Io ''refused'') else demo_answer t opts)),
      ce_head = (\<lambda>n t a bk key. (t, if a = demo_addr 2 then Inl (Io ''refused'') else Inr demo_object)),
      ce_round = (\<lambda>x. x), ce_others = (\<lambda>c. c)\<rparr>"

lemma demo_nodes_answer: "nodes_answer demo_cluster_env bk key (\<lambda>_. demo_content)"
  by (auto simp: nodes_answer_def demo_cluster_env_def demo_answer_def answers_version_def demo_object_def
      demo_content_def body_of_def Let_def not_le split: if_splits)

lemma demo_default:
  "options_start get_options_default = 0" "options_limit get_options_default = u64_max" "opt_if_match get_options_default = None"
  by (simp_all add: options_start_def options_limit_def get_options_default_def)

lemma demo_hash: "ce_hash demo_cluster_env = demo_hashing"
  by (simp add: demo_cluster_env_def)

lemma demo_undisturbed: "undisturbed demo_cluster_env"
  by (simp add: undisturbed_def demo_cluster_env_def)

lemma demo_unreachable:
  "options_start opts = 0 \<Longrightarrow> opt_if_match opts = None \<Longrightarrow>
     unreachable (demo_addr 2) (\<lambda>n t a. ce_get demo_cluster_env n t a bk key opts)"
  by (simp add: unreachable_def demo_cluster_env_def demo_answer_def Let_def)

lemma demo_spare:
  "0 \<in> set (cl_nodes (demo_cluster [1, 2, 3]))" "spare (demo_addr 2) (cl_heap (demo_cluster [1, 2, 3]) 0)"
  by (simp_all add: demo_cluster_def cluster_new_def membership_resolve_def membership_dns_def alloc_node_def
      spare_def node_new_def demo_addr_def cluster_config_default_def)

theorem one_node_down_tolerated_witness:
  "\<exists>resp c'. routed_block demo_cluster_env ''docs'' ''k'' 1 0 get_options_default (demo_cluster [1, 2, 3]) = (Inr resp, c')"
  by (rule one_node_down_tolerated [OF demo_undisturbed demo_unreachable demo_spare(1,2)])
    (simp_all add: demo_default)

theorem read_returns_loads_witness:
  "loads (snd (cluster_get demo_cluster_env ''docs'' ''k'' get_options_default (demo_cluster [1, 2, 3]))) =
     loads (demo_cluster [1, 2, 3])"
  by (rule read_returns_loads [OF _ prod.collapse [symmetric]]) (simp add: loads_kept_def demo_cluster_env_def)

lemma demo_read:
  "\<exists>resp c'. cluster_get demo_cluster_env ''docs'' ''k'' get_options_default (demo_cluster [1, 2, 3]) = (Inr resp, c')"
proof -
  let ?opts = "get_options_default\<lparr>opt_range := Some (Range 0 (min u64_max (block_offset default_block_size (block_index default_block_size 0 + 1))))\<rparr>"
  obtain first c1 where "routed_block demo_cluster_env ''docs'' ''k'' (hs_object demo_hashing ''docs'' ''k'')
      (block_index default_block_size 0) ?opts (demo_cluster [1, 2, 3]) = (Inr first, c1)"
    using hedged_available [OF demo_undisturbed demo_unreachable [of ?opts], of 0 _ "demo_cluster [1, 2, 3]"] demo_spare
    by (fastforce simp: routed_block_def cluster_rank_def ranked_def demo_default)
  then show ?thesis
    by (simp add: cluster_get_def demo_cluster_dns(2) cluster_config_default_def demo_hash
        get_options_default_def u64_max_def Let_def split: prod.splits)
qed

theorem cluster_answers_version_witness:
  "\<exists>resp c'. cluster_get demo_cluster_env ''docs'' ''k'' get_options_default (demo_cluster [1, 2, 3]) = (Inr resp, c')
     \<and> answers_version (\<lambda>_. demo_content) get_options_default resp"
proof -
  obtain resp c' where run: "cluster_get demo_cluster_env ''docs'' ''k'' get_options_default (demo_cluster [1, 2, 3]) = (Inr resp, c')"
    using demo_read by blast
  have "answers_version (\<lambda>_. demo_content) get_options_default resp"
    by (rule cluster_answers_version [OF _ demo_nodes_answer _ run])
      (simp_all add: demo_cluster_dns(2) cluster_config_default_def default_block_size_def valid_block_size_def fits_def
        block_usize_def demo_content_def)
  then show ?thesis using run by blast
qed

end
