(* ===== verification/Object_Store.thy ===== *)
theory Object_Store
  imports S3_Served Cluster_Read
begin

text \<open>
  The adapters to the traits of the \<^verbatim>\<open>object_store\<close> crate, \<^verbatim>\<open>nestor-store/src/error.rs\<close>, \<^verbatim>\<open>origin.rs\<close> and
  \<^verbatim>\<open>store.rs\<close>: any object store as an origin of the engine, and the engine as an object store whose
  reads are cached and whose writes go to the wrapped store and refresh the cache. The theorems show
  that the first keeps the contract of an origin, that reads through the second are of one version,
  and that no write leaves metadata from before it.

  The wrapped store and the parsing of paths are parameters. Listings pass through and are left out.
\<close>

section \<open>Types of the crate\<close>

text \<open>The source of an error: a boxed error of an origin, an error of the engine, or a text.\<close>

datatype boxed = BoxIo string | BoxNestor nestor_error | BoxText string

datatype store_error =
    SNotFound string boxed
  | SPrecondition string boxed
  | SNotModified string boxed
  | SGeneric string boxed
  | SOther string \<comment> \<open>the other variants, by their text\<close>

datatype get_range = GBounded "u64 urange" | GOffset u64 | GSuffix u64

record store_options =
  sg_range :: "get_range option"
  sg_if_match :: "string option"
  sg_if_none_match :: "string option"
  sg_if_modified_since :: "systime option"
  sg_if_unmodified_since :: "systime option"
  sg_version :: "string option"
  sg_head :: bool

definition store_options_default :: store_options where
  "store_options_default =
     \<lparr>sg_range = None, sg_if_match = None, sg_if_none_match = None, sg_if_modified_since = None,
      sg_if_unmodified_since = None, sg_version = None, sg_head = False\<rparr>"

record store_meta =
  sm_location :: string
  sm_last_modified :: systime
  sm_size :: u64
  sm_e_tag :: "string option"
  sm_version :: "string option"

section \<open>Errors\<close>

definition STORE :: string where "STORE = ''nestor''"

text \<open>\<open>shown\<close> is the text of an error.\<close>

definition from_store :: "(store_error \<Rightarrow> string) \<Rightarrow> store_error \<Rightarrow> origin_error" where
  "from_store shown e =
     (case e of
        SNotFound _ _ \<Rightarrow> NotFound
      | SPrecondition _ _ \<Rightarrow> PreconditionFailed
      | SNotModified _ _ \<Rightarrow> NotModified
      | other \<Rightarrow> Io (shown other))"

definition to_store :: "nestor_error \<Rightarrow> string \<Rightarrow> store_error" where
  "to_store e path =
     (if is_not_found e then SNotFound path (BoxNestor e)
      else if is_stale e then SPrecondition path (BoxNestor e)
      else case e of
             EOrigin (Io source) \<Rightarrow> SGeneric STORE (BoxIo source)
           | other \<Rightarrow> SGeneric STORE (BoxNestor other))"

section \<open>A store as an origin\<close>

text \<open>\<^verbatim>\<open>Path::parse\<close> and \<^verbatim>\<open>Path::from\<close>.\<close>

record paths =
  pa_parse :: "string \<Rightarrow> string option"
  pa_from :: "string \<Rightarrow> string"

definition path_of :: "paths \<Rightarrow> string \<Rightarrow> string" where
  "path_of pa object = (case pa_parse pa object of Some p \<Rightarrow> p | None \<Rightarrow> pa_from pa object)"

definition etag_string :: "bytes \<Rightarrow> string" where
  "etag_string etag = of_bytes (utf8_lossy etag)"

definition meta_from_store :: "store_meta \<Rightarrow> object_meta" where
  "meta_from_store m =
     \<lparr>meta_size = sm_size m, meta_etag = map_option as_bytes (sm_e_tag m), meta_last_modified = Some (sm_last_modified m)\<rparr>"

text \<open>An answer of the wrapped store.\<close>

record store_answer =
  sa_meta :: store_meta
  sa_range :: "u64 urange"
  sa_body :: "(nanos \<times> (store_error + bytes)) list"

definition store_origin_get ::
  "paths \<Rightarrow> (store_error \<Rightarrow> string) \<Rightarrow> (string \<Rightarrow> store_options \<Rightarrow> store_error + store_answer) \<Rightarrow> string \<Rightarrow> get_options
     \<Rightarrow> origin_error + get_response" where
  "store_origin_get pa shown inner object options =
     (let path = path_of pa object;
          get = store_options_default
            \<lparr>sg_range := map_option GBounded (opt_range options),
             sg_if_match := map_option etag_string (opt_if_match options),
             sg_if_none_match := map_option etag_string (opt_if_none_match options)\<rparr>
      in case inner path get of
           Inl e \<Rightarrow> Inl (from_store shown e)
         | Inr a \<Rightarrow>
             Inr \<lparr>resp_meta = meta_from_store (sa_meta a), resp_range = sa_range a,
                  resp_body = map (map_prod id (map_sum (from_store shown) id)) (sa_body a)\<rparr>)"

definition store_origin_head ::
  "paths \<Rightarrow> (store_error \<Rightarrow> string) \<Rightarrow> (string \<Rightarrow> store_error + store_meta) \<Rightarrow> string \<Rightarrow> origin_error + object_meta" where
  "store_origin_head pa shown inner object =
     (case inner (path_of pa object) of
        Inl e \<Rightarrow> Inl (from_store shown e)
      | Inr m \<Rightarrow> Inr (meta_from_store m))"

section \<open>The engine as a store\<close>

record nestor_store =
  st_namespace :: u32
  st_populate :: bool

definition nestor_store_new :: "u32 \<Rightarrow> nestor_store" where
  "nestor_store_new i = \<lparr>st_namespace = i, st_populate = True\<rparr>"

definition populate_on_write :: "bool \<Rightarrow> nestor_store \<Rightarrow> nestor_store" where
  "populate_on_write b s = s\<lparr>st_populate := b\<rparr>"

definition store_invalidate :: "env \<Rightarrow> nestor_store \<Rightarrow> string \<Rightarrow> world \<Rightarrow> world" where
  "store_invalidate e s location w = snd (node_invalidate e (st_namespace s) location w)"

text \<open>A payload is a list of chunks.\<close>

definition payload_bytes :: "bytes list \<Rightarrow> bytes" where
  "payload_bytes payload =
     (case payload of
        [] \<Rightarrow> []
      | [single] \<Rightarrow> single
      | first # second # chunks \<Rightarrow> fold (\<lambda>chunk buf. buf @ chunk) chunks (first @ second))"

record put_result =
  pr_e_tag :: "string option"
  pr_version :: "string option"

definition store_populate :: "env \<Rightarrow> nestor_store \<Rightarrow> string \<Rightarrow> bytes list \<Rightarrow> put_result \<Rightarrow> world \<Rightarrow> world" where
  "store_populate e s location payload result w =
     (if \<not> st_populate s then w
      else snd (node_insert e (st_namespace s) location (map_option as_bytes (pr_e_tag result)) (payload_bytes payload) w))"

definition store_head :: "env \<Rightarrow> nestor_store \<Rightarrow> string \<Rightarrow> world \<Rightarrow> (store_error + object_meta) \<times> world" where
  "store_head e s location w =
     (case node_head e (st_namespace s) location w of
        (Inl err, w) \<Rightarrow> (Inl (to_store err location), w)
      | (Inr m, w) \<Rightarrow> (Inr m, w))"

definition to_store_meta :: "string \<Rightarrow> object_meta \<Rightarrow> store_meta" where
  "to_store_meta location m =
     \<lparr>sm_location = location, sm_last_modified = unwrap_or (meta_last_modified m) 0, sm_size = meta_size m,
      sm_e_tag = map_option etag_string (meta_etag m), sm_version = None\<rparr>"

definition store_read_range :: "get_range option \<Rightarrow> read_range" where
  "store_read_range r =
     (case r of
        None \<Rightarrow> Full
      | Some (GBounded r) \<Rightarrow> Bounded r
      | Some (GOffset off) \<Rightarrow> From off
      | Some (GSuffix n) \<Rightarrow> Suffix n)"

definition store_preconditions :: "store_options \<Rightarrow> preconditions" where
  "store_preconditions options =
     \<lparr>if_match = sg_if_match options, if_none_match = sg_if_none_match options,
      if_modified_since = sg_if_modified_since options, if_unmodified_since = sg_if_unmodified_since options\<rparr>"

definition store_check :: "store_options \<Rightarrow> string \<Rightarrow> object_meta \<Rightarrow> store_error option" where
  "store_check options key m =
     (case evaluate (store_preconditions options) m of
        PNotModified \<Rightarrow> Some (SNotModified key (BoxText ''preconditions not modified''))
      | PFailed \<Rightarrow> Some (SPrecondition key (BoxText ''preconditions failed''))
      | Satisfied \<Rightarrow> None)"

text \<open>The result of a get; a request for the head alone has no stream.\<close>

record store_result =
  gr_meta :: store_meta
  gr_range :: "u64 urange"
  gr_payload :: "read_stream option"

definition store_get_opts ::
  "env \<Rightarrow> nestor_store \<Rightarrow> string \<Rightarrow> store_options \<Rightarrow> world \<Rightarrow> (store_error + store_result) run \<times> world" where
  "store_get_opts e s location options w =
     (if sg_head options
      then (case store_head e s location w of
              (Inl err, w) \<Rightarrow> (Returns (Inl err), w)
            | (Inr m, w) \<Rightarrow>
                (case store_check options location m of
                   Some err \<Rightarrow> (Returns (Inl err), w)
                 | None \<Rightarrow>
                     (Returns (Inr \<lparr>gr_meta = to_store_meta location m, gr_range = Range 0 (meta_size m), gr_payload = None\<rparr>), w)))
      else
        case node_get e (st_namespace s) location (store_read_range (sg_range options)) w of
          None \<Rightarrow> (Panics, w)
        | Some (Inl err, w) \<Rightarrow> (Returns (Inl (to_store err location)), w)
        | Some (Inr st, w) \<Rightarrow>
            (case stream_ready e st w of
               None \<Rightarrow> (Hangs, w)
             | Some (Inl err, st, w) \<Rightarrow> (Returns (Inl (to_store err location)), w)
             | Some (Inr m, st, w) \<Rightarrow>
                 (case store_check options location m of
                    Some err \<Rightarrow> (Returns (Inl err), w)
                  | None \<Rightarrow>
                      (Returns (Inr \<lparr>gr_meta = to_store_meta location m, gr_range = stream_range st, gr_payload = Some st\<rparr>), w))))"

text \<open>The stream of a result, with its errors translated.\<close>

definition store_collect :: "env \<Rightarrow> string \<Rightarrow> read_stream option \<Rightarrow> world \<Rightarrow> ((store_error + bytes) \<times> world) option" where
  "store_collect e location payload w =
     (case payload of
        None \<Rightarrow> Some (Inr [], w)
      | Some st \<Rightarrow>
          (case stream_collect e st w of
             None \<Rightarrow> None
           | Some (Inl err, w) \<Rightarrow> Some (Inl (to_store err location), w)
           | Some (Inr b, w) \<Rightarrow> Some (Inr b, w)))"

text \<open>The reads of \<^verbatim>\<open>get_ranges\<close> run one after the other.\<close>

fun store_get_ranges ::
  "env \<Rightarrow> nestor_store \<Rightarrow> string \<Rightarrow> u64 urange list \<Rightarrow> world \<Rightarrow> ((store_error + bytes list) \<times> world) option" where
  "store_get_ranges e s location [] w = Some (Inr [], w)"
| "store_get_ranges e s location (r # rs) w =
     (case node_read e (st_namespace s) location r w of
        None \<Rightarrow> None
      | Some (Inl err, w) \<Rightarrow> Some (Inl (to_store err location), w)
      | Some (Inr b, w) \<Rightarrow>
          (case store_get_ranges e s location rs w of
             None \<Rightarrow> None
           | Some (Inl err, w) \<Rightarrow> Some (Inl err, w)
           | Some (Inr bs, w) \<Rightarrow> Some (Inr (b # bs), w)))"

section \<open>Writes\<close>

text \<open>In each, \<open>answered\<close> is what the wrapped store answers.\<close>

definition store_put :: "env \<Rightarrow> nestor_store \<Rightarrow> store_error + put_result \<Rightarrow> string \<Rightarrow> bytes list \<Rightarrow> world
    \<Rightarrow> (store_error + put_result) \<times> world" where
  "store_put e s answered location payload w =
     (case answered of
        Inl err \<Rightarrow> (Inl err, w)
      | Inr result \<Rightarrow> (Inr result, store_populate e s location payload result (store_invalidate e s location w)))"

text \<open>\<^verbatim>\<open>InvalidatingUpload::complete\<close>.\<close>

definition upload_complete :: "env \<Rightarrow> nestor_store \<Rightarrow> store_error + put_result \<Rightarrow> string \<Rightarrow> world
    \<Rightarrow> (store_error + put_result) \<times> world" where
  "upload_complete e s answered location w =
     (case answered of
        Inl err \<Rightarrow> (Inl err, w)
      | Inr result \<Rightarrow> (Inr result, store_invalidate e s location w))"

definition store_delete_stream :: "env \<Rightarrow> nestor_store \<Rightarrow> (store_error + string) list \<Rightarrow> world \<Rightarrow> (store_error + string) list \<times> world" where
  "store_delete_stream e s answered w =
     (answered, fold (\<lambda>r w. case r of Inl _ \<Rightarrow> w | Inr path \<Rightarrow> store_invalidate e s path w) answered w)"

definition store_copy :: "env \<Rightarrow> nestor_store \<Rightarrow> store_error + unit \<Rightarrow> string \<Rightarrow> string \<Rightarrow> world \<Rightarrow> (store_error + unit) \<times> world" where
  "store_copy e s answered src dst w =
     (case answered of
        Inl err \<Rightarrow> (Inl err, w)
      | Inr _ \<Rightarrow> (Inr (), store_invalidate e s dst w))"

definition store_rename :: "env \<Rightarrow> nestor_store \<Rightarrow> store_error + unit \<Rightarrow> string \<Rightarrow> string \<Rightarrow> world \<Rightarrow> (store_error + unit) \<times> world" where
  "store_rename e s answered src dst w =
     (case answered of
        Inl err \<Rightarrow> (Inl err, w)
      | Inr _ \<Rightarrow> (Inr (), store_invalidate e s dst (store_invalidate e s src w)))"

section \<open>Errors keep their kind\<close>

text \<open>A cache over a cache: an error keeps its kind on the way through both adapters.\<close>

lemma errors_keep_kind:
  "from_store shown (to_store err path) =
     (if is_not_found err then NotFound else if is_stale err then PreconditionFailed
      else Io (shown (to_store err path)))"
  by (auto simp: from_store_def to_store_def split: nestor_error.splits origin_error.splits)

section \<open>A store as an origin keeps the contract\<close>

text \<open>
  What \<^verbatim>\<open>object_store\<close> promises of a get for one object whose versions are told apart by their entity
  tags: as \<^const>\<open>answers_version\<close>, in the types of the crate.
\<close>

definition plain_body :: "(nanos \<times> (store_error + bytes)) list \<Rightarrow> chunk list" where
  "plain_body = map (map_prod id (map_sum (\<lambda>_. Io []) id))"

definition store_answers :: "(string \<Rightarrow> bytes) \<Rightarrow> store_options \<Rightarrow> store_answer \<Rightarrow> bool" where
  "store_answers ver options a \<longleftrightarrow>
     (\<exists>tag start limit. sm_e_tag (sa_meta a) = Some tag
        \<and> unat (sm_size (sa_meta a)) = length (ver tag)
        \<and> (\<forall>x. sg_if_match options = Some x \<longrightarrow> x = tag)
        \<and> (sg_range options = None \<and> start = 0 \<and> limit = u64_max \<or> sg_range options = Some (GBounded (Range start limit)))
        \<and> start < sm_size (sa_meta a)
        \<and> sa_range a = Range start (min limit (sm_size (sa_meta a)))
        \<and> body_of (bslice (unat start) (unat (min limit (sm_size (sa_meta a)))) (ver tag)) (plain_body (sa_body a)))"

lemma body_of_errors:
  "body_of d (map (map_prod id (map_sum f id)) cs) \<longleftrightarrow> body_of d (map (map_prod id (map_sum g id)) cs)"
proof -
  have "body_bytes (map (map_prod id (map_sum f id)) cs) = body_bytes (map (map_prod id (map_sum g id)) cs)"
    and "drain (map (map_prod id (map_sum f id)) cs) = Inr () \<longleftrightarrow> drain (map (map_prod id (map_sum g id)) cs) = Inr ()"
    by (induction cs) (auto simp: map_prod_def map_sum_def split: sum.splits)
  then show ?thesis by (simp add: body_of_def)
qed

lemma store_origin_answers:
  assumes "\<And>options a. inner (path_of pa object) options = Inr a \<Longrightarrow> store_answers (\<lambda>tag. ver (as_bytes tag)) options a"
    and "\<And>x. opt_if_match options = Some x \<Longrightarrow> utf8_valid x"
    and "store_origin_get pa shown inner object options = Inr resp"
  shows "answers_version ver options resp"
proof -
  let ?get = "store_options_default
      \<lparr>sg_range := map_option GBounded (opt_range options), sg_if_match := map_option etag_string (opt_if_match options),
       sg_if_none_match := map_option etag_string (opt_if_none_match options)\<rparr>"
  obtain a where a: "inner (path_of pa object) ?get = Inr a"
      and resp: "resp = \<lparr>resp_meta = meta_from_store (sa_meta a), resp_range = sa_range a,
        resp_body = map (map_prod id (map_sum (from_store shown) id)) (sa_body a)\<rparr>"
    using assms(3) by (auto simp: store_origin_get_def Let_def split: sum.splits)
  from assms(1) [OF a] obtain tag start limit where t: "sm_e_tag (sa_meta a) = Some tag"
      "unat (sm_size (sa_meta a)) = length (ver (as_bytes tag))"
      "\<forall>x. map_option etag_string (opt_if_match options) = Some x \<longrightarrow> x = tag"
      "opt_range options = None \<and> start = 0 \<and> limit = u64_max \<or> opt_range options = Some (Range start limit)"
      "start < sm_size (sa_meta a)" "sa_range a = Range start (min limit (sm_size (sa_meta a)))"
      "body_of (bslice (unat start) (unat (min limit (sm_size (sa_meta a)))) (ver (as_bytes tag))) (plain_body (sa_body a))"
    by (auto simp: store_answers_def)
  have "x = as_bytes tag" if "opt_if_match options = Some x" for x
    using t(3) that assms(2) [OF that] by (auto simp: etag_string_def utf8_lossy_valid)
  moreover have "options_start options = start" "options_limit options = limit"
    using t(4) by (auto simp: options_start_def options_limit_def)
  ultimately show ?thesis
    using t body_of_errors [where f = "from_store shown" and g = "\<lambda>_. Io []"]
    by (auto simp: answers_version_def resp meta_from_store_def plain_body_def)
qed

section \<open>Reads\<close>

text \<open>What the options of a get ask for, said of the bytes of the object.\<close>

fun asked_part :: "get_range option \<Rightarrow> bytes \<Rightarrow> bytes" where
  "asked_part None data = data"
| "asked_part (Some (GBounded r)) data = take (unat (range_end r) - unat (range_start r)) (drop (unat (range_start r)) data)"
| "asked_part (Some (GOffset off)) data = drop (unat off) data"
| "asked_part (Some (GSuffix n)) data = drop (length data - unat n) data"

lemma answer_asked_part: "answer (store_read_range r) data = asked_part r data"
  by (induction r data rule: asked_part.induct)
    (auto simp: store_read_range_def answer_def bslice_def min_def not_less)

text \<open>
  The conditions of the options on the metadata of the object: a tag is named by a list that has it,
  weak or not, or a star, and instants are compared in whole seconds.
\<close>

definition names_tag :: "string \<Rightarrow> object_meta \<Rightarrow> bool" where
  "names_tag candidates m \<longleftrightarrow>
     (\<exists>c \<in> set (split_on CHR '','' candidates). trim c = ''*''
        \<or> (\<exists>v s. meta_etag m = Some v \<and> from_utf8 v = Some s
            \<and> trim_start_matches ''W/'' (trim c) = trim_start_matches ''W/'' s))"

definition refused :: "store_options \<Rightarrow> object_meta \<Rightarrow> bool" where
  "refused options m \<longleftrightarrow>
     (\<exists>c. sg_if_match options = Some c \<and> \<not> names_tag c m)
     \<or> (\<exists>t s. sg_if_unmodified_since options = Some t \<and> meta_last_modified m = Some s \<and> whole_seconds t < whole_seconds s)"

definition unchanged :: "store_options \<Rightarrow> object_meta \<Rightarrow> bool" where
  "unchanged options m \<longleftrightarrow>
     (\<exists>c. sg_if_none_match options = Some c \<and> names_tag c m)
     \<or> sg_if_none_match options = None
       \<and> (\<exists>t s. sg_if_modified_since options = Some t \<and> meta_last_modified m = Some s \<and> whole_seconds s \<le> whole_seconds t)"

definition judged :: "store_options \<Rightarrow> string \<Rightarrow> object_meta \<Rightarrow> 'r \<Rightarrow> store_error + 'r \<Rightarrow> bool" where
  "judged options location m r res \<longleftrightarrow>
     (if refused options m then \<exists>why. res = Inl (SPrecondition location why)
      else if unchanged options m then \<exists>why. res = Inl (SNotModified location why)
      else res = Inr r)"

definition unconditional :: "store_options \<Rightarrow> store_options" where
  "unconditional options =
     options\<lparr>sg_if_match := None, sg_if_none_match := None, sg_if_modified_since := None, sg_if_unmodified_since := None\<rparr>"

lemma etag_matches_names: "etag_matches m candidates \<longleftrightarrow> names_tag candidates m"
  by (auto simp: etag_matches_def names_tag_def etag_text_def list_ex_iff split: option.splits)

lemma store_check_unconditional: "store_check (unconditional options) location m = None"
  by (simp add: store_check_def unconditional_def evaluate_def store_preconditions_def)

lemma evaluate_conditions:
  "evaluate (store_preconditions options) m =
     (if refused options m then PFailed else if unchanged options m then PNotModified else Satisfied)"
proof -
  have after: "modified_after m t = Some True \<longleftrightarrow> (\<exists>s. meta_last_modified m = Some s \<and> whole_seconds t < whole_seconds s)"
      "modified_after m t = Some False \<longleftrightarrow> (\<exists>s. meta_last_modified m = Some s \<and> whole_seconds s \<le> whole_seconds t)" for t
    by (auto simp: modified_after_def)
  show ?thesis
    unfolding evaluate_def refused_def unchanged_def store_preconditions_def preconditions.simps etag_matches_names after
    by (cases "sg_if_match options"; cases "sg_if_unmodified_since options"; cases "sg_if_none_match options";
        cases "sg_if_modified_since options") simp_all
qed

lemma store_check_judged:
  "store_check options location m = None \<Longrightarrow> judged options location m r (Inr r)"
  "store_check options location m = Some err \<Longrightarrow> judged options location m r (Inl err)"
  by (auto simp: judged_def store_check_def evaluate_conditions split: if_splits)

lemma store_get_opts_judged:
  assumes "store_get_opts e s location (unconditional options) w = (Returns res0, w')"
  shows "\<exists>res. store_get_opts e s location options w = (Returns res, w')
    \<and> (case res0 of Inl err \<Rightarrow> res = Inl err
       | Inr r \<Rightarrow> \<exists>m. gr_meta r = to_store_meta location m \<and> judged options location m r res)"
proof -
  have o: "sg_head (unconditional options) = sg_head options" "sg_range (unconditional options) = sg_range options"
    by (simp_all add: unconditional_def)
  show ?thesis using assms
    by (auto simp: store_get_opts_def o store_check_unconditional
        split: if_splits prod.splits sum.splits option.splits) (blast intro: store_check_judged)+
qed

lemma store_stream_answer:
  assumes "env_ok e ver nsf" and "versions_fit nsf ver" and "registered nsf w" and "node_ok e ver nsf w"
  shows "\<exists>res w'. store_get_opts e s location options w = (Returns res, w') \<and> node_ok e ver nsf w' \<and> registered nsf w'
    \<and> (\<forall>r st. res = Inr r \<and> gr_payload r = Some st \<longrightarrow>
        (\<exists>out w2. store_collect e location (Some st) w' = Some (out, w2) \<and> node_ok e ver nsf w2
          \<and> (\<forall>bytes. out = Inr bytes \<longrightarrow>
              (\<exists>tag. (is_immutable (consistency_of (nsf (st_namespace s))) \<longrightarrow> tag = IMMUTABLE_TAG)
                \<and> bytes = answer (store_read_range (sg_range options)) (ver (st_namespace s) location tag)))))"
proof (cases "sg_head options")
  case True
  obtain res w1 where h: "node_head e (st_namespace s) location w = (res, w1)" by fastforce
  have a: "advances e ver nsf w w1" using node_head_ok [OF assms(1,3,4) h] by blast
  then show ?thesis
    using True h advances_node_ok [OF a] registered_advances [OF a assms(3)]
    by (cases res) (auto simp: store_get_opts_def store_head_def split: option.splits)
next
  case False
  let ?req = "store_read_range (sg_range options)" and ?i = "st_namespace s"
  let ?o = "\<lparr>ro_range = ?req, ro_fetch = overrides_default\<rparr>"
  obtain res w1 where g: "node_get e ?i location ?req w = Some (res, w1)" "advances e ver nsf w w1"
      "\<And>st. res = Inr st \<Longrightarrow> \<exists>r st' w2. stream_ready e st w1 = Some (r, st', w2) \<and> advances e ver nsf w w2
        \<and> (\<forall>m. r = Inr m \<longrightarrow> ready_for e ver nsf ?i location ?req st' w2)"
    using opened_stream_ok [OF assms, of ?i location ?o] by (auto simp: node_get_def)
  note ok = advances_node_ok registered_advances [OF _ assms(3)]
  show ?thesis
  proof (cases res)
    case (Inl err)
    then show ?thesis using False g(1) ok [OF g(2)] by (simp add: store_get_opts_def)
  next
    case (Inr st)
    from g(3) [OF Inr] obtain r st' w2 where r: "stream_ready e st w1 = Some (r, st', w2)" "advances e ver nsf w w2"
        "\<And>m. r = Inr m \<Longrightarrow> ready_for e ver nsf ?i location ?req st' w2" by blast
    show ?thesis
    proof (cases "\<exists>m. r = Inr m \<and> store_check options location m = None")
      case True
      then obtain m where m: "r = Inr m" "store_check options location m = None" by blast
      have run: "store_get_opts e s location options w =
          (Returns (Inr \<lparr>gr_meta = to_store_meta location m, gr_range = stream_range st', gr_payload = Some st'\<rparr>), w2)"
        using False g(1) Inr r(1) m by (simp add: store_get_opts_def)
      obtain out w3 where out: "stream_collect e st' w2 = Some (out, w3)" "node_ok e ver nsf w3"
          "\<And>bytes. out = Inr bytes \<Longrightarrow> \<exists>tag. (is_immutable (consistency_of (nsf ?i)) \<longrightarrow> tag = IMMUTABLE_TAG)
            \<and> bytes = answer ?req (ver ?i location tag)"
        using ready_for_collect [OF assms(1) r(3) [OF m(1)]] by blast
      then have "\<exists>out w3. store_collect e location (Some st') w2 = Some (out, w3) \<and> node_ok e ver nsf w3
          \<and> (\<forall>bytes. out = Inr bytes \<longrightarrow>
              (\<exists>tag. (is_immutable (consistency_of (nsf ?i)) \<longrightarrow> tag = IMMUTABLE_TAG) \<and> bytes = answer ?req (ver ?i location tag)))"
        by (cases out) (auto simp: store_collect_def)
      then show ?thesis using run ok [OF r(2)] by auto
    next
      case none: False
      then have "\<exists>err. store_get_opts e s location options w = (Returns (Inl err), w2)"
        using False g(1) Inr r(1) by (cases r) (auto simp: store_get_opts_def)
      then show ?thesis using ok [OF r(2)] by auto
    qed
  qed
qed

text \<open>
  C10: a read through the store always gets an answer. Its stream, read to the end, gives an error or
  exactly the bytes the options ask for of one version of the object, and the node stays sound. The
  conditions of the options decide over the result a read without them would have, on the metadata
  that result reports: a tag that does not match or a later modification is a failed precondition, a
  matching tag to exclude or no modification since is not modified, and otherwise the result stands.
\<close>

theorem store_read_correct:
  assumes "env_ok e ver nsf" and "versions_fit nsf ver" and "registered nsf w" and "node_ok e ver nsf w"
  shows "\<exists>res res0 w'. store_get_opts e s location options w = (Returns res, w') \<and> node_ok e ver nsf w' \<and> registered nsf w'
    \<and> store_get_opts e s location (unconditional options) w = (Returns res0, w')
    \<and> (case res0 of Inl err \<Rightarrow> res = Inl err
       | Inr r \<Rightarrow> \<exists>m. gr_meta r = to_store_meta location m \<and> judged options location m r res)
    \<and> (\<forall>r st. res = Inr r \<and> gr_payload r = Some st \<longrightarrow>
        (\<exists>out w2. store_collect e location (Some st) w' = Some (out, w2) \<and> node_ok e ver nsf w2
          \<and> (\<forall>bytes. out = Inr bytes \<longrightarrow>
              (\<exists>tag. (is_immutable (consistency_of (nsf (st_namespace s))) \<longrightarrow> tag = IMMUTABLE_TAG)
                \<and> bytes = asked_part (sg_range options) (ver (st_namespace s) location tag)))))"
proof -
  obtain res0 w' where r0: "store_get_opts e s location (unconditional options) w = (Returns res0, w')"
    using store_stream_answer [OF assms] by blast
  from store_get_opts_judged [OF r0] obtain res where r: "store_get_opts e s location options w = (Returns res, w')"
      "case res0 of Inl err \<Rightarrow> res = Inl err
       | Inr r \<Rightarrow> \<exists>m. gr_meta r = to_store_meta location m \<and> judged options location m r res" by blast
  show ?thesis using store_stream_answer [OF assms, of s location options, unfolded answer_asked_part] r r0 by auto
qed

section \<open>Writes refresh the cache\<close>

lemma payload_bytes_concat: "payload_bytes payload = concat payload"
proof -
  have "fold (\<lambda>chunk buf. buf @ chunk) chunks buf = buf @ concat chunks" for chunks :: "bytes list" and buf
    by (induction chunks arbitrary: buf) simp_all
  then show ?thesis by (simp add: payload_bytes_def split: list.splits)
qed

lemma store_invalidate_key: "store_invalidate e s = invalidate_key e (st_namespace s)"
  by (simp add: store_invalidate_def invalidate_key_def fun_eq_iff)

lemma delete_stream_invalidates:
  "snd (store_delete_stream e s answered w) = fold (invalidate_key e (st_namespace s)) (concat (map (case_sum (\<lambda>_. []) (\<lambda>p. [p])) answered)) w"
proof -
  have "fold (\<lambda>r w. case r of Inl _ \<Rightarrow> w | Inr path \<Rightarrow> store_invalidate e s path w) answered w =
      fold (invalidate_key e (st_namespace s)) (concat (map (case_sum (\<lambda>_. []) (\<lambda>p. [p])) answered)) w" for w
    by (induction answered arbitrary: w) (auto simp: store_invalidate_key split: sum.splits)
  then show ?thesis by (simp add: store_delete_stream_def)
qed

lemma put_meta_written:
  assumes "engine_state w (st_namespace s) = Inr ns"
  shows "latest (w_meta (snd (store_put e s (Inr result) location payload w))) (object_key_new (st_namespace s) location) =
    (if st_populate s
     then Some \<lparr>entry_meta = object_meta_new (of_nat (length (concat payload))) (map_option as_bytes (pr_e_tag result)), entry_at = now w\<rparr>
     else None)"
  using invalidate_key_meta [OF assms] node_insert_meta [of "invalidate_key e (st_namespace s) location w" "st_namespace s" ns] assms
  by (simp add: store_put_def store_populate_def store_invalidate_key payload_bytes_concat)


section \<open>Examples\<close>

theorem store_read_correct_witness:
  "\<exists>res w'. store_get_opts demo_env (nestor_store_new 0) ''a'' (store_options_default\<lparr>sg_range := Some (GSuffix 2)\<rparr>) demo_node
      = (Returns res, w') \<and> node_ok demo_env demo_versions demo_namespace w'
    \<and> (case res of
         Inl _ \<Rightarrow> True
       | Inr r \<Rightarrow>
           (case gr_payload r of
              None \<Rightarrow> True
            | Some st \<Rightarrow> \<exists>out w2. store_collect demo_env ''a'' (Some st) w' = Some (out, w2)
                \<and> (case out of Inl _ \<Rightarrow> True | Inr bytes \<Rightarrow> bytes = [3, 4])))"
proof -
  let ?o = "store_options_default\<lparr>sg_range := Some (GSuffix 2)\<rparr>"
  have ans: "asked_part (sg_range ?o) (demo_versions 0 ''a'' tag) = [3, 4]" for tag
    by (simp add: demo_versions_def)
  obtain res w' where r: "store_get_opts demo_env (nestor_store_new 0) ''a'' ?o demo_node = (Returns res, w')"
      "node_ok demo_env demo_versions demo_namespace w'"
      "\<And>r st. res = Inr r \<Longrightarrow> gr_payload r = Some st \<Longrightarrow>
        \<exists>out w2. store_collect demo_env ''a'' (Some st) w' = Some (out, w2) \<and> (\<forall>bytes. out = Inr bytes \<longrightarrow> bytes = [3, 4])"
    using store_read_correct [OF demo_sound(1,2,4,3), of "nestor_store_new 0" "''a''" ?o]
    by (simp only: ans nestor_store.simps nestor_store_new_def) blast
  have "\<exists>out w2. store_collect demo_env ''a'' (Some st) w' = Some (out, w2) \<and> (case out of Inl _ \<Rightarrow> True | Inr bytes \<Rightarrow> bytes = [3, 4])"
    if "res = Inr r" "gr_payload r = Some st" for r st
    using r(3) [OF that] by (force split: sum.split)
  then show ?thesis using r(1,2) by (cases res) (auto split: option.split)
qed


end
