(* ===== verification/Configuration.thy ===== *)
theory Configuration
  imports S3_Routes Cluster_Read
begin

text \<open>
  The configuration of the server, \<^verbatim>\<open>nestor-cli/src/config.rs\<close>, and the origins of a server in front of
  a cluster, \<^verbatim>\<open>nestor-cli/src/cluster.rs\<close>: the sections of the file as records with their defaults,
  what they are turned into, and what validation lets through. The theorems show that validation
  accepts exactly the configurations it means to, and that in an accepted one a range inside one
  block of the gateway costs one request to the cluster.

  Reading the file and the environment is left to \<^verbatim>\<open>figment\<close> and \<^verbatim>\<open>serde\<close>: the records are what they
  deliver. A size in bytes is a 64-bit word and a \<^verbatim>\<open>usize\<close> as wide. An error is its text.
\<close>

section \<open>Server\<close>

text \<open>\<^verbatim>\<open>IpAddr::is_loopback\<close> on the address of a socket, of family 4 or 6.\<close>

definition is_loopback :: "socket_addr \<Rightarrow> bool" where
  "is_loopback a = (case a of (family, ip, _) \<Rightarrow> if family = 4 then ip div 2 ^ 24 = 127 else ip = 1)"

definition localhost :: "nat \<Rightarrow> socket_addr" where
  "localhost port = (4, 127 * 2 ^ 24 + 1, port, 0, 0)"

record admin_section =
  ad_listen :: socket_addr
  ad_enabled :: bool
  ad_insecure_allow_remote :: bool

definition admin_default :: admin_section where
  "admin_default = \<lparr>ad_listen = localhost 9190, ad_enabled = True, ad_insecure_allow_remote = False\<rparr>"

record tls_section =
  tls_cert :: string
  tls_key :: string

datatype addressing_style = StylePath | StyleVirtualHosted string

definition addressing_from :: "addressing_style \<Rightarrow> addressing" where
  "addressing_from style = (case style of StylePath \<Rightarrow> PathStyle | StyleVirtualHosted domain \<Rightarrow> VirtualHosted domain)"

record server_section =
  se_listen :: socket_addr
  se_tls :: "tls_section option"
  se_metrics :: "socket_addr option"
  se_addressing :: addressing_style
  se_admin :: admin_section

definition server_default :: server_section where
  "server_default =
     \<lparr>se_listen = localhost 9000, se_tls = None, se_metrics = None, se_addressing = StylePath, se_admin = admin_default\<rparr>"

section \<open>Origin and clients\<close>

datatype origin_credentials = CredDefault | CredAnonymous | CredStatic string string "string option"

record origin_section =
  or_scheme :: "string option"
  or_authority :: "string option"
  or_region :: string
  or_credentials :: origin_credentials
  or_virtual_hosted :: bool

definition origin_default :: origin_section where
  "origin_default =
     \<lparr>or_scheme = Some ''https'', or_authority = Some ''s3.us-east-1.amazonaws.com'', or_region = ''us-east-1'',
      or_credentials = CredDefault, or_virtual_hosted = False\<rparr>"

text \<open>\<open>found\<close> is what resolving the credentials of the environment ends with.\<close>

definition origin_build :: "string + unit \<Rightarrow> origin_section \<Rightarrow> string + origin_config" where
  "origin_build found o1 =
     (let config = with_virtual_hosted (or_virtual_hosted o1) (origin_anonymous (or_scheme o1) (or_authority o1) (or_region o1))
      in case or_credentials o1 of
           CredAnonymous \<Rightarrow> Inr config
         | CredDefault \<Rightarrow>
             (case found of
                Inl e \<Rightarrow> Inl ''resolving origin credentials from the environment''
              | Inr _ \<Rightarrow> Inr (config\<lparr>oc_credentials := True\<rparr>))
         | CredStatic _ _ _ \<Rightarrow> Inr (with_static_credentials config))"

datatype auth_mode = ModeAnonymous | ModeStatic string string

definition auth_from :: "auth_mode \<Rightarrow> auth" where
  "auth_from mode = (case mode of ModeAnonymous \<Rightarrow> Anonymous | ModeStatic ak sk \<Rightarrow> S3_Signing.Static ak sk)"

section \<open>Cache\<close>

datatype disk_compression_mode = CompressNone | CompressLz4 | CompressZstd

definition compression_from :: "disk_compression_mode \<Rightarrow> compression" where
  "compression_from m = (case m of CompressNone \<Rightarrow> NoCompression | CompressLz4 \<Rightarrow> Lz4 | CompressZstd \<Rightarrow> Zstd)"

datatype disk_recovery = RecoveryNone | RecoveryQuiet | RecoveryStrict

definition recovery_from :: "disk_recovery \<Rightarrow> recover_mode" where
  "recovery_from m = (case m of RecoveryNone \<Rightarrow> RecoverNone | RecoveryQuiet \<Rightarrow> RecoverQuiet | RecoveryStrict \<Rightarrow> RecoverStrict)"

record disk_section =
  di_path :: string
  di_capacity :: u64
  di_admission :: disk_admission
  di_region_size :: u64
  di_direct_io :: bool
  di_compression :: disk_compression_mode
  di_recover :: disk_recovery
  di_io :: disk_io
  di_runtime_threads :: "u64 option"

definition disk_default :: disk_section where
  "disk_default =
     (let defaults = disk_config_new ''/var/lib/nestor'' (8 * 1024 * 1024 * 1024)
      in \<lparr>di_path = disk_path defaults, di_capacity = disk_capacity defaults, di_admission = admission defaults,
          di_region_size = region_size defaults, di_direct_io = direct_io defaults,
          di_compression = CompressNone, di_recover = RecoveryQuiet, di_io = disk_io defaults, di_runtime_threads = None\<rparr>)"

definition disk_build :: "disk_section \<Rightarrow> disk_config" where
  "disk_build d =
     (disk_config_new (di_path d) (di_capacity d))
       \<lparr>admission := di_admission d, region_size := di_region_size d, direct_io := di_direct_io d,
        disk_compression := compression_from (di_compression d), disk_recover := recovery_from (di_recover d), disk_io := di_io d,
        cfg_runtime_threads := di_runtime_threads d\<rparr>"

record cache_section =
  ca_memory :: u64
  ca_shards :: "u64 option"
  ca_disk :: "disk_section option"
  ca_meta_entries :: nat
  ca_origin_concurrency :: nat
  ca_readahead_concurrency :: nat
  ca_hedge_concurrency :: nat

definition cache_default :: cache_section where
  "cache_default =
     \<lparr>ca_memory = 256 * 1024 * 1024, ca_shards = None, ca_disk = None, ca_meta_entries = 100000,
      ca_origin_concurrency = 64, ca_readahead_concurrency = 16, ca_hedge_concurrency = 16\<rparr>"

definition cache_builder :: "u64 \<Rightarrow> cache_section \<Rightarrow> nestor_builder" where
  "cache_builder cores c =
     (let cache = cache_config_memory cores (ca_memory c);
          cache = (case ca_shards c of Some n \<Rightarrow> cache\<lparr>cache_shards := n\<rparr> | None \<Rightarrow> cache);
          cache = (case ca_disk c of Some disk \<Rightarrow> cache\<lparr>cache_disk := Some (disk_build disk)\<rparr> | None \<Rightarrow> cache)
      in builder_hedge_concurrency (ca_hedge_concurrency c)
           (builder_readahead_concurrency (ca_readahead_concurrency c)
             (builder_origin_concurrency (ca_origin_concurrency c)
               (builder_meta_capacity (ca_meta_entries c) (builder_new cache)))))"

section \<open>Buckets\<close>

record buckets_section =
  bu_block_size :: u64
  bu_fetch_window :: u32
  bu_read_window :: u32
  bu_consistency :: consistency
  bu_readahead :: u32
  bu_fetch :: fetch_policy
  bu_populate_max :: "u64 option"

definition buckets_default :: buckets_section where
  "buckets_default =
     (let defaults = namespace_config_default
      in \<lparr>bu_block_size = block_bytes (ns_block_size defaults), bu_fetch_window = fetch_window defaults,
          bu_read_window = read_window defaults, bu_consistency = ns_consistency defaults,
          bu_readahead = readahead defaults, bu_fetch = fetch defaults, bu_populate_max = Some (16 * 1024 * 1024)\<rparr>)"

text \<open>\<^verbatim>\<open>u32::try_from\<close> followed by \<^verbatim>\<open>BlockSize::new\<close>.\<close>

definition block_size_from :: "u64 \<Rightarrow> block_size option" where
  "block_size_from n = (if n > ucast u32_max then None else block_size_new (ucast n))"

definition buckets_namespace :: "buckets_section \<Rightarrow> string + namespace_config" where
  "buckets_namespace b =
     (case block_size_from (bu_block_size b) of
        None \<Rightarrow> Inl ''buckets.block_size must be a power of two between 65536 and 16777216 bytes''
      | Some bs \<Rightarrow>
          Inr \<lparr>ns_block_size = bs, fetch_window = bu_fetch_window b, read_window = bu_read_window b,
               ns_consistency = bu_consistency b, readahead = bu_readahead b, fetch = bu_fetch b\<rparr>)"

section \<open>Cluster\<close>

record cluster_section =
  cs_nodes :: "socket_addr list"
  cs_dns :: "string option"
  cs_refresh :: nanos
  cs_block_size :: u64
  cs_read_window :: u32
  cs_load_limit :: nat
  cs_down_for :: nanos
  cs_hedge :: "hedge_config option"
  cs_tls :: bool
  cs_credentials :: "cluster_credentials option"
  cs_warm_on_write :: bool

definition cluster_default :: cluster_section where
  "cluster_default =
     (let defaults = cluster_config_default
      in \<lparr>cs_nodes = [], cs_dns = None, cs_refresh = from_secs 10, cs_block_size = block_bytes (cc_block_size defaults),
          cs_read_window = cc_read_window defaults, cs_load_limit = cc_load_limit defaults, cs_down_for = cc_down_for defaults,
          cs_hedge = cc_hedge defaults, cs_tls = cc_tls defaults, cs_credentials = None, cs_warm_on_write = False\<rparr>)"

definition parse_u16 :: "string \<Rightarrow> u16 option" where
  "parse_u16 s = map_option of_nat (parse_uint 10 (2 ^ 16) s)"

definition cluster_membership :: "cluster_section \<Rightarrow> string + membership" where
  "cluster_membership c =
     (case (cs_dns c, cs_nodes c = []) of
        (Some _, False) \<Rightarrow> Inl ''cluster.nodes and cluster.dns are mutually exclusive''
      | (None, True) \<Rightarrow> Inl ''cluster requires either cluster.nodes or cluster.dns''
      | (None, False) \<Rightarrow> Inr (Cluster.Static (cs_nodes c))
      | (Some dns, True) \<Rightarrow>
          (case rsplit_once CHR '':'' dns of
             None \<Rightarrow> Inl ''cluster.dns must be host:port''
           | Some (host, port) \<Rightarrow>
               (case parse_u16 port of
                  None \<Rightarrow> Inl (''cluster.dns has an invalid port: '' @ port)
                | Some p \<Rightarrow> Inr (membership_refresh (cs_refresh c) (membership_dns host p)))))"

definition cluster_build :: "cluster_section \<Rightarrow> string + cluster_config" where
  "cluster_build c =
     (case block_size_from (cs_block_size c) of
        None \<Rightarrow> Inl ''cluster.block_size must be a power of two between 65536 and 16777216 bytes''
      | Some bs \<Rightarrow>
          Inr \<lparr>cc_block_size = bs, cc_read_window = cs_read_window c, cc_load_limit = cs_load_limit c,
               cc_down_for = cs_down_for c, cc_hedge = cs_hedge c, cc_tls = cs_tls c, cc_credentials = cs_credentials c\<rparr>)"

section \<open>The configuration\<close>

record config =
  co_server :: server_section
  co_origin :: origin_section
  co_auth :: auth_mode
  co_cache :: cache_section
  co_buckets :: buckets_section
  co_cluster :: "cluster_section option"

definition config_default :: config where
  "config_default =
     \<lparr>co_server = server_default, co_origin = origin_default, co_auth = ModeAnonymous, co_cache = cache_default,
      co_buckets = buckets_default, co_cluster = None\<rparr>"

definition validate_cluster :: "config \<Rightarrow> string + unit" where
  "validate_cluster c =
     (case co_cluster c of
        None \<Rightarrow> Inr ()
      | Some cl \<Rightarrow>
          (case cluster_membership cl of
             Inl e \<Rightarrow> Inl e
           | Inr _ \<Rightarrow>
               (case buckets_namespace (co_buckets c) of
                  Inl e \<Rightarrow> Inl e
                | Inr ns \<Rightarrow>
                    (case cluster_build cl of
                       Inl e \<Rightarrow> Inl e
                     | Inr cfg \<Rightarrow>
                         if block_bytes (cc_block_size cfg) mod block_bytes (ns_block_size ns) \<noteq> 0
                         then Inl (''cluster.block_size ('' @ show_u64 (block_bytes (cc_block_size cfg))
                                @ '') must be a multiple of buckets.block_size ('' @ show_u64 (block_bytes (ns_block_size ns)) @ '')'')
                         else Inr ()))))"

text \<open>\<^verbatim>\<open>Config::validate\<close>; \<open>shown\<close> is the text of an address. The warning about anonymous plain HTTP is left out.\<close>

definition validate :: "(socket_addr \<Rightarrow> string) \<Rightarrow> config \<Rightarrow> string + unit" where
  "validate shown c =
     (if or_authority (co_origin c) = None then Inl ''origin.endpoint must include a host''
      else case validate_cluster c of
             Inl e \<Rightarrow> Inl e
           | Inr _ \<Rightarrow>
               let admin = se_admin (co_server c)
               in if ad_enabled admin \<and> \<not> is_loopback (ad_listen admin) \<and> \<not> ad_insecure_allow_remote admin
                  then Inl (''server.admin.listen ('' @ shown (ad_listen admin)
                         @ '') is not loopback; set server.admin.insecure_allow_remote = true to bind it'')
                  else Inr ())"

text \<open>\<^verbatim>\<open>Config::s3\<close>, as the service it configures; \<open>origins\<close> are those of the cluster, when there is one.\<close>

definition config_s3 :: "string + unit \<Rightarrow> (string \<Rightarrow> s3_error + unit) \<Rightarrow> config \<Rightarrow> string + service" where
  "config_s3 found origins c =
     (case origin_build found (co_origin c) of
        Inl e \<Rightarrow> Inl e
      | Inr origin \<Rightarrow>
          (case buckets_namespace (co_buckets c) of
             Inl e \<Rightarrow> Inl e
           | Inr ns \<Rightarrow>
               Inr (service_new (auth_from (co_auth c)) (addressing_from (se_addressing (co_server c))) ns
                      (map_option unat (bu_populate_max (co_buckets c))) origin origins)))"

section \<open>A server in front of a cluster\<close>

text \<open>\<^verbatim>\<open>ClusterOrigins::connect\<close>.\<close>

definition origins_connect ::
  "hashing \<Rightarrow> resolver \<Rightarrow> string option \<Rightarrow> nanos \<Rightarrow> cluster_section \<Rightarrow> string + cluster" where
  "origins_connect hs looked_up transport t c =
     (case cluster_membership c of
        Inl e \<Rightarrow> Inl e
      | Inr m \<Rightarrow>
          (case cluster_build c of
             Inl e \<Rightarrow> Inl e
           | Inr cfg \<Rightarrow>
               (case cluster_new hs looked_up transport t m cfg of
                  Inl e \<Rightarrow> Inl ''connecting to cluster''
                | Inr cl \<Rightarrow> Inr cl)))"

text \<open>\<^verbatim>\<open>ClusterOrigins::written\<close>, with the warming it spawns.\<close>

definition origins_written :: "cluster_env \<Rightarrow> cluster_section \<Rightarrow> string \<Rightarrow> string \<Rightarrow> u64 \<Rightarrow> cluster \<Rightarrow> cluster" where
  "origins_written E c bk key sz cl = (if \<not> cs_warm_on_write c then cl else snd (cluster_warm E bk key sz cl))"

section \<open>What validation lets through\<close>

lemma block_size_from_valid: "block_size_from n = Some bs \<Longrightarrow> valid_block_size bs"
  by (simp add: block_size_from_def block_size_new_Some split: if_splits)

lemma validate_iff:
  "validate shown c = Inr () \<longleftrightarrow>
     or_authority (co_origin c) \<noteq> None
     \<and> (ad_enabled (se_admin (co_server c)) \<longrightarrow>
          is_loopback (ad_listen (se_admin (co_server c))) \<or> ad_insecure_allow_remote (se_admin (co_server c)))
     \<and> (\<forall>cl. co_cluster c = Some cl \<longrightarrow>
          (\<exists>m ns cfg. cluster_membership cl = Inr m \<and> buckets_namespace (co_buckets c) = Inr ns \<and> cluster_build cl = Inr cfg
             \<and> block_bytes (cc_block_size cfg) mod block_bytes (ns_block_size ns) = 0))"
  by (auto simp: validate_def validate_cluster_def Let_def split: option.splits sum.splits if_splits)

lemma nested_index:
  assumes "d dvd c" and "x div d = y div d" and "x \<le> z" and "z \<le> (y :: nat)"
  shows "z div c = x div c"
proof -
  obtain k where k: "c = d * k" using assms(1) by (auto elim: dvdE)
  have "x div d \<le> z div d" "z div d \<le> y div d" using assms(3,4) by (simp_all add: div_le_mono)
  then have "z div d = x div d" using assms(2) by simp
  then show ?thesis by (simp add: k div_mult2_eq)
qed

text \<open>A range inside one block of the cluster is read by one request, to the nodes of that block.\<close>

lemma cluster_get_one_block:
  assumes v: "valid_block_size (cc_block_size (cl_config c))" and r: "opt_range opts = Some (Range a b)" "a < b"
    and i: "unat i < 2 ^ 32 - 1" and in_block: "unat i * block_usize (cc_block_size (cl_config c)) \<le> unat a"
      "unat b \<le> (unat i + 1) * block_usize (cc_block_size (cl_config c))"
  shows "cluster_get E bk key opts c =
    (case routed_block E bk key (hs_object (ce_hash E) bk key) i opts c of
       (Inl e, c) \<Rightarrow> (Inl e, c)
     | (Inr resp, c) \<Rightarrow> (Inr (resp\<lparr>resp_range := Range a (min b (meta_size (resp_meta resp)))\<rparr>), c))"
proof -
  let ?bs = "cc_block_size (cl_config c)"
  have idx: "block_index ?bs x = i" if "unat a \<le> unat x" "unat x < unat b" for x :: u64
  proof -
    have "unat x div block_usize ?bs = unat i"
      by (rule div_nat_eqI) (use that in_block in \<open>auto simp: algebra_simps\<close>)
    then show ?thesis using i by (simp add: word_unat_eq_iff unat_block_index_less)
  qed
  have first: "block_index ?bs a = i" by (rule idx) (use r(2) in \<open>simp_all add: word_less_nat_alt\<close>)
  have suc: "unat (i + 1) = unat i + 1" using i by (simp add: unat_plus_if')
  then have "b \<le> block_offset ?bs (i + 1)" using in_block(2) by (simp add: word_le_nat_alt unat_block_offset [OF v])
  then have opts: "opts\<lparr>opt_range := Some (Range a (min b (block_offset ?bs (i + 1))))\<rparr> = opts" using r(1) by (simp add: min_absorb1)
  have last: "max (block_index ?bs (sat_sub (min b n) 1)) i = i" for n
  proof -
    have "unat (sat_sub (min b n) 1) \<le> unat b - 1" by (simp add: unat_sat_sub unat_min diff_le_mono)
    then have "unat (sat_sub (min b n) 1) < (unat i + 1) * block_usize ?bs"
      using in_block(2) r(2) by (simp add: word_less_nat_alt)
    then have "unat (sat_sub (min b n) 1) div block_usize ?bs < unat i + 1" by (rule less_mult_imp_div_less)
    then have "block_index ?bs (sat_sub (min b n) 1) \<le> i" using i by (simp add: word_le_nat_alt unat_block_index_less)
    then show ?thesis by (rule max_absorb2)
  qed
  have resp: "\<lparr>resp_meta = resp_meta x, resp_range = y, resp_body = resp_body x\<rparr> = x\<lparr>resp_range := y\<rparr>" for x y by (cases x) simp
  show ?thesis
    using r by (auto simp: cluster_get_def first opts last suc resp Let_def split: prod.splits sum.splits)
qed

text \<open>
  C12: in a configuration that validation accepts, a range inside one block of the gateway lies inside one
  block of the cluster, so a fetch of such a range is one request, with the range as it is, to the
  nodes ranked for that block, and no further ones.
\<close>

theorem gateway_block_one_request:
  assumes "validate shown cf = Inr ()" and "co_cluster cf = Some cl"
    and "buckets_namespace (co_buckets cf) = Inr ns" and "cluster_build cl = Inr (cl_config c)"
    and "opt_range opts = Some (Range a b)" and "a < b"
    and "block_index (ns_block_size ns) a = block_index (ns_block_size ns) (b - 1)" and "fits (ns_block_size ns) (unat b)"
  shows "\<exists>i. (\<forall>x. a \<le> x \<and> x < b \<longrightarrow> block_index (cc_block_size (cl_config c)) x = i)
    \<and> cluster_get E bk key opts c =
        (case routed_block E bk key (hs_object (ce_hash E) bk key) i opts c of
           (Inl e, c) \<Rightarrow> (Inl e, c)
         | (Inr resp, c) \<Rightarrow> (Inr (resp\<lparr>resp_range := Range a (min b (meta_size (resp_meta resp)))\<rparr>), c))"
proof -
  let ?n = "ns_block_size ns" and ?c = "cc_block_size (cl_config c)"
  have nv: "valid_block_size ?n" using assms(3) by (auto simp: buckets_namespace_def block_size_from_valid split: option.splits)
  have "valid_block_size (cc_block_size cfg)" if "cluster_build cl = Inr cfg" for cfg
    using that by (auto simp: cluster_build_def block_size_from_valid split: option.splits)
  note cv = this [OF assms(4)]
  have "block_bytes ?c mod block_bytes ?n = 0" using assms(1-4) by (auto simp: validate_iff)
  then have "unat (block_bytes ?c) mod unat (block_bytes ?n) = 0" by (metis unat_0 unat_mod_distrib)
  then have dvd: "block_usize ?n dvd block_usize ?c" by (simp add: unat_block_bytes [OF nv] unat_block_bytes [OF cv] mod_0_imp_dvd)
  have b1: "unat (b - 1) = unat b - 1" using assms(6) by (simp add: unat_sub word_le_nat_alt word_less_nat_alt)
  have ab: "unat a < unat b" using assms(6) by (simp add: word_less_nat_alt)
  have same: "unat a div block_usize ?n = (unat b - 1) div block_usize ?n"
    using arg_cong [OF assms(7), of unat] unat_block_index_fits [OF nv assms(8)] ab b1 by simp
  have within: "z div block_usize ?c = unat a div block_usize ?c" if "unat a \<le> z" "z < unat b" for z
    by (rule nested_index [OF dvd same]) (use that in simp_all)
  have "unat a < (2 ^ 32 - 1) * block_usize ?c"
  proof -
    have "(2 ^ 32 - 1) * block_usize ?n \<le> (2 ^ 32 - 1) * block_usize ?c" using dvd by (simp add: dvd_imp_le)
    then show ?thesis using assms(8) ab unfolding fits_def by linarith
  qed
  then have small: "unat a div block_usize ?c < 2 ^ 32 - 1" by (rule less_mult_imp_div_less)
  let ?i = "block_index ?c a"
  have i: "unat ?i = unat a div block_usize ?c" using small by (simp add: unat_block_index_less)
  have "block_index ?c x = ?i" if "a \<le> x" "x < b" for x
    using within [of "unat x"] that by (simp add: word_unat_eq_iff unat_block_index word_le_nat_alt word_less_nat_alt)
  moreover have "unat b \<le> (unat ?i + 1) * block_usize ?c"
    using within [of "unat b - 1"] ab i dividend_less_div_times [of "block_usize ?c" "unat b - 1"] by (simp add: algebra_simps)
  moreover have "unat ?i * block_usize ?c \<le> unat a" by (simp add: i)
  ultimately show ?thesis
    using cluster_get_one_block [OF cv assms(5,6), of ?i] small i by auto
qed

definition demo_cluster_section :: cluster_section where
  "demo_cluster_section = cluster_default\<lparr>cs_nodes := [localhost 9001, localhost 9002]\<rparr>"

definition demo_config :: config where
  "demo_config = config_default\<lparr>co_cluster := Some demo_cluster_section\<rparr>"

lemma demo_block_size: "block_size_from (block_bytes default_block_size) = Some default_block_size"
proof -
  have "block_bytes default_block_size = 1048576" by (simp add: block_bytes_def default_block_size_def)
  then show ?thesis
    by (simp add: block_size_from_def block_size_new_Some u32_max_def word_less_nat_alt valid_block_size_def
        default_block_size_def block_usize_def unat_minus_one_word)
qed

lemma demo_config_parts:
  "\<exists>ns. buckets_namespace (co_buckets demo_config) = Inr ns \<and> ns_block_size ns = default_block_size"
  "\<exists>cfg. cluster_build demo_cluster_section = Inr cfg \<and> cc_block_size cfg = default_block_size"
  "\<exists>m. cluster_membership demo_cluster_section = Inr m"
  by (simp_all add: buckets_namespace_def demo_config_def config_default_def buckets_default_def namespace_config_default_def
      cluster_build_def demo_cluster_section_def cluster_default_def cluster_config_default_def cluster_membership_def
      demo_block_size Let_def)

lemma demo_config_valid: "validate shown demo_config = Inr ()"
proof -
  have "or_authority (co_origin demo_config) \<noteq> None"
    and "is_loopback (ad_listen (se_admin (co_server demo_config)))"
    and "co_cluster demo_config = Some demo_cluster_section"
    by (simp_all add: demo_config_def config_default_def origin_default_def server_default_def admin_default_def
        is_loopback_def localhost_def)
  then show ?thesis unfolding validate_iff using demo_config_parts by auto
qed

theorem gateway_block_one_request_witness:
  "\<exists>cfg c. cluster_build demo_cluster_section = Inr cfg \<and> cl_config c = cfg
    \<and> (\<exists>i. cluster_get demo_cluster_env ''docs'' ''k'' (get_options_default\<lparr>opt_range := Some (Range 5 8)\<rparr>) c =
        (case routed_block demo_cluster_env ''docs'' ''k'' (hs_object (ce_hash demo_cluster_env) ''docs'' ''k'') i
              (get_options_default\<lparr>opt_range := Some (Range 5 8)\<rparr>) c of
           (Inl e, c) \<Rightarrow> (Inl e, c)
         | (Inr resp, c) \<Rightarrow> (Inr (resp\<lparr>resp_range := Range 5 (min 8 (meta_size (resp_meta resp)))\<rparr>), c)))"
proof -
  obtain ns cfg where p: "buckets_namespace (co_buckets demo_config) = Inr ns" "ns_block_size ns = default_block_size"
      "cluster_build demo_cluster_section = Inr cfg" using demo_config_parts by auto
  have b: "block_index default_block_size 5 = block_index default_block_size (8 - 1)" "fits default_block_size (unat (8 :: u64))"
    by (simp_all add: word_unat_eq_iff unat_block_index fits_def default_block_size_def block_usize_def)
  let ?c = "(demo_cluster [1, 2, 3])\<lparr>cl_config := cfg\<rparr>"
  have "co_cluster demo_config = Some demo_cluster_section" by (simp add: demo_config_def)
  from gateway_block_one_request [OF demo_config_valid this p(1), of ?c "get_options_default\<lparr>opt_range := Some (Range 5 8)\<rparr>" 5 8
      demo_cluster_env "''docs''" "''k''"] p b
  have "\<exists>i. cluster_get demo_cluster_env ''docs'' ''k'' (get_options_default\<lparr>opt_range := Some (Range 5 8)\<rparr>) ?c =
        (case routed_block demo_cluster_env ''docs'' ''k'' (hs_object (ce_hash demo_cluster_env) ''docs'' ''k'') i
              (get_options_default\<lparr>opt_range := Some (Range 5 8)\<rparr>) ?c of
           (Inl e, c) \<Rightarrow> (Inl e, c)
         | (Inr resp, c) \<Rightarrow> (Inr (resp\<lparr>resp_range := Range 5 (min 8 (meta_size (resp_meta resp)))\<rparr>), c))"
    by (auto simp: word_less_nat_alt)
  then show ?thesis using p(3) by (intro exI [of _ cfg] exI [of _ ?c]) simp
qed

text \<open>A number of shards from the file is taken as it is, zero too, where \<^verbatim>\<open>CacheConfig::shards\<close> makes it one.\<close>

lemma zero_shards_kept:
  "ca_shards s = Some 0 \<Longrightarrow>
     cache_shards (nb_cache (cache_builder cores s)) = 0 \<and> cache_shards (with_shards 0 cfg) = 1"
  by (simp add: cache_builder_def builder_hedge_concurrency_def builder_readahead_concurrency_def
      builder_origin_concurrency_def builder_meta_capacity_def builder_new_def with_shards_def Let_def split: option.splits)

section \<open>A window of no blocks\<close>

text \<open>The windows are taken as they are, where the setters of \<^verbatim>\<open>NamespaceConfig\<close> make a zero one.\<close>

lemma buckets_windows:
  "buckets_namespace b = Inr cfg \<Longrightarrow> read_window cfg = bu_read_window b"
  "buckets_namespace b = Inr cfg \<Longrightarrow> fetch_window cfg = bu_fetch_window b"
  "1 \<le> read_window (with_read_window n cfg) \<and> 1 \<le> fetch_window (with_fetch_window n cfg)"
  by (auto simp: buckets_namespace_def with_read_window_def with_fetch_window_def split: option.splits)

text \<open>A reader that knows its object and has a window of no blocks ends at once.\<close>

lemma windowless_reader_ends:
  assumes "rd_known rd = Some m" and "read_window (ns_config (ctx_namespace (rd_ctx rd))) = 0" and "rd_window rd = []"
    and "\<not> rd_done rd"
  shows "reader_next e rd w = Some (None, rd\<lparr>rd_done := True\<rparr>, w)"
proof -
  have "learn e None rd w = (rd, w)" and "rd_size rd \<noteq> None" using assms(1) by (simp_all add: learn_def rd_size_def)
  then have "reader_fill e rd w = (rd, w)"
    using assms(2) by (simp add: reader_fill_def fill_loop.simps [of e 0 rd w])
  then show ?thesis using assms(3,4) by (simp add: reader_next.simps [of e rd w] reader_round_def)
qed

text \<open>
  C13: a configuration file with \<^verbatim>\<open>buckets.read_window = 0\<close> is accepted, and the window reaches the engine as it
  is: a read of an object whose metadata is cached then succeeds with no bytes at all, whatever the size
  of the object and the range asked for.
\<close>

theorem zero_read_window_reads_nothing:
  assumes "bu_read_window (co_buckets c) = 0" and "buckets_namespace (co_buckets c) = Inr (ns_config ns)"
    and "engine_state w i = Inr ns" and "lookup_meta e (object_key_new (ns_id ns) name) (ns_meta_ttl ns) w = (Fresh m, w1)"
    and "resolve request (meta_size m) = Inr r"
  shows "validate shown c = validate shown (c\<lparr>co_buckets := (co_buckets c)\<lparr>bu_read_window := n\<rparr>\<rparr>)
    \<and> (\<exists>st w'. node_get e i name request w = Some (Inr st, w') \<and> stream_collect e st w' = Some (Inr [], w'))"
proof -
  have win: "read_window (ns_config ns) = 0" using buckets_windows(1) [OF assms(2)] assms(1) by simp
  let ?ctx = "read_ctx_new (e_tag e) ns (object_key_new (ns_id ns) name) name (Some m) (policy_with (fetch (ns_config ns)) overrides_default)"
  let ?rd = "reader_new request ?ctx r []" and ?w = "observe_readahead e ns ?ctx r w1"
  have get: "node_get e i name request w = Some (Inr (into_stream ?rd), ?w)"
    using assms(3-5) by (simp add: node_get_def get_opts_def resolve_ctx_def ctx_size_def read_ctx_new_def Let_def)
  have "reader_next e ?rd w2 = Some (None, ?rd\<lparr>rd_done := True\<rparr>, w2)" for w2
    by (rule windowless_reader_ends) (simp_all add: reader_new_def read_ctx_new_def win Let_def)
  then have "stream_poll e (into_stream ?rd) w2 = Some (None, (into_stream ?rd)\<lparr>rs_reader := ?rd\<lparr>rd_done := True\<rparr>\<rparr>, w2)" for w2
    by (simp add: stream_poll_def into_stream_def)
  then have "stream_collect e (into_stream ?rd) w2 = Some (Inr [], w2)" for w2
    by (simp add: stream_collect_def collect_loop.simps [of e "[]" "into_stream ?rd"])
  then have "\<exists>st w'. node_get e i name request w = Some (Inr st, w') \<and> stream_collect e st w' = Some (Inr [], w')"
    using get by blast
  moreover have "validate shown c = validate shown (c\<lparr>co_buckets := (co_buckets c)\<lparr>bu_read_window := n\<rparr>\<rparr>)"
    by (simp add: validate_def validate_cluster_def buckets_namespace_def Let_def split: option.splits sum.splits)
  ultimately show ?thesis by blast
qed

definition windowless_config :: config where
  "windowless_config = config_default\<lparr>co_buckets := buckets_default\<lparr>bu_read_window := 0\<rparr>\<rparr>"

text \<open>A bucket of that configuration, and a node that knows an object of a million bytes in it.\<close>

definition windowless_namespace :: namespace where
  "windowless_namespace = (namespace_new ''docs'')\<lparr>namespace_config := namespace_config_default\<lparr>read_window := 0\<rparr>\<rparr>"

definition windowless_node :: world where
  "windowless_node =
     put_meta (object_key_new 0 ''a'') (object_meta_new 1000000 None)
       (builder_build (builder_namespace windowless_namespace (builder_new (cache_config_memory 1 1048576))) 0)"

theorem zero_read_window_reads_nothing_witness:
  "validate (\<lambda>_. []) windowless_config = Inr ()
   \<and> (\<exists>st w'. node_get demo_env 0 ''a'' (Bounded (Range 0 500000)) windowless_node = Some (Inr st, w')
        \<and> stream_collect demo_env st w' = Some (Inr [], w'))"
proof -
  let ?ns = "namespace_state_new 0 windowless_namespace" and ?m = "object_meta_new 1000000 None" and ?k = "object_key_new 0 ''a''"
  have b: "buckets_namespace (co_buckets windowless_config) = Inr (ns_config ?ns)"
    using demo_block_size
    by (simp add: buckets_namespace_def windowless_config_def windowless_namespace_def buckets_default_def namespace_new_def
        namespace_state_new_def namespace_config_default_def Let_def)
  have st: "engine_state windowless_node 0 = Inr ?ns"
    by (simp add: windowless_node_def builder_build_def builder_namespace_def builder_new_def node_register_def world_new_def
        engine_state_def engine_namespace_def put_meta_def windowless_namespace_def namespace_new_def Let_def)
  have "\<exists>w1. lookup_meta demo_env ?k (ns_meta_ttl ?ns) windowless_node = (Fresh ?m, w1)"
    by (simp add: lookup_meta_def meta_lookup_def lru_get_def demo_env_def memory_env_def windowless_node_def put_meta_def
        meta_put_def lru_insert_def split: option.splits)
  then obtain w1 where lk: "lookup_meta demo_env ?k (ns_meta_ttl ?ns) windowless_node = (Fresh ?m, w1)" by blast
  have r: "resolve (Bounded (Range 0 500000)) (meta_size ?m) = Inr (Range 0 500000)"
    by (simp add: object_meta_new_def word_less_nat_alt word_le_nat_alt)
  have w: "bu_read_window (co_buckets windowless_config) = 0" by (simp add: windowless_config_def)
  have v: "validate (\<lambda>_. []) config_default = Inr ()"
    by (simp add: validate_def validate_cluster_def config_default_def origin_default_def server_default_def admin_default_def
        is_loopback_def localhost_def)
  have "windowless_config\<lparr>co_buckets := (co_buckets windowless_config)\<lparr>bu_read_window := bu_read_window buckets_default\<rparr>\<rparr> = config_default"
    by (simp add: windowless_config_def config_default_def)
  then show ?thesis
    using zero_read_window_reads_nothing [OF w b st _ r, of demo_env "''a''" w1 "\<lambda>_. []" "bu_read_window buckets_default"] lk v
    by (simp add: namespace_state_new_def)
qed

end
