(* ===== verification/Admin.thy ===== *)
theory Admin
  imports S3_Routes Cluster
begin

text \<open>
  The admin API, \<^verbatim>\<open>nestor-server/src/admin.rs\<close>: readiness, the counters read back from the text the
  metrics exporter renders, the bodies of the status and namespace endpoints, and the files of the
  dashboard. The theorems show that the exported counters are read back, and that the totals are the
  sums over the namespaces.

  Routing, serialisation and the exporter are left to their libraries: the rendered text, the parser
  of floating-point numbers and the embedded files are parameters. A JSON value is a tree.
\<close>

section \<open>Names of metrics\<close>

definition BLOCKS_HIT :: string where "BLOCKS_HIT = ''nestor_blocks_hit_total''"
definition BLOCKS_MISS :: string where "BLOCKS_MISS = ''nestor_blocks_miss_total''"
definition BLOCKS_JOINED :: string where "BLOCKS_JOINED = ''nestor_blocks_joined_total''"
definition BLOCKS_STALE :: string where "BLOCKS_STALE = ''nestor_blocks_stale_total''"
definition ORIGIN_REQUESTS :: string where "ORIGIN_REQUESTS = ''nestor_origin_requests_total''"
definition ORIGIN_BYTES :: string where "ORIGIN_BYTES = ''nestor_origin_bytes_total''"
definition ORIGIN_ERRORS :: string where "ORIGIN_ERRORS = ''nestor_origin_errors_total''"
definition ORIGIN_RETRIES :: string where "ORIGIN_RETRIES = ''nestor_origin_retries_total''"
definition ORIGIN_TIMEOUTS :: string where "ORIGIN_TIMEOUTS = ''nestor_origin_timeouts_total''"
definition HEDGES :: string where "HEDGES = ''nestor_hedges_total''"
definition HEDGE_WINS :: string where "HEDGE_WINS = ''nestor_hedge_wins_total''"
definition READAHEAD_BLOCKS :: string where "READAHEAD_BLOCKS = ''nestor_readahead_blocks_total''"
definition META_HEADS :: string where "META_HEADS = ''nestor_meta_heads_total''"
definition BYTES_SERVED :: string where "BYTES_SERVED = ''nestor_bytes_served_total''"

section \<open>Samples\<close>

record sample =
  sp_name :: string
  sp_labels :: "string \<Rightarrow> string option"
  sp_value :: u64

text \<open>\<^verbatim>\<open>str::trim_end_matches\<close> and \<^verbatim>\<open>str::trim_matches\<close> with a character.\<close>

definition trim_end_char :: "char \<Rightarrow> string \<Rightarrow> string" where
  "trim_end_char c s = rev (dropWhile ((=) c) (rev s))"

definition trim_char :: "char \<Rightarrow> string \<Rightarrow> string" where
  "trim_char c s = trim_end_char c (dropWhile ((=) c) s)"

text \<open>A repeated label keeps its last value.\<close>

definition parse_label :: "string \<Rightarrow> (string \<times> string) option" where
  "parse_label pair = map_option (\<lambda>(key, value). (trim key, trim_char CHR 0x22 (trim value))) (split_once CHR ''='' pair)"

definition parse_labels :: "string \<Rightarrow> string \<Rightarrow> string option" where
  "parse_labels raw = map_of (rev (List.map_filter parse_label (split_on CHR '','' raw)))"

text \<open>\<^verbatim>\<open>u64::try_from(value.round().max(0.0) as i128)\<close>; \<^verbatim>\<open>round\<close> takes halves away from zero.\<close>

definition sample_value :: "f64 \<Rightarrow> u64 option" where
  "sample_value v =
     (case v of
        NaN \<Rightarrow> Some 0
      | NegInf \<Rightarrow> Some 0
      | PosInf \<Rightarrow> None
      | Finite x \<Rightarrow> (let n = nat \<lfloor>x + 1 / 2\<rfloor> in if n < 2 ^ 64 then Some (of_nat n) else None))"

definition parse_sample :: "(string \<Rightarrow> f64 option) \<Rightarrow> string \<Rightarrow> sample option" where
  "parse_sample parse_f64 line =
     (let line = trim line
      in if line = [] \<or> strip_prefix ''#'' line \<noteq> None then None
         else Option.bind (rsplit_once CHR '' '' line) (\<lambda>(rest, raw).
           Option.bind (parse_f64 raw) (\<lambda>value.
             Option.bind (sample_value value) (\<lambda>value.
               Some (case split_once CHR ''{'' rest of
                       Some (name, tail) \<Rightarrow>
                         \<lparr>sp_name = name, sp_labels = parse_labels (trim_end_char CHR ''}'' tail), sp_value = value\<rparr>
                     | None \<Rightarrow> \<lparr>sp_name = rest, sp_labels = Map.empty, sp_value = value\<rparr>)))))"

text \<open>\<^verbatim>\<open>str::lines\<close>: the lines without their ends, and no empty last line.\<close>

definition str_lines :: "string \<Rightarrow> string list" where
  "str_lines s =
     (let ls = split_on CHR 0x0A s; ls = (if last ls = [] then butlast ls else ls)
      in map (\<lambda>l. case strip_suffix [CHR 0x0D] l of Some l \<Rightarrow> l | None \<Rightarrow> l) ls)"

definition parse_samples :: "(string \<Rightarrow> f64 option) \<Rightarrow> string \<Rightarrow> sample list" where
  "parse_samples parse_f64 s = List.map_filter (parse_sample parse_f64) (str_lines s)"

section \<open>Counters\<close>

definition metric_sum :: "sample list \<Rightarrow> string \<Rightarrow> string option \<Rightarrow> u64" where
  "metric_sum samples name namespace =
     sum_list (map sp_value
       (filter (\<lambda>s. case namespace of Some ns \<Rightarrow> sp_labels s ''namespace'' = Some ns | None \<Rightarrow> True)
         (filter (\<lambda>s. sp_name s = name) samples)))"

record counters_body =
  cb_hits :: u64
  cb_misses :: u64
  cb_joined :: u64
  cb_stale :: u64
  cb_origin_requests :: u64
  cb_origin_bytes :: u64
  cb_origin_errors :: u64
  cb_origin_retries :: u64
  cb_origin_timeouts :: u64
  cb_hedges :: u64
  cb_hedge_wins :: u64
  cb_readahead_blocks :: u64
  cb_meta_heads :: u64
  cb_bytes_served :: u64

definition counters :: "sample list \<Rightarrow> string option \<Rightarrow> counters_body" where
  "counters samples namespace =
     (let m = (\<lambda>name. metric_sum samples name namespace)
      in \<lparr>cb_hits = m BLOCKS_HIT, cb_misses = m BLOCKS_MISS, cb_joined = m BLOCKS_JOINED, cb_stale = m BLOCKS_STALE,
          cb_origin_requests = m ORIGIN_REQUESTS, cb_origin_bytes = m ORIGIN_BYTES, cb_origin_errors = m ORIGIN_ERRORS,
          cb_origin_retries = m ORIGIN_RETRIES, cb_origin_timeouts = m ORIGIN_TIMEOUTS, cb_hedges = m HEDGES,
          cb_hedge_wins = m HEDGE_WINS, cb_readahead_blocks = m READAHEAD_BLOCKS, cb_meta_heads = m META_HEADS,
          cb_bytes_served = m BYTES_SERVED\<rparr>)"

definition hit_ratio :: "(real \<Rightarrow> real) \<Rightarrow> counters_body \<Rightarrow> real" where
  "hit_ratio fl c =
     (let den = cb_hits c + cb_misses c + cb_joined c
      in if den = 0 then 0 else fl (fl (real (unat (cb_hits c))) / fl (real (unat den))))"

definition amplification :: "(real \<Rightarrow> real) \<Rightarrow> counters_body \<Rightarrow> real" where
  "amplification fl c =
     (if cb_bytes_served c = 0 then 0
      else fl (fl (real (unat (cb_origin_bytes c))) / fl (real (unat (cb_bytes_served c)))))"

section \<open>Bodies\<close>

datatype json = JNull | JString string | JUint u64 | JFloat f64 | JArray "json list" | JObject "(string \<times> json) list"

definition consistency_json :: "consistency \<Rightarrow> json" where
  "consistency_json c =
     (case c of
        Immutable \<Rightarrow> JObject [(''mode'', JString ''immutable'')]
      | Etag ttl \<Rightarrow> JObject [(''mode'', JString ''etag''), (''ttlSeconds'', JUint (of_nat (ttl div 10 ^ 9)))])"

definition millis :: "nanos \<Rightarrow> json" where
  "millis d = JUint (of_nat (d div 10 ^ 6))"

definition fetch_json :: "namespace_config \<Rightarrow> json" where
  "fetch_json config =
     (let f = fetch config
      in JObject
          [(''attempts'', JUint (ucast (attempts f))), (''backoffMs'', millis (backoff f)), (''backoffMaxMs'', millis (backoff_max f)),
           (''firstByteMs'', millis (first_byte f)), (''attemptMs'', millis (attempt_timeout f)), (''deadlineMs'', millis (deadline f)),
           (''hedge'',
            case hedge f of
              None \<Rightarrow> JNull
            | Some h \<Rightarrow>
                JObject
                  [(''after'', case hedge_after h of
                                 Factor x \<Rightarrow> JObject [(''factor'', JFloat x)]
                               | Quantile x \<Rightarrow> JObject [(''quantile'', JFloat x)]),
                   (''minMs'', millis (hedge_min h)), (''maxMs'', millis (hedge_max h))])])"

record admin_state =
  am_s3 :: socket_addr
  am_metrics :: "socket_addr option"
  am_origin :: string
  am_serving :: bool

definition admin_state_new :: "socket_addr \<Rightarrow> socket_addr option \<Rightarrow> string \<Rightarrow> admin_state" where
  "admin_state_new s3 metrics origin = \<lparr>am_s3 = s3, am_metrics = metrics, am_origin = origin, am_serving = True\<rparr>"

text \<open>\<open>rendered\<close> is the text of the exporter, when there is one.\<close>

definition admin_samples :: "(string \<Rightarrow> f64 option) \<Rightarrow> string option \<Rightarrow> sample list" where
  "admin_samples parse_f64 rendered = (case rendered of Some s \<Rightarrow> parse_samples parse_f64 s | None \<Rightarrow> [])"

record ready_body =
  rb_ready :: bool
  rb_serving :: bool
  rb_s3 :: socket_addr
  rb_metrics :: "socket_addr option"

definition ready :: "admin_state \<Rightarrow> nat \<times> ready_body" where
  "ready st =
     (let serving = am_serving st
      in (if serving then 200 else 503,
          \<lparr>rb_ready = serving, rb_serving = serving, rb_s3 = am_s3 st, rb_metrics = am_metrics st\<rparr>))"

record status_body =
  sb_listen :: socket_addr
  sb_metrics :: "socket_addr option"
  sb_origin :: string
  sb_cache :: cache_snapshot
  sb_totals :: counters_body
  sb_hit_ratio :: real
  sb_amplification :: real

definition status :: "(real \<Rightarrow> real) \<Rightarrow> sample list \<Rightarrow> snapshot \<Rightarrow> admin_state \<Rightarrow> status_body" where
  "status fl samples snap st =
     (let totals = counters samples None
      in \<lparr>sb_listen = am_s3 st, sb_metrics = am_metrics st, sb_origin = am_origin st, sb_cache = snap_cache snap,
          sb_totals = totals, sb_hit_ratio = hit_ratio fl totals, sb_amplification = amplification fl totals\<rparr>)"

record namespace_body =
  nbd_name :: string
  nbd_id :: u32
  nbd_block_size :: u64
  nbd_fetch_window :: u32
  nbd_read_window :: u32
  nbd_consistency :: json
  nbd_readahead :: u32
  nbd_fetch :: json
  nbd_counters :: counters_body
  nbd_hit_ratio :: real

definition namespaces_body :: "(real \<Rightarrow> real) \<Rightarrow> sample list \<Rightarrow> snapshot \<Rightarrow> namespace_body list" where
  "namespaces_body fl samples snap =
     map (\<lambda>ns.
       let c = counters samples (Some (snap_name ns)); cfg = snap_config ns
       in \<lparr>nbd_name = snap_name ns, nbd_id = snap_id ns, nbd_block_size = block_bytes (ns_block_size cfg),
           nbd_fetch_window = fetch_window cfg, nbd_read_window = read_window cfg,
           nbd_consistency = consistency_json (ns_consistency cfg), nbd_readahead = readahead cfg, nbd_fetch = fetch_json cfg,
           nbd_counters = c, nbd_hit_ratio = hit_ratio fl c\<rparr>)
       (snap_namespaces snap)"

section \<open>Files of the dashboard\<close>

text \<open>Status, content type, cache control and body; \<open>embedded\<close> are the files built into the program.\<close>

definition asset :: "(string \<Rightarrow> bytes option) \<Rightarrow> bytes \<Rightarrow> string \<Rightarrow> nat \<times> string option \<times> string option \<times> bytes" where
  "asset embedded hint path =
     (case embedded path of
        None \<Rightarrow>
          if path = ''index.html'' then (200, Some ''text/html; charset=utf-8'', None, hint)
          else (404, None, None, as_bytes (''no such path /'' @ path))
      | Some data \<Rightarrow>
          let ext = map_option snd (rsplit_once CHR ''.'' path);
              mime = (if ext = Some ''html'' then ''text/html; charset=utf-8''
                      else if ext = Some ''js'' then ''text/javascript''
                      else if ext = Some ''css'' then ''text/css''
                      else if ext = Some ''svg'' then ''image/svg+xml''
                      else if ext = Some ''map'' \<or> ext = Some ''json'' then ''application/json''
                      else ''application/octet-stream'');
              cache = (if strip_prefix ''assets/'' path \<noteq> None then ''public, max-age=31536000, immutable'' else ''no-cache'')
          in (200, Some mime, Some cache, data))"

definition cors_headers :: "header_map \<Rightarrow> header_map" where
  "cors_headers h =
     hm_insert ''access-control-allow-headers'' (as_bytes ''authorization, content-type'')
       (hm_insert ''access-control-allow-methods'' (as_bytes ''GET, OPTIONS'')
         (hm_insert ''access-control-allow-origin'' (as_bytes ''*'') h))"

section \<open>Totals are sums over the namespaces\<close>

lemma sum_list_by_key:
  fixes v :: "'a \<Rightarrow> u64"
  assumes "distinct ks" and "\<And>x. x \<in> set xs \<Longrightarrow> \<exists>k\<in>set ks. key x = Some k"
  shows "sum_list (map v xs) = sum_list (map (\<lambda>k. sum_list (map v (filter (\<lambda>x. key x = Some k) xs))) ks)"
  using assms(2)
proof (induction xs)
  case (Cons x xs)
  then obtain k where k: "k \<in> set ks" "key x = Some k" by auto
  have "sum_list (map (\<lambda>j. if j = k then v x else 0) js) = (if k \<in> set js then v x else 0)" if "distinct js" for js
    using that by (induction js) auto
  then have one: "sum_list (map (\<lambda>j. if j = k then v x else 0) ks) = v x" using assms(1) k(1) by simp
  have "sum_list (map (\<lambda>j. sum_list (map v (filter (\<lambda>x. key x = Some j) (x # xs)))) ks) =
      sum_list (map (\<lambda>j. (if j = k then v x else 0) + sum_list (map v (filter (\<lambda>x. key x = Some j) xs))) ks)"
    using k(2) by (intro arg_cong [where f = sum_list] map_cong) auto
  also have "\<dots> = v x + sum_list (map (\<lambda>j. sum_list (map v (filter (\<lambda>x. key x = Some j) xs))) ks)"
    by (simp add: sum_list_addf one)
  finally show ?case using Cons by simp
qed simp

text \<open>
  Where every sample is labelled with one of the namespaces, each total is the sum over the namespaces,
  modulo the width of a counter.
\<close>

theorem totals_are_sums:
  assumes "distinct nss" and "\<And>s. s \<in> set samples \<Longrightarrow> \<exists>ns\<in>set nss. sp_labels s ''namespace'' = Some ns"
  shows "metric_sum samples name None = sum_list (map (\<lambda>ns. metric_sum samples name (Some ns)) nss)"
  using sum_list_by_key [OF assms(1), of "filter (\<lambda>s. sp_name s = name) samples" "\<lambda>s. sp_labels s ''namespace''" sp_value] assms(2)
  by (simp add: metric_sum_def)

section \<open>Exported counters are read back\<close>

text \<open>A line of the exposition format of Prometheus for a counter with the label of its namespace.\<close>

definition exported_line :: "string \<Rightarrow> string \<Rightarrow> nat \<Rightarrow> string" where
  "exported_line name ns n =
     (name @ ''{namespace='' @ [CHR 0x22] @ ns @ [CHR 0x22] @ ''}'') @ CHR '' '' # show_nat n"

text \<open>Names without blanks and without the characters the format gives a meaning to, as those of buckets.\<close>

definition plain_name :: "string \<Rightarrow> bool" where
  "plain_name s \<longleftrightarrow> list_all (\<lambda>c. visible c \<and> c \<notin> {CHR ''{'', CHR ''}'', CHR '','', CHR ''='', CHR ''#'', CHR 0x22}) s"

lemma ws_suffix_last_visible:
  assumes "visible c"
  shows "ws_suffix (s @ [c]) = 0"
proof -
  have c: "\<not> (of_char c \<le> (32 :: nat))" "(of_char c :: nat) \<le> 126" using assms by (simp_all add: visible_def)
  have "ws_prefix [c] \<noteq> 1" "ws_prefix [b, c] \<noteq> 2" "ws_prefix [a, b, c] \<noteq> 3" for a b
    using c by (auto simp: ws_prefix_def)
  then show ?thesis
    by (cases s rule: rev_cases; cases "butlast s" rule: rev_cases) (auto simp: ws_suffix_def Let_def)
qed

lemma trim_ends_visible:
  assumes "visible (hd s)" and "visible (last s)" and "s \<noteq> []"
  shows "trim s = s"
  using assms ws_suffix_last_visible [of "last s" "butlast s"]
  by (simp add: trim_def trim_start_visible trim_end.simps)

lemma rsplit_once_Some: "c \<notin> set b \<Longrightarrow> rsplit_once c (a @ c # b) = Some (a, b)"
  using split_once_Some [of c "rev b @ c # rev a" "rev b" "rev a"] by (simp add: rsplit_once_def)

lemma exported_label:
  assumes "plain_name ns"
  shows "parse_labels (trim_end_char CHR ''}'' (''namespace='' @ [CHR 0x22] @ ns @ [CHR 0x22] @ ''}'')) = [''namespace'' \<mapsto> ns]"
proof -
  let ?pair = "''namespace='' @ [CHR 0x22] @ ns @ [CHR 0x22]"
  have ns: "CHR '','' \<notin> set ns" "CHR 0x22 \<notin> set ns" "list_all visible ns"
    using assms by (auto simp: plain_name_def list_all_iff)
  have "trim_end_char CHR ''}'' (?pair @ ''}'') = ?pair" by (simp add: trim_end_char_def)
  moreover have "split_on CHR '','' ?pair = [?pair]" by (rule split_on_plain) (use ns(1) in simp)
  moreover have "split_once CHR ''='' ?pair = Some (''namespace'', [CHR 0x22] @ ns @ [CHR 0x22])"
    by (simp add: split_once_Some)
  moreover have "trim ''namespace'' = ''namespace''" "trim ([CHR 0x22] @ ns @ [CHR 0x22]) = [CHR 0x22] @ ns @ [CHR 0x22]"
    using ns(3) by (simp_all add: trim_visible) (simp_all add: trim_visible visible_def)
  moreover have "trim_char CHR 0x22 ([CHR 0x22] @ ns @ [CHR 0x22]) = ns"
  proof (cases ns rule: rev_cases)
    case (snoc xs x)
    then have "dropWhile ((=) CHR 0x22) (ns @ [CHR 0x22]) = ns @ [CHR 0x22]" using ns(2) by (cases xs) auto
    then show ?thesis using snoc ns(2) by (simp add: trim_char_def trim_end_char_def)
  qed (simp add: trim_char_def trim_end_char_def)
  ultimately show ?thesis by (simp add: parse_labels_def parse_label_def map_filter_simps)
qed

theorem counter_read_back:
  assumes "plain_name name" and "name \<noteq> []" and "plain_name ns" and "n < 2 ^ 64"
    and "parse_f64 (show_nat n) = Some (Finite (real n))"
  shows "parse_sample parse_f64 (exported_line name ns n) =
    Some \<lparr>sp_name = name, sp_labels = [''namespace'' \<mapsto> ns], sp_value = of_nat n\<rparr>"
proof -
  let ?rest = "name @ ''{namespace='' @ [CHR 0x22] @ ns @ [CHR 0x22] @ ''}''"
  have v: "visible (hd name)" "hd name \<noteq> CHR ''#''" "CHR ''{'' \<notin> set name"
    using assms(1,2) by (auto simp: plain_name_def list_all_iff)
  have "visible (last (show_nat n))" using show_nat_visible [of n] by (simp add: list_all_iff)
  then have "trim (exported_line name ns n) = exported_line name ns n"
    using v(1) assms(2) by (intro trim_ends_visible) (simp_all add: exported_line_def)
  moreover have "strip_prefix ''#'' (exported_line name ns n) = None"
    using v(2) assms(2) by (cases name) (auto simp: exported_line_def strip_prefix_def)
  moreover have "rsplit_once CHR '' '' (exported_line name ns n) = Some (?rest, show_nat n)"
    unfolding exported_line_def by (rule rsplit_once_Some) (simp add: show_nat_no_sep)
  moreover have "split_once CHR ''{'' ?rest = Some (name, ''namespace='' @ [CHR 0x22] @ ns @ [CHR 0x22] @ ''}'')"
    using v(3) by (simp add: split_once_Some)
  moreover have "sample_value (Finite (real n)) = Some (of_nat n)"
  proof -
    have "\<lfloor>real n + 1 / 2\<rfloor> = int n" by linarith
    then show ?thesis using assms(4) by (simp add: sample_value_def Let_def)
  qed
  moreover have "exported_line name ns n \<noteq> []" by (simp add: exported_line_def)
  ultimately show ?thesis using assms(5) exported_label [OF assms(3)] by (simp add: parse_sample_def Let_def)
qed

end
