(* ===== verification/Command_Line.thy ===== *)
theory Command_Line
  imports Configuration Admin
begin

text \<open>
  The program, \<^verbatim>\<open>nestor-cli/src/main.rs\<close>, \<^verbatim>\<open>serve.rs\<close> and \<^verbatim>\<open>query.rs\<close>, and the server it runs,
  \<^verbatim>\<open>nestor-server/src/serve.rs\<close>: what \<^verbatim>\<open>nestor serve\<close> does from the configuration to the end of the process,
  what \<^verbatim>\<open>nestor check\<close> accepts, the routes of the admin API and what \<^verbatim>\<open>nestor admin\<close> prints of their answers.

  The start is a sequence of events; what the system answers to each is the record \<open>start_env\<close>:
  credentials, the metrics recorder, the cache library, the cluster, the certificate, and what serving
  until the shutdown makes of the node. A failed listener of the metrics or the admin API is only logged.
\<close>

section \<open>Starting a server\<close>

datatype start_event =
    RecorderInstalled
  | CacheOpened hybrid_settings
  | ClusterConnected
  | MetricsListening socket_addr
  | AdminListening socket_addr admin_state
  | Serving socket_addr "tls_section option"
  | CacheClosed

record start_env =
  en_cores :: u64
  en_now :: nanos
  en_credentials :: "string + unit"
  en_recorder :: "string + unit"
  en_foyer :: foyer_env
  en_hashing :: hashing
  en_resolver :: resolver
  en_transport :: "string option"
  en_origins :: "string \<Rightarrow> s3_error + unit"
  en_endpoint :: "origin_section \<Rightarrow> string"
  en_shown :: "socket_addr \<Rightarrow> string"
  en_tls :: "string \<Rightarrow> string \<Rightarrow> string + unit"
  en_serve :: "socket_addr \<Rightarrow> service \<Rightarrow> world \<Rightarrow> (string + unit) \<times> world"
  en_close :: "nestor_error + unit"

record server_options =
  so_node :: world
  so_s3 :: service
  so_listen :: socket_addr
  so_tls :: "tls_section option"
  so_metrics :: "socket_addr option"
  so_admin :: "socket_addr option"
  so_origin :: string
  so_telemetry :: bool

text \<open>\<^verbatim>\<open>nestor_server::run\<close>: the listeners it spawns, then serving, then closing the cache.\<close>

definition spawned_listeners :: "server_options \<Rightarrow> start_event list" where
  "spawned_listeners o1 =
     (case so_metrics o1 of Some addr \<Rightarrow> if so_telemetry o1 then [MetricsListening addr] else [] | None \<Rightarrow> [])
     @ (case so_admin o1 of
          Some addr \<Rightarrow> [AdminListening addr (admin_state_new (so_listen o1) (so_metrics o1) (so_origin o1))]
        | None \<Rightarrow> [])"

definition server_run :: "start_env \<Rightarrow> server_options \<Rightarrow> (string + unit) \<times> start_event list \<times> world" where
  "server_run E o1 =
     (let evs = spawned_listeners o1; serving = Serving (so_listen o1) (so_tls o1)
      in case (case so_tls o1 of Some tls \<Rightarrow> en_tls E (tls_cert tls) (tls_key tls) | None \<Rightarrow> Inr ()) of
           Inl err \<Rightarrow> (Inl ''loading TLS certificate and key'', evs, so_node o1)
         | Inr _ \<Rightarrow>
             (case en_serve E (so_listen o1) (so_s3 o1) (so_node o1) of
                (Inl err, w) \<Rightarrow> (Inl (''serving on '' @ en_shown E (so_listen o1)), evs @ [serving], w)
              | (Inr _, w) \<Rightarrow>
                  (case node_close (en_close E) w of
                     (Inl err, w) \<Rightarrow> (Inl ''flushing cache'', evs @ [serving, CacheClosed], w)
                   | (Inr _, w) \<Rightarrow> (Inr (), evs @ [serving, CacheClosed], w))))"

text \<open>The origins of the buckets: those of the cluster, which has one for every bucket, or of the configured origin.\<close>

definition start_origins :: "start_env \<Rightarrow> config \<Rightarrow> string \<Rightarrow> s3_error + unit" where
  "start_origins E c = (case co_cluster c of Some _ \<Rightarrow> (\<lambda>_. Inr ()) | None \<Rightarrow> en_origins E)"

definition start_cluster :: "start_env \<Rightarrow> config \<Rightarrow> string + start_event list" where
  "start_cluster E c =
     (case co_cluster c of
        None \<Rightarrow> Inr []
      | Some cl \<Rightarrow>
          (case origins_connect (en_hashing E) (en_resolver E) (en_transport E) (en_now E) cl of
             Inl err \<Rightarrow> Inl err
           | Inr _ \<Rightarrow> Inr [ClusterConnected]))"

definition start_options :: "start_env \<Rightarrow> config \<Rightarrow> bool \<Rightarrow> service \<Rightarrow> world \<Rightarrow> server_options" where
  "start_options E c telemetry s3 w =
     (let sv = co_server c
      in \<lparr>so_node = w, so_s3 = s3, so_listen = se_listen sv, so_tls = se_tls sv, so_metrics = se_metrics sv,
          so_admin = (if ad_enabled (se_admin sv) then Some (ad_listen (se_admin sv)) else None),
          so_origin = en_endpoint E (co_origin c), so_telemetry = telemetry\<rparr>)"

text \<open>\<^verbatim>\<open>serve::run\<close>: the result, the events and the node, once there is one.\<close>

definition serve_run :: "start_env \<Rightarrow> config \<Rightarrow> (string + unit) \<times> start_event list \<times> world option" where
  "serve_run E c =
     (case validate (en_shown E) c of
        Inl err \<Rightarrow> (Inl err, [], None)
      | Inr _ \<Rightarrow>
          let builder = cache_builder (en_cores E) (co_cache c);
              telemetry = (se_metrics (co_server c) \<noteq> None \<or> ad_enabled (se_admin (co_server c)));
              evs = (if telemetry then [RecorderInstalled] else [])
          in case (if telemetry then en_recorder E else Inr ()) of
               Inl err \<Rightarrow> (Inl ''installing metrics recorder'', [], None)
             | Inr _ \<Rightarrow>
                 (case hybrid_open (en_foyer E) (nb_cache builder) of
                    Inl err \<Rightarrow> (Inl ''initialising cache'', evs, None)
                  | Inr h \<Rightarrow>
                      let w = builder_build builder (en_now E); evs = evs @ [CacheOpened h]
                      in case config_s3 (en_credentials E) (start_origins E c) c of
                           Inl err \<Rightarrow> (Inl err, evs, Some w)
                         | Inr s3 \<Rightarrow>
                             (case start_cluster E c of
                                Inl err \<Rightarrow> (Inl err, evs, Some w)
                              | Inr conn \<Rightarrow>
                                  (case server_run E (start_options E c telemetry s3 w) of
                                     (r, later, w) \<Rightarrow> (r, evs @ conn @ later, Some w)))))"

text \<open>\<^verbatim>\<open>nestor check\<close>: what it prints, or the error it ends with.\<close>

definition check_run :: "start_env \<Rightarrow> config \<Rightarrow> string + string" where
  "check_run E c =
     (case validate (en_shown E) c of
        Inl err \<Rightarrow> Inl err
      | Inr _ \<Rightarrow>
          (case config_s3 (en_credentials E) (en_origins E) c of
             Inl err \<Rightarrow> Inl err
           | Inr _ \<Rightarrow> Inr ''configuration ok''))"

section \<open>What a start guarantees\<close>

text \<open>Which services a configuration gives does not depend on the origins of the buckets.\<close>

lemma config_s3_origins: "config_s3 found f c = Inr s3 \<Longrightarrow> \<exists>s3'. config_s3 found g c = Inr s3'"
  by (auto simp: config_s3_def split: sum.splits)

text \<open>How a start goes: it ends before the server runs, without a listener, or with the run of the server.\<close>

lemma serve_run_cases:
  assumes "serve_run E c = (r, evs, w)"
  obtains (refused) err where "r = Inl err" and "\<And>ev. ev \<in> set evs \<Longrightarrow> ev = RecorderInstalled \<or> (\<exists>h. ev = CacheOpened h)"
  | (ran) h s3 conn telemetry w1 later
      where "validate (en_shown E) c = Inr ()"
        and "hybrid_open (en_foyer E) (nb_cache (cache_builder (en_cores E) (co_cache c))) = Inr h"
        and "config_s3 (en_credentials E) (start_origins E c) c = Inr s3" and "start_cluster E c = Inr conn"
        and "server_run E (start_options E c telemetry s3 (builder_build (cache_builder (en_cores E) (co_cache c)) (en_now E))) = (r, later, w1)"
        and "evs = (if telemetry then [RecorderInstalled] else []) @ [CacheOpened h] @ conn @ later" and "w = Some w1"
proof -
  let ?b = "cache_builder (en_cores E) (co_cache c)" and ?t = "se_metrics (co_server c) \<noteq> None \<or> ad_enabled (se_admin (co_server c))"
  let ?w = "builder_build ?b (en_now E)"
  let ?evs = "if ?t then [RecorderInstalled] else []"
  show ?thesis
  proof (cases "validate (en_shown E) c = Inr () \<and> (if ?t then en_recorder E else Inr ()) = Inr ()
      \<and> (\<exists>h s3 conn. hybrid_open (en_foyer E) (nb_cache ?b) = Inr h
          \<and> config_s3 (en_credentials E) (start_origins E c) c = Inr s3 \<and> start_cluster E c = Inr conn)")
    case True
    then obtain h s3 conn where p: "validate (en_shown E) c = Inr ()" "(if ?t then en_recorder E else Inr ()) = Inr ()"
        "hybrid_open (en_foyer E) (nb_cache ?b) = Inr h" "config_s3 (en_credentials E) (start_origins E c) c = Inr s3"
        "start_cluster E c = Inr conn" by blast
    obtain r1 later w1 where s: "server_run E (start_options E c ?t s3 ?w) = (r1, later, w1)" by (metis prod_cases3)
    have "serve_run E c = (r1, ?evs @ [CacheOpened h] @ conn @ later, Some w1)"
      unfolding serve_run_def Let_def p(1,3,4,5) p(2) sum.case s prod.case by simp
    with assms show ?thesis using ran [OF p(1,3,4,5), of ?t later w1] s by simp
  next
    case False
    then have "(\<exists>err. r = Inl err) \<and> (\<forall>ev \<in> set evs. ev = RecorderInstalled \<or> (\<exists>h. ev = CacheOpened h))"
      using assms by (auto simp: serve_run_def Let_def split: sum.splits if_splits) metis
    then show ?thesis using refused by blast
  qed
qed

lemma server_run_events:
  assumes "server_run E o1 = (r, evs, w)"
  shows "AdminListening a st \<in> set evs \<Longrightarrow> so_admin o1 = Some a"
    and "Serving a t \<in> set evs \<Longrightarrow> a = so_listen o1 \<and> t = so_tls o1"
    and "r = Inr () \<Longrightarrow> w_closed w \<and> last evs = CacheClosed \<and> Serving (so_listen o1) (so_tls o1) \<in> set evs"
    and "CacheClosed \<in> set evs \<Longrightarrow> w_closed w"
  using assms
  by (auto simp: server_run_def spawned_listeners_def node_close_def Let_def split: sum.splits prod.splits option.splits if_splits)

text \<open>
  C14: \<^verbatim>\<open>nestor serve\<close> listens for requests only with a configuration that \<^verbatim>\<open>nestor check\<close> accepts, after it has
  opened the cache of that configuration, and with the certificate it names; the admin API is bound
  only where it is enabled, and beyond the loopback interface only where that is allowed; a server that
  ends without an error has served and has closed the cache last.
\<close>

theorem serve_guards_listeners:
  assumes "serve_run E c = (r, evs, w)"
  shows "(Serving a t \<in> set evs \<longrightarrow>
      check_run E c = Inr ''configuration ok'' \<and> a = se_listen (co_server c) \<and> t = se_tls (co_server c)
      \<and> (\<exists>h pre post. evs = pre @ CacheOpened h # post \<and> Serving a t \<in> set post \<and> hs_memory h = ca_memory (co_cache c)))
    \<and> (AdminListening b st \<in> set evs \<longrightarrow>
      ad_enabled (se_admin (co_server c)) \<and> b = ad_listen (se_admin (co_server c))
      \<and> (is_loopback b \<or> ad_insecure_allow_remote (se_admin (co_server c))))
    \<and> (r = Inr () \<longrightarrow> (\<exists>w'. w = Some w' \<and> w_closed w') \<and> last evs = CacheClosed
      \<and> Serving (se_listen (co_server c)) (se_tls (co_server c)) \<in> set evs)"
  using assms
proof (cases rule: serve_run_cases)
  case (refused err)
  then show ?thesis by fastforce
next
  case (ran h s3 conn telemetry w1 later)
  let ?o = "start_options E c telemetry s3 (builder_build (cache_builder (en_cores E) (co_cache c)) (en_now E))"
  note ev = server_run_events [OF ran(5)]
  have o: "so_listen ?o = se_listen (co_server c)" "so_tls ?o = se_tls (co_server c)"
      "so_admin ?o = (if ad_enabled (se_admin (co_server c)) then Some (ad_listen (se_admin (co_server c))) else None)"
    by (simp_all add: start_options_def Let_def)
  have conn: "set conn \<subseteq> {ClusterConnected}" using ran(4) by (auto simp: start_cluster_def split: option.splits sum.splits)
  have chk: "check_run E c = Inr ''configuration ok''"
    using ran(1) config_s3_origins [OF ran(3), of "en_origins E"] by (auto simp: check_run_def)
  have mem: "hs_memory h = ca_memory (co_cache c)"
    using hybrid_open_settings(1) [OF ran(2)]
    by (simp add: cache_builder_def builder_hedge_concurrency_def builder_readahead_concurrency_def
        builder_origin_concurrency_def builder_meta_capacity_def builder_new_def cache_config_memory_def Let_def split: option.splits)
  have guard: "ad_enabled (se_admin (co_server c)) \<longrightarrow>
      is_loopback (ad_listen (se_admin (co_server c))) \<or> ad_insecure_allow_remote (se_admin (co_server c))"
    using ran(1) by (simp add: validate_iff)
  have opened: "\<exists>h pre post. evs = pre @ CacheOpened h # post \<and> Serving a t \<in> set post \<and> hs_memory h = ca_memory (co_cache c)"
    if "Serving a t \<in> set evs"
    using that mem ran(6) conn by (intro exI [of _ h] exI [of _ "if telemetry then [RecorderInstalled] else []"] exI [of _ "conn @ later"])
      (auto split: if_splits)
  have srv: "a = so_listen ?o \<and> t = so_tls ?o" if "Serving a t \<in> set evs"
    using that ran(6) conn by (intro ev(2)) (auto split: if_splits)
  have adm: "so_admin ?o = Some b" if "AdminListening b st \<in> set evs"
    using that ran(6) conn by (intro ev(1)) (auto split: if_splits)
  have fin: "last evs = CacheClosed \<and> Serving (so_listen ?o) (so_tls ?o) \<in> set evs \<and> w_closed w1" if "r = Inr ()"
    using ev(3) [OF that] ran(6) by (auto simp: last_append)
  have "check_run E c = Inr ''configuration ok'' \<and> a = se_listen (co_server c) \<and> t = se_tls (co_server c)"
    if "Serving a t \<in> set evs" using chk srv [OF that] o(1,2) by simp
  moreover have "ad_enabled (se_admin (co_server c)) \<and> b = ad_listen (se_admin (co_server c))
      \<and> (is_loopback b \<or> ad_insecure_allow_remote (se_admin (co_server c)))" if "AdminListening b st \<in> set evs"
    using adm [OF that] o(3) guard by (simp split: if_splits)
  ultimately show ?thesis using opened fin o(1,2) ran(7) by simp
qed

definition demo_start :: start_env where
  "demo_start =
     \<lparr>en_cores = 4, en_now = 0, en_credentials = Inr (), en_recorder = Inr (),
      en_foyer = \<lparr>fo_device = \<lambda>_ _ _. Inr (), fo_runtime = \<lambda>_. Inr (), fo_uring = True, fo_build = \<lambda>_. Inr ()\<rparr>,
      en_hashing = demo_hashing, en_resolver = \<lambda>_ _. Inr [], en_transport = None, en_origins = \<lambda>_. Inr (),
      en_endpoint = \<lambda>_. ''https://s3'', en_shown = \<lambda>_. ''127.0.0.1:9000'', en_tls = \<lambda>_ _. Inr (),
      en_serve = \<lambda>_ _ w. (Inr (), w), en_close = Inr ()\<rparr>"

lemma demo_cluster_connects: "\<exists>evs. start_cluster demo_start demo_config = Inr evs"
proof -
  obtain cfg where "cluster_build demo_cluster_section = Inr cfg" using demo_config_parts(2) by blast
  moreover have "cluster_membership demo_cluster_section = Inr (Cluster.Static [localhost 9001, localhost 9002])"
    by (simp add: cluster_membership_def demo_cluster_section_def cluster_default_def Let_def)
  ultimately show ?thesis
    by (auto simp: start_cluster_def demo_config_def demo_start_def origins_connect_def cluster_new_def membership_resolve_def
        Let_def split: sum.splits prod.splits)
qed

lemma demo_s3: "\<exists>s3. config_s3 (Inr ()) f demo_config = Inr s3"
proof -
  obtain ns where "buckets_namespace (co_buckets demo_config) = Inr ns" using demo_config_parts(1) by blast
  then show ?thesis
    by (auto simp: config_s3_def origin_build_def Let_def demo_config_def config_default_def origin_default_def)
qed

lemma demo_serve: "\<exists>evs w. serve_run demo_start demo_config = (Inr (), evs, Some w)"
proof -
  obtain conn s3 where p: "start_cluster demo_start demo_config = Inr conn"
      "config_s3 (Inr ()) (start_origins demo_start demo_config) demo_config = Inr s3"
    using demo_cluster_connects demo_s3 by blast
  have open': "\<exists>h. hybrid_open (en_foyer demo_start) cfg = Inr h" if "cache_disk cfg = None" for cfg
    using that by (simp add: hybrid_open_def demo_start_def Let_def)
  obtain h where h: "hybrid_open (en_foyer demo_start) (nb_cache (cache_builder (en_cores demo_start) (co_cache demo_config))) = Inr h"
    using open' by (fastforce simp: cache_builder_def builder_hedge_concurrency_def builder_readahead_concurrency_def
        builder_origin_concurrency_def builder_meta_capacity_def builder_new_def cache_config_memory_def Let_def
        demo_config_def config_default_def cache_default_def)
  have env: "en_credentials demo_start = Inr ()" "en_recorder demo_start = Inr ()" by (simp_all add: demo_start_def)
  have "\<exists>evs w. server_run demo_start (start_options demo_start demo_config t s3 w0) = (Inr (), evs, w)" for t w0
    by (simp add: server_run_def start_options_def demo_config_def config_default_def server_default_def demo_start_def
        node_close_def Let_def)
  then obtain evs w where r: "server_run demo_start (start_options demo_start demo_config True s3
      (builder_build (cache_builder (en_cores demo_start) (co_cache demo_config)) (en_now demo_start))) = (Inr (), evs, w)"
    by blast
  have "ad_enabled (se_admin (co_server demo_config))"
    by (simp add: demo_config_def config_default_def server_default_def admin_default_def)
  then show ?thesis
    using p h env r demo_config_valid [of "en_shown demo_start"] by (simp add: serve_run_def Let_def)
qed

theorem serve_guards_listeners_witness:
  "\<exists>evs w. serve_run demo_start demo_config = (Inr (), evs, Some w) \<and> w_closed w \<and> last evs = CacheClosed
     \<and> check_run demo_start demo_config = Inr ''configuration ok''"
proof -
  obtain evs w where s: "serve_run demo_start demo_config = (Inr (), evs, Some w)" using demo_serve by blast
  let ?a = "se_listen (co_server demo_config)" and ?t = "se_tls (co_server demo_config)"
  note g = serve_guards_listeners [OF s, of ?a ?t ?a "admin_state_new ?a None []"]
  then have "Serving ?a ?t \<in> set evs" by simp
  with g s show ?thesis by simp
qed

text \<open>
  C38: \<^verbatim>\<open>nestor check\<close> accepts a disk tier with no runtime threads, and no server starts with it: \<^verbatim>\<open>nestor serve\<close>
  ends with an error before any listener is up, wherever it runs.
\<close>

theorem check_accepts_unservable:
  assumes "check_run E c = Inr out" and "ca_disk (co_cache c) = Some d" and "di_runtime_threads d = Some 0"
  shows "out = ''configuration ok''
    \<and> (\<exists>err evs w. serve_run E' c = (Inl err, evs, w) \<and> (\<forall>ev \<in> set evs. ev = RecorderInstalled))"
proof -
  have "\<exists>err. hybrid_open (en_foyer E') (nb_cache (cache_builder (en_cores E') (co_cache c))) = Inl err"
    using assms(2,3)
    by (simp add: hybrid_open_def hybrid_disk_def runtime_threads_def disk_build_def cache_builder_def
        builder_hedge_concurrency_def builder_readahead_concurrency_def builder_origin_concurrency_def
        builder_meta_capacity_def builder_new_def Let_def unwrap_or_def split: option.splits sum.splits)
  then have "\<exists>err evs w. serve_run E' c = (Inl err, evs, w) \<and> (\<forall>ev \<in> set evs. ev = RecorderInstalled)"
    by (auto simp: serve_run_def Let_def split: sum.splits)
  then show ?thesis using assms(1) by (auto simp: check_run_def split: sum.splits)
qed

definition threadless_config :: config where
  "threadless_config = demo_config\<lparr>co_cache := cache_default\<lparr>ca_disk := Some (disk_default\<lparr>di_runtime_threads := Some 0\<rparr>)\<rparr>\<rparr>"

theorem check_accepts_unservable_witness:
  "check_run demo_start threadless_config = Inr ''configuration ok''
   \<and> (\<exists>err evs w. serve_run demo_start threadless_config = (Inl err, evs, w))"
proof -
  have v: "validate (en_shown demo_start) threadless_config = Inr ()"
    using demo_config_valid [of "en_shown demo_start"] unfolding validate_iff by (simp add: threadless_config_def)
  have same: "co_origin threadless_config = co_origin demo_config" "co_buckets threadless_config = co_buckets demo_config"
      "co_auth threadless_config = co_auth demo_config" "co_server threadless_config = co_server demo_config"
    by (simp_all add: threadless_config_def)
  have "config_s3 found f threadless_config = config_s3 found f demo_config" for found f
    unfolding config_s3_def same ..
  then have chk: "check_run demo_start threadless_config = Inr ''configuration ok''"
    using v demo_s3 [of "en_origins demo_start"] by (auto simp: check_run_def demo_start_def)
  then show ?thesis
    using check_accepts_unservable [OF chk, of "disk_default\<lparr>di_runtime_threads := Some 0\<rparr>" demo_start]
    by (auto simp: threadless_config_def)
qed

section \<open>The admin API\<close>

text \<open>The value of an answer, before it is serialised.\<close>

datatype admin_answer =
    PlainText string
  | ReadyAnswer ready_body
  | StatusAnswer status_body
  | NamespacesAnswer "namespace_body list"
  | AssetAnswer "string option" "string option" bytes
  | EmptyAnswer

text \<open>What the handlers read: the node, the rendered metrics and the files built in.\<close>

record admin_view =
  av_fl :: "real \<Rightarrow> real"
  av_samples :: "sample list"
  av_snapshot :: snapshot
  av_state :: admin_state
  av_files :: "string \<Rightarrow> bytes option"
  av_hint :: bytes

definition asset_answer :: "admin_view \<Rightarrow> string \<Rightarrow> nat \<times> admin_answer" where
  "asset_answer v path = (case asset (av_files v) (av_hint v) path of (code, mime, cache, body) \<Rightarrow> (code, AssetAnswer mime cache body))"

definition admin_handler :: "admin_view \<Rightarrow> string \<Rightarrow> nat \<times> admin_answer" where
  "admin_handler v path =
     (if path = ''/health'' then (200, PlainText ''ok'')
      else if path = ''/ready'' then map_prod id ReadyAnswer (ready (av_state v))
      else if path = ''/admin/status'' then (200, StatusAnswer (status (av_fl v) (av_samples v) (av_snapshot v) (av_state v)))
      else if path = ''/admin/namespaces'' then (200, NamespacesAnswer (namespaces_body (av_fl v) (av_samples v) (av_snapshot v)))
      else if path = ''/'' then asset_answer v ''index.html''
      else asset_answer v (dropWhile ((=) CHR ''/'') path))"

text \<open>
  \<^verbatim>\<open>router\<close> with the layer \<^verbatim>\<open>cors\<close> around it: the status, the answer and the headers of the layer. A route of
  \<^verbatim>\<open>get\<close> takes GET and HEAD.
\<close>

definition admin_router :: "admin_view \<Rightarrow> string \<Rightarrow> string \<Rightarrow> nat \<times> admin_answer \<times> header_map" where
  "admin_router v m path =
     (if m = ''OPTIONS'' then (204, EmptyAnswer, cors_headers [])
      else case (if m = ''GET'' \<or> m = ''HEAD'' then admin_handler v path else (405, EmptyAnswer)) of
             (code, body) \<Rightarrow> (code, body, cors_headers []))"

text \<open>The answers as JSON, with the names the bodies are serialised under.\<close>

definition counters_json :: "counters_body \<Rightarrow> json" where
  "counters_json c =
     JObject
       [(''hits'', JUint (cb_hits c)), (''misses'', JUint (cb_misses c)), (''joined'', JUint (cb_joined c)), (''stale'', JUint (cb_stale c)),
        (''originRequests'', JUint (cb_origin_requests c)), (''originBytes'', JUint (cb_origin_bytes c)),
        (''originErrors'', JUint (cb_origin_errors c)), (''originRetries'', JUint (cb_origin_retries c)),
        (''originTimeouts'', JUint (cb_origin_timeouts c)), (''hedges'', JUint (cb_hedges c)), (''hedgeWins'', JUint (cb_hedge_wins c)),
        (''readaheadBlocks'', JUint (cb_readahead_blocks c)), (''metaHeads'', JUint (cb_meta_heads c)),
        (''bytesServed'', JUint (cb_bytes_served c))]"

definition cache_json :: "cache_snapshot \<Rightarrow> json" where
  "cache_json c =
     JObject
       [(''memoryUsed'', JUint (of_nat (snap_memory_used c))), (''memoryCap'', JUint (snap_memory_cap c)),
        (''diskCap'', case snap_disk_cap c of Some n \<Rightarrow> JUint n | None \<Rightarrow> JNull), (''metaUsed'', JUint (of_nat (snap_meta_used c))),
        (''metaCap'', JUint (of_nat (snap_meta_cap c))), (''inflight'', JUint (of_nat (snap_inflight c)))]"

definition status_json :: "(socket_addr \<Rightarrow> string) \<Rightarrow> status_body \<Rightarrow> json" where
  "status_json addr b =
     JObject
       [(''listen'', JString (addr (sb_listen b))), (''metrics'', case sb_metrics b of Some a \<Rightarrow> JString (addr a) | None \<Rightarrow> JNull),
        (''origin'', JString (sb_origin b)), (''cache'', cache_json (sb_cache b)), (''totals'', counters_json (sb_totals b)),
        (''hitRatio'', JFloat (Finite (sb_hit_ratio b))), (''amplification'', JFloat (Finite (sb_amplification b)))]"

definition namespace_json :: "namespace_body \<Rightarrow> json" where
  "namespace_json b =
     JObject
       [(''name'', JString (nbd_name b)), (''id'', JUint (ucast (nbd_id b))), (''blockSize'', JUint (nbd_block_size b)),
        (''fetchWindow'', JUint (ucast (nbd_fetch_window b))), (''readWindow'', JUint (ucast (nbd_read_window b))),
        (''consistency'', nbd_consistency b), (''readahead'', JUint (ucast (nbd_readahead b))), (''fetch'', nbd_fetch b),
        (''counters'', counters_json (nbd_counters b)), (''hitRatio'', JFloat (Finite (nbd_hit_ratio b)))]"

definition namespaces_json :: "namespace_body list \<Rightarrow> json" where
  "namespaces_json bs = JObject [(''namespaces'', JArray (map namespace_json bs))]"

section \<open>Querying it\<close>

datatype query_command = QueryStatus | QueryNamespaces

record query_args =
  qa_endpoint :: string
  qa_json :: bool
  qa_command :: query_command

text \<open>Indexing a value by a name: what is missing is null. \<open>shown\<close> prints a value as JSON.\<close>

fun json_get :: "json \<Rightarrow> string \<Rightarrow> json" where
  "json_get (JObject kvs) k = (case map_of kvs k of Some v \<Rightarrow> v | None \<Rightarrow> JNull)"
| "json_get _ k = JNull"

definition display :: "(json \<Rightarrow> string) \<Rightarrow> json \<Rightarrow> string" where
  "display shown v = (case v of JString s \<Rightarrow> s | JNull \<Rightarrow> ''-'' | _ \<Rightarrow> shown v)"

definition display_optional :: "(json \<Rightarrow> string) \<Rightarrow> json \<Rightarrow> string" where
  "display_optional shown v = (case v of JNull \<Rightarrow> ''-'' | _ \<Rightarrow> shown v)"

definition print_status :: "(json \<Rightarrow> string) \<Rightarrow> json \<Rightarrow> string list" where
  "print_status shown body =
     (let d = display shown; cache = json_get body ''cache''; totals = json_get body ''totals''
      in [''listen='' @ d (json_get body ''listen'') @ '' origin='' @ d (json_get body ''origin'')
            @ '' memory='' @ d (json_get cache ''memoryUsed'') @ ''/'' @ d (json_get cache ''memoryCap'')
            @ '' disk='' @ display_optional shown (json_get cache ''diskCap'')
            @ '' meta='' @ d (json_get cache ''metaUsed'') @ ''/'' @ d (json_get cache ''metaCap'')
            @ '' inflight='' @ d (json_get cache ''inflight''),
          ''hitRatio='' @ d (json_get body ''hitRatio'') @ '' amplification='' @ d (json_get body ''amplification'')
            @ '' hits='' @ d (json_get totals ''hits'') @ '' misses='' @ d (json_get totals ''misses'')
            @ '' joined='' @ d (json_get totals ''joined'') @ '' stale='' @ d (json_get totals ''stale'')
            @ '' originErrors='' @ d (json_get totals ''originErrors'')])"

definition print_namespace :: "(json \<Rightarrow> string) \<Rightarrow> json \<Rightarrow> string" where
  "print_namespace shown ns =
     (let d = display shown; counters = json_get ns ''counters''
      in ''ns='' @ d (json_get ns ''name'') @ '' block='' @ d (json_get ns ''blockSize'')
           @ '' consistency='' @ d (json_get (json_get ns ''consistency'') ''mode'')
           @ '' hits='' @ d (json_get counters ''hits'') @ '' misses='' @ d (json_get counters ''misses'')
           @ '' hitRatio='' @ d (json_get ns ''hitRatio'') @ '' originErrors='' @ d (json_get counters ''originErrors''))"

definition print_namespaces :: "(json \<Rightarrow> string) \<Rightarrow> json \<Rightarrow> string + string list" where
  "print_namespaces shown body =
     (case json_get body ''namespaces'' of
        JArray [] \<Rightarrow> Inr [''no namespaces'']
      | JArray nss \<Rightarrow> Inr (map (print_namespace shown) nss)
      | _ \<Rightarrow> Inl ''admin namespaces response missing namespaces'')"

text \<open>\<open>fetched\<close> is the answer to a URL, or the error of the request, its status or its body; \<open>pretty\<close> prints JSON over lines.\<close>

definition query_path :: "query_command \<Rightarrow> string" where
  "query_path cmd = (case cmd of QueryStatus \<Rightarrow> ''/admin/status'' | QueryNamespaces \<Rightarrow> ''/admin/namespaces'')"

definition query_run ::
  "(string \<Rightarrow> string + json) \<Rightarrow> (json \<Rightarrow> string) \<Rightarrow> (json \<Rightarrow> string) \<Rightarrow> query_args \<Rightarrow> string + string list" where
  "query_run fetched pretty shown args =
     (case fetched (trim_end_char CHR ''/'' (qa_endpoint args) @ query_path (qa_command args)) of
        Inl err \<Rightarrow> Inl err
      | Inr body \<Rightarrow>
          if qa_json args then Inr [pretty body]
          else case qa_command args of
                 QueryStatus \<Rightarrow> Inr (print_status shown body)
               | QueryNamespaces \<Rightarrow> print_namespaces shown body)"

text \<open>
  What the admin command prints of a server: each field of the answers is found under the name it is
  printed from, and a namespace has a line of its own.
\<close>

lemma status_printed:
  "print_status shown (status_json addr b) =
     (let n = (\<lambda>k. shown (JUint k)); c = sb_cache b; t = sb_totals b
      in [''listen='' @ addr (sb_listen b) @ '' origin='' @ sb_origin b
            @ '' memory='' @ n (of_nat (snap_memory_used c)) @ ''/'' @ n (snap_memory_cap c)
            @ '' disk='' @ (case snap_disk_cap c of Some k \<Rightarrow> n k | None \<Rightarrow> ''-'')
            @ '' meta='' @ n (of_nat (snap_meta_used c)) @ ''/'' @ n (of_nat (snap_meta_cap c))
            @ '' inflight='' @ n (of_nat (snap_inflight c)),
          ''hitRatio='' @ shown (JFloat (Finite (sb_hit_ratio b))) @ '' amplification='' @ shown (JFloat (Finite (sb_amplification b)))
            @ '' hits='' @ n (cb_hits t) @ '' misses='' @ n (cb_misses t) @ '' joined='' @ n (cb_joined t)
            @ '' stale='' @ n (cb_stale t) @ '' originErrors='' @ n (cb_origin_errors t)])"
  by (simp add: print_status_def status_json_def cache_json_def counters_json_def display_def display_optional_def Let_def
      split: option.splits)

lemma consistency_mode:
  "display shown (json_get (consistency_json c) ''mode'') = (case c of Immutable \<Rightarrow> ''immutable'' | Etag _ \<Rightarrow> ''etag'')"
  by (simp add: consistency_json_def display_def split: consistency.splits)

lemma namespaces_printed:
  assumes "snap_namespaces snap \<noteq> []"
  shows "\<exists>lines. print_namespaces shown (namespaces_json (namespaces_body fl samples snap)) = Inr lines
    \<and> length lines = length (snap_namespaces snap)
    \<and> (\<forall>i < length lines. \<exists>tail. lines ! i = ''ns='' @ snap_name (snap_namespaces snap ! i) @ '' block='' @ tail)"
proof -
  let ?bs = "namespaces_body fl samples snap"
  have len: "length ?bs = length (snap_namespaces snap)" by (simp add: namespaces_body_def)
  have "print_namespaces shown (namespaces_json ?bs) = Inr (map (print_namespace shown \<circ> namespace_json) ?bs)"
    using len assms by (cases ?bs) (simp_all add: print_namespaces_def namespaces_json_def)
  moreover have "\<exists>tail. (print_namespace shown \<circ> namespace_json) (?bs ! i) = ''ns='' @ snap_name (snap_namespaces snap ! i) @ '' block='' @ tail"
    if "i < length (snap_namespaces snap)" for i
    using that by (simp add: print_namespace_def namespace_json_def namespaces_body_def display_def Let_def)
  ultimately show ?thesis using len by auto
qed

text \<open>Every answer of the admin API carries the headers of the layer, and only GET and HEAD reach a handler.\<close>

lemma admin_router_guards:
  assumes "admin_router v m path = (code, body, h)"
  shows "h = cors_headers []" and "m \<noteq> ''GET'' \<Longrightarrow> m \<noteq> ''HEAD'' \<Longrightarrow> body = EmptyAnswer \<and> (code = 204 \<or> code = 405)"
  using assms by (auto simp: admin_router_def split: if_splits prod.splits)

end
