(* ===== verification/Bench_Dataset.thy ===== *)
theory Bench_Dataset
  imports Key "HOL-Library.Multiset"
begin

text \<open>
  The data of the benchmarks, \<^verbatim>\<open>nestor-bench/src/dataset.rs\<close>: a seeded random number generator, objects
  with the layout of stream segments, and the bytes of an object as a function of its seed. The
  theorems show that every generated object is laid out without gaps, that the range of a stream
  covers exactly its blocks, and that any part of an object can be computed on its own.

  \<^verbatim>\<open>Rng::below\<close> takes a remainder; where the divisor may be zero the panic is a branch of its caller.
\<close>

unbundle bit_operations_syntax

section \<open>Random numbers\<close>

definition GOLDEN :: u64 where "GOLDEN = 0x9e3779b97f4a7c15"

definition splitmix :: "u64 \<Rightarrow> u64" where
  "splitmix z =
     (let z = z + GOLDEN;
          z = (z XOR drop_bit 30 z) * 0xbf58476d1ce4e5b9;
          z = (z XOR drop_bit 27 z) * 0x94d049bb133111eb
      in z XOR drop_bit 31 z)"

text \<open>The state of \<^verbatim>\<open>Rng\<close> is its word.\<close>

definition rng_draw :: "u64 \<Rightarrow> u64 \<times> u64" where
  "rng_draw s = (let s = s + GOLDEN in (splitmix s, s))"

definition rng_below :: "u64 \<Rightarrow> u64 \<Rightarrow> u64 \<times> u64" where
  "rng_below n s = (case rng_draw s of (x, s) \<Rightarrow> (x mod n, s))"

text \<open>\<^verbatim>\<open>Rng::unit\<close>: 53 bits over \<open>2 ^ 53\<close>, which a double holds exactly.\<close>

definition rng_unit :: "u64 \<Rightarrow> real \<times> u64" where
  "rng_unit s = (case rng_draw s of (x, s) \<Rightarrow> (real (unat (drop_bit 11 x)) / 2 ^ 53, s))"

section \<open>Parameters and objects\<close>

definition FOOTER :: u64 where "FOOTER = 48"
definition INDEX_ENTRY :: u64 where "INDEX_ENTRY = 36"
definition DATA_KIB :: u64 where "DATA_KIB = 1024"
definition DATA_MIB :: u64 where "DATA_MIB = 1024 * DATA_KIB"
definition DATA_BLOCK :: u64 where "DATA_BLOCK = DATA_MIB"

datatype profile = StreamSet | StreamProfile

definition profile_name :: "profile \<Rightarrow> string" where
  "profile_name p = (case p of StreamSet \<Rightarrow> ''streamset'' | StreamProfile \<Rightarrow> ''stream'')"

record dataset_params =
  dp_seed :: u64
  dp_objects :: nat
  dp_profile :: profile
  dp_streams :: u32

record data_block =
  db_stream :: u32
  db_range :: "u64 urange"

record data_object =
  do_key :: string
  do_seed :: u64
  do_size :: u64
  do_blocks :: "data_block list"
  do_index :: "u64 urange"
  do_footer :: "u64 urange"

definition open_ranges :: "data_object \<Rightarrow> u64 urange list" where
  "open_ranges ob = [do_footer ob, do_index ob]"

text \<open>The first and the last block of a stream, as the filtered iterator gives them from its two ends.\<close>

definition object_stream_range :: "u32 \<Rightarrow> data_object \<Rightarrow> u64 urange option" where
  "object_stream_range stream ob =
     (case filter (\<lambda>b. db_stream b = stream) (do_blocks ob) of
        [] \<Rightarrow> None
      | first # rest \<Rightarrow>
          let end_block = (if rest = [] then first else last rest)
          in Some (Range (range_start (db_range first)) (range_end (db_range end_block))))"

section \<open>Layout\<close>

definition pad_zeros :: "nat \<Rightarrow> string \<Rightarrow> string" where
  "pad_zeros n s = replicate (n - length s) CHR ''0'' @ s"

text \<open>The digits \<^verbatim>\<open>format!(\"{:x}\")\<close> prints.\<close>

fun show_hex :: "nat \<Rightarrow> string" where
  "show_hex n = (if n < 16 then [digit_char n] else show_hex (n div 16) @ [digit_char (n mod 16)])"

declare show_hex.simps [simp del]

definition data_key :: "dataset_params \<Rightarrow> nat \<Rightarrow> string" where
  "data_key params index =
     ''bench/'' @ profile_name (dp_profile params) @ ''/'' @ pad_zeros 16 (show_hex (unat (dp_seed params)))
       @ ''/'' @ pad_zeros 6 (show_nat index)"

definition object_seed :: "dataset_params \<Rightarrow> nat \<Rightarrow> u64" where
  "object_seed params index = splitmix (dp_seed params XOR of_nat index * GOLDEN)"

definition finish_object :: "string \<Rightarrow> u64 \<Rightarrow> data_block list \<Rightarrow> u64 \<Rightarrow> data_object" where
  "finish_object key seed blocks data_end =
     (let index = Range data_end (data_end + of_nat (length blocks) * INDEX_ENTRY);
          footer = Range (range_end index) (range_end index + FOOTER)
      in \<lparr>do_key = key, do_seed = seed, do_size = range_end footer, do_blocks = blocks, do_index = index,
          do_footer = footer\<rparr>)"

text \<open>The size of one contribution to a stream set object.\<close>

definition contribution_size :: "u64 \<Rightarrow> u64 \<times> u64" where
  "contribution_size s =
     (case rng_below 100 s of
        (roll, s) \<Rightarrow>
          if roll < 70 then (case rng_below (60 * DATA_KIB) s of (x, s) \<Rightarrow> (4 * DATA_KIB + x, s))
          else if roll < 95 then (case rng_below (960 * DATA_KIB) s of (x, s) \<Rightarrow> (64 * DATA_KIB + x, s))
          else (case rng_below (7 * DATA_MIB) s of (x, s) \<Rightarrow> (DATA_MIB + x, s)))"

lemma unat_DATA_MIB [simp]: "unat DATA_MIB = 1048576"
  by (simp add: DATA_MIB_def DATA_KIB_def)

lemma unat_DATA_BLOCK [simp]: "unat DATA_BLOCK = 1048576"
  by (simp add: DATA_BLOCK_def)

lemma rng_below_bound: "rng_below n s = (x, s') \<Longrightarrow> n \<noteq> 0 \<Longrightarrow> unat x < unat n"
  by (auto simp: rng_below_def split: prod.splits)
    (metis unat_eq_zero unat_mod mod_less_divisor bot_nat_0.not_eq_extremum)

lemma unat_plus_const:
  assumes "rng_below n s = (x, s')" and "n \<noteq> 0" and "unat (c :: u64) + unat n < 2 ^ 64"
  shows "unat (c + x) = unat c + unat x"
  using rng_below_bound [OF assms(1,2)] assms(3) by (intro unat_plus_no_wrap) simp

lemma contribution_size_bounds:
  assumes "contribution_size s = (n, s')"
  shows "4096 \<le> unat n" and "unat n < 8388608"
proof -
  obtain roll s1 where roll: "rng_below 100 s = (roll, s1)" by fastforce
  obtain c m x where r: "rng_below m s1 = (x, s')" "n = c + x" "m \<noteq> 0" "4096 \<le> unat c" "unat c + unat m \<le> 8388608"
    using assms roll
    by (auto simp: contribution_size_def DATA_KIB_def DATA_MIB_def split: prod.splits if_splits)
  from r rng_below_bound [OF r(1,3)] unat_plus_const [OF r(1,3), of c]
  show "4096 \<le> unat n" and "unat n < 8388608" by simp_all
qed

text \<open>
  The contributions of a stream set object. The loop stops at the first total that reaches the target.
  Its total is a natural number here; it stays below the target plus eight MiB, so the word of the
  code does not wrap.
\<close>

function contributions :: "u32 \<Rightarrow> nat \<Rightarrow> nat \<Rightarrow> u64 \<Rightarrow> (u32 \<times> u64) list run" where
  "contributions streams target drawn s =
     (if drawn \<ge> target then Returns []
      else case contribution_size s of
             (sz, s) \<Rightarrow>
               if streams = 0 then Panics
               else (case rng_below (ucast streams) s of
                       (stream, s) \<Rightarrow>
                         (case contributions streams target (drawn + unat sz) s of
                            Returns cs \<Rightarrow> Returns ((ucast stream, sz) # cs)
                          | Panics \<Rightarrow> Panics
                          | Hangs \<Rightarrow> Hangs)))"
  by pat_completeness auto
termination
  by (relation "measure (\<lambda>(streams, target, drawn, s). target - drawn)")
    (auto dest!: contribution_size_bounds(1) [OF sym])

declare contributions.simps [simp del]

text \<open>\<^verbatim>\<open>dedup_by\<close>: neighbours of one stream are added up.\<close>

fun dedup_contributions :: "(u32 \<times> u64) list \<Rightarrow> (u32 \<times> u64) list" where
  "dedup_contributions ((a, m) # (b, n) # cs) =
     (if a = b then dedup_contributions ((a, m + n) # cs) else (a, m) # dedup_contributions ((b, n) # cs))"
| "dedup_contributions cs = cs"

text \<open>The blocks of one contribution, and the offset after them.\<close>

function cut_blocks :: "u32 \<Rightarrow> u64 \<Rightarrow> u64 \<Rightarrow> data_block list \<times> u64" where
  "cut_blocks stream remaining offset =
     (if remaining > 0
      then let len = min remaining DATA_BLOCK;
               (bs, stop) = cut_blocks stream (remaining - len) (offset + len)
           in (\<lparr>db_stream = stream, db_range = Range offset (offset + len)\<rparr> # bs, stop)
      else ([], offset))"
  by pat_completeness auto
termination
  by (relation "measure (\<lambda>(stream, remaining, offset). unat remaining)")
    (auto simp: unat_sub_le unat_min word_less_nat_alt min_def)

declare cut_blocks.simps [simp del]

fun lay_out :: "(u32 \<times> u64) list \<Rightarrow> u64 \<Rightarrow> data_block list \<times> u64" where
  "lay_out [] offset = ([], offset)"
| "lay_out ((stream, sz) # cs) offset =
     (let (bs, offset) = cut_blocks stream sz offset; (rest, stop) = lay_out cs offset in (bs @ rest, stop))"

definition stream_set_object :: "dataset_params \<Rightarrow> nat \<Rightarrow> data_object run" where
  "stream_set_object params index =
     (let seed = object_seed params index
      in case rng_below 49 seed of
           (x, s) \<Rightarrow>
             (case contributions (dp_streams params) (unat ((16 + x) * DATA_MIB)) 0 s of
                Returns cs \<Rightarrow>
                  (case lay_out (dedup_contributions (sort_key fst cs)) 0 of
                     (blocks, offset) \<Rightarrow> Returns (finish_object (data_key params index) seed blocks offset))
              | Panics \<Rightarrow> Panics
              | Hangs \<Rightarrow> Hangs))"

text \<open>The loop of \<^verbatim>\<open>stream\<close>.\<close>

function stream_blocks :: "u32 \<Rightarrow> u64 \<Rightarrow> u64 \<Rightarrow> data_block list \<times> u64" where
  "stream_blocks stream sz offset =
     (if offset < sz
      then let len = min (sz - offset) DATA_BLOCK;
               (bs, stop) = stream_blocks stream sz (offset + len)
           in (\<lparr>db_stream = stream, db_range = Range offset (offset + len)\<rparr> # bs, stop)
      else ([], offset))"
  by pat_completeness auto
termination
proof (relation "measure (\<lambda>(stream, sz, offset). unat sz - unat offset)", goal_cases)
  case (2 stream sz offset len)
  have "unat len = min (unat sz - unat offset) 1048576"
    using 2 by (simp add: unat_min unat_sub_le word_less_nat_alt word_le_nat_alt)
  moreover have "unat offset < unat sz" using 2(1) by (simp add: word_less_nat_alt)
  moreover have "unat (offset + len) = unat offset + unat len"
    using calculation u64_bound [of sz] by (intro unat_plus_no_wrap) simp
  ultimately show ?case by simp
qed simp

declare stream_blocks.simps [simp del]

definition stream_object :: "dataset_params \<Rightarrow> nat \<Rightarrow> data_object run" where
  "stream_object params index =
     (let seed = object_seed params index
      in case rng_below (7 * DATA_MIB) seed of
           (x, s) \<Rightarrow>
             if dp_streams params = 0 then Panics
             else (case stream_blocks (ucast (of_nat index mod (ucast (dp_streams params) :: u64))) (DATA_MIB + x) 0 of
                     (blocks, offset) \<Rightarrow> Returns (finish_object (data_key params index) seed blocks offset)))"

section \<open>Datasets\<close>

record dataset =
  ds_params :: dataset_params
  ds_objects :: "data_object list"

fun run_list :: "'a run list \<Rightarrow> 'a list run" where
  "run_list [] = Returns []"
| "run_list (r # rs) =
     (case r of
        Returns x \<Rightarrow> (case run_list rs of Returns xs \<Rightarrow> Returns (x # xs) | Panics \<Rightarrow> Panics | Hangs \<Rightarrow> Hangs)
      | Panics \<Rightarrow> Panics
      | Hangs \<Rightarrow> Hangs)"

definition generate_object :: "dataset_params \<Rightarrow> nat \<Rightarrow> data_object run" where
  "generate_object params i =
     (case dp_profile params of StreamSet \<Rightarrow> stream_set_object params i | StreamProfile \<Rightarrow> stream_object params i)"

definition generate :: "dataset_params \<Rightarrow> dataset run" where
  "generate params =
     (case run_list (map (generate_object params) [0..<dp_objects params]) of
        Returns obs \<Rightarrow> Returns \<lparr>ds_params = params, ds_objects = obs\<rparr>
      | Panics \<Rightarrow> Panics
      | Hangs \<Rightarrow> Hangs)"

definition total_bytes :: "dataset \<Rightarrow> u64" where
  "total_bytes ds = sum_list (map do_size (ds_objects ds))"

definition stream_ranges :: "u32 \<Rightarrow> dataset \<Rightarrow> (nat \<times> u64 urange) list" where
  "stream_ranges stream ds =
     concat (map (\<lambda>(i, ob). case object_stream_range stream ob of Some r \<Rightarrow> [(i, r)] | None \<Rightarrow> [])
       (enumerate 0 (ds_objects ds)))"

text \<open>\<^verbatim>\<open>fill\<close>; slicing past the end of the buffer panics.\<close>

definition fill :: "u64 \<Rightarrow> u64 urange \<Rightarrow> bytes run" where
  "fill seed r =
     (let len = unat (range_end r - range_start r);
          words = range_list (Range (range_start r div 8) (div_ceil (range_end r) 8));
          buf = concat (map (\<lambda>w. put_le 8 (splitmix (seed XOR w * 0xbf58476d1ce4e5b9))) words);
          skip = unat (range_start r mod 8)
      in if skip + len \<le> length buf then Returns (bslice skip (skip + len) buf) else Panics)"

text \<open>The bytes of an object; an index past the end panics.\<close>

definition dataset_bytes :: "dataset \<Rightarrow> nat \<Rightarrow> u64 urange \<Rightarrow> bytes run" where
  "dataset_bytes ds i r = (if i < length (ds_objects ds) then fill (do_seed (ds_objects ds ! i)) r else Panics)"

section \<open>The bytes of an object\<close>

text \<open>The byte at a position, on its own.\<close>

definition fill_byte :: "u64 \<Rightarrow> nat \<Rightarrow> u8" where
  "fill_byte seed i =
     ucast (drop_bit (8 * (i mod 8)) (splitmix (seed XOR of_nat (i div 8) * 0xbf58476d1ce4e5b9)))"

lemma unat_div_ceil_8: "unat (div_ceil a 8) = (unat a + 7) div 8"
  by (simp add: unat_div_ceil)

lemma concat_words_bytes:
  assumes "m \<le> n"
  shows "concat (map (\<lambda>w. put_le 8 (splitmix (seed XOR w * 0xbf58476d1ce4e5b9))) (map of_nat [m..<n]))
    = map (fill_byte seed) [8 * m..<8 * n]"
  using assms
proof (induction n rule: dec_induct)
  case base
  then show ?case by simp
next
  case (step n)
  let ?f = "\<lambda>w. put_le 8 (splitmix (seed XOR w * 0xbf58476d1ce4e5b9))"
  have "[8 * n..<8 * n + 8] = map (\<lambda>i. i + 8 * n) [0..<8]" by (simp only: map_add_upt add.commute)
  then have last: "map (fill_byte seed) [8 * n..<8 * n + 8] = ?f (of_nat n)"
    by (auto simp: put_le_def fill_byte_def)
  have "8 * m \<le> 8 * n" using step.hyps by simp
  from upt_add_eq_append [OF this, of 8]
  have "map (fill_byte seed) [8 * m..<8 * Suc n] = map (fill_byte seed) [8 * m..<8 * n] @ ?f (of_nat n)"
    by (simp only: mult_Suc_right add.commute [of 8] map_append last)
  moreover have "concat (map ?f (map of_nat [m..<Suc n])) = concat (map ?f (map of_nat [m..<n])) @ ?f (of_nat n)"
    using step.hyps by simp
  ultimately show ?case using step.IH by simp
qed

lemma fill_bytes:
  assumes "a \<le> b"
  shows "fill seed (Range a b) = Returns (map (fill_byte seed) [unat a..<unat b])"
proof -
  let ?m = "unat a div 8" and ?n = "(unat b + 7) div 8"
  have le: "unat a \<le> unat b" using assms by (simp add: word_le_nat_alt)
  then have mn: "?m \<le> ?n" by linarith
  have words: "range_list (Range (a div 8) (div_ceil b 8)) = map of_nat [?m..<?n]"
    by (simp add: range_list_def unat_div unat_div_ceil_8)
  have skip: "unat (a mod 8) = unat a mod 8" by (simp add: unat_mod)
  have len: "unat (b - a) = unat b - unat a" by (rule unat_sub_le [OF assms])
  have top: "unat b \<le> 8 * ?n" and low: "8 * ?m + unat a mod 8 = unat a" by (linarith, simp)
  then have fit: "unat a mod 8 + (unat b - unat a) \<le> 8 * ?n - 8 * ?m" using le by linarith
  have "bslice (unat a mod 8) (unat a mod 8 + (unat b - unat a)) (map (fill_byte seed) [8 * ?m..<8 * ?n])
      = map (fill_byte seed) [unat a..<unat b]"
    using fit le low by (simp add: bslice_def drop_map take_map)
  then show ?thesis
    using concat_words_bytes [OF mn, of seed] fit
    by (simp add: fill_def Let_def words skip len)
qed

text \<open>
  Any part of an object can be computed on its own: the bytes of a range are the slice of the bytes
  of the whole object, of the length of the range.
\<close>

theorem fill_slices_whole:
  assumes "a \<le> b" and "b \<le> n"
  shows "\<exists>whole part. fill seed (Range 0 n) = Returns whole \<and> fill seed (Range a b) = Returns part
    \<and> part = bslice (unat a) (unat b) whole \<and> length whole = unat n"
proof -
  have "unat a \<le> unat b" "unat b \<le> unat n" using assms by (simp_all add: word_le_nat_alt)
  then have "map (fill_byte seed) [unat a..<unat b] = bslice (unat a) (unat b) (map (fill_byte seed) [0..<unat n])"
    by (simp add: bslice_def drop_map take_map)
  then show ?thesis using fill_bytes [OF assms(1), of seed] fill_bytes [of 0 n seed] by simp
qed

theorem fill_slices_whole_witness:
  "\<exists>whole part. fill 42 (Range 0 16) = Returns whole \<and> fill 42 (Range 3 11) = Returns part
    \<and> part = bslice 3 11 whole \<and> length whole = 16"
  using fill_slices_whole [of 3 11 16 42] by simp

section \<open>The layout of an object\<close>

text \<open>Blocks that follow each other from \<open>a\<close> to \<open>z\<close>, none empty and none longer than a data block.\<close>

fun tiles :: "u64 \<Rightarrow> data_block list \<Rightarrow> u64 \<Rightarrow> bool" where
  "tiles a [] z \<longleftrightarrow> a = z"
| "tiles a (b # bs) z \<longleftrightarrow>
     range_start (db_range b) = a \<and> a < range_end (db_range b)
     \<and> unat (range_end (db_range b)) - unat a \<le> unat DATA_BLOCK \<and> tiles (range_end (db_range b)) bs z"

lemma tiles_append: "tiles a (bs @ cs) z \<longleftrightarrow> (\<exists>m. tiles a bs m \<and> tiles m cs z)"
  by (induction bs arbitrary: a) auto

lemma tiles_bounds:
  assumes "tiles a bs z"
  shows "unat a + length bs \<le> unat z"
    and "b \<in> set bs \<Longrightarrow> a \<le> range_start (db_range b) \<and> range_start (db_range b) < range_end (db_range b) \<and> range_end (db_range b) \<le> z"
proof -
  have "unat a + length bs \<le> unat z
    \<and> (b \<in> set bs \<longrightarrow> unat a \<le> unat (range_start (db_range b)) \<and> unat (range_start (db_range b)) < unat (range_end (db_range b))
        \<and> unat (range_end (db_range b)) \<le> unat z)"
    using assms
  proof (induction bs arbitrary: a)
    case Nil
    then show ?case by simp
  next
    case (Cons c bs)
    have "tiles (range_end (db_range c)) bs z" using Cons.prems by simp
    from Cons.IH [OF this] Cons.prems show ?case by (auto simp: word_less_nat_alt)
  qed
  then show "unat a + length bs \<le> unat z"
    and "b \<in> set bs \<Longrightarrow> a \<le> range_start (db_range b) \<and> range_start (db_range b) < range_end (db_range b) \<and> range_end (db_range b) \<le> z"
    by (simp_all add: word_less_nat_alt word_le_nat_alt)
qed

definition laid_out :: "data_object \<Rightarrow> bool" where
  "laid_out ob \<longleftrightarrow>
     do_blocks ob \<noteq> [] \<and> tiles 0 (do_blocks ob) (range_start (do_index ob)) \<and> sorted (map db_stream (do_blocks ob))
     \<and> unat (range_end (do_index ob)) = unat (range_start (do_index ob)) + 36 * length (do_blocks ob)
     \<and> range_start (do_footer ob) = range_end (do_index ob)
     \<and> unat (range_end (do_footer ob)) = unat (range_end (do_index ob)) + 48
     \<and> do_size ob = range_end (do_footer ob)"

lemma finish_laid_out:
  assumes "tiles 0 bs data_end" and "sorted (map db_stream bs)" and "bs \<noteq> []" and "unat data_end < 2 ^ 32"
  shows "laid_out (finish_object key seed bs data_end)"
    and "unat (do_size (finish_object key seed bs data_end)) = unat data_end + 36 * length bs + 48"
proof -
  have len: "length bs \<le> unat data_end" using tiles_bounds(1) [OF assms(1)] by simp
  then have "unat (of_nat (length bs) :: u64) = length bs" using assms(4) by (intro unat_of_nat_lt) simp
  then have "unat (of_nat (length bs) * INDEX_ENTRY) = 36 * length bs"
    using len assms(4) by (simp add: INDEX_ENTRY_def unat_word_ariths)
  then have i: "unat (data_end + of_nat (length bs) * INDEX_ENTRY) = unat data_end + 36 * length bs"
    using len assms(4) by (subst unat_plus_no_wrap) simp_all
  moreover have f: "unat (data_end + of_nat (length bs) * INDEX_ENTRY + FOOTER) = unat data_end + 36 * length bs + 48"
    using i len assms(4) by (subst unat_plus_no_wrap) (simp_all add: FOOTER_def)
  ultimately show "laid_out (finish_object key seed bs data_end)"
    and "unat (do_size (finish_object key seed bs data_end)) = unat data_end + 36 * length bs + 48"
    using assms by (simp_all add: laid_out_def finish_object_def Let_def)
qed

lemma cut_blocks_tiles:
  assumes "cut_blocks stream remaining offset = (bs, stop)" and "unat offset + unat remaining < 2 ^ 64"
  shows "tiles offset bs stop \<and> unat stop = unat offset + unat remaining \<and> (\<forall>b \<in> set bs. db_stream b = stream)
    \<and> (bs = [] \<longleftrightarrow> remaining = 0)"
  using assms
proof (induction stream remaining offset arbitrary: bs rule: cut_blocks.induct)
  case (1 stream remaining offset)
  let ?len = "min remaining DATA_BLOCK"
  have len: "unat ?len = min (unat remaining) 1048576" by (simp add: unat_min)
  have off: "unat (offset + ?len) = unat offset + unat ?len"
    using "1.prems"(2) len by (intro unat_plus_no_wrap) simp
  have rem: "unat (remaining - ?len) = unat remaining - unat ?len" by (rule unat_sub_le) simp
  show ?case
  proof (cases "remaining > 0")
    case True
    obtain cs where cs: "cut_blocks stream (remaining - ?len) (offset + ?len) = (cs, stop)"
        "bs = \<lparr>db_stream = stream, db_range = Range offset (offset + ?len)\<rparr> # cs"
      using "1.prems"(1) True by (auto simp: cut_blocks.simps [of stream remaining] Let_def split: prod.splits)
    have pos: "0 < unat remaining" using True by (simp add: word_less_nat_alt)
    have "unat (offset + ?len) + unat (remaining - ?len) < 2 ^ 64" using "1.prems"(2) off rem len by simp
    from "1.IH" [OF True refl cs(1) this] show ?thesis
      using cs(2) off rem len pos by (auto simp: word_less_nat_alt)
  next
    case False
    then have "unat remaining = 0" by (simp add: word_less_nat_alt)
    with False "1.prems"(1) show ?thesis by (auto simp: cut_blocks.simps [of stream remaining] unat_eq_zero)
  qed
qed

abbreviation contributed :: "(u32 \<times> u64) list \<Rightarrow> nat" where
  "contributed cs \<equiv> sum_list (map (\<lambda>c. unat (snd c)) cs)"

lemma lay_out_tiles:
  assumes "lay_out cs offset = (bs, stop)" and "unat offset + contributed cs < 2 ^ 64" and "sorted (map fst cs)"
  shows "tiles offset bs stop \<and> unat stop = unat offset + contributed cs \<and> sorted (map db_stream bs)
    \<and> db_stream ` set bs \<subseteq> fst ` set cs"
  using assms
proof (induction cs arbitrary: offset bs)
  case Nil
  then show ?case by simp
next
  case (Cons c cs)
  obtain stream sz where c: "c = (stream, sz)" by fastforce
  obtain bs1 o1 where cut: "cut_blocks stream sz offset = (bs1, o1)" by fastforce
  obtain bs2 where rest: "lay_out cs o1 = (bs2, stop)" "bs = bs1 @ bs2"
    using Cons.prems(1) c cut by (auto simp: Let_def split: prod.splits)
  have t1: "tiles offset bs1 o1" "unat o1 = unat offset + unat sz" "\<forall>b \<in> set bs1. db_stream b = stream"
    using cut_blocks_tiles [OF cut] Cons.prems(2) c by simp_all
  have t2: "tiles o1 bs2 stop" "unat stop = unat o1 + contributed cs" "sorted (map db_stream bs2)"
      "db_stream ` set bs2 \<subseteq> fst ` set cs"
    using Cons.IH [OF rest(1)] Cons.prems(2,3) c t1(2) by (simp_all add: add.assoc)
  have "sorted (map db_stream (bs1 @ bs2))"
  proof -
    have "map db_stream bs1 = replicate (length bs1) stream" using t1(3) by (simp add: map_replicate_const [symmetric])
    moreover have "\<forall>x \<in> fst ` set cs. stream \<le> x" using Cons.prems(3) c by auto
    ultimately show ?thesis using t2(3,4) by (fastforce simp: sorted_append)
  qed
  then show ?case using t1 t2 rest(2) c by (auto simp: tiles_append)
qed

lemma dedup_contributions_keeps:
  assumes "contributed cs < 2 ^ 64"
  shows "contributed (dedup_contributions cs) = contributed cs \<and> fst ` set (dedup_contributions cs) = fst ` set cs"
  using assms
proof (induction cs rule: dedup_contributions.induct)
  case (1 a m b n cs)
  have sum: "unat (m + n) = unat m + unat n" using "1.prems" by (intro unat_plus_no_wrap) simp
  show ?case using "1.IH" "1.prems" sum by (cases "a = b") (simp_all add: add.assoc)
qed simp_all

lemma dedup_contributions_sorted:
  assumes "sorted (map fst cs)" and "contributed cs < 2 ^ 64"
  shows "sorted (map fst (dedup_contributions cs))"
  using assms
proof (induction cs rule: dedup_contributions.induct)
  case (1 a m b n cs)
  have sum: "unat (m + n) = unat m + unat n" using "1.prems" by (intro unat_plus_no_wrap) simp
  show ?case
  proof (cases "a = b")
    case True
    then show ?thesis using "1.IH"(1) "1.prems" sum by (simp add: add.assoc)
  next
    case False
    then have "sorted (map fst (dedup_contributions ((b, n) # cs)))" using "1.IH"(2) "1.prems" by simp
    moreover have "fst ` set (dedup_contributions ((b, n) # cs)) = fst ` set ((b, n) # cs)"
      using dedup_contributions_keeps [of "(b, n) # cs"] "1.prems"(2) by simp
    moreover have "\<forall>x \<in> fst ` set ((b, n) # cs). a \<le> x" using "1.prems"(1) by auto
    ultimately show ?thesis using False by (simp only: dedup_contributions.simps if_False sorted_wrt.simps list.map set_map fst_conv)
  qed
qed simp_all

lemma contributions_sum:
  assumes "streams \<noteq> 0" and "drawn < target"
  shows "\<exists>cs. contributions streams target drawn s = Returns cs
    \<and> target \<le> drawn + contributed cs \<and> drawn + contributed cs < target + 8388608"
  using assms
proof (induction streams target drawn s rule: contributions.induct)
  case (1 streams target drawn s)
  obtain sz s1 where c: "contribution_size s = (sz, s1)" by fastforce
  obtain stream s2 where b: "rng_below (ucast streams) s1 = (stream, s2)" by fastforce
  note sz = contribution_size_bounds [OF c]
  show ?case
  proof (cases "drawn + unat sz < target")
    case True
    then obtain cs where cs: "contributions streams target (drawn + unat sz) s2 = Returns cs"
        "target \<le> drawn + unat sz + contributed cs" "drawn + unat sz + contributed cs < target + 8388608"
      using "1.IH" [OF _ c [symmetric] _ b [symmetric]] "1.prems" by auto
    then show ?thesis
      using "1.prems" by (auto simp: contributions.simps [of streams target drawn] c b add.assoc)
  next
    case False
    then show ?thesis
      using "1.prems" sz
      by (auto simp: contributions.simps [of streams target drawn] contributions.simps [of streams target "drawn + unat sz"] c b)
  qed
qed

lemma stream_set_laid_out:
  assumes "dp_streams params \<noteq> 0"
  shows "\<exists>ob. stream_set_object params i = Returns ob \<and> laid_out ob \<and> do_key ob = data_key params i
    \<and> 16777216 \<le> unat (do_size ob) \<and> unat (do_size ob) < 2 ^ 32"
proof -
  obtain x s where x: "rng_below 49 (object_seed params i) = (x, s)" by fastforce
  have xb: "unat x < 49" using rng_below_bound [OF x] by simp
  then have sixteen: "unat (16 + x) = 16 + unat x" by (subst unat_plus_no_wrap) simp_all
  have target: "unat ((16 + x) * DATA_MIB) = (16 + unat x) * 1048576"
    using xb by (simp add: unat_word_ariths(2) sixteen)
  obtain cs where cs: "contributions (dp_streams params) (unat ((16 + x) * DATA_MIB)) 0 s = Returns cs"
      "(16 + unat x) * 1048576 \<le> contributed cs" "contributed cs < (16 + unat x) * 1048576 + 8388608"
    using contributions_sum [OF assms, of 0 "(16 + unat x) * 1048576" s] target by auto
  let ?ds = "dedup_contributions (sort_key fst cs)"
  have perm: "contributed (sort_key fst cs) = contributed cs"
    using sum_mset_sum_list [of "map (\<lambda>c. unat (snd c)) (sort_key fst cs)"] sum_mset_sum_list [of "map (\<lambda>c. unat (snd c)) cs"]
    by (simp del: sum_mset_sum_list)
  have fit: "contributed (sort_key fst cs) < 2 ^ 64" using cs(3) xb perm by simp
  have ds: "contributed ?ds = contributed cs" "sorted (map fst ?ds)"
    using dedup_contributions_keeps [OF fit] dedup_contributions_sorted [OF sorted_sort_key fit] perm by simp_all
  obtain bs stop where lay: "lay_out ?ds 0 = (bs, stop)" by fastforce
  have t: "tiles 0 bs stop" "unat stop = contributed cs" "sorted (map db_stream bs)"
    using lay_out_tiles [OF lay] ds cs(3) xb by simp_all
  have len: "unat stop < 75497472" "16777216 \<le> unat stop" using t(2) cs(2,3) xb by simp_all
  moreover have "bs \<noteq> []" using t(1) len(2) by auto
  ultimately have "laid_out (finish_object (data_key params i) (object_seed params i) bs stop)"
      "unat (do_size (finish_object (data_key params i) (object_seed params i) bs stop)) = unat stop + 36 * length bs + 48"
    using finish_laid_out [OF t(1,3)] by simp_all
  moreover have "length bs \<le> unat stop" using tiles_bounds(1) [OF t(1)] by simp
  ultimately show ?thesis
    using x cs(1) lay len
    by (auto simp: stream_set_object_def Let_def finish_object_def)
qed

lemma stream_blocks_tiles:
  assumes "stream_blocks stream sz offset = (bs, stop)" and "offset \<le> sz"
  shows "tiles offset bs stop \<and> stop = sz \<and> map db_stream bs = replicate (length bs) stream
    \<and> (length bs - 1) * 1048576 \<le> unat sz - unat offset"
  using assms
proof (induction stream sz offset arbitrary: bs rule: stream_blocks.induct)
  case (1 stream sz offset)
  let ?len = "min (sz - offset) DATA_BLOCK"
  show ?case
  proof (cases "offset < sz")
    case True
    then have lt: "unat offset < unat sz" by (simp add: word_less_nat_alt)
    have len: "unat ?len = min (unat sz - unat offset) 1048576"
      using "1.prems"(2) by (simp add: unat_min unat_sub_le)
    have off: "unat (offset + ?len) = unat offset + unat ?len"
      using len lt u64_bound [of sz] by (intro unat_plus_no_wrap) simp
    have le: "offset + ?len \<le> sz" using off len lt by (simp add: word_le_nat_alt)
    obtain cs where cs: "stream_blocks stream sz (offset + ?len) = (cs, stop)"
        "bs = \<lparr>db_stream = stream, db_range = Range offset (offset + ?len)\<rparr> # cs"
      using "1.prems"(1) True by (auto simp: stream_blocks.simps [of stream sz offset] Let_def split: prod.splits)
    note ih = "1.IH" [OF True refl cs(1) le]
    have "cs = [] \<or> unat ?len = 1048576"
      using ih off len lt by (cases "unat sz - unat offset \<le> 1048576") (auto dest!: tiles_bounds(1))
    then have "length cs * 1048576 \<le> unat sz - unat offset"
      using ih off lt le by (cases cs) (auto simp: word_le_nat_alt)
    then show ?thesis using ih cs(2) off len lt by (auto simp: word_less_nat_alt)
  next
    case False
    then have "bs = []" "stop = offset" "offset = sz"
      using "1.prems" stream_blocks.simps [of stream sz offset] by simp_all
    then show ?thesis by simp
  qed
qed

lemma stream_laid_out:
  assumes "dp_streams params \<noteq> 0"
  shows "\<exists>ob. stream_object params i = Returns ob \<and> laid_out ob \<and> do_key ob = data_key params i
    \<and> 1048576 \<le> unat (do_size ob) \<and> unat (do_size ob) < 9 * 1048576 \<and> (\<exists>s. db_stream ` set (do_blocks ob) = {s})"
proof -
  obtain x s where x: "rng_below (7 * DATA_MIB) (object_seed params i) = (x, s)" by fastforce
  have xb: "unat x < 7340032" using rng_below_bound [OF x] by (simp add: DATA_MIB_def DATA_KIB_def)
  then have sz: "unat (DATA_MIB + x) = 1048576 + unat x" by (subst unat_plus_no_wrap) simp_all
  let ?stream = "ucast (of_nat i mod (ucast (dp_streams params) :: u64)) :: u32"
  obtain bs stop where bs: "stream_blocks ?stream (DATA_MIB + x) 0 = (bs, stop)" by fastforce
  have t: "tiles 0 bs stop" "unat stop = 1048576 + unat x" "map db_stream bs = replicate (length bs) ?stream"
      "(length bs - 1) * 1048576 \<le> 1048576 + unat x"
    using stream_blocks_tiles [OF bs] sz by auto
  have ne: "bs \<noteq> []" using t(1,2) by auto
  have few: "length bs \<le> 9" using t(4) xb by (cases "length bs \<le> 9") simp_all
  have srt: "sorted (map db_stream bs)" using t(3) by simp
  have "unat stop < 2 ^ 32" using t(2) xb by simp
  note f = finish_laid_out [OF t(1) srt ne this, of "data_key params i" "object_seed params i"]
  have "db_stream ` set bs = {?stream}" using t(3) ne by (metis length_0_conv set_map set_replicate)
  then have "\<exists>s. db_stream ` set (do_blocks (finish_object (data_key params i) (object_seed params i) bs stop)) = {s}"
    by (simp add: finish_object_def Let_def)
  moreover have "do_key (finish_object (data_key params i) (object_seed params i) bs stop) = data_key params i"
    by (simp add: finish_object_def Let_def)
  ultimately show ?thesis
    using x bs assms f t(2) xb few by (simp add: stream_object_def)
qed

lemma run_list_all:
  assumes "\<And>r. r \<in> set rs \<Longrightarrow> \<exists>x. r = Returns x \<and> P r x"
  shows "\<exists>xs. run_list rs = Returns xs \<and> list_all2 P rs xs"
  using assms
proof (induction rs)
  case Nil
  then show ?case by simp
next
  case (Cons r rs)
  obtain x where "r = Returns x" "P r x" using Cons.prems by auto
  moreover obtain xs where "run_list rs = Returns xs" "list_all2 P rs xs" using Cons by auto
  ultimately show ?case by auto
qed

lemma generate_object_laid_out:
  assumes "dp_streams params \<noteq> 0"
  shows "\<exists>ob. generate_object params i = Returns ob \<and> laid_out ob \<and> do_key ob = data_key params i \<and> unat (do_size ob) < 2 ^ 32
    \<and> (dp_profile params = StreamProfile \<longrightarrow> unat (do_size ob) < 9 * 1048576 \<and> (\<exists>s. db_stream ` set (do_blocks ob) = {s}))"
  using stream_set_laid_out [OF assms, of i] stream_laid_out [OF assms, of i]
  by (cases "dp_profile params") (fastforce simp: generate_object_def)+

lemma generate_laid_out:
  assumes "dp_streams params \<noteq> 0"
  shows "\<exists>ds. generate params = Returns ds \<and> ds_params ds = params \<and> length (ds_objects ds) = dp_objects params
    \<and> (\<forall>i < dp_objects params. let ob = ds_objects ds ! i in
        laid_out ob \<and> do_key ob = data_key params i \<and> unat (do_size ob) < 2 ^ 32
        \<and> (dp_profile params = StreamProfile \<longrightarrow> unat (do_size ob) < 9 * 1048576 \<and> (\<exists>s. db_stream ` set (do_blocks ob) = {s})))"
proof -
  let ?P = "\<lambda>i ob. laid_out ob \<and> do_key ob = data_key params i \<and> unat (do_size ob) < 2 ^ 32
    \<and> (dp_profile params = StreamProfile \<longrightarrow> unat (do_size ob) < 9 * 1048576 \<and> (\<exists>s. db_stream ` set (do_blocks ob) = {s}))"
  note one = generate_object_laid_out [OF assms]
  let ?rs = "map (generate_object params) [0..<dp_objects params]"
  have "\<exists>x. r = Returns x \<and> r = Returns x" if "r \<in> set ?rs" for r using that one by auto
  from run_list_all [OF this, of ?rs] obtain obs
    where obs: "run_list ?rs = Returns obs" "list_all2 (\<lambda>r x. r = Returns x) ?rs obs" by blast
  have "?P i (obs ! i)" if "i < dp_objects params" for i
    using list_all2_nthD [OF obs(2), of i] that one [of i] by auto
  moreover have "length obs = dp_objects params" using list_all2_lengthD [OF obs(2)] by simp
  ultimately show ?thesis using obs(1) by (auto simp: generate_def Let_def)
qed

text \<open>
  For every seed the dataset is generated, with an object for every index under its key. The blocks
  of an object follow each other from its first byte without gaps, none longer than one MiB, ordered
  by stream; index and footer follow them and end at its size, and no offset wraps around.
\<close>

theorem dataset_laid_out:
  assumes "dp_streams params \<noteq> 0"
  shows "\<exists>ds. generate params = Returns ds \<and> ds_params ds = params \<and> length (ds_objects ds) = dp_objects params
    \<and> (\<forall>i < dp_objects params. let ob = ds_objects ds ! i in
        laid_out ob \<and> do_key ob = data_key params i \<and> unat (do_size ob) < 2 ^ 32
        \<and> (dp_profile params = StreamProfile \<longrightarrow> unat (do_size ob) < 9 * 1048576 \<and> (\<exists>s. db_stream ` set (do_blocks ob) = {s})))"
  by (rule generate_laid_out [OF assms])

definition demo_params :: dataset_params where
  "demo_params = \<lparr>dp_seed = 7, dp_objects = 4, dp_profile = StreamProfile, dp_streams = 100\<rparr>"

theorem dataset_laid_out_witness:
  "\<exists>ds. generate demo_params = Returns ds \<and> length (ds_objects ds) = 4
    \<and> laid_out (ds_objects ds ! 3) \<and> unat (do_size (ds_objects ds ! 3)) < 9 * 1048576"
  using dataset_laid_out [of demo_params] by (auto simp: demo_params_def Let_def)

text \<open>Without streams there is nothing to draw from: any object panics.\<close>

lemma generate_without_streams:
  assumes "dp_streams params = 0" and "dp_objects params > 0"
  shows "generate params = Panics"
proof -
  have "contributions 0 target 0 s = Panics" if "0 < target" for target s
    using that by (auto simp: contributions.simps [of 0 target] split: prod.splits)
  moreover have "0 < unat ((16 + fst (rng_below 49 s)) * DATA_MIB)" for s
  proof -
    obtain x s' where x: "rng_below 49 s = (x, s')" by fastforce
    have "unat x < 49" using rng_below_bound [OF x] by simp
    then show ?thesis using x by (simp add: unat_word_ariths(1,2))
  qed
  ultimately have "generate_object params 0 = Panics"
    using assms(1)
    by (auto simp: generate_object_def stream_set_object_def stream_object_def Let_def case_prod_beta split: profile.splits)
  then show ?thesis using assms(2) by (simp add: generate_def upt_conv_Cons)
qed

section \<open>Keys and streams\<close>

lemma digits_value_pad_zeros: "digits_value 10 0 (pad_zeros n s) = digits_value 10 0 s"
proof -
  have "digits_value 10 0 (replicate k CHR ''0'' @ s) = digits_value 10 0 s" for k
    by (induction k) (simp_all add: digit_value_def Let_def)
  then show ?thesis by (simp add: pad_zeros_def)
qed

text \<open>No two objects of a dataset share a key.\<close>

theorem data_key_inj: "data_key params i = data_key params j \<longleftrightarrow> i = j"
proof
  assume "data_key params i = data_key params j"
  then have "pad_zeros 6 (show_nat i) = pad_zeros 6 (show_nat j)" by (simp add: data_key_def)
  then have "digits_value 10 0 (show_nat i) = digits_value 10 0 (show_nat j)" by (metis digits_value_pad_zeros)
  then show "i = j" by (simp add: digits_value_show_nat)
qed simp

lemma sorted_split:
  assumes "sorted (map f xs)"
  shows "xs = filter (\<lambda>x. f x < c) xs @ filter (\<lambda>x. f x = c) xs @ filter (\<lambda>x. c < f x) xs"
  using assms
proof (induction xs)
  case Nil
  then show ?case by simp
next
  case (Cons x xs)
  then have ih: "xs = filter (\<lambda>x. f x < c) xs @ filter (\<lambda>x. f x = c) xs @ filter (\<lambda>x. c < f x) xs" by simp
  have le: "\<forall>y \<in> set xs. f x \<le> f y" using Cons.prems by simp
  consider "f x < c" | "f x = c" | "c < f x" by force
  then show ?case
  proof cases
    case 1
    then have "f x \<noteq> c" "\<not> c < f x" by auto
    then show ?thesis using ih 1 by simp
  next
    case 2
    then have "filter (\<lambda>x. f x < c) xs = []" using le by (auto simp: filter_empty_conv)
    then show ?thesis using ih 2 by simp
  next
    case 3
    then have "filter (\<lambda>x. f x < c) xs = []" "filter (\<lambda>x. f x = c) xs = []" using le by (auto simp: filter_empty_conv)
    then show ?thesis using ih 3 by simp
  qed
qed

lemma tiles_ends:
  assumes "tiles a (b # bs) z"
  shows "range_start (db_range b) = a" and "range_end (db_range (last (b # bs))) = z"
proof -
  show "range_start (db_range b) = a" using assms by simp
  show "range_end (db_range (last (b # bs))) = z" using assms by (induction bs arbitrary: a b) auto
qed

lemma stream_tiled:
  assumes "laid_out ob"
  shows "case object_stream_range stream ob of
      None \<Rightarrow> stream \<notin> db_stream ` set (do_blocks ob)
    | Some r \<Rightarrow> stream \<in> db_stream ` set (do_blocks ob)
        \<and> tiles (range_start r) (filter (\<lambda>b. db_stream b = stream) (do_blocks ob)) (range_end r)
        \<and> range_start r < range_end r \<and> range_end r \<le> range_start (do_index ob)"
proof -
  let ?bs = "do_blocks ob" and ?mine = "filter (\<lambda>b. db_stream b = stream) (do_blocks ob)"
  have srt: "sorted (map db_stream ?bs)" and t: "tiles 0 ?bs (range_start (do_index ob))"
    using assms by (simp_all add: laid_out_def)
  obtain a z where az: "tiles a ?mine z" "z \<le> range_start (do_index ob)"
  proof -
    obtain pre post where "?bs = pre @ ?mine @ post" using sorted_split [OF srt] by blast
    then have "tiles 0 (pre @ ?mine @ post) (range_start (do_index ob))" using t by metis
    then obtain a z where az: "tiles a ?mine z" "tiles z post (range_start (do_index ob))" by (auto simp: tiles_append)
    have "z \<le> range_start (do_index ob)" using tiles_bounds(1) [OF az(2)] by (simp add: word_le_nat_alt)
    then show thesis using that az(1) by blast
  qed
  show ?thesis
  proof (cases ?mine)
    case Nil
    then show ?thesis by (auto simp: object_stream_range_def filter_empty_conv)
  next
    case (Cons b bs)
    note e = tiles_ends [OF az(1) [unfolded Cons]]
    have r: "object_stream_range stream ob = Some (Range a z)"
      using Cons e by (auto simp: object_stream_range_def Let_def)
    have "b \<in> set ?mine" using Cons by simp
    then have "stream \<in> db_stream ` set ?bs" by auto
    moreover have "unat a < unat z" using tiles_bounds(1) [OF az(1)] Cons by simp
    ultimately show ?thesis using r az by (simp add: word_less_nat_alt)
  qed
qed

text \<open>
  The range of a stream in an object is tiled by the blocks of that stream and no others, and there
  is none exactly when the object has no block of it.
\<close>

theorem stream_range_exact:
  assumes "laid_out ob"
  shows "case object_stream_range stream ob of
      None \<Rightarrow> stream \<notin> db_stream ` set (do_blocks ob)
    | Some r \<Rightarrow> stream \<in> db_stream ` set (do_blocks ob)
        \<and> tiles (range_start r) (filter (\<lambda>b. db_stream b = stream) (do_blocks ob)) (range_end r)
        \<and> range_start r < range_end r \<and> range_end r \<le> range_start (do_index ob)"
  by (rule stream_tiled [OF assms])

theorem stream_range_exact_witness:
  "\<exists>ob. generate_object demo_params 3 = Returns ob \<and>
    (case object_stream_range 3 ob of
       None \<Rightarrow> 3 \<notin> db_stream ` set (do_blocks ob)
     | Some r \<Rightarrow> range_start r < range_end r \<and> range_end r \<le> range_start (do_index ob))"
proof -
  obtain ob where ob: "generate_object demo_params 3 = Returns ob" "laid_out ob"
    using generate_object_laid_out [of demo_params 3] by (auto simp: demo_params_def)
  then show ?thesis using stream_range_exact [OF ob(2), of 3] by (auto split: option.splits)
qed

end
