(* ===== verification/Bench_Proxy.thy ===== *)
theory Bench_Proxy
  imports Bench_Dataset Policy
begin

text \<open>
  The counting and fault-injecting proxy of the benchmarks, \<^verbatim>\<open>nestor-bench/src/proxy.rs\<close>. A request
  passes through waits for the injected delay, for the upstream and for its body; the requests in
  between are the exchanges of a step relation, in which a client may also go away while its request
  waits. The theorem says what the count of requests in flight is in every reachable state.

  The parsers of durations, floating-point numbers and URIs and the printing of faults are parameters;
  listeners and connections are left to \<^verbatim>\<open>hyper\<close>.
\<close>

section \<open>Faults\<close>

record faults =
  fl_latency :: nanos
  fl_slow_rate :: f64
  fl_slow :: nanos
  fl_fail_rate :: f64

definition faults_default :: faults where
  "faults_default = \<lparr>fl_latency = 0, fl_slow_rate = Finite 0, fl_slow = 0, fl_fail_rate = Finite 0\<rparr>"

record fault_parsers =
  fp_duration :: "string \<Rightarrow> string + nanos"
  fp_f64 :: "string \<Rightarrow> string + f64"

definition fault_parameter :: "fault_parsers \<Rightarrow> string \<Rightarrow> faults \<Rightarrow> string + faults" where
  "fault_parameter ps pair f =
     (case split_once CHR ''='' pair of
        None \<Rightarrow> Inl (''bad fault parameter '' @ pair)
      | Some (key, value) \<Rightarrow>
          if key = ''latency'' then map_sum id (\<lambda>d. f\<lparr>fl_latency := d\<rparr>) (fp_duration ps value)
          else if key = ''slow'' then map_sum id (\<lambda>d. f\<lparr>fl_slow := d\<rparr>) (fp_duration ps value)
          else if key = ''slow_rate'' then map_sum id (\<lambda>x. f\<lparr>fl_slow_rate := x\<rparr>) (fp_f64 ps value)
          else if key = ''fail_rate'' then map_sum id (\<lambda>x. f\<lparr>fl_fail_rate := x\<rparr>) (fp_f64 ps value)
          else Inl (''unknown fault parameter '' @ key))"

fun fault_parameters :: "fault_parsers \<Rightarrow> string list \<Rightarrow> faults \<Rightarrow> string + faults" where
  "fault_parameters ps [] f = Inr f"
| "fault_parameters ps (pair # pairs) f =
     (case fault_parameter ps pair f of Inl err \<Rightarrow> Inl err | Inr f \<Rightarrow> fault_parameters ps pairs f)"

definition faults_from_query :: "fault_parsers \<Rightarrow> string \<Rightarrow> string + faults" where
  "faults_from_query ps query = fault_parameters ps (filter (\<lambda>p. p \<noteq> []) (split_on CHR ''&'' query)) faults_default"

section \<open>Counters\<close>

record origin_counters =
  oc_requests :: u64
  oc_gets :: u64
  oc_heads :: u64
  oc_bytes :: u64
  oc_errors :: u64
  oc_injected :: u64
  oc_max_inflight :: u64

definition origin_counters_sub :: "origin_counters \<Rightarrow> origin_counters \<Rightarrow> origin_counters" where
  "origin_counters_sub a b =
     \<lparr>oc_requests = oc_requests a - oc_requests b, oc_gets = oc_gets a - oc_gets b, oc_heads = oc_heads a - oc_heads b,
      oc_bytes = oc_bytes a - oc_bytes b, oc_errors = oc_errors a - oc_errors b,
      oc_injected = oc_injected a - oc_injected b, oc_max_inflight = oc_max_inflight a\<rparr>"

text \<open>\<^verbatim>\<open>Counters\<close>: what a snapshot shows, and the requests in flight.\<close>

record proxy_counters =
  ct_shown :: origin_counters
  ct_inflight :: u64

definition origin_counters_zero :: origin_counters where
  "origin_counters_zero =
     \<lparr>oc_requests = 0, oc_gets = 0, oc_heads = 0, oc_bytes = 0, oc_errors = 0, oc_injected = 0, oc_max_inflight = 0\<rparr>"

definition counters_reset :: "proxy_counters \<Rightarrow> proxy_counters" where
  "counters_reset c = c\<lparr>ct_shown := origin_counters_zero\<rparr>"

definition counters_enter :: "proxy_counters \<Rightarrow> proxy_counters" where
  "counters_enter c =
     (let n = ct_inflight c + 1
      in c\<lparr>ct_inflight := n, ct_shown := (ct_shown c)\<lparr>oc_max_inflight := max (oc_max_inflight (ct_shown c)) n\<rparr>\<rparr>)"

definition counters_leave :: "proxy_counters \<Rightarrow> proxy_counters" where
  "counters_leave c = c\<lparr>ct_inflight := ct_inflight c - 1\<rparr>"

section \<open>The proxy\<close>

record proxy =
  px_upstream :: string
  px_counters :: proxy_counters
  px_faults :: faults
  px_rng :: u64

definition proxy_new :: "string \<Rightarrow> proxy" where
  "proxy_new up =
     \<lparr>px_upstream = up, px_counters = \<lparr>ct_shown = origin_counters_zero, ct_inflight = 0\<rparr>,
      px_faults = faults_default, px_rng = 0x5eed\<rparr>"

definition proxy_snapshot :: "proxy \<Rightarrow> origin_counters" where
  "proxy_snapshot p = ct_shown (px_counters p)"

definition proxy_reset :: "proxy \<Rightarrow> proxy" where
  "proxy_reset p = p\<lparr>px_counters := counters_reset (px_counters p)\<rparr>"

definition set_faults :: "faults \<Rightarrow> proxy \<Rightarrow> proxy" where
  "set_faults f p = p\<lparr>px_faults := f\<rparr>"

definition on_shown :: "(origin_counters \<Rightarrow> origin_counters) \<Rightarrow> proxy \<Rightarrow> proxy" where
  "on_shown f p = p\<lparr>px_counters := (px_counters p)\<lparr>ct_shown := f (ct_shown (px_counters p))\<rparr>\<rparr>"

definition proxy_leave :: "proxy \<Rightarrow> proxy" where
  "proxy_leave p = p\<lparr>px_counters := counters_leave (px_counters p)\<rparr>"

text \<open>\<^verbatim>\<open>rate > 0.0 && self.draw() < rate\<close>; no number is drawn for a rate that is not positive.\<close>

fun f64_gt_zero :: "f64 \<Rightarrow> bool" where
  "f64_gt_zero (Finite x) = (0 < x)"
| "f64_gt_zero PosInf = True"
| "f64_gt_zero _ = False"

fun real_lt_f64 :: "real \<Rightarrow> f64 \<Rightarrow> bool" where
  "real_lt_f64 y (Finite x) = (y < x)"
| "real_lt_f64 y PosInf = True"
| "real_lt_f64 y _ = False"

definition strikes :: "f64 \<Rightarrow> proxy \<Rightarrow> bool \<times> proxy" where
  "strikes rate p =
     (if f64_gt_zero rate then (case rng_unit (px_rng p) of (x, s) \<Rightarrow> (real_lt_f64 x rate, p\<lparr>px_rng := s\<rparr>))
      else (False, p))"

definition count_method :: "string \<Rightarrow> origin_counters \<Rightarrow> origin_counters" where
  "count_method m c =
     (if m = ''GET'' then c\<lparr>oc_gets := oc_gets c + 1\<rparr> else if m = ''HEAD'' then c\<lparr>oc_heads := oc_heads c + 1\<rparr> else c)"

text \<open>The first part of \<^verbatim>\<open>forward\<close>: the delay to wait, or none when a failure was injected and answered with 503.\<close>

definition proxy_arrive :: "string \<Rightarrow> proxy \<Rightarrow> proxy" where
  "proxy_arrive m p =
     on_shown (\<lambda>c. count_method m (c\<lparr>oc_requests := oc_requests c + 1\<rparr>)) (p\<lparr>px_counters := counters_enter (px_counters p)\<rparr>)"

definition proxy_admit :: "string \<Rightarrow> proxy \<Rightarrow> nanos option \<times> proxy" where
  "proxy_admit m p =
     (let p = proxy_arrive m p;
          f = px_faults p
      in case strikes (fl_fail_rate f) p of
           (True, p) \<Rightarrow> (None, proxy_leave (on_shown (\<lambda>c. c\<lparr>oc_injected := oc_injected c + 1\<rparr>) p))
         | (False, p) \<Rightarrow>
             (case strikes (fl_slow_rate f) p of
                (slow, p) \<Rightarrow> (Some (if slow then fl_latency f + fl_slow f else fl_latency f), p)))"

text \<open>The second part: the address upstream, or 400.\<close>

definition proxy_address :: "(string \<Rightarrow> bool) \<Rightarrow> string option \<Rightarrow> proxy \<Rightarrow> string option \<times> proxy" where
  "proxy_address parses path_and_query p =
     (let uri = ''http://'' @ px_upstream p @ (case path_and_query of Some pq \<Rightarrow> pq | None \<Rightarrow> ''/'')
      in if parses uri then (Some uri, p) else (None, proxy_leave p))"

text \<open>The third part: the answer of the upstream, a transport error or a status; an error is answered with 502.\<close>

definition proxy_answer :: "string + nat \<Rightarrow> proxy \<Rightarrow> nat \<times> bool \<times> proxy" where
  "proxy_answer r p =
     (let failed = on_shown (\<lambda>c. c\<lparr>oc_errors := oc_errors c + 1\<rparr>)
      in case r of
           Inl err \<Rightarrow> (502, False, proxy_leave (failed p))
         | Inr st \<Rightarrow> (st, True, if 500 \<le> st \<and> st < 600 then failed p else p))"

definition proxy_frame :: "nat \<Rightarrow> proxy \<Rightarrow> proxy" where
  "proxy_frame n p = on_shown (\<lambda>c. c\<lparr>oc_bytes := oc_bytes c + of_nat n\<rparr>) p"

definition proxy_render :: "proxy \<Rightarrow> string" where
  "proxy_render p =
     (let c = proxy_snapshot p; line = (\<lambda>name v. name @ '' '' @ show_nat (unat v) @ [CHR 0x0A])
      in line ''proxy_requests_total'' (oc_requests c) @ line ''proxy_gets_total'' (oc_gets c)
       @ line ''proxy_heads_total'' (oc_heads c) @ line ''proxy_bytes_total'' (oc_bytes c)
       @ line ''proxy_errors_total'' (oc_errors c) @ line ''proxy_injected_failures_total'' (oc_injected c)
       @ line ''proxy_max_inflight'' (oc_max_inflight c))"

text \<open>The control interface: status, body and the state after.\<close>

definition proxy_control ::
  "fault_parsers \<Rightarrow> (faults \<Rightarrow> string) \<Rightarrow> string \<Rightarrow> string \<Rightarrow> string option \<Rightarrow> proxy \<Rightarrow> nat \<times> string \<times> proxy" where
  "proxy_control ps shown m path query p =
     (if m = ''GET'' \<and> path = ''/metrics'' then (200, proxy_render p, p)
      else if m = ''POST'' \<and> path = ''/reset'' then (200, [], proxy_reset p)
      else if m = ''PUT'' \<and> path = ''/faults''
      then (case faults_from_query ps (case query of Some q \<Rightarrow> q | None \<Rightarrow> []) of
              Inr f \<Rightarrow> (200, shown f @ [CHR 0x0A], set_faults f p)
            | Inl err \<Rightarrow> (400, err @ [CHR 0x0A], p))
      else (404, [], p))"

section \<open>Exchanges\<close>

text \<open>
  A request in the proxy: it waits for its delay, for the answer of the upstream, or its body is being
  passed on. The future of a request is dropped when its client goes away; the guard that counts it
  out exists only from the answer on.
\<close>

datatype exchange = Delayed "string option" | Asked | Streaming

record proxy_state =
  ps_proxy :: proxy
  ps_live :: "exchange list"
  ps_abandoned :: nat

definition drop_nth :: "nat \<Rightarrow> 'a list \<Rightarrow> 'a list" where
  "drop_nth i xs = take i xs @ drop (Suc i) xs"

inductive proxy_step :: "(string \<Rightarrow> bool) \<Rightarrow> proxy_state \<Rightarrow> proxy_state \<Rightarrow> bool" for parses where
  injected: "proxy_admit m p = (None, p') \<Longrightarrow>
    proxy_step parses \<lparr>ps_proxy = p, ps_live = xs, ps_abandoned = k\<rparr> \<lparr>ps_proxy = p', ps_live = xs, ps_abandoned = k\<rparr>"
| admitted: "proxy_admit m p = (Some d, p') \<Longrightarrow>
    proxy_step parses \<lparr>ps_proxy = p, ps_live = xs, ps_abandoned = k\<rparr> \<lparr>ps_proxy = p', ps_live = xs @ [Delayed pq], ps_abandoned = k\<rparr>"
| refused: "i < length xs \<Longrightarrow> xs ! i = Delayed pq \<Longrightarrow> proxy_address parses pq p = (None, p') \<Longrightarrow>
    proxy_step parses \<lparr>ps_proxy = p, ps_live = xs, ps_abandoned = k\<rparr> \<lparr>ps_proxy = p', ps_live = drop_nth i xs, ps_abandoned = k\<rparr>"
| sent: "i < length xs \<Longrightarrow> xs ! i = Delayed pq \<Longrightarrow> proxy_address parses pq p = (Some u, p') \<Longrightarrow>
    proxy_step parses \<lparr>ps_proxy = p, ps_live = xs, ps_abandoned = k\<rparr> \<lparr>ps_proxy = p', ps_live = xs[i := Asked], ps_abandoned = k\<rparr>"
| failed: "i < length xs \<Longrightarrow> xs ! i = Asked \<Longrightarrow> proxy_answer r p = (st, False, p') \<Longrightarrow>
    proxy_step parses \<lparr>ps_proxy = p, ps_live = xs, ps_abandoned = k\<rparr> \<lparr>ps_proxy = p', ps_live = drop_nth i xs, ps_abandoned = k\<rparr>"
| answered: "i < length xs \<Longrightarrow> xs ! i = Asked \<Longrightarrow> proxy_answer r p = (st, True, p') \<Longrightarrow>
    proxy_step parses \<lparr>ps_proxy = p, ps_live = xs, ps_abandoned = k\<rparr> \<lparr>ps_proxy = p', ps_live = xs[i := Streaming], ps_abandoned = k\<rparr>"
| passed: "i < length xs \<Longrightarrow> xs ! i = Streaming \<Longrightarrow>
    proxy_step parses \<lparr>ps_proxy = p, ps_live = xs, ps_abandoned = k\<rparr> \<lparr>ps_proxy = proxy_frame n p, ps_live = xs, ps_abandoned = k\<rparr>"
| finished: "i < length xs \<Longrightarrow> xs ! i = Streaming \<Longrightarrow>
    proxy_step parses \<lparr>ps_proxy = p, ps_live = xs, ps_abandoned = k\<rparr> \<lparr>ps_proxy = proxy_leave p, ps_live = drop_nth i xs, ps_abandoned = k\<rparr>"
| abandoned: "i < length xs \<Longrightarrow> xs ! i \<noteq> Streaming \<Longrightarrow>
    proxy_step parses \<lparr>ps_proxy = p, ps_live = xs, ps_abandoned = k\<rparr> \<lparr>ps_proxy = p, ps_live = drop_nth i xs, ps_abandoned = k + 1\<rparr>"
| controlled: "proxy_control ps shown m path q p = (st, body, p') \<Longrightarrow>
    proxy_step parses \<lparr>ps_proxy = p, ps_live = xs, ps_abandoned = k\<rparr> \<lparr>ps_proxy = p', ps_live = xs, ps_abandoned = k\<rparr>"

inductive_cases proxy_stepE: "proxy_step parses s s'"

section \<open>Requests in flight\<close>

abbreviation inflight_of :: "proxy \<Rightarrow> u64" where
  "inflight_of p \<equiv> ct_inflight (px_counters p)"

lemma inflight_simps [simp]:
  "inflight_of (on_shown f p) = inflight_of p"
  "inflight_of (proxy_leave p) = inflight_of p - 1"
  "inflight_of (proxy_reset p) = inflight_of p"
  "inflight_of (set_faults fs p) = inflight_of p"
  "inflight_of (proxy_frame n p) = inflight_of p"
  by (simp_all add: on_shown_def proxy_leave_def proxy_reset_def set_faults_def proxy_frame_def
      counters_leave_def counters_reset_def)

lemma strikes_counters: "strikes rate p = (b, p') \<Longrightarrow> px_counters p' = px_counters p"
  by (auto simp: strikes_def split: if_splits prod.splits)

lemma proxy_admit_counters:
  assumes "proxy_admit m p = (d, p')"
  shows "px_counters p' =
    (if d = None then counters_leave (px_counters (on_shown (\<lambda>c. c\<lparr>oc_injected := oc_injected c + 1\<rparr>) (proxy_arrive m p)))
     else px_counters (proxy_arrive m p))"
proof -
  let ?f = "px_faults (proxy_arrive m p)"
  obtain b q1 where s1: "strikes (fl_fail_rate ?f) (proxy_arrive m p) = (b, q1)" by fastforce
  obtain b2 q2 where s2: "strikes (fl_slow_rate ?f) q1 = (b2, q2)" by fastforce
  show ?thesis
    using assms strikes_counters [OF s1] strikes_counters [OF s2]
    by (cases b) (auto simp: proxy_admit_def Let_def s1 s2 proxy_leave_def on_shown_def)
qed

lemma proxy_admit_inflight:
  "proxy_admit m p = (d, p') \<Longrightarrow> inflight_of p' = (if d = None then inflight_of p else inflight_of p + 1)"
  by (drule proxy_admit_counters) (simp add: proxy_arrive_def counters_enter_def counters_leave_def Let_def)

lemma proxy_address_inflight:
  "proxy_address parses pq p = (u, p') \<Longrightarrow> inflight_of p' = (if u = None then inflight_of p - 1 else inflight_of p)"
  by (auto simp: proxy_address_def Let_def split: if_splits)

lemma proxy_answer_inflight:
  "proxy_answer r p = (st, passes, p') \<Longrightarrow> inflight_of p' = (if passes then inflight_of p else inflight_of p - 1)"
  by (auto simp: proxy_answer_def Let_def split: sum.splits if_splits)

lemma proxy_control_inflight: "proxy_control ps shown m path q p = (st, body, p') \<Longrightarrow> inflight_of p' = inflight_of p"
  by (auto simp: proxy_control_def split: if_splits sum.splits)

lemma length_drop_nth:
  assumes "i < length xs"
  shows "of_nat (length (drop_nth i xs)) = (of_nat (length xs) - 1 :: u64)"
proof -
  have "length xs = Suc (length (drop_nth i xs))" using assms by (simp add: drop_nth_def)
  then show ?thesis by simp
qed

definition inflight_counted :: "proxy_state \<Rightarrow> bool" where
  "inflight_counted s \<longleftrightarrow> inflight_of (ps_proxy s) = of_nat (length (ps_live s) + ps_abandoned s)"

lemma proxy_step_counted:
  "proxy_step parses s s' \<Longrightarrow> inflight_counted s \<Longrightarrow> inflight_counted s'"
  by (induction rule: proxy_step.induct)
    (auto simp: inflight_counted_def length_drop_nth
      dest!: proxy_admit_inflight proxy_address_inflight proxy_answer_inflight proxy_control_inflight)

definition proxy_start :: "string \<Rightarrow> proxy_state" where
  "proxy_start up = \<lparr>ps_proxy = proxy_new up, ps_live = [], ps_abandoned = 0\<rparr>"

lemma proxy_reachable_counted: "(proxy_step parses)\<^sup>*\<^sup>* (proxy_start up) s \<Longrightarrow> inflight_counted s"
  by (induction rule: rtranclp_induct)
    (auto simp: proxy_step_counted, simp add: inflight_counted_def proxy_start_def proxy_new_def)

lemma proxy_admit_max:
  "proxy_admit m (proxy_reset p) = (d, p') \<Longrightarrow> oc_max_inflight (proxy_snapshot p') = inflight_of p + 1"
  by (drule proxy_admit_counters)
    (auto simp: proxy_snapshot_def proxy_arrive_def on_shown_def counters_enter_def counters_leave_def proxy_reset_def
      counters_reset_def origin_counters_zero_def count_method_def Let_def)

text \<open>
  C40: in every reachable state the proxy counts as in flight its live requests and every request whose
  client ever went away while it was delayed or waited for the upstream; the count is never
  reduced by those. The first request after a reset therefore reports a maximum of all of them.
\<close>

theorem proxy_counts_abandoned:
  assumes "(proxy_step parses)\<^sup>*\<^sup>* (proxy_start up) s"
  shows "inflight_of (ps_proxy s) = of_nat (length (ps_live s) + ps_abandoned s)
    \<and> (\<forall>m d p'. proxy_admit m (proxy_reset (ps_proxy s)) = (d, p') \<longrightarrow>
        oc_max_inflight (proxy_snapshot p') = of_nat (length (ps_live s) + ps_abandoned s + 1))"
  using proxy_reachable_counted [OF assms] proxy_admit_max by (auto simp: inflight_counted_def)

text \<open>A client that goes away leaves the proxy with a request in flight and none live.\<close>

theorem proxy_counts_abandoned_witness:
  "\<exists>s. (proxy_step (\<lambda>_. True))\<^sup>*\<^sup>* (proxy_start ''origin:9000'') s \<and> ps_live s = [] \<and> inflight_of (ps_proxy s) = 1"
proof -
  obtain d p where a: "proxy_admit ''GET'' (proxy_new ''origin:9000'') = (Some d, p)"
    by (auto simp: proxy_admit_def proxy_arrive_def proxy_new_def faults_default_def strikes_def on_shown_def Let_def)
  let ?s1 = "\<lparr>ps_proxy = p, ps_live = [Delayed None], ps_abandoned = 0\<rparr>"
  let ?s2 = "\<lparr>ps_proxy = p, ps_live = [], ps_abandoned = 1\<rparr>"
  have "proxy_step (\<lambda>_. True) (proxy_start ''origin:9000'') ?s1"
    using proxy_step.admitted [OF a, of "\<lambda>_. True" "[]" 0 None] by (simp add: proxy_start_def)
  moreover have "proxy_step (\<lambda>_. True) ?s1 ?s2"
    using proxy_step.abandoned [of 0 "[Delayed None]" "\<lambda>_. True" p 0] by (simp add: drop_nth_def)
  ultimately have r: "(proxy_step (\<lambda>_. True))\<^sup>*\<^sup>* (proxy_start ''origin:9000'') ?s2" by auto
  from proxy_counts_abandoned [OF r] r show ?thesis by (intro exI [of _ ?s2]) simp
qed

text \<open>Where no client goes away early, the proxy is idle exactly when it counts nothing in flight.\<close>

lemma proxy_idle:
  assumes "(proxy_step parses)\<^sup>*\<^sup>* (proxy_start up) s" and "ps_abandoned s = 0" and "length (ps_live s) < 2 ^ 64"
  shows "inflight_of (ps_proxy s) = 0 \<longleftrightarrow> ps_live s = []"
proof -
  have "unat (of_nat (length (ps_live s)) :: u64) = length (ps_live s)" by (rule unat_of_nat_lt) (use assms(3) in simp)
  then show ?thesis
    using proxy_reachable_counted [OF assms(1)] assms(2) by (auto simp: inflight_counted_def)
qed

end
