(* ===== verification/Bench_Report.thy ===== *)
theory Bench_Report
  imports Bench_Proxy Admin "HOL-Library.AList"
begin

text \<open>
  What a benchmark run measures: the counters scraped from a metrics endpoint
  (\<^verbatim>\<open>nestor-e2e/src/metrics.rs\<close> and \<^verbatim>\<open>NestorCounters\<close> of \<^verbatim>\<open>nestor-bench/src/target.rs\<close>) and the report of
  \<^verbatim>\<open>nestor-bench/src/report.rs\<close> with its printed forms.

  The parser of floating-point numbers is a parameter, as are the rounding of their operations and
  \<open>fmt width precision\<close>, their formatting. A histogram is the list of its samples; its quantiles are a
  parameter.
\<close>

section \<open>Scraped counters\<close>

text \<open>\<^verbatim>\<open>value.round() as u64\<close> for a value that is not negative; the cast saturates.\<close>

definition scraped_value :: "f64 \<Rightarrow> u64 option" where
  "scraped_value v =
     (case v of
        NaN \<Rightarrow> None
      | NegInf \<Rightarrow> None
      | PosInf \<Rightarrow> Some u64_max
      | Finite x \<Rightarrow>
          if 0 \<le> x then (let n = nat \<lfloor>x + 1 / 2\<rfloor> in Some (if n < 2 ^ 64 then of_nat n else u64_max)) else None)"

definition scraped_sample :: "(string \<Rightarrow> f64 option) \<Rightarrow> string \<Rightarrow> (string \<times> u64) option" where
  "scraped_sample parse_f64 line =
     (if strip_prefix ''#'' line \<noteq> None \<or> trim line = [] then None
      else Option.bind (rsplit_once CHR '' '' line) (\<lambda>(name, value).
        Option.bind (parse_f64 (trim value)) (\<lambda>value.
          map_option (\<lambda>n. (name, n)) (scraped_value value))))"

text \<open>The samples are a map; a name that occurs again replaces the sample before it.\<close>

definition scraped :: "(string \<Rightarrow> f64 option) \<Rightarrow> string \<Rightarrow> (string \<times> u64) list" where
  "scraped parse_f64 s =
     fold (\<lambda>(name, n). AList.update name n) (List.map_filter (scraped_sample parse_f64) (str_lines s)) []"

definition scraped_counter :: "(string \<times> u64) list \<Rightarrow> string \<Rightarrow> u64" where
  "scraped_counter samples name =
     sum_list (map snd (filter (\<lambda>(key, _). key = name \<or> strip_prefix (name @ ''{'') key \<noteq> None) samples))"

record nestor_counters =
  nc_hits :: u64
  nc_misses :: u64
  nc_joined :: u64
  nc_stale :: u64
  nc_origin_requests :: u64
  nc_origin_bytes :: u64
  nc_retries :: u64
  nc_hedges :: u64
  nc_hedge_wins :: u64
  nc_heads :: u64

definition nestor_counters_parse :: "(string \<Rightarrow> f64 option) \<Rightarrow> string \<Rightarrow> nestor_counters" where
  "nestor_counters_parse parse_f64 s =
     (let m = scraped_counter (scraped parse_f64 s)
      in \<lparr>nc_hits = m ''nestor_blocks_hit_total'', nc_misses = m ''nestor_blocks_miss_total'',
          nc_joined = m ''nestor_blocks_joined_total'', nc_stale = m ''nestor_blocks_stale_total'',
          nc_origin_requests = m ''nestor_origin_requests_total'', nc_origin_bytes = m ''nestor_origin_bytes_total'',
          nc_retries = m ''nestor_origin_retries_total'', nc_hedges = m ''nestor_hedges_total'',
          nc_hedge_wins = m ''nestor_hedge_wins_total'', nc_heads = m ''nestor_meta_heads_total''\<rparr>)"

definition nestor_counters_delta :: "nestor_counters \<Rightarrow> nestor_counters \<Rightarrow> nestor_counters" where
  "nestor_counters_delta c since =
     \<lparr>nc_hits = nc_hits c - nc_hits since, nc_misses = nc_misses c - nc_misses since,
      nc_joined = nc_joined c - nc_joined since, nc_stale = nc_stale c - nc_stale since,
      nc_origin_requests = nc_origin_requests c - nc_origin_requests since,
      nc_origin_bytes = nc_origin_bytes c - nc_origin_bytes since, nc_retries = nc_retries c - nc_retries since,
      nc_hedges = nc_hedges c - nc_hedges since, nc_hedge_wins = nc_hedge_wins c - nc_hedge_wins since,
      nc_heads = nc_heads c - nc_heads since\<rparr>"

section \<open>Reports\<close>

text \<open>\<^verbatim>\<open>report::Latency\<close>; \<open>quantile samples q\<close> and \<open>most samples\<close> are what the histogram answers.\<close>

record latency_report =
  lt_p50 :: real
  lt_p90 :: real
  lt_p99 :: real
  lt_p999 :: real
  lt_max :: real

definition latency_report_from ::
  "(real \<Rightarrow> real) \<Rightarrow> (u64 list \<Rightarrow> real \<Rightarrow> u64) \<Rightarrow> (u64 list \<Rightarrow> u64) \<Rightarrow> u64 list \<Rightarrow> latency_report" where
  "latency_report_from fl quantile most h =
     (let ms = (\<lambda>v. fl (fl (real (unat v)) / 1000))
      in \<lparr>lt_p50 = ms (quantile h (5 / 10)), lt_p90 = ms (quantile h (9 / 10)), lt_p99 = ms (quantile h (99 / 100)),
          lt_p999 = ms (quantile h (999 / 1000)), lt_max = ms (most h)\<rparr>)"

record phase_report =
  pp_name :: string
  pp_faults :: faults
  pp_duration_s :: real
  pp_reads :: u64
  pp_bytes :: u64
  pp_errors :: u64
  pp_corrupt :: u64
  pp_missing :: u64
  pp_throughput :: real
  pp_ttfb :: latency_report
  pp_ttlb :: latency_report
  pp_origin :: "origin_counters option"
  pp_nestor :: "nestor_counters option"

definition hit_rate :: "(real \<Rightarrow> real) \<Rightarrow> phase_report \<Rightarrow> real option" where
  "hit_rate fl p =
     Option.bind (pp_nestor p) (\<lambda>n.
       let looked = nc_hits n + nc_misses n + nc_joined n
       in if looked > 0 then Some (fl (fl (real (unat (nc_hits n))) / fl (real (unat looked)))) else None)"

definition origin_requests :: "phase_report \<Rightarrow> u64" where
  "origin_requests p =
     (case pp_origin p of
        Some c \<Rightarrow> oc_requests c
      | None \<Rightarrow> (case pp_nestor p of Some n \<Rightarrow> nc_origin_requests n | None \<Rightarrow> 0))"

definition origin_bytes :: "phase_report \<Rightarrow> u64" where
  "origin_bytes p =
     (case pp_origin p of
        Some c \<Rightarrow> oc_bytes c
      | None \<Rightarrow> (case pp_nestor p of Some n \<Rightarrow> nc_origin_bytes n | None \<Rightarrow> 0))"

definition read_amplification :: "(real \<Rightarrow> real) \<Rightarrow> phase_report \<Rightarrow> real option" where
  "read_amplification fl p =
     (if pp_bytes p > 0 then Some (fl (fl (real (unat (origin_bytes p))) / fl (real (unat (pp_bytes p))))) else None)"

text \<open>\<^verbatim>\<open>workload::Params\<close>.\<close>

record bench_params =
  bp_consumers :: u32
  bp_duration :: nanos
  bp_hot_set :: u64
  bp_stagger :: nanos
  bp_block :: u64

text \<open>The scenario is kept as \<^verbatim>\<open>{:?}\<close> prints it, the configuration as its JSON text.\<close>

record report =
  rp_target :: string
  rp_scenario :: string
  rp_dataset :: dataset_params
  rp_params :: bench_params
  rp_config :: string
  rp_started_unix :: u64
  rp_phases :: "phase_report list"
  rp_rss_max_mib :: "real option"
  rp_failures :: "string list"

section \<open>Printing\<close>

definition pad_left :: "nat \<Rightarrow> string \<Rightarrow> string" where
  "pad_left n s = replicate (n - length s) CHR '' '' @ s"

definition pad_right :: "nat \<Rightarrow> string \<Rightarrow> string" where
  "pad_right n s = s @ replicate (n - length s) CHR '' ''"

definition mib_of :: "(real \<Rightarrow> real) \<Rightarrow> u64 \<Rightarrow> real" where
  "mib_of fl n = fl (fl (real (unat n)) / (1024 * 1024))"

definition phase_summary :: "(real \<Rightarrow> real) \<Rightarrow> (nat \<Rightarrow> nat \<Rightarrow> real \<Rightarrow> string) \<Rightarrow> phase_report \<Rightarrow> string" where
  "phase_summary fl fmt p =
     ''  '' @ pad_right 12 (pp_name p) @ '' '' @ pad_left 7 (show_u64 (pp_reads p)) @ '' reads '' @ fmt 9 1 (pp_throughput p)
     @ '' MiB/s  ttfb p50 '' @ fmt 8 3 (lt_p50 (pp_ttfb p)) @ '' p99 '' @ fmt 8 3 (lt_p99 (pp_ttfb p))
     @ ''  ttlb p99 '' @ fmt 8 3 (lt_p99 (pp_ttlb p)) @ '' ms  origin '' @ pad_left 6 (show_u64 (origin_requests p)) @ '' req ''
     @ fmt 9 1 (mib_of fl (origin_bytes p)) @ '' MiB''
     @ (case hit_rate fl p of Some r \<Rightarrow> ''  hit '' @ fmt 0 1 (fl (r * 100)) @ ''%'' | None \<Rightarrow> [])
     @ (case read_amplification fl p of Some a \<Rightarrow> ''  amp '' @ fmt 0 2 a @ ''x'' | None \<Rightarrow> [])
     @ (case pp_origin p of
          Some c \<Rightarrow>
            (if oc_max_inflight c > 1 then ''  inflight '' @ show_u64 (oc_max_inflight c) else [])
            @ (if oc_injected c > 0 then ''  injected '' @ show_u64 (oc_injected c) else [])
        | None \<Rightarrow> [])
     @ (if pp_errors p > 0 then ''  errors '' @ show_u64 (pp_errors p) else [])
     @ (if pp_corrupt p > 0 then ''  corrupt '' @ show_u64 (pp_corrupt p) else [])
     @ [CHR 0x0A]"

definition report_summary :: "(real \<Rightarrow> real) \<Rightarrow> (nat \<Rightarrow> nat \<Rightarrow> real \<Rightarrow> string) \<Rightarrow> report \<Rightarrow> string" where
  "report_summary fl fmt r =
     rp_target r @ '' / '' @ rp_scenario r @ [CHR 0x0A]
     @ concat (map (phase_summary fl fmt) (rp_phases r))
     @ (case rp_rss_max_mib r of Some rss \<Rightarrow> ''  rss max '' @ fmt 0 0 rss @ '' MiB'' @ [CHR 0x0A] | None \<Rightarrow> [])
     @ concat (map (\<lambda>f. ''  FAIL '' @ f @ [CHR 0x0A]) (rp_failures r))"

text \<open>One row of a comparison; \<^const>\<open>None\<close> for a ratio that is not a number.\<close>

definition compare_row ::
  "(real \<Rightarrow> real) \<Rightarrow> (nat \<Rightarrow> nat \<Rightarrow> real option \<Rightarrow> string) \<Rightarrow> string \<Rightarrow> real \<Rightarrow> real \<Rightarrow> string" where
  "compare_row fl fmt name x y =
     (let ratio = (if 0 < x then Some (fl (y / x)) else None)
      in pad_right 28 name @ '' '' @ fmt 14 2 (Some x) @ '' '' @ fmt 14 2 (Some y) @ '' '' @ fmt 8 2 ratio @ [CHR 0x0A])"

definition compare_phase ::
  "(real \<Rightarrow> real) \<Rightarrow> (nat \<Rightarrow> nat \<Rightarrow> real option \<Rightarrow> string) \<Rightarrow> phase_report list \<Rightarrow> phase_report \<Rightarrow> string" where
  "compare_phase fl fmt others pa =
     (case find (\<lambda>p. pp_name p = pp_name pa) others of
        None \<Rightarrow> []
      | Some pb \<Rightarrow>
          let n = pp_name pa; row = compare_row fl fmt
          in row (n @ '' throughput MiB/s'') (pp_throughput pa) (pp_throughput pb)
           @ row (n @ '' ttfb p50 ms'') (lt_p50 (pp_ttfb pa)) (lt_p50 (pp_ttfb pb))
           @ row (n @ '' ttfb p99 ms'') (lt_p99 (pp_ttfb pa)) (lt_p99 (pp_ttfb pb))
           @ row (n @ '' ttlb p99 ms'') (lt_p99 (pp_ttlb pa)) (lt_p99 (pp_ttlb pb))
           @ row (n @ '' origin requests'') (fl (real (unat (origin_requests pa)))) (fl (real (unat (origin_requests pb))))
           @ row (n @ '' origin MiB'') (mib_of fl (origin_bytes pa)) (mib_of fl (origin_bytes pb))
           @ (case (hit_rate fl pa, hit_rate fl pb) of
                (Some x, Some y) \<Rightarrow> row (n @ '' hit rate'') x y
              | _ \<Rightarrow> []))"

definition compare_reports ::
  "(real \<Rightarrow> real) \<Rightarrow> (nat \<Rightarrow> nat \<Rightarrow> real option \<Rightarrow> string) \<Rightarrow> report \<Rightarrow> report \<Rightarrow> string" where
  "compare_reports fl fmt a b =
     pad_right 28 [] @ '' '' @ pad_left 14 (rp_target a) @ '' '' @ pad_left 14 (rp_target b) @ '' '' @ pad_left 8 ''b/a'' @ [CHR 0x0A]
     @ concat (map (compare_phase fl fmt (rp_phases b)) (rp_phases a))
     @ (case (rp_rss_max_mib a, rp_rss_max_mib b) of
          (Some x, Some y) \<Rightarrow> compare_row fl fmt ''rss max MiB'' x y
        | _ \<Rightarrow> [])"

end
