(* ===== verification/Bench_Workload.thy ===== *)
theory Bench_Workload
  imports Bench_Report
begin

text \<open>
  The scenarios of the benchmarks, \<^verbatim>\<open>nestor-bench/src/workload.rs\<close>: phases of event lists, one per
  consumer, and the checks of a finished report. The theorems show that every scenario can be
  built from a dataset with an object, that its reads lie within the objects they name, and that
  objects are dealt out to the consumers once each.

  Indexing past the end and a remainder by zero panic.
\<close>

section \<open>Events and phases\<close>

datatype bench_op =
    OpRead string "nat option" "u64 urange"
  | OpWrite string u64
  | OpDelete string
  | OpMissing string

record bench_event =
  ev_at :: nanos
  ev_op :: bench_op

definition event_now :: "bench_op \<Rightarrow> bench_event" where
  "event_now op = \<lparr>ev_at = 0, ev_op = op\<rparr>"

datatype phase_action = RestartTarget

record bench_phase =
  ph_name :: string
  ph_faults :: faults
  ph_action :: "phase_action option"
  ph_repeat :: bool
  ph_deadline :: "nanos option"
  ph_consumers :: "bench_event list list"

definition phase_once :: "string \<Rightarrow> bench_event list list \<Rightarrow> bench_phase" where
  "phase_once name consumers =
     \<lparr>ph_name = name, ph_faults = faults_default, ph_action = None, ph_repeat = False, ph_deadline = None,
      ph_consumers = consumers\<rparr>"

definition phase_until :: "string \<Rightarrow> nanos \<Rightarrow> bench_event list list \<Rightarrow> bench_phase" where
  "phase_until name limit consumers =
     (phase_once name consumers)\<lparr>ph_repeat := True, ph_deadline := Some limit\<rparr>"

datatype scenario =
    ColdOpen | Sequential | Fanout | FanoutStaggered | StreamRead | SmallObjects | ScanPollution | DeleteCycle
  | WorkingSet | Tail | ReadErrors | Herd | Restart | Concurrency | Soak

section \<open>Building blocks\<close>

definition run_bind :: "'a run \<Rightarrow> ('a \<Rightarrow> 'b run) \<Rightarrow> 'b run" where
  "run_bind r f = (case r of Returns x \<Rightarrow> f x | Panics \<Rightarrow> Panics | Hangs \<Rightarrow> Hangs)"

definition run_map :: "('a \<Rightarrow> 'b) \<Rightarrow> 'a run \<Rightarrow> 'b run" where
  "run_map f r = run_bind r (\<lambda>x. Returns (f x))"

definition count_blocks :: "u64 \<Rightarrow> u64 \<Rightarrow> u64" where
  "count_blocks sz block = div_ceil sz block"

text \<open>The objects from the first on whose sizes add up to at most the hot set.\<close>

fun hot_prefix :: "u64 \<Rightarrow> u64 \<Rightarrow> data_object list \<Rightarrow> nat" where
  "hot_prefix acc hot_set [] = 0"
| "hot_prefix acc hot_set (ob # obs) =
     (let acc = acc + do_size ob in if acc \<le> hot_set then Suc (hot_prefix acc hot_set obs) else 0)"

definition hot_objects :: "dataset \<Rightarrow> u64 \<Rightarrow> nat" where
  "hot_objects ds hot_set = hot_prefix 0 hot_set (ds_objects ds)"

definition read_event :: "data_object \<Rightarrow> nat \<Rightarrow> u64 urange \<Rightarrow> bench_event" where
  "read_event ob i r = event_now (OpRead (do_key ob) (Some i) r)"

definition with_object :: "dataset \<Rightarrow> nat \<Rightarrow> (data_object \<Rightarrow> 'a) \<Rightarrow> 'a run" where
  "with_object ds i f = (if i < length (ds_objects ds) then Returns (f (ds_objects ds ! i)) else Panics)"

definition open_events :: "dataset \<Rightarrow> nat \<Rightarrow> bench_event list run" where
  "open_events ds i =
     with_object ds i (\<lambda>ob. map (read_event ob i)
       (open_ranges ob @ (case do_blocks ob of [] \<Rightarrow> [] | first # _ \<Rightarrow> [db_range first])))"

definition sequential_events :: "dataset \<Rightarrow> nat \<Rightarrow> bench_event list run" where
  "sequential_events ds i = with_object ds i (\<lambda>ob. map (read_event ob i) (open_ranges ob @ map db_range (do_blocks ob)))"

definition flat_events :: "(nat \<Rightarrow> bench_event list run) \<Rightarrow> nat list \<Rightarrow> bench_event list run" where
  "flat_events f is = run_map concat (run_list (map f is))"

definition catchup :: "dataset \<Rightarrow> nat list \<Rightarrow> bench_event list run" where
  "catchup ds is = flat_events (sequential_events ds) is"

definition scan :: "dataset \<Rightarrow> nat list \<Rightarrow> bench_event list run" where
  "scan ds is = flat_events (\<lambda>i. with_object ds i (\<lambda>ob. [read_event ob i (Range 0 (do_size ob))])) is"

definition stream_read :: "dataset \<Rightarrow> u32 \<Rightarrow> bench_event list run" where
  "stream_read ds stream =
     run_map concat (run_list (map (\<lambda>(i, r). with_object ds i (\<lambda>ob. map (read_event ob i) (open_ranges ob @ [r])))
       (stream_ranges stream ds)))"

fun random_indexes :: "nat \<Rightarrow> u64 \<Rightarrow> nat \<Rightarrow> u64 \<Rightarrow> nat list" where
  "random_indexes start width 0 s = []"
| "random_indexes start width (Suc n) s =
     (case rng_below width s of (x, s) \<Rightarrow> (start + unat x) # random_indexes start width n s)"

definition random_objects :: "dataset \<Rightarrow> nat \<Rightarrow> nat \<Rightarrow> nat \<Rightarrow> u64 \<Rightarrow> bench_event list run" where
  "random_objects ds start stop m seed =
     (if of_nat (stop - start) = (0 :: u64) \<and> m > 0 then Panics
      else catchup ds (random_indexes start (of_nat (stop - start)) m (dp_seed (ds_params ds) XOR seed)))"

definition delayed :: "bench_event list \<Rightarrow> nanos \<Rightarrow> bench_event list" where
  "delayed events by = (case events of [] \<Rightarrow> [] | first # rest \<Rightarrow> first\<lparr>ev_at := by\<rparr> # rest)"

text \<open>\<^verbatim>\<open>partition\<close>: the objects are dealt out in turn, and consumers without any are dropped.\<close>

definition deal :: "nat \<Rightarrow> nat list \<Rightarrow> nat list list \<Rightarrow> nat list list" where
  "deal parts xs out = fold (\<lambda>(i, x) out. out[i mod parts := out ! (i mod parts) @ [x]]) (enumerate 0 xs) out"

definition partition_objects :: "nat list \<Rightarrow> nat \<Rightarrow> nat list list" where
  "partition_objects xs parts =
     (let parts = max parts 1 in filter (\<lambda>p. p \<noteq> []) (deal parts xs (replicate parts [])))"

definition readers :: "dataset \<Rightarrow> nat list \<Rightarrow> nat \<Rightarrow> bench_event list list run" where
  "readers ds is k = run_list (map (catchup ds) (partition_objects is k))"

definition delete_cycle :: "dataset \<Rightarrow> bench_event list" where
  "delete_cycle ds =
     (let key = ''bench/scratch/'' @ pad_zeros 16 (show_hex (unat (dp_seed (ds_params ds)))); len = 3 * DATA_MIB
      in [event_now (OpWrite key len), event_now (OpRead key None (Range 0 len)), event_now (OpDelete key),
          event_now (OpMissing key)])"

text \<open>The streams with the most blocks, ties by number.\<close>

definition busiest_streams :: "dataset \<Rightarrow> nat \<Rightarrow> u32 list" where
  "busiest_streams ds m =
     (let streams = concat (map (\<lambda>ob. map db_stream (do_blocks ob)) (ds_objects ds));
          seen = map (\<lambda>s. (s, count_list streams s)) (remdups streams)
      in map fst (take m (sort_key (\<lambda>(s, n). - int n) (sort_key fst seen))))"

text \<open>\<^verbatim>\<open>(a..b).cycle().skip(c).take(8)\<close>; nothing to cycle through gives nothing.\<close>

definition cycled :: "nat \<Rightarrow> nat \<Rightarrow> nat \<Rightarrow> nat \<Rightarrow> nat list" where
  "cycled a b c n = (if a < b then map (\<lambda>i. a + (c + i) mod (b - a)) [0..<n] else [])"

section \<open>Scenarios\<close>

text \<open>A remainder by \<open>n\<close>.\<close>

definition rem_by :: "nat \<Rightarrow> nat \<Rightarrow> nat run" where
  "rem_by m n = (if n = 0 then Panics else Returns (m mod n))"

definition one_phase :: "string \<Rightarrow> bench_event list list run \<Rightarrow> bench_phase run" where
  "one_phase name consumers = run_map (phase_once name) consumers"

definition soak_consumer :: "dataset \<Rightarrow> nat \<Rightarrow> nat \<Rightarrow> bench_event list run" where
  "soak_consumer ds hot c =
     (let n = length (ds_objects ds)
      in if c mod 4 = 0 then scan ds (cycled hot n c 8)
         else if c mod 4 = 1 then run_bind (rem_by hot n) (sequential_events ds)
         else random_objects ds 0 hot 32 (of_nat c))"

definition phases :: "scenario \<Rightarrow> dataset \<Rightarrow> bench_params \<Rightarrow> bench_phase list run" where
  "phases sc ds p =
     (let n = length (ds_objects ds);
          hot = max (hot_objects ds (bp_hot_set p)) 1;
          k = unat (bp_consumers p);
          reads = (\<lambda>a b. readers ds [a..<b] k)
      in case sc of
           ColdOpen \<Rightarrow> run_list [one_phase ''open'' (run_list [open_events ds 0])]
         | Sequential \<Rightarrow> run_list [one_phase ''sequential'' (run_list [sequential_events ds 0])]
         | Fanout \<Rightarrow> run_list [one_phase ''fanout'' (run_list (map (\<lambda>_. sequential_events ds 0) [0..<k]))]
         | FanoutStaggered \<Rightarrow>
             run_bind (rem_by 1 n) (\<lambda>i.
               run_list [one_phase ''first'' (run_list [sequential_events ds i]),
                         one_phase ''second'' (run_list [run_map (\<lambda>es. delayed es (bp_stagger p)) (sequential_events ds i)])])
         | StreamRead \<Rightarrow> run_list [one_phase ''stream'' (run_list (map (stream_read ds) (busiest_streams ds k)))]
         | SmallObjects \<Rightarrow> run_list [one_phase ''small'' (reads 0 (min n hot))]
         | ScanPollution \<Rightarrow>
             run_list [one_phase ''warm'' (reads 0 hot), one_phase ''steady'' (reads 0 hot),
                       one_phase ''scan'' (run_list (map (scan ds) (partition_objects [hot..<n] 4))),
                       one_phase ''after'' (reads 0 hot)]
         | DeleteCycle \<Rightarrow> Returns [phase_once ''delete'' [delete_cycle ds]]
         | WorkingSet \<Rightarrow>
             run_list [one_phase ''warm'' (reads 0 hot),
                       run_map (phase_until ''measure'' (bp_duration p))
                         (run_list (map (\<lambda>c. random_objects ds 0 hot 64 (of_nat c)) [0..<k]))]
         | Tail \<Rightarrow>
             run_list [run_map (\<lambda>ph. ph\<lparr>ph_faults :=
                 \<lparr>fl_latency = 40 * 10 ^ 6, fl_slow_rate = Finite (1 / 100), fl_slow = 2 * 10 ^ 9, fl_fail_rate = Finite 0\<rparr>\<rparr>)
               (one_phase ''tail'' (reads 0 n))]
         | ReadErrors \<Rightarrow>
             run_list [run_map (\<lambda>ph. ph\<lparr>ph_faults := faults_default\<lparr>fl_fail_rate := Finite (5 / 100)\<rparr>\<rparr>)
               (one_phase ''errors'' (reads 0 n))]
         | Herd \<Rightarrow> run_list [one_phase ''herd'' (run_list (map (sequential_events ds) [0..<min k n]))]
         | Restart \<Rightarrow>
             (let half = max (hot div 2) 1
              in run_list [one_phase ''warm'' (reads 0 half),
                           run_map (\<lambda>ph. ph\<lparr>ph_action := Some RestartTarget\<rparr>) (one_phase ''recovered'' (reads 0 half))])
         | Concurrency \<Rightarrow>
             run_list [run_map (phase_until ''concurrency'' (bp_duration p))
               (run_list (map (\<lambda>c. run_bind (rem_by c n) (\<lambda>r. catchup ds ([r..<n] @ [0..<r]))) [0..<k]))]
         | Soak \<Rightarrow>
             run_list [one_phase ''warm'' (reads 0 hot),
                       run_map (phase_until ''soak'' (bp_duration p)) (run_list (map (soak_consumer ds hot) [0..<k]))])"

section \<open>Checks\<close>

definition expect :: "bool \<Rightarrow> string \<Rightarrow> string list" where
  "expect cond message = (if cond then [] else [message])"

definition check_phase :: "phase_report \<Rightarrow> string list" where
  "check_phase p =
     expect (pp_corrupt p = 0) (pp_name p @ '': '' @ show_u64 (pp_corrupt p) @ '' corrupt reads'')
     @ expect (pp_errors p = 0 \<or> f64_gt_zero (fl_fail_rate (pp_faults p))) (pp_name p @ '': '' @ show_u64 (pp_errors p) @ '' read errors'')"

text \<open>\<^verbatim>\<open>blocks\<close> divides by the block size, which panics for zero.\<close>

definition block_limit :: "u64 list \<Rightarrow> u64 \<Rightarrow> u64 run" where
  "block_limit sizes block =
     (if block = 0 \<and> sizes \<noteq> [] then Panics else Returns (sum_list (map (\<lambda>sz. count_blocks sz block) sizes)))"

definition check_counters :: "scenario \<Rightarrow> dataset \<Rightarrow> bench_params \<Rightarrow> phase_report list \<Rightarrow> string list run" where
  "check_counters sc ds p reports =
     (case reports of
        [] \<Rightarrow> Returns []
      | first # rest \<Rightarrow>
          if pp_nestor first = None then Returns []
          else
            let requests = show_u64 (origin_requests first);
                whole =
                  run_bind (with_object ds 0 do_size) (\<lambda>sz.
                    run_map (\<lambda>blocks.
                      let fetched = origin_bytes first
                      in expect (sz \<le> fetched \<and> fetched \<le> sz + sz div 20)
                           (''fetched '' @ show_u64 fetched @ '' bytes for a '' @ show_u64 sz @ '' byte object'')
                       @ expect (origin_requests first \<le> blocks)
                           (requests @ '' origin requests for '' @ show_u64 blocks @ '' blocks''))
                      (block_limit [sz] (bp_block p)))
            in case sc of
                 ColdOpen \<Rightarrow> Returns (expect (origin_requests first \<le> 2) (''cold open took '' @ requests @ '' origin requests''))
               | Sequential \<Rightarrow> whole
               | Fanout \<Rightarrow> whole
               | FanoutStaggered \<Rightarrow>
                   Returns (case rest of
                     [] \<Rightarrow> []
                   | second # _ \<Rightarrow>
                       expect (origin_requests second = 0)
                         (''staggered reader caused '' @ show_u64 (origin_requests second) @ '' origin requests''))
               | SmallObjects \<Rightarrow>
                   run_map (\<lambda>limit. expect (origin_requests first \<le> limit) (requests @ '' origin requests for '' @ show_u64 limit @ '' blocks''))
                     (block_limit (map do_size (take (max (hot_objects ds (bp_hot_set p)) 1) (ds_objects ds))) (bp_block p))
               | ReadErrors \<Rightarrow>
                   (let injected = (case pp_origin first of Some c \<Rightarrow> oc_injected c | None \<Rightarrow> 0)
                    in Returns (expect (0 < injected) ''no failures were injected''
                         @ expect (pp_errors first * 20 \<le> injected)
                             (show_u64 (pp_errors first) @ '' reads failed out of '' @ show_u64 injected
                               @ '' injected failures, retries absorbed too few'')))
               | Restart \<Rightarrow>
                   Returns (case rest of
                     [] \<Rightarrow> []
                   | recovered # _ \<Rightarrow>
                       expect (origin_requests recovered * 5 \<le> origin_requests first)
                         (show_u64 (origin_requests recovered) @ '' origin requests after restart, '' @ requests @ '' while warming''))
               | DeleteCycle \<Rightarrow>
                   Returns (expect (pp_missing first = 1) (show_u64 (pp_missing first) @ '' missing reads, expected 1''))
               | _ \<Rightarrow> Returns [])"

definition check_report :: "scenario \<Rightarrow> dataset \<Rightarrow> bench_params \<Rightarrow> phase_report list \<Rightarrow> string list run" where
  "check_report sc ds p reports =
     run_map (\<lambda>failures. concat (map check_phase reports) @ failures) (check_counters sc ds p reports)"

text \<open>A report that passes has neither a corrupt read nor, without injected failures, a failed one.\<close>

lemma check_report_passes:
  assumes "check_report sc ds p reports = Returns []" and "r \<in> set reports"
  shows "pp_corrupt r = 0" and "f64_gt_zero (fl_fail_rate (pp_faults r)) \<or> pp_errors r = 0"
proof -
  have "concat (map check_phase reports) = []"
    using assms(1) by (auto simp: check_report_def run_map_def run_bind_def split: run.splits)
  then have "check_phase r = []" using assms(2) by simp
  then show "pp_corrupt r = 0" and "f64_gt_zero (fl_fail_rate (pp_faults r)) \<or> pp_errors r = 0"
    by (auto simp: check_phase_def expect_def split: if_splits)
qed

section \<open>Objects are dealt out once each\<close>

lemma deal_snoc:
  "deal parts (xs @ [x]) out = (deal parts xs out)[length xs mod parts := deal parts xs out ! (length xs mod parts) @ [x]]"
  by (simp add: deal_def enumerate_append_eq)

lemma length_deal [simp]: "length (deal parts xs out) = length out"
  by (induction xs rule: rev_induct) (simp_all add: deal_snoc, simp add: deal_def)

lemma mset_concat_push:
  assumes "i < length out"
  shows "mset (concat (out[i := out ! i @ [x]])) = add_mset x (mset (concat out))"
  using assms
proof (induction out arbitrary: i)
  case Nil
  then show ?case by simp
next
  case (Cons o1 out)
  then show ?case by (cases i) simp_all
qed

lemma mset_deal:
  assumes "0 < parts"
  shows "mset (concat (deal parts xs (replicate parts []))) = mset xs"
proof (induction xs rule: rev_induct)
  case Nil
  then show ?case by (simp add: deal_def)
next
  case (snoc x xs)
  then show ?case using assms by (simp add: deal_snoc mset_concat_push)
qed

lemma length_dealt:
  assumes "0 < parts" and "j < parts"
  shows "length (deal parts xs (replicate parts []) ! j) = length xs div parts + (if j < length xs mod parts then 1 else 0)"
proof (induction xs rule: rev_induct)
  case Nil
  then show ?case using assms by (simp add: deal_def)
next
  case (snoc x xs)
  have "length xs mod parts < parts" using assms(1) by simp
  then show ?case
    using snoc assms by (cases "length xs mod parts = j") (auto simp: deal_snoc div_Suc mod_Suc)
qed

text \<open>
  Objects are dealt out to the consumers without loss or repetition, to at most as many as asked
  for and to none in vain, and no consumer gets two objects more than another.
\<close>

theorem partition_deals_once:
  "mset (concat (partition_objects xs parts)) = mset xs
    \<and> length (partition_objects xs parts) \<le> max parts 1
    \<and> (\<forall>a \<in> set (partition_objects xs parts). \<forall>b \<in> set (partition_objects xs parts).
        a \<noteq> [] \<and> length a \<le> length b + 1)"
proof -
  let ?k = "max parts 1" let ?d = "deal ?k xs (replicate ?k [])"
  have "mset (concat (filter (\<lambda>p. p \<noteq> []) out)) = mset (concat out)" for out :: "nat list list"
    by (induction out) auto
  then have "mset (concat (partition_objects xs parts)) = mset xs"
    using mset_deal [of ?k xs] by (simp add: partition_objects_def Let_def)
  moreover have "length (partition_objects xs parts) \<le> ?k"
    using length_filter_le [of _ ?d] by (simp add: partition_objects_def Let_def)
  moreover have "length a \<le> length b + 1" if "a \<in> set ?d" "b \<in> set ?d" for a b
    using that length_dealt [of ?k] by (fastforce simp: in_set_conv_nth)
  ultimately show ?thesis by (auto simp: partition_objects_def Let_def)
qed

theorem partition_deals_once_witness:
  "mset (concat (partition_objects [3, 4, 5, 6, 7] 2)) = mset [3, 4, 5, 6, 7]
    \<and> length (partition_objects [3, 4, 5, 6, 7] 2) \<le> 2"
  using partition_deals_once [of "[3, 4, 5, 6, 7]" 2] by simp

section \<open>Reads stay within their objects\<close>

text \<open>A run that returns a value with a property.\<close>

definition run_all :: "('a \<Rightarrow> bool) \<Rightarrow> 'a run \<Rightarrow> bool" where
  "run_all P r \<longleftrightarrow> (\<exists>x. r = Returns x \<and> P x)"

named_theorems run_rules \<open>rules for runs that return\<close>

lemma run_all_Returns [run_rules]: "P x \<Longrightarrow> run_all P (Returns x)"
  by (simp add: run_all_def)

lemma run_all_map [run_rules]: "run_all (\<lambda>x. P (f x)) r \<Longrightarrow> run_all P (run_map f r)"
  by (auto simp: run_all_def run_map_def run_bind_def)

lemma run_all_bind: "run_all Q r \<Longrightarrow> (\<And>x. Q x \<Longrightarrow> run_all P (f x)) \<Longrightarrow> run_all P (run_bind r f)"
  by (auto simp: run_all_def run_bind_def)

lemma run_all_list:
  assumes "\<And>r. r \<in> set rs \<Longrightarrow> run_all P r"
  shows "run_all (list_all P) (run_list rs)"
proof -
  obtain xs where xs: "run_list rs = Returns xs" "list_all2 (\<lambda>r x. r = Returns x) rs xs"
    using run_list_all [of rs "\<lambda>r x. r = Returns x"] assms by (auto simp: run_all_def)
  have "P x" if "x \<in> set xs" for x
  proof -
    have "Returns x \<in> set rs" using xs(2) that by (auto simp: list_all2_conv_all_nth in_set_conv_nth)
    then show ?thesis using assms by (auto simp: run_all_def)
  qed
  then show ?thesis using xs(1) by (simp add: run_all_def list_all_iff)
qed

lemma run_all_list1 [run_rules]: "run_all P r \<Longrightarrow> run_all (list_all P) (run_list [r])"
  by (rule run_all_list) simp

lemma run_all_list2 [run_rules]: "run_all P r \<Longrightarrow> run_all P q \<Longrightarrow> run_all (list_all P) (run_list [r, q])"
  by (rule run_all_list) auto

lemma run_all_list4 [run_rules]:
  "run_all P r \<Longrightarrow> run_all P q \<Longrightarrow> run_all P s \<Longrightarrow> run_all P t \<Longrightarrow> run_all (list_all P) (run_list [r, q, s, t])"
  by (rule run_all_list) auto

lemma run_all_list_map [run_rules]: "(\<And>x. x \<in> set xs \<Longrightarrow> run_all P (f x)) \<Longrightarrow> run_all (list_all P) (run_list (map f xs))"
  by (rule run_all_list) auto

lemma run_all_concat [run_rules]: "run_all (list_all (list_all P)) r \<Longrightarrow> run_all (list_all P) (run_map concat r)"
  by (auto simp: run_all_def run_map_def run_bind_def list_all_iff)

definition event_in_bounds :: "dataset \<Rightarrow> bench_event \<Rightarrow> bool" where
  "event_in_bounds ds ev =
     (case ev_op ev of
        OpRead key (Some i) r \<Rightarrow>
          i < length (ds_objects ds) \<and> key = do_key (ds_objects ds ! i)
          \<and> range_start r < range_end r \<and> range_end r \<le> do_size (ds_objects ds ! i)
      | _ \<Rightarrow> False)"

definition dataset_ok :: "dataset \<Rightarrow> bool" where
  "dataset_ok ds \<longleftrightarrow> ds_objects ds \<noteq> [] \<and> length (ds_objects ds) < 2 ^ 64 \<and> (\<forall>ob \<in> set (ds_objects ds). laid_out ob)"

abbreviation in_object :: "data_object \<Rightarrow> u64 urange \<Rightarrow> bool" where
  "in_object ob r \<equiv> range_start r < range_end r \<and> range_end r \<le> do_size ob"

lemma laid_out_ranges:
  assumes "laid_out ob"
  shows "in_object ob (do_footer ob)" and "in_object ob (do_index ob)"
    and "b \<in> set (do_blocks ob) \<Longrightarrow> in_object ob (db_range b)"
    and "object_stream_range stream ob = Some r \<Longrightarrow> in_object ob r" and "0 < do_size ob"
proof -
  note l = assms [unfolded laid_out_def]
  have le: "range_start (do_index ob) \<le> do_size ob" using l by (simp add: word_le_nat_alt)
  show "in_object ob (do_footer ob)" "in_object ob (do_index ob)" "0 < do_size ob"
    using l by (auto simp: word_less_nat_alt word_le_nat_alt)
  show "in_object ob (db_range b)" if "b \<in> set (do_blocks ob)"
    using tiles_bounds(2) [of 0 "do_blocks ob" "range_start (do_index ob)" b] l that le by (meson order_trans)
  show "in_object ob r" if "object_stream_range stream ob = Some r"
    using stream_tiled [OF assms, of stream] that le by (auto intro: order_trans)
qed

lemma with_object_events [run_rules]:
  assumes "dataset_ok ds" and "i < length (ds_objects ds)"
    and "\<And>ob r. laid_out ob \<Longrightarrow> r \<in> set (f ob) \<Longrightarrow> in_object ob r"
  shows "run_all (list_all (event_in_bounds ds)) (with_object ds i (\<lambda>ob. map (read_event ob i) (f ob)))"
proof -
  have "laid_out (ds_objects ds ! i)" using assms(1,2) by (simp add: dataset_ok_def)
  from assms(3) [OF this] assms(2) show ?thesis
    by (auto simp: run_all_def with_object_def list_all_iff event_in_bounds_def read_event_def event_now_def)
qed

lemma sequential_in_bounds [run_rules]:
  assumes "dataset_ok ds" and "i < length (ds_objects ds)"
  shows "run_all (list_all (event_in_bounds ds)) (sequential_events ds i)"
  unfolding sequential_events_def
  by (rule with_object_events [OF assms]) (auto simp: open_ranges_def laid_out_ranges)

lemma open_in_bounds [run_rules]:
  assumes "dataset_ok ds" and "i < length (ds_objects ds)"
  shows "run_all (list_all (event_in_bounds ds)) (open_events ds i)"
  unfolding open_events_def
  by (rule with_object_events [OF assms])
    (auto simp: open_ranges_def laid_out_ranges(1,2) split: list.splits, (metis laid_out_ranges(3) list.set_intros(1))+)

lemma catchup_in_bounds [run_rules]:
  assumes "dataset_ok ds" and "\<And>i. i \<in> set is \<Longrightarrow> i < length (ds_objects ds)"
  shows "run_all (list_all (event_in_bounds ds)) (catchup ds is)"
  unfolding catchup_def flat_events_def by (intro run_rules assms)

lemma scan_in_bounds [run_rules]:
  assumes "dataset_ok ds" and "\<And>i. i \<in> set is \<Longrightarrow> i < length (ds_objects ds)"
  shows "run_all (list_all (event_in_bounds ds)) (scan ds is)"
proof -
  have "run_all (list_all (event_in_bounds ds)) (with_object ds i (\<lambda>ob. map (read_event ob i) [Range 0 (do_size ob)]))"
    if "i \<in> set is" for i
    using assms that by (intro with_object_events) (auto simp: laid_out_ranges)
  then show ?thesis unfolding scan_def flat_events_def by (intro run_rules) simp
qed

lemma stream_ranges_in:
  assumes "(i, r) \<in> set (stream_ranges stream ds)"
  shows "i < length (ds_objects ds)" and "object_stream_range stream (ds_objects ds ! i) = Some r"
  using assms by (auto simp: stream_ranges_def in_set_enumerate_eq split: option.splits)

lemma stream_read_in_bounds [run_rules]:
  assumes "dataset_ok ds"
  shows "run_all (list_all (event_in_bounds ds)) (stream_read ds stream)"
proof -
  have "run_all (list_all (event_in_bounds ds)) (with_object ds i (\<lambda>ob. map (read_event ob i) (open_ranges ob @ [r])))"
    if "(i, r) \<in> set (stream_ranges stream ds)" for i r
  proof -
    note ir = stream_ranges_in [OF that]
    have "laid_out (ds_objects ds ! i)" using assms ir(1) by (simp add: dataset_ok_def)
    then show ?thesis
      using ir laid_out_ranges [of "ds_objects ds ! i"]
      by (auto simp: run_all_def with_object_def event_in_bounds_def read_event_def event_now_def open_ranges_def)
  qed
  then show ?thesis unfolding stream_read_def by (intro run_rules) auto
qed

lemma random_indexes_below:
  assumes "width \<noteq> 0" and "i \<in> set (random_indexes start width m s)"
  shows "i < start + unat width"
  using assms(2)
proof (induction m arbitrary: s)
  case 0
  then show ?case by simp
next
  case (Suc m)
  obtain x s' where x: "rng_below width s = (x, s')" by fastforce
  show ?case using Suc x rng_below_bound [OF x assms(1)] by auto
qed

lemma random_in_bounds [run_rules]:
  assumes "dataset_ok ds" and "0 < stop" and "stop \<le> length (ds_objects ds)"
  shows "run_all (list_all (event_in_bounds ds)) (random_objects ds 0 stop m seed)"
proof -
  have w: "unat (of_nat stop :: u64) = stop" using assms by (intro unat_of_nat_lt) (simp add: dataset_ok_def)
  then have ne: "(of_nat stop :: u64) \<noteq> 0" using assms(2) by (metis unat_0 less_irrefl)
  have "i < length (ds_objects ds)" if "i \<in> set (random_indexes 0 (of_nat stop) m s)" for i s
    using random_indexes_below [OF ne that] w assms(3) by simp
  then show ?thesis using ne by (auto simp: random_objects_def intro!: run_rules assms(1))
qed

lemma partition_members: "is \<in> set (partition_objects xs k) \<Longrightarrow> i \<in> set is \<Longrightarrow> i \<in> set xs"
  using mset_deal [of "max k 1" xs, THEN arg_cong [where f = set_mset]]
  by (force simp: partition_objects_def Let_def)

lemma readers_in_bounds [run_rules]:
  assumes "dataset_ok ds" and "\<And>i. i \<in> set is \<Longrightarrow> i < length (ds_objects ds)"
  shows "run_all (list_all (list_all (event_in_bounds ds))) (readers ds is k)"
  unfolding readers_def by (intro run_rules assms) (blast dest: partition_members)

definition phase_in_bounds :: "dataset \<Rightarrow> bench_phase \<Rightarrow> bool" where
  "phase_in_bounds ds ph \<longleftrightarrow> list_all (list_all (event_in_bounds ds)) (ph_consumers ph)"

lemma one_phase_in_bounds [run_rules]:
  "run_all (list_all (list_all (event_in_bounds ds))) r \<Longrightarrow> run_all (phase_in_bounds ds) (one_phase name r)"
  unfolding one_phase_def by (rule run_all_map) (simp add: phase_in_bounds_def phase_once_def)

lemma until_in_bounds [run_rules]:
  "run_all (list_all (list_all (event_in_bounds ds))) r \<Longrightarrow> run_all (phase_in_bounds ds) (run_map (phase_until name d) r)"
  by (rule run_all_map) (simp add: phase_in_bounds_def phase_until_def phase_once_def)

lemma hot_prefix_le: "hot_prefix acc hot_set obs \<le> length obs"
  by (induction acc hot_set obs rule: hot_prefix.induct) (auto simp: Let_def)

lemma rem_by_below: "0 < n \<Longrightarrow> run_all (\<lambda>i. i < n) (rem_by m n)"
  by (simp add: rem_by_def run_all_def)

lemma soak_in_bounds:
  assumes "dataset_ok ds" and "0 < hot" and "hot \<le> length (ds_objects ds)"
  shows "run_all (list_all (event_in_bounds ds)) (soak_consumer ds hot c)"
proof -
  have n: "0 < length (ds_objects ds)" using assms(2,3) by (rule less_le_trans)
  have "i < length (ds_objects ds)" if "i \<in> set (cycled hot (length (ds_objects ds)) c 8)" for i
    using that by (auto simp: cycled_def split: if_splits) (metis add.commute less_diff_conv mod_less_divisor zero_less_diff)
  then have "run_all (list_all (event_in_bounds ds)) (scan ds (cycled hot (length (ds_objects ds)) c 8))"
    using assms(1) by (intro run_rules)
  moreover have "run_all (list_all (event_in_bounds ds)) (run_bind (rem_by hot (length (ds_objects ds))) (sequential_events ds))"
    by (rule run_all_bind [OF rem_by_below [OF n]]) (intro run_rules assms(1))
  moreover have "run_all (list_all (event_in_bounds ds)) (random_objects ds 0 hot 32 (of_nat c))"
    by (intro run_rules assms)
  ultimately show ?thesis by (simp add: soak_consumer_def Let_def)
qed

lemma phases_in_bounds:
  assumes "dataset_ok ds"
  shows "\<exists>phs. phases sc ds p = Returns phs
    \<and> (sc \<noteq> DeleteCycle \<longrightarrow> (\<forall>ph \<in> set phs. \<forall>events \<in> set (ph_consumers ph). \<forall>ev \<in> set events. event_in_bounds ds ev))"
proof -
  let ?n = "length (ds_objects ds)" and ?hot = "max (hot_objects ds (bp_hot_set p)) 1"
  have n: "0 < ?n" using assms by (simp add: dataset_ok_def)
  have hot: "0 < ?hot" "?hot \<le> ?n"
    using n hot_prefix_le [of 0 "bp_hot_set p" "ds_objects ds"] by (auto simp: hot_objects_def Suc_le_eq)
  have half: "i < ?n" if "i < max (?hot div 2) 1" for i using that hot by linarith
  have seq: "run_all (list_all (event_in_bounds ds)) (sequential_events ds i)" if "i < ?n" for i
    by (intro run_rules assms that)
  have staggered: "run_all (list_all (phase_in_bounds ds)) (run_bind (rem_by 1 ?n) (\<lambda>i.
      run_list [one_phase ''first'' (run_list [sequential_events ds i]),
                one_phase ''second'' (run_list [run_map (\<lambda>es. delayed es (bp_stagger p)) (sequential_events ds i)])]))"
  proof (rule run_all_bind [OF rem_by_below [OF n]])
    fix i assume i: "i < ?n"
    have "list_all (event_in_bounds ds) (delayed es d)" if "list_all (event_in_bounds ds) es" for es d
      using that by (auto simp: delayed_def event_in_bounds_def split: list.splits)
    then have "run_all (list_all (event_in_bounds ds)) (run_map (\<lambda>es. delayed es (bp_stagger p)) (sequential_events ds i))"
      using seq [OF i] by (auto simp: run_all_def run_map_def run_bind_def)
    then show "run_all (list_all (phase_in_bounds ds))
      (run_list [one_phase ''first'' (run_list [sequential_events ds i]),
                one_phase ''second'' (run_list [run_map (\<lambda>es. delayed es (bp_stagger p)) (sequential_events ds i)])])"
      using seq [OF i] by (intro run_all_list2 run_all_list1 one_phase_in_bounds)
  qed
  have catch: "run_all (list_all (event_in_bounds ds)) (run_bind (rem_by c ?n) (\<lambda>r. catchup ds ([r..<?n] @ [0..<r])))" for c
    by (rule run_all_bind [OF rem_by_below [OF n]]) (intro run_rules assms, auto)
  have act: "run_all (phase_in_bounds ds) (run_map (\<lambda>ph. ph\<lparr>ph_action := a\<rparr>) r)"
      "run_all (phase_in_bounds ds) (run_map (\<lambda>ph. ph\<lparr>ph_faults := fs\<rparr>) r)"
    if "run_all (phase_in_bounds ds) r" for a fs r
    using that by (auto simp: run_all_def run_map_def run_bind_def phase_in_bounds_def)
  have "run_all (list_all (phase_in_bounds ds)) (phases sc ds p)" if "sc \<noteq> DeleteCycle"
    using that unfolding phases_def Let_def
    by (cases sc; simp only: scenario.case)
      (intro run_rules act staggered catch soak_in_bounds assms hot n; use hot half in \<open>auto dest: partition_members\<close>)+
  moreover have "\<exists>phs. phases DeleteCycle ds p = Returns phs" by (simp add: phases_def)
  ultimately show ?thesis by (cases "sc = DeleteCycle") (auto simp: run_all_def phase_in_bounds_def list_all_iff)
qed

text \<open>
  Every scenario can be built on a dataset that has an object, and but for the cycle of writing and
  deleting every event of its phases reads an object of the dataset, under its key and a part of it that
  is not empty.
\<close>

theorem scenario_in_bounds:
  assumes "dataset_ok ds"
  shows "\<exists>phs. phases sc ds p = Returns phs
    \<and> (sc \<noteq> DeleteCycle \<longrightarrow> (\<forall>ph \<in> set phs. \<forall>events \<in> set (ph_consumers ph). \<forall>ev \<in> set events. event_in_bounds ds ev))"
  by (rule phases_in_bounds [OF assms])

text \<open>A generated dataset is such a dataset.\<close>

lemma generated_ok:
  assumes "dp_streams params \<noteq> 0" and "0 < dp_objects params" and "dp_objects params < 2 ^ 64"
    and "generate params = Returns ds"
  shows "dataset_ok ds"
  using generate_laid_out [OF assms(1)] assms(2-4) by (auto simp: dataset_ok_def Let_def in_set_conv_nth)

definition demo_data_object :: data_object where
  "demo_data_object = finish_object ''k'' 5 [\<lparr>db_stream = 1, db_range = Range 0 10\<rparr>, \<lparr>db_stream = 2, db_range = Range 10 16\<rparr>] 16"

definition demo_dataset :: dataset where
  "demo_dataset = \<lparr>ds_params = demo_params, ds_objects = [demo_data_object]\<rparr>"

lemma demo_dataset_ok: "dataset_ok demo_dataset"
proof -
  have "laid_out demo_data_object" unfolding demo_data_object_def by (rule finish_laid_out(1)) simp_all
  then show ?thesis by (simp add: dataset_ok_def demo_dataset_def)
qed

definition demo_bench :: bench_params where
  "demo_bench = \<lparr>bp_consumers = 2, bp_duration = 10 ^ 9, bp_hot_set = 10 ^ 6, bp_stagger = 0, bp_block = 1048576\<rparr>"

theorem scenario_in_bounds_witness:
  "\<exists>phs. phases Concurrency demo_dataset demo_bench = Returns phs
    \<and> (\<forall>ph \<in> set phs. \<forall>events \<in> set (ph_consumers ph). list_all (event_in_bounds demo_dataset) events)"
  using scenario_in_bounds [OF demo_dataset_ok, of Concurrency demo_bench] by (auto simp: list_all_iff)

section \<open>An idle consumer\<close>

text \<open>
  Where the hot set holds the whole dataset, the scans of \<^verbatim>\<open>Soak\<close> have no object to read: its first
  consumer repeats an empty list of events.
\<close>

lemma soak_idle_consumer:
  assumes "dataset_ok ds" and "length (ds_objects ds) \<le> hot_objects ds (bp_hot_set p)" and "bp_consumers p \<noteq> 0"
  shows "\<exists>warm soak rest. phases Soak ds p = Returns [warm, soak] \<and> ph_repeat soak
    \<and> ph_deadline soak = Some (bp_duration p) \<and> ph_faults soak = faults_default \<and> ph_action soak = None
    \<and> ph_consumers soak = [] # rest"
proof -
  let ?n = "length (ds_objects ds)" and ?hot = "max (hot_objects ds (bp_hot_set p)) 1"
  have n: "0 < ?n" using assms(1) by (simp add: dataset_ok_def)
  have "hot_objects ds (bp_hot_set p) = ?n"
    using assms(2) hot_prefix_le [of 0 "bp_hot_set p" "ds_objects ds"] by (simp add: hot_objects_def)
  then have hot: "?hot = ?n" using n by linarith
  have k: "0 < unat (bp_consumers p)" using assms(3) by (simp add: unat_gt_0)
  have soak: "run_all (list_all (event_in_bounds ds)) (soak_consumer ds ?n c)" for c
    using soak_in_bounds [OF assms(1) n] by simp
  have "run_all (list_all (list_all (event_in_bounds ds))) (run_list (map (soak_consumer ds ?n) [0..<unat (bp_consumers p)]))"
    by (rule run_all_list_map) (rule soak)
  then obtain cs where cs: "run_list (map (soak_consumer ds ?n) [0..<unat (bp_consumers p)]) = Returns cs"
    by (auto simp: run_all_def)
  have "soak_consumer ds ?n 0 = Returns []"
    by (simp add: soak_consumer_def cycled_def scan_def flat_events_def run_map_def run_bind_def)
  then obtain rest where rest: "cs = [] # rest"
    using cs k by (auto simp: upt_conv_Cons split: run.splits)
  have "run_all (list_all (list_all (event_in_bounds ds))) (readers ds [0..<?n] (unat (bp_consumers p)))"
    by (intro run_rules assms(1)) simp
  then obtain ws where ws: "readers ds [0..<?n] (unat (bp_consumers p)) = Returns ws" by (auto simp: run_all_def)
  show ?thesis
    unfolding phases_def Let_def scenario.case hot
    using cs ws rest by (simp add: one_phase_def run_map_def run_bind_def phase_until_def phase_once_def)
qed

end
