(* ===== verification/Bench_Run.thy ===== *)
theory Bench_Run
  imports Bench_Workload Object_Store
begin

text \<open>
  Running the scenarios, \<^verbatim>\<open>nestor-bench/src/run.rs\<close> and the targets of \<^verbatim>\<open>target.rs\<close>. A consumer replays its
  events against a target and counts what comes back; a phase runs its consumers and reports the
  counters around them.

  A target is the record of its operations on a state: the embedded cache works on the state of a
  node, an endpoint on the state of an S3 client, which is a parameter. The locale \<open>honest_target\<close>
  states what a target promises; \<open>Bench_Library\<close> shows that the embedded cache keeps it. Consumers of a phase are run one after the
  other. A histogram is the list of the recorded samples.
\<close>

section \<open>Targets\<close>

text \<open>
  \<open>tg_read\<close> opens a read, \<^const>\<open>None\<close> when it never returns; \<open>tg_next\<close> is the next item of its stream;
  \<open>tg_now\<close> and \<open>tg_sleep\<close> are the clock.
\<close>

record ('st, 's) bench_target =
  tg_read :: "string \<Rightarrow> u64 urange \<Rightarrow> 's \<Rightarrow> ((string + nanos \<times> 'st) \<times> 's) option"
  tg_next :: "'st \<Rightarrow> 's \<Rightarrow> ((string + bytes) option \<times> 'st \<times> 's) option"
  tg_write :: "string \<Rightarrow> bytes \<Rightarrow> 's \<Rightarrow> (string + unit) \<times> 's"
  tg_delete :: "string \<Rightarrow> 's \<Rightarrow> (string + unit) \<times> 's"
  tg_now :: "'s \<Rightarrow> nanos"
  tg_sleep :: "nanos \<Rightarrow> 's \<Rightarrow> 's"

text \<open>\<^verbatim>\<open>Library\<close>: \<open>shown\<close> prints errors, \<open>puts\<close> and \<open>deletes\<close> are the answers of the wrapped store.\<close>

record library =
  lb_env :: env
  lb_store :: nestor_store
  lb_path :: "string \<Rightarrow> string"
  lb_shown :: "nestor_error \<Rightarrow> string"
  lb_store_shown :: "store_error \<Rightarrow> string"
  lb_puts :: "string \<Rightarrow> bytes \<Rightarrow> world \<Rightarrow> store_error + put_result"
  lb_deletes :: "string \<Rightarrow> world \<Rightarrow> store_error + string"

definition library_read ::
  "library \<Rightarrow> string \<Rightarrow> u64 urange \<Rightarrow> world \<Rightarrow> ((string + nanos \<times> read_stream) \<times> world) option" where
  "library_read lb key r w =
     (case node_get (lb_env lb) (st_namespace (lb_store lb)) key (Bounded r) w of
        None \<Rightarrow> None
      | Some (Inl err, w') \<Rightarrow> Some (Inl (lb_shown lb err), w')
      | Some (Inr st, w') \<Rightarrow>
          (case stream_ready (lb_env lb) st w' of
             None \<Rightarrow> None
           | Some (Inl err, st, w') \<Rightarrow> Some (Inl (lb_shown lb err), w')
           | Some (Inr m, st, w') \<Rightarrow> Some (Inr (now w' - now w, st), w')))"

definition library_next :: "library \<Rightarrow> read_stream \<Rightarrow> world \<Rightarrow> ((string + bytes) option \<times> read_stream \<times> world) option" where
  "library_next lb st w =
     (case stream_poll (lb_env lb) st w of
        None \<Rightarrow> None
      | Some (r, st, w) \<Rightarrow> Some (map_option (map_sum (lb_shown lb) id) r, st, w))"

definition library_write :: "library \<Rightarrow> string \<Rightarrow> bytes \<Rightarrow> world \<Rightarrow> (string + unit) \<times> world" where
  "library_write lb key data w =
     (case store_put (lb_env lb) (lb_store lb) (lb_puts lb (lb_path lb key) data w) (lb_path lb key) [data] w of
        (r, w) \<Rightarrow> (map_sum (lb_store_shown lb) (\<lambda>_. ()) r, w))"

text \<open>A deletion is a stream of one path; the first error it yields is the result.\<close>

definition library_delete :: "library \<Rightarrow> string \<Rightarrow> world \<Rightarrow> (string + unit) \<times> world" where
  "library_delete lb key w =
     (case store_delete_stream (lb_env lb) (lb_store lb) [lb_deletes lb (lb_path lb key) w] w of
        (rs, w) \<Rightarrow> (map_sum (lb_store_shown lb) (\<lambda>_. ()) (hd rs), w))"

definition library_target :: "library \<Rightarrow> (read_stream, world) bench_target" where
  "library_target lb =
     \<lparr>tg_read = library_read lb, tg_next = library_next lb, tg_write = library_write lb, tg_delete = library_delete lb,
      tg_now = now, tg_sleep = until\<rparr>"

text \<open>\<^verbatim>\<open>Endpoint\<close>: an object store reached over the network, with the client as a parameter.\<close>

record 's endpoint =
  ep_get :: "string \<Rightarrow> store_options \<Rightarrow> 's \<Rightarrow> (string + store_answer) \<times> 's"
  ep_put :: "string \<Rightarrow> bytes \<Rightarrow> 's \<Rightarrow> (string + unit) \<times> 's"
  ep_delete :: "string \<Rightarrow> 's \<Rightarrow> (string + unit) \<times> 's"
  ep_path :: "string \<Rightarrow> string"
  ep_shown :: "store_error \<Rightarrow> string"
  ep_now :: "'s \<Rightarrow> nanos"
  ep_sleep :: "nanos \<Rightarrow> 's \<Rightarrow> 's"

definition endpoint_read ::
  "'s endpoint \<Rightarrow> string \<Rightarrow> u64 urange \<Rightarrow> 's \<Rightarrow> ((string + nanos \<times> (nanos \<times> (store_error + bytes)) list) \<times> 's) option" where
  "endpoint_read ep key r s =
     (case ep_get ep (ep_path ep key) (store_options_default\<lparr>sg_range := Some (GBounded r)\<rparr>) s of
        (Inl err, s') \<Rightarrow> Some (Inl err, s')
      | (Inr a, s') \<Rightarrow> Some (Inr (ep_now ep s' - ep_now ep s, sa_body a), s'))"

definition endpoint_next ::
  "'s endpoint \<Rightarrow> (nanos \<times> (store_error + bytes)) list \<Rightarrow> 's
     \<Rightarrow> ((string + bytes) option \<times> (nanos \<times> (store_error + bytes)) list \<times> 's) option" where
  "endpoint_next ep body s =
     (case body of
        [] \<Rightarrow> Some (None, [], s)
      | (t, r) # rest \<Rightarrow> Some (Some (map_sum (ep_shown ep) id r), rest, ep_sleep ep t s))"

definition endpoint_target :: "'s endpoint \<Rightarrow> ((nanos \<times> (store_error + bytes)) list, 's) bench_target" where
  "endpoint_target ep =
     \<lparr>tg_read = endpoint_read ep, tg_next = endpoint_next ep,
      tg_write = (\<lambda>key. ep_put ep (ep_path ep key)), tg_delete = (\<lambda>key. ep_delete ep (ep_path ep key)),
      tg_now = ep_now ep, tg_sleep = ep_sleep ep\<rparr>"

section \<open>Consumers\<close>

record consumer_stats =
  cs_ttfb :: "u64 list"
  cs_ttlb :: "u64 list"
  cs_reads :: u64
  cs_bytes :: u64
  cs_errors :: u64
  cs_corrupt :: u64
  cs_missing :: u64

definition stats_new :: consumer_stats where
  "stats_new = \<lparr>cs_ttfb = [], cs_ttlb = [], cs_reads = 0, cs_bytes = 0, cs_errors = 0, cs_corrupt = 0, cs_missing = 0\<rparr>"

definition micros :: "nanos \<Rightarrow> u64" where
  "micros d = max (of_nat (d div 1000)) 1"

definition stats_record :: "nanos \<Rightarrow> nanos \<Rightarrow> u64 \<Rightarrow> consumer_stats \<Rightarrow> consumer_stats" where
  "stats_record first final n st =
     st\<lparr>cs_ttfb := cs_ttfb st @ [micros first], cs_ttlb := cs_ttlb st @ [micros final], cs_reads := cs_reads st + 1,
        cs_bytes := cs_bytes st + n\<rparr>"

definition stats_merge :: "consumer_stats \<Rightarrow> consumer_stats \<Rightarrow> consumer_stats" where
  "stats_merge a b =
     \<lparr>cs_ttfb = cs_ttfb a @ cs_ttfb b, cs_ttlb = cs_ttlb a @ cs_ttlb b, cs_reads = cs_reads a + cs_reads b,
      cs_bytes = cs_bytes a + cs_bytes b, cs_errors = cs_errors a + cs_errors b,
      cs_corrupt = cs_corrupt a + cs_corrupt b, cs_missing = cs_missing a + cs_missing b\<rparr>"

abbreviation failed_read :: "consumer_stats \<Rightarrow> consumer_stats" where
  "failed_read st \<equiv> st\<lparr>cs_errors := cs_errors st + 1\<rparr>"

abbreviation corrupt_read :: "consumer_stats \<Rightarrow> consumer_stats" where
  "corrupt_read st \<equiv> st\<lparr>cs_corrupt := cs_corrupt st + 1\<rparr>"

abbreviation missing_read :: "consumer_stats \<Rightarrow> consumer_stats" where
  "missing_read st \<equiv> st\<lparr>cs_missing := cs_missing st + 1\<rparr>"

text \<open>Reading a stream to its end; \<^const>\<open>None\<close> when it never ends.\<close>

partial_function (option) drain_stream ::
  "('st, 's) bench_target \<Rightarrow> bool \<Rightarrow> u64 \<Rightarrow> bytes list \<Rightarrow> 'st \<Rightarrow> 's \<Rightarrow> ((string + u64 \<times> bytes list) \<times> 's) option" where
  "drain_stream tg checked got chunks st s =
     (case tg_next tg st s of
        None \<Rightarrow> None
      | Some (None, st, s) \<Rightarrow> Some (Inr (got, chunks), s)
      | Some (Some (Inl err), st, s) \<Rightarrow> Some (Inl err, s)
      | Some (Some (Inr c), st, s) \<Rightarrow>
          drain_stream tg checked (got + of_nat (length c)) (if checked then chunks @ [c] else chunks) st s)"

definition scratch_seed :: "string \<Rightarrow> u64" where
  "scratch_seed key = fold (\<lambda>c h. (h XOR of_char c) * 0x100000001b3) key 0xcbf29ce484222325"

definition execute_read ::
  "('st, 's) bench_target \<Rightarrow> dataset \<Rightarrow> string \<Rightarrow> nat option \<Rightarrow> u64 urange \<Rightarrow> bool \<Rightarrow> consumer_stats \<Rightarrow> 's
     \<Rightarrow> (consumer_stats \<times> 's) run" where
  "execute_read tg ds key object r checked stats s =
     (case tg_read tg key r s of
        None \<Rightarrow> Hangs
      | Some (Inl err, s') \<Rightarrow> Returns (failed_read stats, s')
      | Some (Inr (first, st), s') \<Rightarrow>
          (case drain_stream tg checked 0 [] st s' of
             None \<Rightarrow> Hangs
           | Some (Inl err, s') \<Rightarrow> Returns (failed_read stats, s')
           | Some (Inr (got, chunks), s') \<Rightarrow>
               let counted = stats_record first (tg_now tg s' - tg_now tg s) got stats
               in if got \<noteq> range_end r - range_start r then Returns (corrupt_read stats, s')
                  else case (if checked then object else None) of
                         None \<Rightarrow> Returns (counted, s')
                       | Some i \<Rightarrow>
                           run_map (\<lambda>want. (if concat chunks \<noteq> want then corrupt_read stats else counted, s'))
                             (dataset_bytes ds i r)))"

definition execute ::
  "('st, 's) bench_target \<Rightarrow> dataset \<Rightarrow> bench_op \<Rightarrow> bool \<Rightarrow> consumer_stats \<Rightarrow> 's \<Rightarrow> (consumer_stats \<times> 's) run" where
  "execute tg ds op checked stats s =
     (case op of
        OpRead key object r \<Rightarrow> execute_read tg ds key object r checked stats s
      | OpWrite key len \<Rightarrow>
          run_map (\<lambda>data. case tg_write tg key data s of
                            (Inl err, s) \<Rightarrow> (failed_read stats, s)
                          | (Inr _, s) \<Rightarrow> (stats, s))
            (fill (scratch_seed key) (Range 0 len))
      | OpDelete key \<Rightarrow>
          Returns (case tg_delete tg key s of (Inl err, s) \<Rightarrow> (failed_read stats, s) | (Inr _, s) \<Rightarrow> (stats, s))
      | OpMissing key \<Rightarrow>
          (case tg_read tg key (Range 0 1) s of
             None \<Rightarrow> Hangs
           | Some (Inl err, s) \<Rightarrow> Returns (missing_read stats, s)
           | Some (Inr (first, st), s) \<Rightarrow>
               (case tg_next tg st s of
                  None \<Rightarrow> Hangs
                | Some (Some (Inr c), st, s) \<Rightarrow> Returns (corrupt_read stats, s)
                | Some (_, st, s) \<Rightarrow> Returns (missing_read stats, s))))"

text \<open>One pass over the events, and whether the deadline ended it.\<close>

fun consume_pass ::
  "('st, 's) bench_target \<Rightarrow> dataset \<Rightarrow> nanos \<Rightarrow> nanos option \<Rightarrow> bool \<Rightarrow> bench_event list \<Rightarrow> consumer_stats \<Rightarrow> 's
     \<Rightarrow> (bool \<times> consumer_stats \<times> 's) run" where
  "consume_pass tg ds started limit checked [] stats s = Returns (False, stats, s)"
| "consume_pass tg ds started limit checked (ev # events) stats s =
     (if case limit of Some d \<Rightarrow> d \<le> tg_now tg s | None \<Rightarrow> False then Returns (True, stats, s)
      else run_bind (execute tg ds (ev_op ev) checked stats (tg_sleep tg (started + ev_at ev) s))
             (\<lambda>(stats, s). consume_pass tg ds started limit checked events stats s))"

text \<open>The loop of \<^verbatim>\<open>consume\<close>; \<^const>\<open>None\<close> when it does not end.\<close>

partial_function (option) consume_loop ::
  "('st, 's) bench_target \<Rightarrow> dataset \<Rightarrow> bench_event list \<Rightarrow> bool \<Rightarrow> nanos \<Rightarrow> nanos option \<Rightarrow> bool \<Rightarrow> consumer_stats \<Rightarrow> 's
     \<Rightarrow> (consumer_stats \<times> 's) run option" where
  "consume_loop tg ds events repeats started limit checked stats s =
     (case consume_pass tg ds started limit checked events stats s of
        Panics \<Rightarrow> Some Panics
      | Hangs \<Rightarrow> Some Hangs
      | Returns (stopped, stats, s) \<Rightarrow>
          if stopped \<or> \<not> repeats then Some (Returns (stats, s))
          else consume_loop tg ds events repeats started limit checked stats s)"

definition consume_events ::
  "('st, 's) bench_target \<Rightarrow> dataset \<Rightarrow> bench_event list \<Rightarrow> bool \<Rightarrow> nanos option \<Rightarrow> bool \<Rightarrow> 's \<Rightarrow> (consumer_stats \<times> 's) run option" where
  "consume_events tg ds events repeats limit checked s =
     consume_loop tg ds events repeats (tg_now tg s) limit checked stats_new s"

section \<open>Phases\<close>

text \<open>
  \<^verbatim>\<open>Runner\<close>: the service behind the target, if it can be restarted, the proxy in front of the origin, if
  there is one, and the counters and memory the target reports.
\<close>

record ('st, 's) runner =
  rn_target :: "('st, 's) bench_target"
  rn_restart :: "('s \<Rightarrow> (string + unit) \<times> 's) option"
  rn_recreate :: "('s \<Rightarrow> (string + unit) \<times> 's) option"
  rn_proxy :: "(('s \<Rightarrow> proxy) \<times> ((proxy \<Rightarrow> proxy) \<Rightarrow> 's \<Rightarrow> 's)) option"
  rn_nestor :: "'s \<Rightarrow> nestor_counters option \<times> 's"
  rn_rss :: "'s \<Rightarrow> u64 option \<times> 's"
  rn_dataset :: dataset
  rn_checked :: bool

text \<open>The numbers of a report: rounding, quantiles and maximum of a histogram.\<close>

record report_math =
  rm_fl :: "real \<Rightarrow> real"
  rm_quantile :: "u64 list \<Rightarrow> real \<Rightarrow> u64"
  rm_most :: "u64 list \<Rightarrow> u64"

fun run_consumers ::
  "('st, 's) runner \<Rightarrow> bool \<Rightarrow> nanos option \<Rightarrow> bench_event list list \<Rightarrow> consumer_stats \<Rightarrow> 's \<Rightarrow> (consumer_stats \<times> 's) run option" where
  "run_consumers rn repeats limit [] stats s = Some (Returns (stats, s))"
| "run_consumers rn repeats limit (events # rest) stats s =
     (case consume_events (rn_target rn) (rn_dataset rn) events repeats limit (rn_checked rn) s of
        None \<Rightarrow> None
      | Some Panics \<Rightarrow> Some Panics
      | Some Hangs \<Rightarrow> Some Hangs
      | Some (Returns (st, s)) \<Rightarrow> run_consumers rn repeats limit rest (stats_merge stats st) s)"

definition phase_prepare :: "('st, 's) runner \<Rightarrow> bench_phase \<Rightarrow> 's \<Rightarrow> (string + unit) \<times> 's" where
  "phase_prepare rn ph s =
     (case (case (ph_action ph, rn_restart rn) of (Some RestartTarget, Some restart) \<Rightarrow> restart s | _ \<Rightarrow> (Inr (), s)) of
        (Inl err, s) \<Rightarrow> (Inl err, s)
      | (Inr _, s) \<Rightarrow>
          (case rn_proxy rn of
             Some (_, change) \<Rightarrow> (Inr (), change (\<lambda>p. proxy_reset (set_faults (ph_faults ph) p)) s)
           | None \<Rightarrow>
               if ph_faults ph = faults_default then (Inr (), s)
               else (Inl (''phase '' @ ph_name ph @ '' injects faults, which needs the proxy in front of the origin''), s)))"

definition phase_report_of ::
  "report_math \<Rightarrow> bench_phase \<Rightarrow> consumer_stats \<Rightarrow> nanos \<Rightarrow> origin_counters option \<Rightarrow> nestor_counters option \<Rightarrow> phase_report" where
  "phase_report_of rm ph stats duration origin nestor =
     (let secs = as_secs_f64 (rm_fl rm) duration; lat = latency_report_from (rm_fl rm) (rm_quantile rm) (rm_most rm)
      in \<lparr>pp_name = ph_name ph, pp_faults = ph_faults ph, pp_duration_s = secs, pp_reads = cs_reads stats,
          pp_bytes = cs_bytes stats, pp_errors = cs_errors stats, pp_corrupt = cs_corrupt stats, pp_missing = cs_missing stats,
          pp_throughput = rm_fl rm (mib_of (rm_fl rm) (cs_bytes stats) / secs), pp_ttfb = lat (cs_ttfb stats),
          pp_ttlb = lat (cs_ttlb stats), pp_origin = origin, pp_nestor = nestor\<rparr>)"

definition run_phase :: "report_math \<Rightarrow> ('st, 's) runner \<Rightarrow> bench_phase \<Rightarrow> 's \<Rightarrow> ((string + phase_report) \<times> 's) run option" where
  "run_phase rm rn ph s =
     (case phase_prepare rn ph s of
        (Inl err, s) \<Rightarrow> Some (Returns (Inl err, s))
      | (Inr _, s) \<Rightarrow>
          (case rn_nestor rn s of
             (before, s) \<Rightarrow>
               let started = tg_now (rn_target rn) s
               in case run_consumers rn (ph_repeat ph) (map_option (\<lambda>d. started + d) (ph_deadline ph)) (ph_consumers ph) stats_new s of
                    None \<Rightarrow> None
                  | Some Panics \<Rightarrow> Some Panics
                  | Some Hangs \<Rightarrow> Some Hangs
                  | Some (Returns (stats, s)) \<Rightarrow>
                      let duration = tg_now (rn_target rn) s - started;
                          (origin, s) =
                            (case rn_proxy rn of
                               Some (look, change) \<Rightarrow> (Some (proxy_snapshot (look s)), change (set_faults faults_default) s)
                             | None \<Rightarrow> (None, s))
                      in case rn_nestor rn s of
                           (after, s) \<Rightarrow>
                             let nestor = (case (before, after) of (Some b, Some a) \<Rightarrow> Some (nestor_counters_delta a b) | _ \<Rightarrow> None)
                             in Some (Returns (Inr (phase_report_of rm ph stats duration origin nestor), s))))"

text \<open>All phases of a run, up to the first error. The memory is sampled once at the end.\<close>

fun run_phases :: "report_math \<Rightarrow> ('st, 's) runner \<Rightarrow> bench_phase list \<Rightarrow> 's \<Rightarrow> ((string + phase_report list) \<times> 's) run option" where
  "run_phases rm rn [] s = Some (Returns (Inr [], s))"
| "run_phases rm rn (ph # phs) s =
     (case run_phase rm rn ph s of
        None \<Rightarrow> None
      | Some Panics \<Rightarrow> Some Panics
      | Some Hangs \<Rightarrow> Some Hangs
      | Some (Returns (Inl err, s)) \<Rightarrow> Some (Returns (Inl err, s))
      | Some (Returns (Inr r, s)) \<Rightarrow>
          (case run_phases rm rn phs s of
             Some (Returns (Inr rs, s)) \<Rightarrow> Some (Returns (Inr (r # rs), s))
           | other \<Rightarrow> other))"

record outcome =
  ot_phases :: "phase_report list"
  ot_rss_max :: "u64 option"

definition runner_run :: "report_math \<Rightarrow> ('st, 's) runner \<Rightarrow> bench_phase list \<Rightarrow> 's \<Rightarrow> ((string + outcome) \<times> 's) run option" where
  "runner_run rm rn phs s =
     (case (case rn_recreate rn of Some recreate \<Rightarrow> recreate s | None \<Rightarrow> (Inr (), s)) of
        (Inl err, s) \<Rightarrow> Some (Returns (Inl err, s))
      | (Inr _, s) \<Rightarrow>
          (case run_phases rm rn phs s of
             None \<Rightarrow> None
           | Some Panics \<Rightarrow> Some Panics
           | Some Hangs \<Rightarrow> Some Hangs
           | Some (Returns (Inl err, s)) \<Rightarrow> Some (Returns (Inl err, s))
           | Some (Returns (Inr reports, s)) \<Rightarrow>
               (case rn_rss rn s of
                  (rss, s) \<Rightarrow>
                    let most = (case rss of Some n \<Rightarrow> n | None \<Rightarrow> 0)
                    in Some (Returns (Inr \<lparr>ot_phases = reports, ot_rss_max = (if most > 0 then Some most else None)\<rparr>, s)))))"

section \<open>An idle consumer never ends\<close>

text \<open>A consumer without events that repeats spins: the deadline is only looked at before an event.\<close>

lemma idle_consumer_loops:
  fixes tg :: "('st, 's) bench_target"
  shows "consume_loop tg ds [] True started limit checked stats s = None"
proof (cases "consume_loop tg ds [] True started limit checked stats s")
  case (Some r)
  have "[] = ([] :: bench_event list) \<longrightarrow> \<not> True"
    by (rule consume_loop.raw_induct
        [where P = "\<lambda>(tg :: ('st, 's) bench_target) ds events repeats started limit checked stats s r. events = [] \<longrightarrow> \<not> repeats",
         OF _ Some])
      (fastforce split: run.splits prod.splits if_splits)
  then show ?thesis by simp
qed

text \<open>
  C39: on a dataset that fits in the hot set the \<^verbatim>\<open>Soak\<close> scenario never ends, whatever its duration: the phase
  after the warm-up does not return for any target.
\<close>

theorem soak_never_ends:
  assumes "dataset_ok (rn_dataset rn)" and "bp_consumers p \<noteq> 0"
    and "length (ds_objects (rn_dataset rn)) \<le> hot_objects (rn_dataset rn) (bp_hot_set p)"
    and "phases Soak (rn_dataset rn) p = Returns phs"
  shows "length phs = 2 \<and> ph_deadline (phs ! 1) = Some (bp_duration p)
    \<and> run_phase rm rn (phs ! 1) s = None"
proof -
  obtain warm soak rest where ph: "phs = [warm, soak]" "ph_repeat soak" "ph_deadline soak = Some (bp_duration p)"
      "ph_consumers soak = [] # rest" "ph_faults soak = faults_default" "ph_action soak = None"
    using soak_idle_consumer [OF assms(1,3,2)] assms(4) by auto
  have "run_consumers rn True limit ([] # rest) stats_new s' = None" for limit s'
    by (simp add: consume_events_def idle_consumer_loops)
  then show ?thesis
    using ph by (auto simp: run_phase_def phase_prepare_def Let_def simp del: run_consumers.simps split: prod.splits option.splits)
qed

text \<open>Applied to a dataset of one object of 136 bytes and a hot set of a million bytes.\<close>

theorem soak_never_ends_witness:
  "\<exists>phs. phases Soak demo_dataset demo_bench = Returns phs \<and> ph_deadline (phs ! 1) = Some (10 ^ 9)
    \<and> (\<forall>rm (rn :: ('st, 's) runner) s. run_phase rm (rn\<lparr>rn_dataset := demo_dataset\<rparr>) (phs ! 1) s = None)"
proof -
  have hot: "length (ds_objects demo_dataset) \<le> hot_objects demo_dataset (bp_hot_set demo_bench)"
    by (simp add: demo_dataset_def demo_bench_def demo_data_object_def finish_object_def Let_def
        hot_objects_def INDEX_ENTRY_def FOOTER_def)
  have c: "bp_consumers demo_bench \<noteq> 0" by (simp add: demo_bench_def)
  obtain phs where phs: "phases Soak demo_dataset demo_bench = Returns phs"
    using phases_in_bounds [OF demo_dataset_ok] by blast
  have "ph_deadline (phs ! 1) = Some (bp_duration demo_bench)
      \<and> run_phase rm (rn\<lparr>rn_dataset := demo_dataset\<rparr>) (phs ! 1) s = None" for rm and rn :: "('st, 's) runner" and s
    using soak_never_ends [of "rn\<lparr>rn_dataset := demo_dataset\<rparr>" demo_bench phs rm s] demo_dataset_ok c hot phs by simp
  then show ?thesis using phs by (auto simp: demo_bench_def)
qed

section \<open>What a target promises\<close>

text \<open>
  \<open>content p key\<close> is what the target should serve under a key; \<open>ok p s\<close> holds of the states in which it
  does. A read of it can fail, but a read that ends gives the bytes of its range.
\<close>

locale honest_target =
  fixes ok :: "'p \<Rightarrow> 's \<Rightarrow> bool"
    and tg :: "'p \<Rightarrow> ('st, 's) bench_target"
    and content :: "'p \<Rightarrow> string \<Rightarrow> bytes option"
  assumes reads: "ok p s \<Longrightarrow> content p key = Some data \<Longrightarrow> range_start r < range_end r \<Longrightarrow> unat (range_end r) \<le> length data \<Longrightarrow>
      \<exists>res s1. tg_read (tg p) key r s = Some (res, s1) \<and> ok p s1
        \<and> (\<forall>first st. res = Inr (first, st) \<longrightarrow>
            (\<exists>out s2. drain_stream (tg p) checked 0 [] st s1 = Some (out, s2) \<and> ok p s2
              \<and> (\<forall>got chunks. out = Inr (got, chunks) \<longrightarrow>
                  got = range_end r - range_start r
                  \<and> (checked \<longrightarrow> concat chunks = bslice (unat (range_start r)) (unat (range_end r)) data))))"
    and sleeps: "ok p s \<Longrightarrow> ok p (tg_sleep (tg p) t s)"
begin

text \<open>The target holds the objects of a dataset.\<close>

definition serves_dataset :: "'p \<Rightarrow> dataset \<Rightarrow> bool" where
  "serves_dataset p ds \<longleftrightarrow>
     (\<forall>ob \<in> set (ds_objects ds). \<exists>data. fill (do_seed ob) (Range 0 (do_size ob)) = Returns data \<and> content p (do_key ob) = Some data)"

lemma execute_sound:
  assumes "ok p s" and "serves_dataset p ds" and "event_in_bounds ds ev"
  shows "\<exists>stats' s'. execute (tg p) ds (ev_op ev) True stats s = Returns (stats', s') \<and> ok p s'
    \<and> (stats' = failed_read stats \<or> (\<exists>first final n. stats' = stats_record first final n stats))"
proof -
  obtain key i r where op: "ev_op ev = OpRead key (Some i) r"
    using assms(3) by (auto simp: event_in_bounds_def split: bench_op.splits option.splits)
  have i: "i < length (ds_objects ds)" "key = do_key (ds_objects ds ! i)" "range_start r < range_end r"
      "range_end r \<le> do_size (ds_objects ds ! i)"
    using assms(3) op by (simp_all add: event_in_bounds_def)
  let ?ob = "ds_objects ds ! i"
  obtain data where data: "fill (do_seed ?ob) (Range 0 (do_size ?ob)) = Returns data" "content p key = Some data"
    using assms(2) i(1,2) nth_mem [OF i(1)] unfolding serves_dataset_def by blast
  have d: "data = map (fill_byte (do_seed ?ob)) [0..<unat (do_size ?ob)]" using data(1) fill_bytes [of 0 "do_size ?ob"] by simp
  have le: "unat (range_start r) \<le> unat (range_end r)" "unat (range_end r) \<le> unat (do_size ?ob)"
    using i(3,4) by (simp_all add: word_less_nat_alt word_le_nat_alt)
  have part: "dataset_bytes ds i r = Returns (bslice (unat (range_start r)) (unat (range_end r)) data)"
    using fill_bytes [of "range_start r" "range_end r" "do_seed ?ob"] i le
    by (cases r) (auto simp: dataset_bytes_def d bslice_def drop_map take_map)
  have "unat (range_end r) \<le> length data" using le d by simp
  from reads [OF assms(1) data(2) i(3) this, of True]
  obtain res s1 where res: "tg_read (tg p) key r s = Some (res, s1)" "ok p s1"
      "\<And>first st. res = Inr (first, st) \<Longrightarrow>
        \<exists>out s2. drain_stream (tg p) True 0 [] st s1 = Some (out, s2) \<and> ok p s2
          \<and> (\<forall>got chunks. out = Inr (got, chunks) \<longrightarrow>
              got = range_end r - range_start r \<and> concat chunks = bslice (unat (range_start r)) (unat (range_end r)) data)"
    by auto
  show ?thesis
  proof (cases res)
    case (Inl err)
    then show ?thesis using res(1,2) op by (auto simp: execute_def execute_read_def)
  next
    case (Inr fs)
    obtain first st where fs: "fs = (first, st)" by fastforce
    from res(3) Inr fs obtain out s2 where out: "drain_stream (tg p) True 0 [] st s1 = Some (out, s2)" "ok p s2"
        "\<And>got chunks. out = Inr (got, chunks) \<Longrightarrow>
          got = range_end r - range_start r \<and> concat chunks = bslice (unat (range_start r)) (unat (range_end r)) data"
      by blast
    then show ?thesis
      using res(1) op Inr fs part
      by (cases out) (auto simp: execute_def execute_read_def run_map_def run_bind_def Let_def, blast)
  qed
qed

lemma consume_pass_sound:
  assumes "ok p s" and "serves_dataset p ds" and "\<forall>ev \<in> set events. event_in_bounds ds ev"
  shows "\<exists>stopped stats' s'. consume_pass (tg p) ds started limit True events stats s = Returns (stopped, stats', s') \<and> ok p s'
    \<and> cs_corrupt stats' = cs_corrupt stats \<and> cs_missing stats' = cs_missing stats
    \<and> (limit = None \<longrightarrow> \<not> stopped)
    \<and> (\<not> stopped \<longrightarrow> cs_reads stats' + cs_errors stats' = cs_reads stats + cs_errors stats + of_nat (length events))"
  using assms
proof (induction events arbitrary: stats s)
  case Nil
  then show ?case by (intro exI [of _ False]) simp
next
  case (Cons ev events)
  let ?s = "tg_sleep (tg p) (started + ev_at ev) s"
  obtain stats1 s1 where ex: "execute (tg p) ds (ev_op ev) True stats ?s = Returns (stats1, s1)" "ok p s1"
      "cs_corrupt stats1 = cs_corrupt stats" "cs_missing stats1 = cs_missing stats"
      "cs_reads stats1 + cs_errors stats1 = cs_reads stats + cs_errors stats + 1"
    using execute_sound [OF sleeps [OF Cons.prems(1)] Cons.prems(2)] Cons.prems(3)
    by (force simp: stats_record_def)
  obtain stopped stats2 s2 where ih: "consume_pass (tg p) ds started limit True events stats1 s1 = Returns (stopped, stats2, s2)"
      "ok p s2" "cs_corrupt stats2 = cs_corrupt stats1" "cs_missing stats2 = cs_missing stats1" "limit = None \<longrightarrow> \<not> stopped"
      "\<not> stopped \<longrightarrow> cs_reads stats2 + cs_errors stats2 = cs_reads stats1 + cs_errors stats1 + of_nat (length events)"
    using Cons.IH [OF ex(2) Cons.prems(2), of stats1] Cons.prems(3) by auto
  show ?case
  proof (cases "\<exists>d. limit = Some d \<and> d \<le> tg_now (tg p) s")
    case True
    then show ?thesis using Cons.prems(1) by (intro exI [of _ True]) auto
  next
    case False
    then have "consume_pass (tg p) ds started limit True (ev # events) stats s = Returns (stopped, stats2, s2)"
      using ex(1) ih(1) by (auto simp: run_bind_def split: option.splits)
    then show ?thesis using ih ex by (simp add: algebra_simps)
  qed
qed

text \<open>What a consumer or a phase comes to: an endless repetition, or counts without a corrupt read.\<close>

definition clean :: "'p \<Rightarrow> bool \<Rightarrow> consumer_stats \<Rightarrow> (consumer_stats \<times> 's) run option \<Rightarrow> bool" where
  "clean p repeats stats r \<longleftrightarrow>
     (case r of
        None \<Rightarrow> repeats
      | Some (Returns (stats', s)) \<Rightarrow> ok p s \<and> cs_corrupt stats' = cs_corrupt stats \<and> cs_missing stats' = cs_missing stats
      | Some _ \<Rightarrow> False)"

lemma clean_as:
  assumes "clean p repeats a r" and "cs_corrupt a = cs_corrupt b" and "cs_missing a = cs_missing b"
  shows "clean p repeats b r"
  using assms by (auto simp: clean_def split: option.splits run.splits)

lemma consume_loop_clean:
  assumes "serves_dataset p ds" and "\<forall>ev \<in> set events. event_in_bounds ds ev" and "ok p s"
  shows "clean p repeats stats (consume_loop (tg p) ds events repeats started limit True stats s)"
proof (cases "consume_loop (tg p) ds events repeats started limit True stats s")
  case None
  obtain stopped stats' s' where "consume_pass (tg p) ds started limit True events stats s = Returns (stopped, stats', s')"
    using consume_pass_sound [OF assms(3,1,2), of started limit stats] by blast
  then have repeats using None by (subst (asm) consume_loop.simps) (simp split: if_splits)
  then show ?thesis using None by (simp add: clean_def)
next
  case (Some r)
  let ?P = "\<lambda>t d evs rep st lim ch (stats :: consumer_stats) s r. t = tg p \<longrightarrow> d = ds \<longrightarrow> evs = events \<longrightarrow> ch \<longrightarrow> ok p s \<longrightarrow>
    clean p rep stats (Some r)"
  have "tg p = tg p \<longrightarrow> ds = ds \<longrightarrow> events = events \<longrightarrow> True \<longrightarrow> ok p s \<longrightarrow> clean p repeats stats (Some r)"
  proof (rule consume_loop.raw_induct [where P = ?P, OF _ Some], intro impI)
    fix f t d evs rep st lim ch stats s r
    assume ih: "\<And>t d evs rep st lim ch stats s r. f t d evs rep st lim ch stats s = Some r \<Longrightarrow> ?P t d evs rep st lim ch stats s r"
      and step: "(case consume_pass t d st lim ch evs stats s of
          Panics \<Rightarrow> Some Panics
        | Hangs \<Rightarrow> Some Hangs
        | Returns (stopped, stats, s) \<Rightarrow>
            if stopped \<or> \<not> rep then Some (Returns (stats, s)) else f t d evs rep st lim ch stats s) = Some r"
      and eq: "t = tg p" "d = ds" "evs = events" ch "ok p s"
    obtain stopped stats' s' where pass: "consume_pass (tg p) ds st lim True events stats s = Returns (stopped, stats', s')"
        "ok p s'" "cs_corrupt stats' = cs_corrupt stats" "cs_missing stats' = cs_missing stats"
      using consume_pass_sound [OF eq(5) assms(1,2), of st lim stats] by blast
    show "clean p rep stats (Some r)"
    proof (cases "stopped \<or> \<not> rep")
      case True
      then have "r = Returns (stats', s')" using step pass(1) eq by simp
      then show ?thesis using pass by (simp add: clean_def)
    next
      case False
      then have "f t d evs rep st lim ch stats' s' = Some r" using step pass(1) eq by simp
      then have "clean p rep stats' (Some r)" using ih eq(1-4) pass(2) by blast
      then show ?thesis using pass(3,4) by (rule clean_as)
    qed
  qed
  then show ?thesis using Some assms(3) by simp
qed

lemma consume_once:
  assumes "serves_dataset p ds" and "\<forall>ev \<in> set events. event_in_bounds ds ev" and "ok p s"
  shows "\<exists>stats s'. consume_events (tg p) ds events False None True s = Some (Returns (stats, s'))
    \<and> cs_reads stats + cs_errors stats = of_nat (length events)"
proof -
  obtain stopped stats s' where "consume_pass (tg p) ds (tg_now (tg p) s) None True events stats_new s = Returns (stopped, stats, s')"
      "\<not> stopped" "cs_reads stats + cs_errors stats = of_nat (length events)"
    using consume_pass_sound [OF assms(3,1,2), of "tg_now (tg p) s" None stats_new] by (auto simp: stats_new_def)
  then show ?thesis by (subst consume_events_def, subst consume_loop.simps) simp
qed

lemma run_consumers_clean:
  assumes "serves_dataset p (rn_dataset rn)" and "rn_target rn = tg p" and "rn_checked rn"
    and "\<forall>events \<in> set consumers. \<forall>ev \<in> set events. event_in_bounds (rn_dataset rn) ev" and "ok p s"
  shows "clean p repeats stats (run_consumers rn repeats limit consumers stats s)"
  using assms(4,5)
proof (induction consumers arbitrary: stats s)
  case Nil
  then show ?case by (simp add: clean_def)
next
  case (Cons events rest)
  have c: "clean p repeats stats_new (consume_events (tg p) (rn_dataset rn) events repeats limit True s)"
    unfolding consume_events_def by (rule consume_loop_clean [OF assms(1)]) (use Cons.prems in simp_all)
  show ?case
  proof (cases "consume_events (tg p) (rn_dataset rn) events repeats limit True s")
    case None
    then show ?thesis using c assms(2,3) by (simp add: clean_def)
  next
    case (Some r)
    then obtain st s1 where r: "r = Returns (st, s1)" "ok p s1" "cs_corrupt st = 0" "cs_missing st = 0"
      using c by (auto simp: clean_def stats_new_def split: run.splits)
    have "clean p repeats (stats_merge stats st) (run_consumers rn repeats limit rest (stats_merge stats st) s1)"
      using Cons.IH [OF _ r(2)] Cons.prems(1) by simp
    then have "clean p repeats stats (run_consumers rn repeats limit rest (stats_merge stats st) s1)"
      by (rule clean_as) (simp_all add: stats_merge_def r(3,4))
    then show ?thesis using Some r(1) assms(2,3) by simp
  qed
qed

lemma run_consumers_once:
  assumes "serves_dataset p (rn_dataset rn)" and "rn_target rn = tg p" and "rn_checked rn"
    and "\<forall>events \<in> set consumers. \<forall>ev \<in> set events. event_in_bounds (rn_dataset rn) ev" and "ok p s"
  shows "\<exists>stats' s'. run_consumers rn False None consumers stats s = Some (Returns (stats', s'))
    \<and> cs_reads stats' + cs_errors stats' = cs_reads stats + cs_errors stats + of_nat (sum_list (map length consumers))"
  using assms(4,5)
proof (induction consumers arbitrary: stats s)
  case Nil
  then show ?case by simp
next
  case (Cons events rest)
  have c: "clean p False stats_new (consume_events (tg p) (rn_dataset rn) events False None True s)"
    unfolding consume_events_def by (rule consume_loop_clean [OF assms(1)]) (use Cons.prems in simp_all)
  obtain st s1 where o: "consume_events (tg p) (rn_dataset rn) events False None True s = Some (Returns (st, s1))"
      "cs_reads st + cs_errors st = of_nat (length events)"
    using consume_once [OF assms(1) _ Cons.prems(2), of events] Cons.prems(1) by auto
  then have "ok p s1" using c by (simp add: clean_def)
  then obtain stats' s' where ih: "run_consumers rn False None rest (stats_merge stats st) s1 = Some (Returns (stats', s'))"
      "cs_reads stats' + cs_errors stats' =
        cs_reads (stats_merge stats st) + cs_errors (stats_merge stats st) + of_nat (sum_list (map length rest))"
    using Cons.IH [of s1 "stats_merge stats st"] Cons.prems(1) by auto
  show ?case using o ih assms(2,3) by (simp add: stats_merge_def algebra_simps flip: o(2))
qed

end

end
