(* ===== verification/Bench_Library.thy ===== *)
theory Bench_Library
  imports Bench_Run
begin

text \<open>
  The embedded cache as a benchmark target: a node that serves the objects of a dataset never makes
  a scenario report a corrupt read.
\<close>

section \<open>The embedded cache keeps the promise\<close>

type_synonym library_case = "library \<times> versions \<times> namespaces"

definition library_ok :: "library_case \<Rightarrow> world \<Rightarrow> bool" where
  "library_ok c w =
     (case c of
        (lb, ver, nsf) \<Rightarrow> env_ok (lb_env lb) ver nsf \<and> versions_fit nsf ver \<and> registered nsf w \<and> node_ok (lb_env lb) ver nsf w)"

text \<open>What is served is determined where every version the namespace may serve has the same bytes.\<close>

definition library_content :: "library_case \<Rightarrow> string \<Rightarrow> bytes option" where
  "library_content c key =
     (case c of
        (lb, ver, nsf) \<Rightarrow>
          let i = st_namespace (lb_store lb)
          in if is_immutable (consistency_of (nsf i)) \<or> (\<forall>tag. ver i key tag = ver i key IMMUTABLE_TAG)
             then Some (ver i key IMMUTABLE_TAG) else None)"

text \<open>What draining a stream gives, by what collecting it gives.\<close>

definition drains_as ::
  "library \<Rightarrow> bool \<Rightarrow> env \<Rightarrow> bytes \<Rightarrow> read_stream \<Rightarrow> world \<Rightarrow> (nestor_error + bytes) \<times> world \<Rightarrow> bool" where
  "drains_as lb checked e buf st w y \<longleftrightarrow>
     (e = lb_env lb \<longrightarrow> (\<forall>chunks. (checked \<longrightarrow> concat chunks = buf) \<longrightarrow>
       (\<exists>out. drain_stream (library_target lb) checked (of_nat (length buf)) chunks st w = Some (out, snd y)
         \<and> (\<forall>got cs. out = Inr (got, cs) \<longrightarrow> (\<exists>b. fst y = Inr b \<and> got = of_nat (length b) \<and> (checked \<longrightarrow> concat cs = b))))))"

lemma drain_collects:
  assumes "collect_loop e buf st w = Some y"
  shows "drains_as lb checked e buf st w y"
proof (rule collect_loop.raw_induct [where P = "drains_as lb checked", OF _ assms])
  fix f e buf st w y
  assume ih: "\<And>e buf st w y. f e buf st w = Some y \<Longrightarrow> drains_as lb checked e buf st w y"
    and step: "(case stream_poll e st w of
        None \<Rightarrow> None
      | Some (None, st, w) \<Rightarrow> Some (Inr buf, w)
      | Some (Some (Inl err), st, w) \<Rightarrow> Some (Inl err, w)
      | Some (Some (Inr chunk), st, w) \<Rightarrow> f e (buf @ chunk) st w) = Some y"
  have nxt: "tg_next (library_target lb) st w = library_next lb st w" for st w by (simp add: library_target_def)
  obtain item st1 w1 where p: "stream_poll e st w = Some (item, st1, w1)" using step by (auto split: option.splits)
  have poll: "library_next lb st w = Some (map_option (map_sum (lb_shown lb) id) item, st1, w1)" if "e = lb_env lb"
    using p that by (simp add: library_next_def)
  show "drains_as lb checked e buf st w y"
  proof (cases "\<exists>c. item = Some (Inr c)")
    case True
    then obtain c where c: "item = Some (Inr c)" by blast
    have d: "drains_as lb checked e (buf @ c) st1 w1 y" using ih step p c by simp
    have "\<exists>out. drain_stream (library_target lb) checked (of_nat (length buf)) chunks st w = Some (out, snd y)
        \<and> (\<forall>got cs. out = Inr (got, cs) \<longrightarrow> (\<exists>b. fst y = Inr b \<and> got = of_nat (length b) \<and> (checked \<longrightarrow> concat cs = b)))"
      if "e = lb_env lb" and ch: "checked \<longrightarrow> concat chunks = buf" for chunks
    proof -
      let ?chunks = "if checked then chunks @ [c] else chunks"
      have "checked \<longrightarrow> concat ?chunks = buf @ c" using ch by simp
      with d that(1) obtain out where
        "drain_stream (library_target lb) checked (of_nat (length (buf @ c))) ?chunks st1 w1 = Some (out, snd y)"
        "\<forall>got cs. out = Inr (got, cs) \<longrightarrow> (\<exists>b. fst y = Inr b \<and> got = of_nat (length b) \<and> (checked \<longrightarrow> concat cs = b))"
        unfolding drains_as_def by blast
      then show ?thesis using poll [OF that(1)] c
        by (subst drain_stream.simps) (simp add: nxt)
    qed
    then show ?thesis by (simp add: drains_as_def)
  next
    case False
    then show ?thesis
      unfolding drains_as_def using step p poll
      by (subst drain_stream.simps) (auto simp: nxt split: option.splits sum.splits)
  qed
qed

lemma library_ok_advances:
  "library_ok (lb, ver, nsf) w \<Longrightarrow> advances (lb_env lb) ver nsf w w' \<Longrightarrow> library_ok (lb, ver, nsf) w'"
  using registered_advances advances_node_ok by (auto simp: library_ok_def)

lemma library_reads:
  assumes "library_ok c w" and "library_content c key = Some data" and "range_start r < range_end r"
    and "unat (range_end r) \<le> length data"
  shows "\<exists>res w1. tg_read (library_target (fst c)) key r w = Some (res, w1) \<and> library_ok c w1
    \<and> (\<forall>first st. res = Inr (first, st) \<longrightarrow>
        (\<exists>out w2. drain_stream (library_target (fst c)) checked 0 [] st w1 = Some (out, w2) \<and> library_ok c w2
          \<and> (\<forall>got chunks. out = Inr (got, chunks) \<longrightarrow>
              got = range_end r - range_start r
              \<and> (checked \<longrightarrow> concat chunks = bslice (unat (range_start r)) (unat (range_end r)) data))))"
proof -
  obtain lb ver nsf where c: "c = (lb, ver, nsf)" by (cases c)
  let ?e = "lb_env lb" and ?i = "st_namespace (lb_store lb)" and ?a = "unat (range_start r)" and ?b = "unat (range_end r)"
  have ok: "env_ok ?e ver nsf" "versions_fit nsf ver" "registered nsf w" "node_ok ?e ver nsf w"
    using assms(1) c by (simp_all add: library_ok_def)
  have lt: "?a < ?b" using assms(3) by (simp add: word_less_nat_alt)
  have ans: "answer (Bounded r) (ver ?i key tag) = bslice ?a ?b data"
    if "is_immutable (consistency_of (nsf ?i)) \<longrightarrow> tag = IMMUTABLE_TAG" for tag
  proof -
    have "ver ?i key tag = data" using assms(2) c that by (auto simp: library_content_def Let_def split: if_splits)
    then show ?thesis using lt assms(4) by (simp add: answer_def)
  qed
  have len: "of_nat (length (bslice ?a ?b data)) = range_end r - range_start r"
    using assms(3,4) lt by (simp add: of_nat_diff less_imp_le)
  let ?o = "\<lparr>ro_range = Bounded r, ro_fetch = overrides_default\<rparr>"
  obtain res w1 where g: "node_get ?e ?i key (Bounded r) w = Some (res, w1)" "advances ?e ver nsf w w1"
      "\<And>st. res = Inr st \<Longrightarrow> \<exists>x st' w2. stream_ready ?e st w1 = Some (x, st', w2) \<and> advances ?e ver nsf w w2
        \<and> (\<forall>m. x = Inr m \<longrightarrow> ready_for ?e ver nsf ?i key (Bounded r) st' w2)"
    using opened_stream_ok [OF ok, of ?i key ?o] by (auto simp: node_get_def)
  note okc = library_ok_advances [OF assms(1) [unfolded c]]
  show ?thesis
  proof (cases res)
    case (Inl err)
    then show ?thesis using g(1) okc [OF g(2)] c by (simp add: library_target_def library_read_def)
  next
    case (Inr st)
    from g(3) [OF Inr] obtain x st' w2 where x: "stream_ready ?e st w1 = Some (x, st', w2)" "advances ?e ver nsf w w2"
        "\<And>m. x = Inr m \<Longrightarrow> ready_for ?e ver nsf ?i key (Bounded r) st' w2" by blast
    show ?thesis
    proof (cases x)
      case (Inl err)
      then show ?thesis using g(1) Inr x(1) okc [OF x(2)] c by (simp add: library_target_def library_read_def)
    next
      case m: (Inr m)
      have nsid: "ns_id (nsf ?i) = ?i" using ok(1) by (simp add: env_ok_def)
      obtain out w3 where out: "collect_loop ?e [] st' w2 = Some (out, w3)" "advances ?e ver nsf w2 w3"
          "\<And>bytes. out = Inr bytes \<Longrightarrow> \<exists>tag. (is_immutable (consistency_of (nsf ?i)) \<longrightarrow> tag = IMMUTABLE_TAG)
            \<and> bytes = answer (Bounded r) (ver ?i key tag)"
        using x(3) [OF m] nsid by (auto simp: ready_for_def collects_def collected_def stream_collect_def)
      obtain res2 where d: "drain_stream (library_target lb) checked 0 [] st' w2 = Some (res2, w3)"
          "\<And>got cs. res2 = Inr (got, cs) \<Longrightarrow> \<exists>b. out = Inr b \<and> got = of_nat (length b) \<and> (checked \<longrightarrow> concat cs = b)"
        using drain_collects [OF out(1), of lb checked, unfolded drains_as_def, rule_format, of "[]"] by auto
      have "got = range_end r - range_start r \<and> (checked \<longrightarrow> concat cs = bslice ?a ?b data)" if res2: "res2 = Inr (got, cs)" for got cs
      proof -
        obtain b where b: "out = Inr b" "got = of_nat (length b)" "checked \<longrightarrow> concat cs = b" using d(2) [OF res2] by blast
        have "b = bslice ?a ?b data" using out(3) [OF b(1)] ans by blast
        then show ?thesis using b len by simp
      qed
      moreover have "library_ok c w2" "library_ok c w3"
        using okc [OF x(2)] library_ok_advances [OF okc [OF x(2)] out(2)] c by simp_all
      ultimately show ?thesis
        using g(1) Inr x(1) m d(1) c by (simp add: library_target_def library_read_def)
    qed
  qed
qed

interpretation lib: honest_target library_ok "\<lambda>c. library_target (fst c)" library_content
proof
  show "library_ok c (tg_sleep (library_target (fst c)) t w)" if "library_ok c w" for c t w
  proof -
    obtain lb ver nsf where c: "c = (lb, ver, nsf)" by (cases c)
    have "advances (lb_env lb) ver nsf w (until t w)" using that c by (intro quiet_advances) (simp_all add: library_ok_def)
    then show ?thesis using library_ok_advances that c by (simp add: library_target_def)
  qed
qed (rule library_reads)

section \<open>No corruption is reported\<close>

text \<open>A report of a phase whose reads were all right; \<open>n\<close> is the number of its events.\<close>

definition sound_report :: "library_case \<Rightarrow> bench_phase \<Rightarrow> phase_report \<Rightarrow> world \<Rightarrow> bool" where
  "sound_report c ph rep w \<longleftrightarrow> library_ok c w \<and> pp_corrupt rep = 0 \<and> pp_missing rep = 0
     \<and> (\<not> ph_repeat ph \<longrightarrow> ph_deadline ph = None \<longrightarrow>
         pp_reads rep + pp_errors rep = of_nat (sum_list (map length (ph_consumers ph))))"

lemma stats_new_simps:
  "cs_corrupt stats_new = 0" "cs_missing stats_new = 0" "cs_reads stats_new = 0" "cs_errors stats_new = 0"
  by (simp_all add: stats_new_def)

lemma consumers_no_corruption:
  assumes "library_ok (lb, ver, nsf) w" and "rn_target rn = library_target lb" and "rn_checked rn"
    and "\<forall>ob \<in> set (ds_objects (rn_dataset rn)). \<exists>data. fill (do_seed ob) (Range 0 (do_size ob)) = Returns data
      \<and> library_content (lb, ver, nsf) (do_key ob) = Some data"
    and "\<forall>events \<in> set consumers. \<forall>ev \<in> set events. event_in_bounds (rn_dataset rn) ev"
  shows "case run_consumers rn repeats limit consumers stats_new w of
       None \<Rightarrow> repeats
     | Some (Returns (stats, w')) \<Rightarrow> library_ok (lb, ver, nsf) w' \<and> cs_corrupt stats = 0 \<and> cs_missing stats = 0
     | Some _ \<Rightarrow> False"
    and "\<exists>stats w'. run_consumers rn False None consumers stats_new w = Some (Returns (stats, w'))
      \<and> cs_reads stats + cs_errors stats = of_nat (sum_list (map length consumers))"
proof -
  have sd: "lib.serves_dataset (lb, ver, nsf) (rn_dataset rn)" using assms(4) by (simp add: lib.serves_dataset_def)
  have tg: "rn_target rn = library_target (fst (lb, ver, nsf))" using assms(2) by simp
  show "case run_consumers rn repeats limit consumers stats_new w of
       None \<Rightarrow> repeats
     | Some (Returns (stats, w')) \<Rightarrow> library_ok (lb, ver, nsf) w' \<and> cs_corrupt stats = 0 \<and> cs_missing stats = 0
     | Some _ \<Rightarrow> False"
    using lib.run_consumers_clean [OF sd tg assms(3,5,1), of repeats stats_new limit]
    unfolding lib.clean_def stats_new_simps .
  show "\<exists>stats w'. run_consumers rn False None consumers stats_new w = Some (Returns (stats, w'))
      \<and> cs_reads stats + cs_errors stats = of_nat (sum_list (map length consumers))"
    using lib.run_consumers_once [OF sd tg assms(3,5,1), of stats_new] by (simp add: stats_new_simps)
qed

text \<open>
  C37: the checks of the benchmark raise no false alarm. Against an embedded cache, which cannot be
  restarted, over an origin that holds the dataset, a phase of any scenario but \<^verbatim>\<open>DeleteCycle\<close>, which
  reads a deleted object on purpose, reports no corrupt and no missing read, whatever the origin or
  the faults of a proxy in front of it fail or delay, and never panics or waits forever on a read; a
  phase of one pass returns, and each of its events is counted once, as a read or as an error. Only
  a repeating phase may not return. Setting the faults of the proxy and reading the counters of the
  cache change nothing the cache relies on, and without a proxy the phase has no faults.
\<close>

theorem phase_finds_no_corruption:
  assumes "library_ok (lb, ver, nsf) w" and "rn_target rn = library_target lb" and "rn_checked rn" and "rn_restart rn = None"
    and "\<And>look change f v. rn_proxy rn = Some (look, change) \<Longrightarrow> library_ok (lb, ver, nsf) v \<Longrightarrow> library_ok (lb, ver, nsf) (change f v)"
    and "\<And>v. library_ok (lb, ver, nsf) v \<Longrightarrow> library_ok (lb, ver, nsf) (snd (rn_nestor rn v))"
    and "dataset_ok (rn_dataset rn)"
    and "\<forall>ob \<in> set (ds_objects (rn_dataset rn)). \<exists>data. fill (do_seed ob) (Range 0 (do_size ob)) = Returns data
      \<and> library_content (lb, ver, nsf) (do_key ob) = Some data"
    and "phases sc (rn_dataset rn) p = Returns phs" and "sc \<noteq> DeleteCycle" and "ph \<in> set phs"
    and "rn_proxy rn = None \<Longrightarrow> ph_faults ph = faults_default"
  shows "case run_phase rm rn ph w of
       None \<Rightarrow> ph_repeat ph
     | Some (Returns (Inr rep, w')) \<Rightarrow> sound_report (lb, ver, nsf) ph rep w'
     | Some _ \<Rightarrow> False"
proof -
  let ?ok = "library_ok (lb, ver, nsf)"
  have ev: "\<forall>events \<in> set (ph_consumers ph). \<forall>ev \<in> set events. event_in_bounds (rn_dataset rn) ev"
    using phases_in_bounds [OF assms(7), of sc p] assms(9,10,11) by auto
  have start: "(case (ph_action ph, rn_restart rn) of (Some RestartTarget, Some restart) \<Rightarrow> restart w | _ \<Rightarrow> (Inr (), w)) = (Inr (), w)"
    using assms(4) by (auto split: option.splits phase_action.splits)
  have "\<exists>w0. phase_prepare rn ph w = (Inr (), w0) \<and> ?ok w0"
  proof (cases "rn_proxy rn")
    case None
    then show ?thesis using assms(1) assms(12) [OF None] unfolding phase_prepare_def start by simp
  next
    case (Some pr)
    then show ?thesis using assms(1) assms(5) [of "fst pr" "snd pr"] unfolding phase_prepare_def start
      by (cases pr) simp
  qed
  then obtain w0 where prep: "phase_prepare rn ph w = (Inr (), w0)" "?ok w0" by blast
  obtain before w1 where b: "rn_nestor rn w0 = (before, w1)" by fastforce
  have ok1: "?ok w1" using assms(6) [OF prep(2)] b by simp
  let ?limit = "map_option (\<lambda>d. now w1 + d) (ph_deadline ph)"
  let ?run = "run_consumers rn (ph_repeat ph) ?limit (ph_consumers ph) stats_new w1"
  have clk: "tg_now (rn_target rn) = now" using assms(2) by (simp add: library_target_def)
  note run = consumers_no_corruption(1) [OF ok1 assms(2,3,8) ev, of "ph_repeat ph" ?limit]
  show ?thesis
  proof (cases ?run)
    case None
    then show ?thesis using run prep(1) b clk by (simp add: run_phase_def Let_def)
  next
    case (Some r)
    with run obtain stats w2 where r: "r = Returns (stats, w2)" "?ok w2" "cs_corrupt stats = 0" "cs_missing stats = 0"
      by (auto split: run.splits)
    have once: "cs_reads stats + cs_errors stats = of_nat (sum_list (map length (ph_consumers ph)))"
      if "\<not> ph_repeat ph" "ph_deadline ph = None"
      using consumers_no_corruption(2) [OF ok1 assms(2,3,8) ev] Some r(1) that by auto
    define w3 where "w3 = (case rn_proxy rn of Some (look, change) \<Rightarrow> change (set_faults faults_default) w2 | None \<Rightarrow> w2)"
    obtain after w4 where n: "rn_nestor rn w3 = (after, w4)" by fastforce
    have "?ok w3" using r(2) assms(5) by (auto simp: w3_def split: option.splits)
    then have ok4: "?ok w4" using assms(6) [of w3] n by simp
    obtain rep where rep: "run_phase rm rn ph w = Some (Returns (Inr rep, w4))"
        "pp_corrupt rep = 0" "pp_missing rep = 0" "pp_reads rep = cs_reads stats" "pp_errors rep = cs_errors stats"
      using Some r prep(1) b clk n
      by (cases "rn_proxy rn") (auto simp: run_phase_def phase_report_of_def w3_def Let_def)
    then show ?thesis using ok4 once by (simp add: sound_report_def)
  qed
qed

text \<open>A node over an origin that holds the object of \<^const>\<open>demo_dataset\<close>.\<close>

definition bench_body :: bytes where
  "bench_body = map (fill_byte 5) [0..<136]"

definition bench_origin :: memory_origin where
  "bench_origin = snd (memory_put 0 ''k'' bench_body memory_new)"

definition bench_versions :: versions where
  "bench_versions i name tag = (if name = ''k'' then bench_body else [])"

definition bench_library :: library where
  "bench_library =
     \<lparr>lb_env = memory_env demo_hash (\<lambda>_. bench_origin), lb_store = nestor_store_new 0, lb_path = id, lb_shown = (\<lambda>_. []),
      lb_store_shown = (\<lambda>_. []), lb_puts = (\<lambda>_ _ _. Inr \<lparr>pr_e_tag = None, pr_version = None\<rparr>), lb_deletes = (\<lambda>path _. Inr path)\<rparr>"

definition bench_runner :: "(read_stream, world) runner" where
  "bench_runner =
     \<lparr>rn_target = library_target bench_library, rn_restart = None, rn_recreate = None,
      rn_proxy = Some (\<lambda>_. proxy_new ''minio:9000'', \<lambda>f w. w),
      rn_nestor = (\<lambda>w. (None, w)), rn_rss = (\<lambda>w. (None, w)), rn_dataset = demo_dataset, rn_checked = True\<rparr>"

lemma small_fits: "n < 2 ^ 32 \<Longrightarrow> fits bs n"
proof -
  have "(2 ^ 32 - 1) * 1 \<le> (2 ^ 32 - 1) * block_usize bs" by (rule mult_le_mono2) (simp add: Suc_le_eq)
  then show "n < 2 ^ 32 \<Longrightarrow> fits bs n" by (simp add: fits_def)
qed

lemma bench_body_fits: "fits bs (length bench_body)" "fits bs 0"
  by (rule small_fits; simp add: bench_body_def)+

lemma bench_tells: "tells demo_hash bench_versions (demo_namespace i) (\<lambda>_. bench_origin)"
  by (auto simp: tells_def bench_origin_def memory_put_def memory_new_def bench_versions_def stored_ok_def
      bench_body_fits Let_def as_bytes_def show_nat.simps split: if_splits)

lemma bench_library_ok: "library_ok (bench_library, bench_versions, demo_namespace) demo_node"
proof -
  have "env_ok (lb_env bench_library) bench_versions demo_namespace"
    unfolding bench_library_def by (simp, rule memory_env_ok [OF bench_tells]) (simp_all add: valid_config_default)
  moreover have "versions_fit demo_namespace bench_versions"
    by (simp add: versions_fit_def bench_versions_def bench_body_fits)
  ultimately show ?thesis using demo_sound(3,4) by (simp add: library_ok_def)
qed

lemma bench_served:
  "\<forall>ob \<in> set (ds_objects demo_dataset). \<exists>data. fill (do_seed ob) (Range 0 (do_size ob)) = Returns data
     \<and> library_content (bench_library, bench_versions, demo_namespace) (do_key ob) = Some data"
  by (simp add: demo_dataset_def demo_data_object_def finish_object_def Let_def INDEX_ENTRY_def FOOTER_def fill_bytes
      library_content_def bench_versions_def bench_body_def)

theorem phase_finds_no_corruption_witness:
  "\<exists>ph. phases Sequential demo_dataset demo_bench = Returns [ph] \<and> sum_list (map length (ph_consumers ph)) = 4
    \<and> (\<forall>rm. \<exists>rep w'. run_phase rm bench_runner ph demo_node = Some (Returns (Inr rep, w'))
        \<and> pp_corrupt rep = 0 \<and> pp_reads rep + pp_errors rep = 4)"
proof -
  obtain ph where ph: "phases Sequential demo_dataset demo_bench = Returns [ph]" "\<not> ph_repeat ph" "ph_deadline ph = None"
      "ph_faults ph = faults_default" "sum_list (map length (ph_consumers ph)) = 4"
    by (simp add: phases_def Let_def one_phase_def run_map_def run_bind_def sequential_events_def with_object_def
        demo_dataset_def demo_data_object_def finish_object_def open_ranges_def phase_once_def)
  have "\<exists>rep w'. run_phase rm bench_runner ph demo_node = Some (Returns (Inr rep, w'))
      \<and> pp_corrupt rep = 0 \<and> pp_reads rep + pp_errors rep = 4" for rm
    using phase_finds_no_corruption [of bench_library bench_versions demo_namespace demo_node bench_runner Sequential demo_bench "[ph]" ph rm]
      bench_library_ok bench_served demo_dataset_ok ph
    by (simp add: bench_runner_def sound_report_def split: option.splits run.splits sum.splits prod.splits)
      (metis sum.exhaust)
  then show ?thesis using ph(1,5) by blast
qed

end
