(* ===== verification/Bench_Main.thy ===== *)
theory Bench_Main
  imports Bench_Library
begin

text \<open>
  The benchmark program, \<^verbatim>\<open>nestor-bench/src/bin/bench.rs\<close>, with the services it controls, \<^verbatim>\<open>service.rs\<close>, the
  start of the embedded cache of \<^verbatim>\<open>target.rs\<close>, the upload of \<^verbatim>\<open>dataset.rs\<close> and the waiting of
  \<^verbatim>\<open>nestor-e2e/src/wait.rs\<close>. Arguments are records; parsing them, the processes of docker and systemd and
  the S3 clients are parameters.
\<close>

section \<open>Upload\<close>

text \<open>An object store as the upload sees it: the size of an object, and writing one.\<close>

record 's upload_store =
  us_head :: "string \<Rightarrow> 's \<Rightarrow> u64 option \<times> 's"
  us_put :: "string \<Rightarrow> bytes \<Rightarrow> 's \<Rightarrow> (string + unit) \<times> 's"

definition upload_object :: "'s upload_store \<Rightarrow> bool \<Rightarrow> data_object \<Rightarrow> 's \<Rightarrow> (string + nat) run \<times> 's" where
  "upload_object st force ob s =
     (let (found, s) = (if force then (None, s) else us_head st (do_key ob) s)
      in if found = Some (do_size ob) then (Returns (Inr 0), s)
         else case fill (do_seed ob) (Range 0 (do_size ob)) of
                Panics \<Rightarrow> (Panics, s)
              | Hangs \<Rightarrow> (Hangs, s)
              | Returns payload \<Rightarrow>
                  (case us_put st (do_key ob) payload s of
                     (Inl err, s) \<Rightarrow> (Returns (Inl err), s)
                   | (Inr _, s) \<Rightarrow> (Returns (Inr 1), s)))"

text \<open>\<^verbatim>\<open>Dataset::upload\<close>, one object after the other, up to the first error.\<close>

fun upload_objects :: "'s upload_store \<Rightarrow> bool \<Rightarrow> data_object list \<Rightarrow> nat \<Rightarrow> 's \<Rightarrow> (string + nat) run \<times> 's" where
  "upload_objects st force [] acc s = (Returns (Inr acc), s)"
| "upload_objects st force (ob # obs) acc s =
     (case upload_object st force ob s of
        (Returns (Inr n), s) \<Rightarrow> upload_objects st force obs (acc + n) s
      | other \<Rightarrow> other)"

definition upload :: "'s upload_store \<Rightarrow> bool \<Rightarrow> dataset \<Rightarrow> 's \<Rightarrow> (string + nat) run \<times> 's" where
  "upload st force ds s = upload_objects st force (ds_objects ds) 0 s"

text \<open>A forced upload writes every object, and no upload panics.\<close>

lemma upload_object_returns:
  obtains r s' where "upload_object st force ob s = (Returns r, s')" and "force \<Longrightarrow> r = Inr n \<Longrightarrow> n = 1"
proof -
  have f: "fill (do_seed ob) (Range 0 (do_size ob)) = Returns (map (fill_byte (do_seed ob)) [0..<unat (do_size ob)])"
    using fill_bytes [of 0 "do_size ob" "do_seed ob"] by simp
  obtain found s1 where h: "(if force then (None, s) else us_head st (do_key ob) s) = (found, s1)" by fastforce
  show thesis
  proof (cases "found = Some (do_size ob)")
    case True
    then show thesis using that [of "Inr 0" s1] h by (simp add: upload_object_def split: if_splits)
  next
    case False
    obtain p s2 where "us_put st (do_key ob) (map (fill_byte (do_seed ob)) [0..<unat (do_size ob)]) s1 = (p, s2)" by fastforce
    then show thesis using that [of "case p of Inl e \<Rightarrow> Inl e | Inr _ \<Rightarrow> Inr 1" s2] False h f
      by (cases p) (simp_all add: upload_object_def)
  qed
qed

lemma upload_counts:
  "\<exists>r s'. upload st force ds s = (Returns r, s') \<and> (\<forall>n. force \<and> r = Inr n \<longrightarrow> n = length (ds_objects ds))"
proof -
  have "\<exists>r s'. upload_objects st force obs acc s = (Returns r, s') \<and> (\<forall>n. force \<and> r = Inr n \<longrightarrow> n = acc + length obs)" for obs acc
  proof (induction obs arbitrary: acc s)
    case (Cons ob obs)
    obtain r s1 where o: "upload_object st force ob s = (Returns r, s1)" "\<And>n. force \<Longrightarrow> r = Inr n \<Longrightarrow> n = 1"
      by (metis upload_object_returns run.inject prod.inject)
    show ?case
    proof (cases r)
      case (Inr n)
      then show ?thesis using o Cons.IH [of "acc + n" s1] by fastforce
    qed (use o in simp)
  qed simp
  then show ?thesis by (metis add_0 upload_def)
qed

section \<open>Waiting\<close>

text \<open>
  \<^verbatim>\<open>wait::until\<close>: \<open>holds k\<close> is what the \<open>k\<close>-th check finds, which takes no time. The result is the time it
  took; a condition that does not come to hold within the limit is a panic.
\<close>

function wait_until :: "(nat \<Rightarrow> bool) \<Rightarrow> nanos \<Rightarrow> nanos \<Rightarrow> nat \<Rightarrow> nanos run" where
  "wait_until holds limit t k =
     (if holds k then Returns t
      else if t \<ge> limit then Panics
      else wait_until holds limit (t + 250 * 10 ^ 6) (Suc k))"
  by pat_completeness auto
termination by (relation "measure (\<lambda>(holds, limit, t, k). limit - t)") simp_all

declare wait_until.simps [simp del]

lemma wait_until_spec:
  "(\<exists>i. holds (k + i) \<and> (\<forall>j < i. t + j * (250 * 10 ^ 6) < limit) \<and> wait_until holds limit t k = Returns (t + i * (250 * 10 ^ 6)))
   \<or> wait_until holds limit t k = Panics"
proof (induction holds limit t k rule: wait_until.induct)
  case (1 holds limit t k)
  consider "holds k" | "\<not> holds k" "limit \<le> t" | "\<not> holds k" "t < limit" by linarith
  then show ?case
  proof cases
    case 1
    then show ?thesis by (intro disjI1 exI [of _ 0]) (simp add: wait_until.simps)
  next
    case 2
    then show ?thesis by (simp add: wait_until.simps)
  next
    case 3
    then have eq: "wait_until holds limit t k = wait_until holds limit (t + 250 * 10 ^ 6) (Suc k)"
      by (subst wait_until.simps) simp
    from 1 3 consider i where "holds (Suc k + i)" "\<forall>j < i. t + 250 * 10 ^ 6 + j * (250 * 10 ^ 6) < limit"
        "wait_until holds limit (t + 250 * 10 ^ 6) (Suc k) = Returns (t + 250 * 10 ^ 6 + i * (250 * 10 ^ 6))"
      | "wait_until holds limit (t + 250 * 10 ^ 6) (Suc k) = Panics" by (auto simp: not_le)
    then show ?thesis
    proof cases
      case (1 i)
      have "t + j * (250 * 10 ^ 6) < limit" if "j < Suc i" for j
        using that 1(2) 3(2) by (cases j) (auto simp: algebra_simps)
      then show ?thesis using 1 eq by (intro disjI1 exI [of _ "Suc i"]) (auto simp: algebra_simps)
    qed (simp add: eq)
  qed
qed

section \<open>Services\<close>

datatype host = ComposeHost string string | SystemdHost string "string option"

record bench_service =
  bs_host :: host
  bs_health :: string

text \<open>
  The system: running a command, which succeeds or not, emptying a directory, and waiting for a URL to
  answer. What is run is kept as the list of its words.
\<close>

record 's host_env =
  he_run :: "string list \<Rightarrow> 's \<Rightarrow> bool \<times> 's"
  he_clear :: "string \<Rightarrow> 's \<Rightarrow> (string + unit) \<times> 's"
  he_healthy :: "string \<Rightarrow> 's \<Rightarrow> 's run"

definition compose :: "'s host_env \<Rightarrow> string \<Rightarrow> string \<Rightarrow> string list \<Rightarrow> 's \<Rightarrow> (string + unit) \<times> 's" where
  "compose H file service args s =
     (case he_run H ([''docker'', ''compose'', ''-f'', file] @ args @ [service]) s of
        (success, s) \<Rightarrow>
          (if success then Inr () else Inl (''docker compose '' @ join '' '' args @ '' '' @ service @ '' failed''), s))"

definition systemctl :: "'s host_env \<Rightarrow> string \<Rightarrow> string \<Rightarrow> 's \<Rightarrow> (string + unit) \<times> 's" where
  "systemctl H unit verb s =
     (case he_run H [''systemctl'', verb, unit] s of
        (success, s) \<Rightarrow> (if success then Inr () else Inl (''systemctl '' @ verb @ '' '' @ unit @ '' failed''), s))"

text \<open>One fallible step after another.\<close>

fun in_turn :: "('s \<Rightarrow> (string + unit) \<times> 's) list \<Rightarrow> 's \<Rightarrow> (string + unit) \<times> 's" where
  "in_turn [] s = (Inr (), s)"
| "in_turn (f # fs) s = (case f s of (Inl err, s) \<Rightarrow> (Inl err, s) | (Inr _, s) \<Rightarrow> in_turn fs s)"

definition then_healthy :: "'s host_env \<Rightarrow> bench_service \<Rightarrow> (string + unit) \<times> 's \<Rightarrow> ((string + unit) \<times> 's) run" where
  "then_healthy H sv r =
     (case r of
        (Inl err, s) \<Rightarrow> Returns (Inl err, s)
      | (Inr _, s) \<Rightarrow> run_map (\<lambda>s. (Inr (), s)) (he_healthy H (bs_health sv) s))"

definition service_restart :: "'s host_env \<Rightarrow> bench_service \<Rightarrow> 's \<Rightarrow> ((string + unit) \<times> 's) run" where
  "service_restart H sv s =
     then_healthy H sv
       (case bs_host sv of
          ComposeHost file service \<Rightarrow> in_turn [compose H file service [''stop''], compose H file service [''start'']] s
        | SystemdHost unit _ \<Rightarrow> systemctl H unit ''restart'' s)"

definition service_recreate :: "'s host_env \<Rightarrow> bench_service \<Rightarrow> 's \<Rightarrow> ((string + unit) \<times> 's) run" where
  "service_recreate H sv s =
     then_healthy H sv
       (case bs_host sv of
          ComposeHost file service \<Rightarrow>
            in_turn [compose H file service [''rm'', ''--stop'', ''--force'', ''--volumes''],
                     compose H file service [''up'', ''--detach'', ''--wait'']] s
        | SystemdHost unit disk \<Rightarrow>
            in_turn ([systemctl H unit ''stop''] @ (case disk of Some d \<Rightarrow> [he_clear H d] | None \<Rightarrow> [])
                     @ [systemctl H unit ''start'']) s)"

text \<open>The resident memory in \<^verbatim>\<open>/proc/<pid>/status\<close>.\<close>

definition rss_of_status :: "string \<Rightarrow> u64 option" where
  "rss_of_status text =
     (case List.map_filter (strip_prefix ''VmRSS:'') (str_lines text) of
        [] \<Rightarrow> None
      | v # _ \<Rightarrow>
          let v = rev (trim_start_matches (rev ''kB'') (rev (trim v)))
          in map_option (\<lambda>n. of_nat n * 1024) (parse_uint 10 (2 ^ 64) (trim v)))"

section \<open>The embedded cache\<close>

record library_config =
  lc_memory :: u64
  lc_disk_path :: "string option"
  lc_disk_capacity :: u64
  lc_block :: u32
  lc_fetch_window :: u32
  lc_read_window :: u32
  lc_readahead :: u32
  lc_fetch :: fetch_policy
  lc_immutable :: bool

definition library_cache :: "u64 \<Rightarrow> library_config \<Rightarrow> cache_config" where
  "library_cache cores c =
     (let cache = cache_config_memory cores (lc_memory c)
      in case lc_disk_path c of
           Some path \<Rightarrow> with_disk (disk_config_new path (lc_disk_capacity c)) cache
         | None \<Rightarrow> cache)"

definition library_namespace :: "library_config \<Rightarrow> string + namespace" where
  "library_namespace c =
     (case block_size_new (lc_block c) of
        None \<Rightarrow> Inl (''block size '' @ show_u64 (ucast (lc_block c)) @ '' out of range'')
      | Some bs \<Rightarrow>
          let cfg = with_fetch (lc_fetch c)
                (with_consistency (if lc_immutable c then Immutable else Etag (from_secs 60))
                  (with_readahead (lc_readahead c)
                    (with_read_window (lc_read_window c)
                      (with_fetch_window (lc_fetch_window c)
                        (with_block_size bs namespace_config_default)))))
          in Inr \<lparr>namespace_name = ''bench'', namespace_config = cfg\<rparr>)"

text \<open>
  \<^verbatim>\<open>Library::start\<close>: the recorder, then the directory of the disk tier, which is emptied, then the block size, then
  the cache. The node has the one namespace.
\<close>

definition library_start ::
  "string + unit \<Rightarrow> (string \<Rightarrow> string + unit) \<Rightarrow> foyer_env \<Rightarrow> u64 \<Rightarrow> nanos \<Rightarrow> library_config \<Rightarrow> string + world \<times> u32" where
  "library_start recorder emptied F cores t c =
     (case recorder of
        Inl err \<Rightarrow> Inl ''install metrics recorder''
      | Inr _ \<Rightarrow>
          (case (case lc_disk_path c of Some path \<Rightarrow> emptied path | None \<Rightarrow> Inr ()) of
             Inl err \<Rightarrow> Inl err
           | Inr _ \<Rightarrow>
               (case library_namespace c of
                  Inl err \<Rightarrow> Inl err
                | Inr ns \<Rightarrow>
                    let builder = builder_namespace ns (builder_new (library_cache cores c))
                    in case hybrid_open F (nb_cache builder) of
                         Inl err \<Rightarrow> Inl err
                       | Inr _ \<Rightarrow>
                           let w = builder_build builder t
                           in Inr (w, the (node_namespace w ''bench'')))))"

text \<open>The cache it starts has a valid configuration: the windows of the arguments go through the setters.\<close>

lemma library_namespace_valid:
  "library_namespace c = Inr ns \<Longrightarrow> valid_config (namespace_config ns)"
  using valid_config_default
  by (auto simp: library_namespace_def Let_def block_size_new_Some split: option.splits intro!: valid_config_builders)

lemma library_start_namespace:
  assumes "library_start recorder emptied F cores t c = Inr (w, i)"
  shows "i = 0 \<and> (\<exists>ns. library_namespace c = Inr ns \<and> engine_state w 0 = Inr (namespace_state_new 0 ns))"
  using assms
  by (auto simp: library_start_def library_namespace_def Let_def builder_build_def builder_namespace_def builder_new_def
      node_register_def node_namespace_def world_new_def engine_state_def engine_namespace_def namespace_state_new_def
      split: sum.splits option.splits)

section \<open>Arguments\<close>

datatype target_kind = LibraryTarget | EndpointTarget | OriginTarget

record cache_args =
  ka_memory :: u64
  ka_disk_path :: "string option"
  ka_disk :: u64
  ka_block :: u64
  ka_fetch_window :: u32
  ka_read_window :: u32
  ka_readahead :: u32
  ka_fetch :: fetch_overrides
  ka_etag :: bool

record run_args =
  ra_target :: target_kind
  ra_scenario :: scenario
  ra_dataset :: dataset_params
  ra_origin :: string
  ra_bucket :: string
  ra_proxy_url :: string
  ra_endpoint :: string
  ra_endpoint_metrics :: string
  ra_compose :: "string option"
  ra_systemd :: "string option"
  ra_cache :: cache_args
  ra_consumers :: u32
  ra_duration :: nanos
  ra_hot_set :: u64
  ra_stagger :: nanos
  ra_verify :: bool
  ra_check :: bool

definition direct_origin :: "string \<Rightarrow> bool" where
  "direct_origin url \<longleftrightarrow> strip_prefix ''https://'' url \<noteq> None"

text \<open>The S3 clients, by the endpoint and the bucket they talk to; \<open>AwsClient\<close> takes the credentials of the environment.\<close>

datatype s3_client = AwsClient string string | LocalClient string string

definition E2E_BUCKET :: string where "E2E_BUCKET = ''nestor''"

text \<open>The store a dataset is uploaded to, and the one a target reads; \<open>aws\<close> is what resolving the credentials ends with.\<close>

definition upload_client :: "string + unit \<Rightarrow> string \<Rightarrow> string \<Rightarrow> string + s3_client" where
  "upload_client aws origin bk =
     (if direct_origin origin
      then (case aws of Inl err \<Rightarrow> Inl ''resolving AWS credentials'' | Inr _ \<Rightarrow> Inr (AwsClient origin bk))
      else Inr (LocalClient origin bk))"

definition origin_store :: "string + unit \<Rightarrow> string \<Rightarrow> string \<Rightarrow> string + s3_client" where
  "origin_store aws origin bk =
     (if direct_origin origin
      then (case aws of Inl err \<Rightarrow> Inl ''resolving AWS credentials'' | Inr _ \<Rightarrow> Inr (AwsClient origin bk))
      else Inr (LocalClient origin bk))"

definition origin_client :: "string + unit \<Rightarrow> run_args \<Rightarrow> bool \<Rightarrow> string + s3_client" where
  "origin_client aws args direct =
     (if direct then origin_store aws (ra_origin args) (ra_bucket args) else Inr (LocalClient (ra_proxy_url args) E2E_BUCKET))"

definition service_of :: "run_args \<Rightarrow> bench_service option" where
  "service_of args =
     (let sv = (\<lambda>h. \<lparr>bs_host = h, bs_health = ra_endpoint args @ ''/-/health''\<rparr>)
      in case (ra_compose args, ra_systemd args) of
           (Some file, _) \<Rightarrow> Some (sv (ComposeHost file ''nestor''))
         | (None, Some unit) \<Rightarrow> Some (sv (SystemdHost unit (ka_disk_path (ra_cache args))))
         | (None, None) \<Rightarrow> None)"

definition library_config_of :: "cache_args \<Rightarrow> string + library_config" where
  "library_config_of k =
     (if ka_block k > ucast u32_max then Inl ''block size''
      else Inr \<lparr>lc_memory = ka_memory k, lc_disk_path = ka_disk_path k, lc_disk_capacity = ka_disk k, lc_block = ucast (ka_block k),
                lc_fetch_window = ka_fetch_window k, lc_read_window = ka_read_window k, lc_readahead = ka_readahead k,
                lc_fetch = policy_with fetch_policy_default (ka_fetch k), lc_immutable = \<not> ka_etag k\<rparr>)"

text \<open>\<^verbatim>\<open>open_target\<close>: the target, the client it reads with and the service behind it.\<close>

datatype opened = OpenedLibrary library_config s3_client | OpenedEndpoint string s3_client "string option" "bench_service option"

definition open_target :: "string + unit \<Rightarrow> run_args \<Rightarrow> bool \<Rightarrow> string + opened" where
  "open_target aws args direct =
     (case ra_target args of
        LibraryTarget \<Rightarrow>
          (case library_config_of (ra_cache args) of
             Inl err \<Rightarrow> Inl err
           | Inr cfg \<Rightarrow> map_sum id (OpenedLibrary cfg) (origin_client aws args direct))
      | EndpointTarget \<Rightarrow>
          Inr (OpenedEndpoint ''endpoint'' (LocalClient (ra_endpoint args) (ra_bucket args))
                 (Some (ra_endpoint_metrics args)) (service_of args))
      | OriginTarget \<Rightarrow>
          map_sum id (\<lambda>cl. OpenedEndpoint ''origin'' cl None None) (origin_client aws args direct))"

definition params_of :: "run_args \<Rightarrow> bench_params" where
  "params_of args =
     \<lparr>bp_consumers = ra_consumers args, bp_duration = ra_duration args, bp_hot_set = ra_hot_set args,
      bp_stagger = ra_stagger args, bp_block = ka_block (ra_cache args)\<rparr>"

text \<open>
  Behind a proxy the library and the origin are read in the bucket of the end-to-end tests, whatever
  \<^verbatim>\<open>--bucket\<close> says, while the dataset is uploaded to the bucket of the argument.
\<close>

lemma proxied_run_ignores_bucket:
  assumes "\<not> direct_origin (ra_origin args)"
  shows "origin_client aws args (direct_origin (ra_origin args)) = Inr (LocalClient (ra_proxy_url args) ''nestor'')"
    and "upload_client aws (ra_origin args) (ra_bucket args) = Inr (LocalClient (ra_origin args) (ra_bucket args))"
  using assms by (simp_all add: origin_client_def upload_client_def E2E_BUCKET_def)

section \<open>A run\<close>

text \<open>
  \<^verbatim>\<open>run\<close> from the opened target on: the phases of the scenario, the report with its checks, and the result
  of the process. \<open>close\<close> closes the embedded cache.
\<close>

definition bench_report ::
  "(real \<Rightarrow> real) \<Rightarrow> string \<Rightarrow> string \<Rightarrow> string \<Rightarrow> u64 \<Rightarrow> run_args \<Rightarrow> dataset \<Rightarrow> outcome \<Rightarrow> report run" where
  "bench_report fl name sc config started args ds out =
     run_map (\<lambda>failures.
         \<lparr>rp_target = name, rp_scenario = sc, rp_dataset = ds_params ds, rp_params = params_of args, rp_config = config,
          rp_started_unix = started, rp_phases = ot_phases out, rp_rss_max_mib = map_option (mib_of fl) (ot_rss_max out),
          rp_failures = failures\<rparr>)
       (check_report (ra_scenario args) ds (params_of args) (ot_phases out))"

definition bench_verdict :: "run_args \<Rightarrow> report \<Rightarrow> string + unit" where
  "bench_verdict args r =
     (if ra_check args \<and> rp_failures r \<noteq> [] then Inl (show_u64 (of_nat (length (rp_failures r))) @ '' assertion(s) failed'')
      else Inr ())"

definition bench_run ::
  "report_math \<Rightarrow> ('s \<Rightarrow> (string + unit) \<times> 's) \<Rightarrow> string \<Rightarrow> string \<Rightarrow> string \<Rightarrow> u64 \<Rightarrow> run_args \<Rightarrow> ('st, 's) runner \<Rightarrow> 's
     \<Rightarrow> ((string + report) \<times> 's) run option" where
  "bench_run rm close name sc config started args rn s =
     (case phases (ra_scenario args) (rn_dataset rn) (params_of args) of
        Panics \<Rightarrow> Some Panics
      | Hangs \<Rightarrow> Some Hangs
      | Returns phs \<Rightarrow>
          (case runner_run rm rn phs s of
             None \<Rightarrow> None
           | Some Panics \<Rightarrow> Some Panics
           | Some Hangs \<Rightarrow> Some Hangs
           | Some (Returns (Inl err, s)) \<Rightarrow> Some (Returns (Inl err, s))
           | Some (Returns (Inr out, s)) \<Rightarrow>
               (case close s of
                  (Inl err, s) \<Rightarrow> Some (Returns (Inl err, s))
                | (Inr _, s) \<Rightarrow>
                    Some (run_map (\<lambda>r. (Inr r, s)) (bench_report (rm_fl rm) name sc config started args (rn_dataset rn) out)))))"

text \<open>A run whose assertions hold has no corrupt read, and without injected failures no failed one.\<close>

lemma asserted_run_clean:
  assumes "bench_run rm close name sc config started args rn s = Some (Returns (Inr r, s'))"
    and "bench_verdict args r = Inr ()" and "ra_check args" and "ph \<in> set (rp_phases r)"
  shows "pp_corrupt ph = 0" and "pp_errors ph = 0 \<or> f64_gt_zero (fl_fail_rate (pp_faults ph))"
proof -
  have "rp_failures r = []" using assms(2,3) by (simp add: bench_verdict_def split: if_splits)
  then have "check_report (ra_scenario args) (rn_dataset rn) (params_of args) (rp_phases r) = Returns []"
    using assms(1)
    by (auto simp: bench_run_def bench_report_def run_map_def run_bind_def
        split: run.splits option.splits sum.splits prod.splits)
  then show "pp_corrupt ph = 0" and "pp_errors ph = 0 \<or> f64_gt_zero (fl_fail_rate (pp_faults ph))"
    using check_report_passes [of _ _ _ "rp_phases r" ph] assms(4) by auto
qed

end
