(* ===== verification/Spec2Isabelle.thy ===== *)
theory Spec2Isabelle
  imports Prelude Errors Block_Size Text Latency Policy Origin Namespace Key Store_Contract Cache Meta_Cache
    Inflight World Body Fetch Settlement Fetch_Correct Fetch_Schedule Engine Reader
    Engine_Correct Reader_Correct Memory_Origin
    Http S3_Request S3_Chunked S3_Signing S3_Verify S3_Canonical S3_Forward S3_Routes S3_Served
    Cluster Cluster_Read Object_Store Configuration Admin Command_Line
    Bench_Dataset Bench_Proxy Bench_Report Bench_Workload Bench_Run Bench_Library Bench_Main
begin

text \<open>
  A verification development of \<^verbatim>\<open>nestor\<close>, a read-through block cache in front of object stores, of
  its S3 endpoint, of the client of a cluster of such caches, of the program that serves one, and of the
  benchmark that checks it.

  \<^bold>\<open>The program.\<close> A node keeps objects of an origin in blocks of a power-of-two size. A read is resolved
  to a range of one version of the object, the blocks of the range are looked up in a memory and disk
  cache, and misses are grouped into origin requests. At most one fetch per block runs at a time;
  other readers wait for its result. Fetches are retried, hedged by a second request when the first is
  slow, and checked against the version the reader has seen. The S3 endpoint verifies the signature of
  a request, resolves bucket and key, serves reads from the node and forwards everything else to the
  origin, after which it invalidates or populates the cache. The cluster client splits a read into
  blocks, ranks the nodes of the cluster for each block by rendezvous hashing, sends the request to
  the first that is up and has room, hedges and fails over to the next, and chains the bodies; it is
  itself an origin for a node in front of the cluster. The program reads a configuration, opens the cache
  and serves until it is stopped. The benchmark generates a dataset, replays scenarios of reads against
  a node through a proxy that counts and fails requests, and compares every byte.

  \<^bold>\<open>How it is modelled.\<close> Pure code is a function. Code with state takes and returns its state: the
  caches, the in-flight map, the metrics and the registry of a node are the record \<^typ>\<open>world\<close>, the
  keys and namespaces of the endpoint the record \<^typ>\<open>service\<close>. Errors are values of a sum, panics
  and waits that never end are results of their own. Integers are words of their width; lengths of
  byte sequences and durations are natural numbers. What is not in the repository is a parameter: the
  record \<^typ>\<open>env\<close> has the answers of the origin by call number and instant, the answers of the
  cache libraries by the log of operations so far, hash functions and the rounding of floating point;
  \<^typ>\<open>crypto\<close>, \<^typ>\<open>texts\<close> and \<^typ>\<open>upstream\<close> have the hash functions, printers, parsers and
  the HTTP client the endpoint calls.

  \<^bold>\<open>The theories\<close>, with the files under \<^verbatim>\<open>src/\<close> they model.

  \<^item> \<^verbatim>\<open>Prelude\<close>: saturating and checked arithmetic on words, collections of facts. \<^verbatim>\<open>Text\<close>: what the
    code uses of Rust's strings, UTF-8 and number parsing.
  \<^item> \<^verbatim>\<open>Errors\<close> (\<^verbatim>\<open>nestor/src/error.rs\<close>), \<^verbatim>\<open>Block_Size\<close> (\<^verbatim>\<open>block.rs\<close>), \<^verbatim>\<open>Latency\<close> (\<^verbatim>\<open>latency.rs\<close>),
    \<^verbatim>\<open>Policy\<close> (\<^verbatim>\<open>policy.rs\<close>), \<^verbatim>\<open>Origin\<close> (\<^verbatim>\<open>origin.rs\<close>), \<^verbatim>\<open>Namespace\<close> (\<^verbatim>\<open>namespace.rs\<close>), \<^verbatim>\<open>Key\<close>
    (\<^verbatim>\<open>key.rs\<close>): the data of a node. Shown: blocks tile a range, misses are grouped without loss,
    histograms bound their samples, delays stay within their bounds, the disk encoding reads back.
  \<^item> \<^verbatim>\<open>Store_Contract\<close> states what a cache promises as a locale; \<^verbatim>\<open>Cache\<close> (\<^verbatim>\<open>cache.rs\<close>) and
    \<^verbatim>\<open>Meta_Cache\<close> (\<^verbatim>\<open>meta.rs\<close>, \<^verbatim>\<open>readahead.rs\<close>) interpret it on the block and metadata caches.
  \<^item> \<^verbatim>\<open>Inflight\<close> (\<^verbatim>\<open>inflight.rs\<close>): the map of running fetches, its invariant, and a step relation of
    interleaved callers and owners. Shown: single flight, every waiter is served, results are final.
  \<^item> \<^verbatim>\<open>World\<close>, \<^verbatim>\<open>Body\<close> (\<^verbatim>\<open>body.rs\<close>), \<^verbatim>\<open>Fetch\<close> (\<^verbatim>\<open>fetch.rs\<close>), \<^verbatim>\<open>Engine\<close> (\<^verbatim>\<open>nestor.rs\<close>), \<^verbatim>\<open>Reader\<close>
    (\<^verbatim>\<open>reader.rs\<close>): the state of a node and its operations.
  \<^item> \<^verbatim>\<open>Settlement\<close>, \<^verbatim>\<open>Fetch_Correct\<close>, \<^verbatim>\<open>Fetch_Schedule\<close>, \<^verbatim>\<open>Engine_Correct\<close>, \<^verbatim>\<open>Reader_Correct\<close>:
    soundness of a node, that every operation keeps it, that every slot is settled, that a read
    returns the bytes of one version. The specification is \<^verbatim>\<open>answer\<close>: the bytes of a range of a
    version, where \<^typ>\<open>versions\<close> gives the bytes behind every tag.
  \<^item> \<^verbatim>\<open>Memory_Origin\<close> (\<^verbatim>\<open>memory.rs\<close>): the origin in memory; it satisfies what the engine assumes of an
    origin and is the instance the examples run on.
  \<^item> \<^verbatim>\<open>Http\<close>: header maps, lossy UTF-8, percent coding. \<^verbatim>\<open>S3_Request\<close> (\<^verbatim>\<open>nestor-s3/src/error.rs\<close>,
    \<^verbatim>\<open>addressing.rs\<close>, \<^verbatim>\<open>headers.rs\<close>), \<^verbatim>\<open>S3_Chunked\<close> (\<^verbatim>\<open>body.rs\<close>): the decoder accepts the
    grammar \<^verbatim>\<open>framed\<close> in any cut of the input, and nothing else.
  \<^item> \<^verbatim>\<open>S3_Signing\<close> (\<^verbatim>\<open>sigv4.rs\<close>, \<^verbatim>\<open>auth.rs\<close>), \<^verbatim>\<open>S3_Verify\<close>, \<^verbatim>\<open>S3_Canonical\<close>: what is accepted,
    said of the headers and the query of a request, that signed requests are, and what a signature covers.
  \<^item> \<^verbatim>\<open>S3_Forward\<close> (\<^verbatim>\<open>forward.rs\<close>, \<^verbatim>\<open>origin.rs\<close>), \<^verbatim>\<open>S3_Routes\<close> (\<^verbatim>\<open>routes.rs\<close>, \<^verbatim>\<open>service.rs\<close>),
    \<^verbatim>\<open>S3_Served\<close>: where requests go and what stays behind, and reads and writes through the endpoint.
    What a request writes is the relation \<^verbatim>\<open>wrote\<close>, which does not use the routes. The locale \<^verbatim>\<open>write_through\<close> states what writers
    rely on, and is interpreted on the engine.
  \<^item> \<^verbatim>\<open>Cluster\<close> (\<^verbatim>\<open>nestor-client/src/config.rs\<close>, \<^verbatim>\<open>error.rs\<close>, \<^verbatim>\<open>node.rs\<close>, \<^verbatim>\<open>router.rs\<close>,
    \<^verbatim>\<open>membership.rs\<close>, \<^verbatim>\<open>cluster.rs\<close>): nodes as references into a store, the record \<^typ>\<open>cluster\<close> and
    its invariant. Shown: rankings agree between clients and are stable when nodes join and leave,
    which node a request is given, what a refresh of the membership keeps.
  \<^item> \<^verbatim>\<open>Cluster_Read\<close> (\<^verbatim>\<open>read.rs\<close>, \<^verbatim>\<open>origin.rs\<close>): routed requests. Shown: loads are given back, one
    unreachable node is tolerated, and the cluster keeps the contract of an origin that its nodes
    keep, so that it is an origin as the engine assumes one.
  \<^item> \<^verbatim>\<open>Object_Store\<close> (\<^verbatim>\<open>nestor-store/src/error.rs\<close>, \<^verbatim>\<open>origin.rs\<close>, \<^verbatim>\<open>store.rs\<close>): a store of the
    \<^verbatim>\<open>object_store\<close> crate as an origin, which keeps the contract of an origin, and the engine as such a
    store. Shown: reads give the part asked for of one version when their conditions hold, and writes
    leave no old metadata.
  \<^item> \<^verbatim>\<open>Configuration\<close> (\<^verbatim>\<open>nestor-cli/src/config.rs\<close>, \<^verbatim>\<open>cluster.rs\<close>): the sections of the configuration, what
    they build and what validation accepts. Shown: accepted block sizes nest, so that a block of the
    gateway is one request to the cluster; a read window of zero blocks is accepted too, and reads then give nothing, which the theorems on reads exclude by asking for
    a valid namespace.
  \<^item> \<^verbatim>\<open>Admin\<close> (\<^verbatim>\<open>nestor-server/src/admin.rs\<close>): the bodies of the admin API and the counters behind them.
    Shown: exported counters are read back, totals are sums over the namespaces.
  \<^item> \<^verbatim>\<open>Command_Line\<close> (\<^verbatim>\<open>nestor-cli/src/main.rs\<close>, \<^verbatim>\<open>serve.rs\<close>, \<^verbatim>\<open>query.rs\<close>, \<^verbatim>\<open>nestor-server/src/serve.rs\<close>): a start as a
    sequence of events, the check of a configuration, the routes of the admin API and the admin command.
    Shown: what has happened before the server listens, and that its end closes the cache.
  \<^item> \<^verbatim>\<open>Bench_Dataset\<close> (\<^verbatim>\<open>nestor-bench/src/dataset.rs\<close>), \<^verbatim>\<open>Bench_Proxy\<close> (\<^verbatim>\<open>proxy.rs\<close>), \<^verbatim>\<open>Bench_Report\<close> (\<^verbatim>\<open>report.rs\<close>,
    \<^verbatim>\<open>nestor-e2e/src/metrics.rs\<close>), \<^verbatim>\<open>Bench_Workload\<close> (\<^verbatim>\<open>workload.rs\<close>), \<^verbatim>\<open>Bench_Run\<close> (\<^verbatim>\<open>run.rs\<close>, \<^verbatim>\<open>target.rs\<close>),
    \<^verbatim>\<open>Bench_Main\<close> (\<^verbatim>\<open>bin/bench.rs\<close>, \<^verbatim>\<open>service.rs\<close>): the benchmark. The locale \<open>honest_target\<close> states what a
    target promises, and \<^verbatim>\<open>Bench_Library\<close> interprets it on the embedded cache. Shown: objects are laid
    out without gaps, any slice of their content agrees with the whole, the scenarios read within
    them, and no phase against a sound node reports a corrupt read, but for the cycle of deletions; which scenario never ends, and
    which requests the proxy never counts out.
  \<^item> This theory: properties of the node as a whole.

  \<^bold>\<open>Bounds and termination.\<close> Loops that end have a measure; the retry loop of a fetch is bounded by its
  attempts, the loop of a reader by one refetch per block and one restart, the decoder by its input.
  Waiting for a slot and collecting a stream are partial functions whose value \<^const>\<open>None\<close> is a wait
  that never ends; that they return is proved, not assumed. An object fits its namespace when its
  blocks have 32-bit indexes.

  \<^bold>\<open>Simplifications.\<close> Tasks run from one wait to the next, and spawned tasks run in the order they were
  spawned; the semaphores that bound concurrency only delay a task and are left out. Where \<^verbatim>\<open>select!\<close>
  finds two branches ready the first is taken. Where the delay of a hedge overflows, which the code
  answers with a panic, it is the longest delay. The blocks of a read through the cluster are requested
  one after the other, and so do the consumers of a phase of the benchmark. An atomic variable is its
  value. Gauges and histograms of the metrics are left out.

  \<^bold>\<open>Not modelled.\<close> What third-party clients and caches do inside, the sockets, signals and exporters of
  \<^verbatim>\<open>nestor-server\<close>, the parsing of files and arguments in \<^verbatim>\<open>nestor-cli\<close> and \<^verbatim>\<open>nestor-bench\<close>, the processes of
  docker and systemd, the end-to-end tests, the listings and connection settings of \<^verbatim>\<open>nestor-store\<close>,
  the dashboard and the website.
\<close>

section \<open>Reads\<close>

text \<open>
  C3: a read of a node always returns, and one that succeeds returns the bytes of its range of one
  version of the object (in an immutable namespace, of the only one), whatever the caches lose and
  however the origin fails, is slow or replaces the object in between; the node stays sound.
\<close>

theorem read_correct:
  assumes "env_ok e ver nsf" and "versions_fit nsf ver" and "registered nsf w" and "node_ok e ver nsf w"
  shows "\<exists>res w'. node_read e i object r w = Some (res, w') \<and> node_ok e ver nsf w' \<and> registered nsf w'
    \<and> (\<forall>bytes. res = Inr bytes \<longrightarrow>
         (\<exists>tag. (is_immutable (consistency_of (nsf i)) \<longrightarrow> tag = IMMUTABLE_TAG)
           \<and> bytes = answer (Bounded r) (ver i object tag)))"
  using node_read_ok [OF assms, of i object r] registered_advances [OF _ assms(3)] advances_node_ok by blast

theorem read_correct_witness:
  "\<exists>res w'. node_read demo_env 0 ''a'' (Range 1 3) demo_node = Some (res, w')
    \<and> node_ok demo_env demo_versions demo_namespace w'
    \<and> (case res of Inl _ \<Rightarrow> True | Inr bytes \<Rightarrow> bytes = [2, 3])"
proof -
  have "answer (Bounded (Range 1 3)) (demo_versions 0 ''a'' tag) = [2, 3]" for tag
    by (simp add: answer_def demo_versions_def bslice_def)
  then show ?thesis
    using read_correct [OF demo_sound(1,2,4,3), of 0 "''a''" "Range 1 3"] by (auto split: sum.splits)
qed

text \<open>
  C4: opening a stream never reaches the code that is marked unreachable, for every kind of range
  and every override of the fetch policy, and a stream read to its end gives an error or the bytes
  the request asks for of one version.
\<close>

theorem get_correct:
  assumes "env_ok e ver nsf" and "versions_fit nsf ver" and "registered nsf w" and "node_ok e ver nsf w"
  shows "\<exists>res w1. get_opts e i object options w = Some (res, w1) \<and> node_ok e ver nsf w1
    \<and> (\<forall>st. res = Inr st \<longrightarrow>
        (\<exists>out w2. stream_collect e st w1 = Some (out, w2) \<and> node_ok e ver nsf w2
          \<and> (\<forall>bytes. out = Inr bytes \<longrightarrow>
              (\<exists>tag. (is_immutable (consistency_of (nsf i)) \<longrightarrow> tag = IMMUTABLE_TAG)
                \<and> bytes = answer (ro_range options) (ver i object tag)))))"
  using get_collect_ok [OF assms, of i object options] advances_node_ok by metis

theorem get_correct_witness:
  "\<exists>res w1. get_opts demo_env 0 ''a'' \<lparr>ro_range = Suffix 2, ro_fetch = overrides_default\<rparr> demo_node = Some (res, w1)
    \<and> (case res of Inl _ \<Rightarrow> True | Inr st \<Rightarrow>
        (\<exists>out w2. stream_collect demo_env st w1 = Some (out, w2)
          \<and> (case out of Inl _ \<Rightarrow> True | Inr bytes \<Rightarrow> bytes = [3, 4])))"
proof -
  have "answer (Suffix 2) (demo_versions 0 ''a'' tag) = [3, 4]" for tag
    by (simp add: answer_def demo_versions_def bslice_def)
  moreover obtain res w1 where
    r: "get_opts demo_env 0 ''a'' \<lparr>ro_range = Suffix 2, ro_fetch = overrides_default\<rparr> demo_node = Some (res, w1)"
      "\<And>st. res = Inr st \<Longrightarrow> \<exists>out w2. stream_collect demo_env st w1 = Some (out, w2)
        \<and> (\<forall>bytes. out = Inr bytes \<longrightarrow> (\<exists>tag. bytes = answer (Suffix 2) (demo_versions 0 ''a'' tag)))"
    using get_correct [OF demo_sound(1,2,4,3), of 0 "''a''" "\<lparr>ro_range = Suffix 2, ro_fetch = overrides_default\<rparr>"]
    by (simp only: read_options.simps) blast
  ultimately show ?thesis by (cases res) (auto 0 4 split: sum.split)
qed

section \<open>Fetches\<close>

text \<open>
  C15: a scheduled block arrives: whoever waits for a handle that scheduling returned gets a result,
  which is the block of that index of the version of the context, or an error.
\<close>

theorem scheduled_block_arrives:
  assumes "env_ok e ver nsf" and "node_ok e ver nsf w" and "ctx_sound e ver nsf ctx"
    and "schedule e ctx (Range a b) pri w = (hs, w1)" and "j < unat b - unat a"
  shows "length hs = unat b - unat a \<and>
    (\<exists>r w2. await_slot e (hs ! j) w1 = Some (r, w2) \<and> node_ok e ver nsf w2
      \<and> result_ok nsf ver (block_key_new (ctx_key ctx) (ctx_tag ctx) (a + of_nat j)) r)"
proof -
  note s = schedule_advances [OF assms(1-4)]
  have len: "length hs = unat b - unat a" using list_all2_lengthD [OF s(2)] by simp
  have "range_list (Range a b) ! j = a + of_nat j"
    using assms(5) by (simp add: range_list_def)
  then have "serves e ver nsf w1 (hs ! j) (ctx_block ctx (a + of_nat j))"
    using list_all2_nthD [OF s(2), of j] assms(5) len by simp
  from await_slot_ends [OF assms(1) advances_node_ok [OF s(1)] this] show ?thesis
    using len advances_node_ok by metis
qed

theorem scheduled_block_arrives_witness:
  "\<exists>hs w1 r w2. schedule demo_env demo_ctx (Range 0 1) Foreground demo_node = (hs, w1) \<and> length hs = 1
    \<and> await_slot demo_env (hs ! 0) w1 = Some (r, w2)
    \<and> result_ok demo_namespace demo_versions (block_key_new (ctx_key demo_ctx) (ctx_tag demo_ctx) 0) r"
proof -
  obtain hs w1 where s: "schedule demo_env demo_ctx (Range 0 1) Foreground demo_node = (hs, w1)" by fastforce
  from scheduled_block_arrives [OF demo_sound(1,3) demo_ctx_sound s, of 0] s show ?thesis by auto
qed

text \<open>
  C16: a fetch settles every slot of its group, whatever the origin does: nobody waits for it any
  more, its waiters see the right block or an error, and the slots in flight of all other keys are
  as before. It may cache further blocks it was sent, under their own keys.
\<close>

theorem fetch_settles_every_slot:
  assumes "env_ok e ver nsf" and "world_ok e ver nsf w" and "fetch_ready e ver nsf ctx slots initial w"
    and "sl \<in> set slots"
  shows "let w' = fetch_group e ctx slots pri initial w in
    world_ok e ver nsf w' \<and> lookup (e_hash e) (w_flight w') (slot_key sl) = None
    \<and> (\<exists>r. wait_slot (slot_chan sl) (w_flight w') = Some r \<and> result_ok nsf ver (slot_key sl) r)
    \<and> (\<forall>k. k \<notin> slot_key ` set slots \<longrightarrow> lookup (e_hash e) (w_flight w') k = lookup (e_hash e) (w_flight w) k)"
proof -
  note s = fetch_group_settles [OF assms(1-3), of pri]
  have o: "owned e w sl" using assms(3,4) by (simp add: fetch_ready_def group_ready_def)
  have "flight_inv (e_hash e) (w_flight w)" using assms(2) by (simp add: world_ok_def)
  from flight.table_pending [OF this, of "slot_key sl" "slot_chan sl"] o
  have "serves e ver nsf w (slot_chan sl) (slot_key sl)" by (simp add: serves_def owned_def)
  then have "serves e ver nsf (fetch_group e ctx slots pri initial w) (slot_chan sl) (slot_key sl)"
    using s by (simp add: settles_def guarantees_def)
  then show ?thesis using s assms(4) by (auto simp: Let_def settles_def guarantees_def serves_def)
qed

theorem fetch_settles_every_slot_witness:
  "\<exists>sl h w1. register_slot demo_env (block_key_new (ctx_key demo_ctx) (ctx_tag demo_ctx) 0) demo_node = (Owner sl h, w1)
    \<and> (\<exists>r. wait_slot h (w_flight (fetch_group demo_env demo_ctx [sl] Foreground None w1)) = Some r
        \<and> result_ok demo_namespace demo_versions (slot_key sl) r)"
proof -
  let ?k = "block_key_new (ctx_key demo_ctx) (ctx_tag demo_ctx) 0"
  have w: "world_ok demo_env demo_versions demo_namespace demo_node" using demo_sound(3) by (simp add: node_ok_def)
  obtain rg w1 where r: "register_slot demo_env ?k demo_node = (rg, w1)" by fastforce
  have "w_tasks demo_node = []"
    by (simp add: demo_node_def builder_build_def builder_namespace_def builder_new_def node_register_def world_new_def Let_def)
  then have "flying demo_env demo_node ?k = None"
    using demo_sound(3) [of demo_env demo_versions] by (auto simp: node_ok_def queue_ok_def)
  then obtain sl h where rg: "rg = Owner sl h"
    using register_slot_waiter(2) [OF w] r by (cases rg) auto
  note o = register_slot_owner [OF w r [unfolded rg]]
  have "fetch_ready demo_env demo_versions demo_namespace demo_ctx [sl] None w1"
    using o demo_ctx_sound by (simp add: fetch_ready_def group_ready_def opens_def)
  from fetch_settles_every_slot [OF demo_sound(1) opens_world_ok [OF o(1)] this, of sl Foreground]
  show ?thesis using r rg o(3) by (auto simp: Let_def)
qed

section \<open>Other operations of a node\<close>

text \<open>
  C24: the operations of a node keep it sound: asking for metadata, which reports only metadata of a
  version; invalidating an object; closing; and inserting the bytes of a version.
\<close>

theorem operations_keep_node_sound:
  assumes "env_ok e ver nsf" and "registered nsf w" and "node_ok e ver nsf w"
    and "meta_of_version (e_tag e) ver (nsf i) object (object_meta_new (of_nat (length data)) etag)"
    and "data = ver i object (block_tag (e_tag e) (consistency_of (nsf i)) (object_meta_new (of_nat (length data)) etag))"
  shows "node_ok e ver nsf (snd (node_head e i object w)) \<and> node_ok e ver nsf (snd (node_invalidate e i object w))
    \<and> node_ok e ver nsf (snd (node_insert e i object etag data w)) \<and> node_ok e ver nsf (snd (node_close c w))
    \<and> (\<forall>m. fst (node_head e i object w) = Inr m \<longrightarrow> meta_of_version (e_tag e) ver (nsf i) object m)"
proof -
  obtain res w' where h: "node_head e i object w = (res, w')" by fastforce
  have q: "queue_ok e ver nsf (w_tasks w) (w\<lparr>w_closed := True\<rparr>)"
    by (rule queue_ok_frame [of e ver nsf _ w]) (use assms(3) in \<open>simp_all add: node_ok_def\<close>)
  have "node_ok e ver nsf (snd (node_close c w))"
    using assms(3) q by (simp add: node_close_def node_ok_def world_ok_def)
  then show ?thesis
    using node_head_ok [OF assms(1-3) h] h advances_node_ok [OF node_invalidate_ok [OF assms(1,3), of i object]]
      advances_node_ok [OF node_insert_ok [OF assms]] advances_node_ok by auto
qed

theorem operations_keep_node_sound_witness:
  "node_ok demo_env demo_versions demo_namespace
     (snd (node_insert demo_env 0 ''a'' (Some [7]) [1, 2, 3, 4] demo_node))"
proof -
  have "meta_of_version (e_tag demo_env) demo_versions (demo_namespace 0) ''a'' (object_meta_new (of_nat 4) (Some [7]))"
    by (simp add: meta_of_version_def demo_versions_def object_meta_new_def demo_fits_4)
  then show ?thesis
    using operations_keep_node_sound [OF demo_sound(1,4,3), of 0 "''a''" "[1, 2, 3, 4]" "Some [7]"]
    by (simp add: demo_versions_def)
qed

text \<open>
  After an invalidation no lookup finds metadata of the object, whatever the time to live, and
  its next read is not sequential; in an immutable namespace whose metadata cache answers, none of
  its blocks is held any more, but while that cache has no entry every block stays.
\<close>

theorem invalidate_forgets:
  assumes "honest (e_meta e)" and "engine_state w i = Inr ns"
  shows "let key = object_key_new i object; w' = snd (node_invalidate e i object w) in
    fst (lookup_meta e key ttl w') = Missing \<and> latest (w_readahead w') key = None
    \<and> (is_immutable (consistency_of ns) \<and> e_meta e (w_meta w) key = Some en \<longrightarrow>
        (\<forall>j < block_count (bs_of ns) (meta_size (entry_meta en)).
           blocks_held (w_blocks w') (block_key_new key IMMUTABLE_TAG j) = None))
    \<and> (e_meta e (w_meta w) key = None \<longrightarrow> w_blocks w' = w_blocks w)"
  by (rule node_invalidate_forgets [OF assms])

theorem invalidate_forgets_witness:
  "fst (lookup_meta demo_env (object_key_new 0 ''a'') None (snd (node_invalidate demo_env 0 ''a'' demo_node))) = Missing"
proof -
  have "honest (e_meta demo_env)" by (simp add: demo_env_def memory_env_def honest_latest)
  from invalidate_forgets [OF this demo_state, of "''a''" None] show ?thesis by (simp add: Let_def)
qed

section \<open>A restarted read\<close>

text \<open>
  C25: a reader that starts again reads the version of the metadata it finds then, while the stream
  keeps reporting the metadata, the size and the length of the version it was opened with.
\<close>

theorem restart_keeps_reported_meta:
  assumes "reader_restart e rd w = (Inr u, rd', w')" and "rs_reader st = rd"
  shows "stream_meta (st\<lparr>rs_reader := rd'\<rparr>) = stream_meta st
    \<and> content_length (st\<lparr>rs_reader := rd'\<rparr>) = content_length st
    \<and> rd_known rd' = ctx_meta (rd_ctx rd') \<and> rd_known rd' \<noteq> None"
  using assms
  by (auto simp: reader_restart_def Let_def stream_meta_def content_length_def stream_range_def stream_size_def
      split: sum.splits prod.splits option.splits)

text \<open>The metadata cache has learned of a version of four bytes; the reader began with one of nine.\<close>

theorem restart_keeps_reported_meta_witness:
  "let m = object_meta_new 9 (Some [1]);
       w = put_meta (object_key_new 0 ''a'') demo_meta demo_node;
       ctx = read_ctx_new demo_hash (demo_namespace 0) (object_key_new 0 ''a'') ''a'' (Some m) fetch_policy_default;
       st = into_stream (reader_new Full ctx (Range 0 9) [])
   in \<exists>rd' w'. reader_restart demo_env (rs_reader st) w = (Inr (), rd', w')
     \<and> content_length (st\<lparr>rs_reader := rd'\<rparr>) = Some 9 \<and> rd_known rd' = Some demo_meta
     \<and> meta_size demo_meta = 4"
proof -
  let ?m = "object_meta_new 9 (Some [1])" and ?w = "put_meta (object_key_new 0 ''a'') demo_meta demo_node"
  let ?ctx = "read_ctx_new demo_hash (demo_namespace 0) (object_key_new 0 ''a'') ''a'' (Some ?m) fetch_policy_default"
  let ?st = "into_stream (reader_new Full ?ctx (Range 0 9) [])"
  have size: "meta_size demo_meta = 4"
    by (simp add: demo_meta_def stored_meta_def demo_origin_def memory_put_def Let_def)
  have sz: "content_length ?st = Some 9"
    by (simp add: content_length_def stream_range_def stream_size_def stream_meta_def into_stream_def reader_new_def
        object_meta_new_def Let_def)
  have "\<exists>w'. lookup_meta demo_env (object_key_new 0 ''a'') (ns_meta_ttl (demo_namespace 0)) ?w = (Fresh demo_meta, w')"
    by (auto simp: lookup_meta_def meta_lookup_def lru_get_def demo_env_def memory_env_def put_meta_def split: option.split)
  then obtain rd' w' where r: "reader_restart demo_env (rs_reader ?st) ?w = (Inr (), rd', w')" "rd_known rd' = Some demo_meta"
    by (auto simp: reader_restart_def resolve_ctx_def into_stream_def reader_new_def Let_def)
  from restart_keeps_reported_meta [OF r(1) refl] sz r size show ?thesis by (auto simp: Let_def)
qed

end
